(* ===== verification/Prelude.thy ===== *)
theory Prelude
  imports Main "HOL-Library.Word" "HOL-Library.Monad_Syntax" "HOL-Library.Multiset"
begin

text \<open>
  The shared prelude of the development: the byte and string types, checked indexing,
  the fixed-width big-endian encodings of Go's encoding/binary package, the io.Reader and
  io.Writer conventions the components are written against, the ASCII part of Go's strings
  package, and the generic lemmas the component theories share.

  A Go panic (an index out of range) is the value None of an option; a Go error is a value
  of the left side of a sum. Strings are the byte strings Go has; the case and white-space
  functions are those of the ASCII range, which is the range of the configuration tokens,
  patterns and identifiers they are applied to in the program.
\<close>

unbundle bit_operations_syntax

named_theorems go_simps \<open>evaluation rules for the model of the Go library\<close>

type_synonym byte = "8 word"
type_synonym u16 = "16 word"
type_synonym u32 = "32 word"
type_synonym u64 = "64 word"

section \<open>Checked indexing\<close>

text \<open>Slice indexing: None stands for the run-time panic of an index out of range.\<close>

definition index :: "'a list \<Rightarrow> nat \<Rightarrow> 'a option" where
  "index xs i = (if i < length xs then Some (xs ! i) else None)"

lemma index_Some_iff [simp]: "index xs i = Some x \<longleftrightarrow> i < length xs \<and> xs ! i = x"
  by (auto simp: index_def)

lemma index_in_range [simp]: "i < length xs \<Longrightarrow> index xs i = Some (xs ! i)"
  by (simp add: index_def)

lemma index_in_set: "index xs i = Some x \<Longrightarrow> x \<in> set xs"
  by auto

section \<open>Big-endian integers\<close>

definition putUint16 :: "u16 \<Rightarrow> byte list" where
  "putUint16 v = [ucast (drop_bit 8 v), ucast v]"

definition putUint32 :: "u32 \<Rightarrow> byte list" where
  "putUint32 v = [ucast (drop_bit 24 v), ucast (drop_bit 16 v), ucast (drop_bit 8 v), ucast v]"

definition putUint64 :: "u64 \<Rightarrow> byte list" where
  "putUint64 v = [ucast (drop_bit 56 v), ucast (drop_bit 48 v), ucast (drop_bit 40 v),
     ucast (drop_bit 32 v), ucast (drop_bit 24 v), ucast (drop_bit 16 v),
     ucast (drop_bit 8 v), ucast v]"

fun bigEndianUint16 :: "byte list \<Rightarrow> u16" where
  "bigEndianUint16 (a # b # _) = push_bit 8 (ucast a) OR ucast b"
| "bigEndianUint16 _ = 0"

fun bigEndianUint32 :: "byte list \<Rightarrow> u32" where
  "bigEndianUint32 (a # b # c # d # _) =
     push_bit 24 (ucast a) OR push_bit 16 (ucast b) OR push_bit 8 (ucast c) OR ucast d"
| "bigEndianUint32 _ = 0"

fun bigEndianUint64 :: "byte list \<Rightarrow> u64" where
  "bigEndianUint64 (a # b # c # d # e # f # g # h # _) =
     push_bit 56 (ucast a) OR push_bit 48 (ucast b) OR push_bit 40 (ucast c) OR
     push_bit 32 (ucast d) OR push_bit 24 (ucast e) OR push_bit 16 (ucast f) OR
     push_bit 8 (ucast g) OR ucast h"
| "bigEndianUint64 _ = 0"

lemma length_putUint [simp]:
  "length (putUint16 v) = 2" "length (putUint32 w) = 4" "length (putUint64 x) = 8"
  by (simp_all add: putUint16_def putUint32_def putUint64_def)

lemma bigEndianUint16_put [simp]: "bigEndianUint16 (putUint16 v @ r) = v"
proof (rule bit_word_eqI)
  fix n :: nat
  assume "n < LENGTH(16)"
  then consider "0 \<le> n" "n < 8" | "8 \<le> n" "n < 16"
    by fastforce
  then show "bit (bigEndianUint16 (putUint16 v @ r)) n = bit v n"
    by cases (simp_all add: putUint16_def bit_simps less_diff_conv2)
qed

lemma bigEndianUint32_put [simp]: "bigEndianUint32 (putUint32 v @ r) = v"
proof (rule bit_word_eqI)
  fix n :: nat
  assume "n < LENGTH(32)"
  then consider "0 \<le> n" "n < 8" | "8 \<le> n" "n < 16" | "16 \<le> n" "n < 24" | "24 \<le> n" "n < 32"
    by fastforce
  then show "bit (bigEndianUint32 (putUint32 v @ r)) n = bit v n"
    by cases (simp_all add: putUint32_def bit_simps less_diff_conv2)
qed

lemma bigEndianUint64_put [simp]: "bigEndianUint64 (putUint64 v @ r) = v"
proof (rule bit_word_eqI)
  fix n :: nat
  assume "n < LENGTH(64)"
  then consider "0 \<le> n" "n < 8" | "8 \<le> n" "n < 16" | "16 \<le> n" "n < 24" | "24 \<le> n" "n < 32" | "32 \<le> n" "n < 40" | "40 \<le> n" "n < 48" | "48 \<le> n" "n < 56" | "56 \<le> n" "n < 64"
    by fastforce
  then show "bit (bigEndianUint64 (putUint64 v @ r)) n = bit v n"
    by cases (simp_all add: putUint64_def bit_simps less_diff_conv2)
qed

lemma bigEndian_put_exact [simp]:
  "bigEndianUint16 (putUint16 u) = u" "bigEndianUint32 (putUint32 v) = v"
  "bigEndianUint64 (putUint64 w) = w"
  using bigEndianUint16_put [of u "[]"] bigEndianUint32_put [of v "[]"]
    bigEndianUint64_put [of w "[]"] by simp_all

lemma byte_bit_high [simp]: "8 \<le> k \<Longrightarrow> \<not> bit (w::byte) k"
  using bit_imp_le_length [of w k] by auto

lemma putUint32_bigEndian [simp]: "putUint32 (bigEndianUint32 [a, b, c, d]) = [a, b, c, d]"
  by (auto simp: putUint32_def bit_simps intro!: bit_word_eqI)

section \<open>Bytes\<close>

lemma byte_and_mask:
  "(x::byte) AND 1 = take_bit 1 x" "x AND 3 = take_bit 2 x" "x AND 15 = take_bit 4 x"
  "x AND 63 = take_bit 6 x"
  by (simp_all add: take_bit_eq_mask mask_eq_exp_minus_1)

text \<open>A statement about all bytes, and one about all clues (a 2-bit value and a 4-bit
  position), by evaluation of the cases.\<close>

lemma all_bytes: "(\<forall>b::byte. P b) \<longleftrightarrow> (\<forall>n\<in>set [0..<256]. P (word_of_nat n))"
proof
  assume *: "\<forall>n\<in>set [0..<256]. P (word_of_nat n)"
  show "\<forall>b::byte. P b"
  proof
    fix b :: byte
    have "unat b < 256" using unsigned_less [of b] by simp
    with bspec [OF *, of "unat b"] show "P b" by simp
  qed
qed blast

lemma unat_take_bit_byte: "unat (take_bit n (b::byte)) < 2 ^ n"
  by (simp add: unsigned_take_bit_eq take_bit_nat_less_exp)

lemma all_clues:
  assumes "\<forall>v\<in>set [0..<4]. \<forall>p\<in>set [0..<16]. P (word_of_nat v) (word_of_nat p :: byte)"
  shows "P ((v :: byte) AND 3) (p AND 15)"
proof -
  have "unat (v AND 3) < 4" "unat (p AND 15) < 16"
    unfolding byte_and_mask using unat_take_bit_byte [of 2 v] unat_take_bit_byte [of 4 p] by simp_all
  with bspec [OF bspec [OF assms, of "unat (v AND 3)"], of "unat (p AND 15)"] show ?thesis by simp
qed

section \<open>Readers\<close>

text \<open>
  A reader is the list of the bytes it still has to deliver before it reports EOF.
  io.ReadFull takes exactly n bytes; on a short stream it consumes what there is and
  reports EOF when nothing was read, ErrUnexpectedEOF otherwise.
\<close>

datatype ioerr = EOF | ErrUnexpectedEOF | ErrShortWrite | ErrClosedPipe | NetErrClosed
  | ErrIO string

definition readFull :: "nat \<Rightarrow> byte list \<Rightarrow> ioerr + (byte list \<times> byte list)" where
  "readFull n s =
     (if n \<le> length s then Inr (take n s, drop n s)
      else if s = [] then Inl EOF else Inl ErrUnexpectedEOF)"

lemma readFull_append [simp]: "length xs = n \<Longrightarrow> readFull n (xs @ ys) = Inr (xs, ys)"
  by (auto simp: readFull_def)

lemma readFull_Inr_iff:
  "readFull n s = Inr (xs, ys) \<longleftrightarrow> s = xs @ ys \<and> length xs = n"
  by (auto simp: readFull_def split: if_splits)

section \<open>Sums of errors and results\<close>

text \<open>Sequencing of fallible computations: the first error is the result.\<close>

definition bindE :: "'e + 'a \<Rightarrow> ('a \<Rightarrow> 'e + 'b) \<Rightarrow> 'e + 'b" where
  "bindE m f = (case m of Inl e \<Rightarrow> Inl e | Inr x \<Rightarrow> f x)"

lemma bindE_simps [simp]: "bindE (Inl e) f = Inl e" "bindE (Inr x) f = f x"
  by (simp_all add: bindE_def)

lemma bindE_eq_Inr: "bindE m f = Inr y \<longleftrightarrow> (\<exists>x. m = Inr x \<and> f x = Inr y)"
  by (cases m) auto

text \<open>Wrapping the error of a callee.\<close>

definition mapErr :: "('e \<Rightarrow> 'f) \<Rightarrow> 'e + 'a \<Rightarrow> 'f + 'a" where
  "mapErr f m = (case m of Inl e \<Rightarrow> Inl (f e) | Inr x \<Rightarrow> Inr x)"

lemma mapErr_simps [simp]: "mapErr f (Inl e) = Inl (f e)" "mapErr f (Inr x) = Inr x"
  by (simp_all add: mapErr_def)

lemma mapErr_eq_Inr [simp]: "mapErr f m = Inr y \<longleftrightarrow> m = Inr y"
  by (cases m) auto

section \<open>Signed 64-bit integers\<close>

text \<open>Go's int and int64 arithmetic wraps in two's complement.\<close>

definition i64 :: "int \<Rightarrow> int" where
  "i64 x = (x + 2 ^ 63) mod 2 ^ 64 - 2 ^ 63"

lemma i64_id [simp]: "- (2 ^ 63) \<le> x \<Longrightarrow> x < 2 ^ 63 \<Longrightarrow> i64 x = x"
  by (simp add: i64_def)

lemma i64_range: "- (2 ^ 63) \<le> i64 x \<and> i64 x < 2 ^ 63"
proof -
  have "0 \<le> (x + 2 ^ 63) mod 2 ^ 64" "(x + 2 ^ 63) mod 2 ^ 64 < 2 ^ 64" by simp_all
  then show ?thesis by (simp add: i64_def)
qed

section \<open>Strings\<close>

definition isSpace :: "char \<Rightarrow> bool" where
  "isSpace c \<longleftrightarrow> c \<in> {CHR '' '', CHR 0x09, CHR 0x0A, CHR 0x0B, CHR 0x0C, CHR 0x0D}"

definition trimSpace :: "string \<Rightarrow> string" where
  "trimSpace s = rev (dropWhile isSpace (rev (dropWhile isSpace s)))"

definition toLowerChar :: "char \<Rightarrow> char" where
  "toLowerChar c =
     (if 65 \<le> (of_char c :: nat) \<and> (of_char c :: nat) \<le> 90 then char_of ((of_char c :: nat) + 32) else c)"

definition toLower :: "string \<Rightarrow> string" where
  "toLower s = map toLowerChar s"

definition trimPrefix :: "string \<Rightarrow> string \<Rightarrow> string" where
  "trimPrefix s p = (if take (length p) s = p then drop (length p) s else s)"

definition hasPrefix :: "string \<Rightarrow> string \<Rightarrow> bool" where
  "hasPrefix s p \<longleftrightarrow> take (length p) s = p"

lemma dropWhile_dropWhile: "dropWhile P (dropWhile P xs) = dropWhile P xs"
  by (induction xs) auto

lemma trimSpace_Nil [simp]: "trimSpace [] = []"
  by (simp add: trimSpace_def)

lemma toLower_simps [simp]: "toLower [] = []" "length (toLower s) = length s"
  by (simp_all add: toLower_def)

lemma toLowerChar_idem [simp]: "toLowerChar (toLowerChar c) = toLowerChar c"
  by (auto simp: toLowerChar_def)

lemma toLower_idem [simp]: "toLower (toLower s) = toLower s"
  by (simp add: toLower_def)

lemma isSpace_toLowerChar [simp]: "isSpace (toLowerChar c) = isSpace c"
proof (cases "65 \<le> (of_char c :: nat) \<and> (of_char c :: nat) \<le> 90")
  case True
  then have "\<not> isSpace c" by (auto simp: isSpace_def)
  moreover from True have "97 \<le> (of_char (toLowerChar c) :: nat)"
    by (simp add: toLowerChar_def of_char_of)
  then have "\<not> isSpace (toLowerChar c)" by (auto simp: isSpace_def)
  ultimately show ?thesis by simp
next
  case False
  then show ?thesis by (auto simp: toLowerChar_def)
qed

lemma dropWhile_dropWhile_rev:
  assumes "\<not> P (hd ys) \<or> ys = []"
  shows "dropWhile P (rev (dropWhile P (rev ys))) = rev (dropWhile P (rev ys))"
proof (cases "dropWhile P (rev ys)")
  case Nil
  then show ?thesis unfolding dropWhile_eq_self_iff by simp
next
  case (Cons a zs)
  then have ne: "ys \<noteq> []" by auto
  obtain ps where "rev ys = ps @ dropWhile P (rev ys)"
    by (metis takeWhile_dropWhile_id)
  then have "ys = rev (dropWhile P (rev ys)) @ rev ps"
    by (metis rev_append rev_rev_ident)
  moreover have "rev (dropWhile P (rev ys)) \<noteq> []" using Cons by simp
  ultimately have "hd (rev (dropWhile P (rev ys))) = hd ys" by (metis hd_append2)
  with assms ne have "\<not> P (hd (rev (dropWhile P (rev ys))))" by simp
  then show ?thesis unfolding dropWhile_eq_self_iff by blast
qed

lemma trimSpace_idem [simp]: "trimSpace (trimSpace s) = trimSpace s"
proof -
  let ?ys = "dropWhile isSpace s"
  have "\<not> isSpace (hd ?ys) \<or> ?ys = []" using hd_dropWhile by blast
  from dropWhile_dropWhile_rev [where P = isSpace, OF this]
  show ?thesis by (simp add: trimSpace_def dropWhile_dropWhile)
qed

lemma dropWhile_map_space: "dropWhile isSpace (map toLowerChar s) = map toLowerChar (dropWhile isSpace s)"
  by (induction s) auto

lemma trimSpace_toLower: "trimSpace (toLower s) = toLower (trimSpace s)"
  by (simp add: trimSpace_def toLower_def dropWhile_map_space rev_map)

lemma trimSpace_toLower_trim [simp]: "trimSpace (toLower (trimSpace s)) = toLower (trimSpace s)"
  by (simp add: trimSpace_toLower)

lemma trimSpace_id:
  assumes "\<forall>c\<in>set s. \<not> isSpace c"
  shows "trimSpace s = s"
proof -
  have "dropWhile isSpace xs = xs" if "set xs \<subseteq> set s" for xs
    using that assms by (cases xs) auto
  then show ?thesis by (simp add: trimSpace_def)
qed

definition toUpperChar :: "char \<Rightarrow> char" where
  "toUpperChar c =
     (if 97 \<le> (of_char c :: nat) \<and> (of_char c :: nat) \<le> 122 then char_of ((of_char c :: nat) - 32) else c)"

definition toUpper :: "string \<Rightarrow> string" where
  "toUpper s = map toUpperChar s"

section \<open>Maps and option monad\<close>

lemma bind_eq_SomeD: "Option.bind m f = Some y \<Longrightarrow> \<exists>x. m = Some x \<and> f x = Some y"
  by (cases m) auto

lemma mset_eq_2_swap: "mset [a, b] = mset [b, a]"
  by (simp add: add_mset_commute)

end
