(* ===== verification/Sudoku_Rand.thy ===== *)
theory Sudoku_Rand
  imports Prelude
begin

text \<open>
  The pseudo-random generator of the obfuscation layer (obfs/sudoku/rand.go) and the choice
  of a connection's padding threshold (padding\_prob.go), on 64-bit and 32-bit words.
  Receivers are non-nil states; a nil generator is the None argument of
  pickPaddingThreshold, where the code tests for it.
\<close>

section \<open>The generator\<close>

record sudokuRand =
  rng_state :: u64
  rng_cached :: u32
  rng_haveCached :: bool

definition newSudokuRand :: "int \<Rightarrow> sudokuRand" where
  "newSudokuRand seed =
     (let st = (word_of_int seed :: u64);
          st = (if st = 0 then 0x9e3779b97f4a7c15 else st)
      in \<lparr>rng_state = st, rng_cached = 0, rng_haveCached = False\<rparr>)"

text \<open>The clock seeds the generator when the system's random source fails (None).\<close>

definition newSeededRand :: "int \<Rightarrow> byte list option \<Rightarrow> sudokuRand" where
  "newSeededRand unixNano seedBytes =
     newSudokuRand (case seedBytes of
         None \<Rightarrow> unixNano
       | Some bs \<Rightarrow> sint (bigEndianUint64 bs))"

definition xorshift :: "u64 \<Rightarrow> u64" where
  "xorshift x0 =
     (let x1 = x0 XOR drop_bit 12 x0;
          x2 = x1 XOR push_bit 25 x1;
          x3 = x2 XOR drop_bit 27 x2
      in x3)"

definition randUint64 :: "sudokuRand \<Rightarrow> u64 \<times> sudokuRand" where
  "randUint64 r =
     (let x = xorshift (rng_state r)
      in (x * 0x2545f4914f6cdd1d, r\<lparr>rng_haveCached := False, rng_state := x\<rparr>))"

definition randUint32 :: "sudokuRand \<Rightarrow> u32 \<times> sudokuRand" where
  "randUint32 r =
     (if rng_haveCached r then (rng_cached r, r\<lparr>rng_haveCached := False\<rparr>)
      else let (v, r') = randUint64 r
           in (ucast (drop_bit 32 v), r'\<lparr>rng_cached := ucast v, rng_haveCached := True\<rparr>))"

definition fastIntnFromUint32 :: "u32 \<Rightarrow> nat \<Rightarrow> nat" where
  "fastIntnFromUint32 u n = unat (drop_bit 32 ((ucast u :: u64) * word_of_nat n))"

definition randIntn :: "sudokuRand \<Rightarrow> nat \<Rightarrow> nat \<times> sudokuRand" where
  "randIntn r n =
     (if n \<le> 1 then (0, r)
      else let (u, r') = randUint32 r in (fastIntnFromUint32 u n, r'))"

section \<open>The padding threshold\<close>

definition probOne :: u64 where
  "probOne = push_bit 32 1"

definition pickPaddingThreshold :: "sudokuRand option \<Rightarrow> int \<Rightarrow> int \<Rightarrow> u64 \<times> sudokuRand option" where
  "pickPaddingThreshold rng pMin pMax =
     (case rng of None \<Rightarrow> (0, None)
      | Some r \<Rightarrow>
         let pMin = (if pMin < 0 then 0 else pMin);
             pMax = (if pMax < pMin then pMin else pMax);
             pMax = (if pMax > 100 then 100 else pMax);
             pMin = (if pMin > 100 then 100 else pMin);
             mn = (word_of_int pMin :: u64) * probOne div 100;
             mx = (word_of_int pMax :: u64) * probOne div 100
         in if mx \<le> mn then (mn, Some r)
            else let (u32v, r') = randUint32 r; u = (ucast u32v :: u64)
                 in (mn + drop_bit 32 (u * (mx - mn)), Some r'))"

section \<open>Lemmas\<close>

lemma xor_eq_0D: "(x :: 'a::len word) XOR y = 0 \<Longrightarrow> x = y"
  by (metis xor.assoc xor.left_neutral xor.right_neutral xor_self_eq)

lemma xor_drop_bit_nonzero:
  fixes x :: "'a::len word"
  assumes "x \<noteq> 0" and "0 < k"
  shows "x XOR drop_bit k x \<noteq> 0"
proof
  assume "x XOR drop_bit k x = 0"
  then have "x = drop_bit k x" by (rule xor_eq_0D)
  then have "unat x = unat x div 2 ^ k" by (metis unat_drop_bit_eq drop_bit_eq_div)
  moreover have "(1::nat) < 2 ^ k" using assms(2) by (simp add: one_less_power del: One_nat_def)
  then have "unat x div 2 ^ k < unat x"
    using assms(1) by (intro div_less_dividend) (simp_all add: unat_gt_0)
  ultimately show False by simp
qed

lemma xor_push_bit_nonzero:
  fixes x :: "'a::len word"
  assumes "x \<noteq> 0" and "0 < k"
  shows "x XOR push_bit k x \<noteq> 0"
proof
  assume "x XOR push_bit k x = 0"
  then have eq: "push_bit k x = x" using xor_eq_0D by metis
  have "push_bit (k * n) x = x" for n
    by (induction n) (simp_all add: eq push_bit_push_bit [symmetric] add.commute)
  then have "push_bit (k * LENGTH('a)) x = x" .
  moreover have "LENGTH('a) \<le> k * LENGTH('a)" using assms(2) by simp
  then have "push_bit (k * LENGTH('a)) x = 0"
    by (intro bit_word_eqI) (auto simp: bit_simps)
  ultimately show False using assms(1) by simp
qed

lemma xorshift_nonzero: "x \<noteq> 0 \<Longrightarrow> xorshift x \<noteq> 0"
  unfolding xorshift_def Let_def
  by (intro xor_drop_bit_nonzero xor_push_bit_nonzero) simp_all

lemma newSudokuRand_nonzero: "rng_state (newSudokuRand seed) \<noteq> 0"
  by (simp add: newSudokuRand_def Let_def)

lemma randUint64_nonzero: "rng_state r \<noteq> 0 \<Longrightarrow> rng_state (snd (randUint64 r)) \<noteq> 0"
  by (simp add: randUint64_def Let_def xorshift_nonzero)

lemma randUint32_nonzero: "rng_state r \<noteq> 0 \<Longrightarrow> rng_state (snd (randUint32 r)) \<noteq> 0"
  using randUint64_nonzero [of r] by (auto simp: randUint32_def split: prod.splits)

lemma randIntn_nonzero: "rng_state r \<noteq> 0 \<Longrightarrow> rng_state (snd (randIntn r n)) \<noteq> 0"
  using randUint32_nonzero [of r] by (auto simp: randIntn_def split: prod.splits)

lemma unat_u32_times:
  assumes "n \<le> 2 ^ 32"
  shows "unat ((ucast (u :: u32) :: u64) * word_of_nat n) = unat u * n"
proof -
  have u: "unat (ucast u :: u64) = unat u" by (simp add: unsigned_ucast_eq take_bit_nat_eq_self order_less_le_trans [OF unsigned_less])
  have "unat u < 2 ^ 32" using unsigned_less [of u] by simp
  then have "unat u * n \<le> (2 ^ 32 - 1) * 2 ^ 32" using assms by (intro mult_mono) auto
  then have "unat u * n < 2 ^ 64" by simp
  moreover have "unat (word_of_nat n :: u64) = n"
    using assms by (simp add: unat_of_nat)
  ultimately show ?thesis by (simp add: unat_word_ariths u)
qed

lemma fastIntnFromUint32_eq:
  "n \<le> 2 ^ 32 \<Longrightarrow> fastIntnFromUint32 u n = unat u * n div 2 ^ 32"
  unfolding fastIntnFromUint32_def unat_drop_bit_eq
  by (simp add: unat_u32_times drop_bit_eq_div)

lemma fastIntnFromUint32_less:
  assumes "0 < n" "n \<le> 2 ^ 32"
  shows "fastIntnFromUint32 u n < n"
proof -
  have "unat u < 2 ^ 32" using unsigned_less [of u] by simp
  then have "unat u * n < 2 ^ 32 * n" using assms(1) by simp
  then show ?thesis using assms(2)
    by (simp add: fastIntnFromUint32_eq less_mult_imp_div_less mult.commute)
qed

lemma randIntn_bound: "0 < n \<Longrightarrow> n \<le> 2 ^ 32 \<Longrightarrow> fst (randIntn r n) < n"
  by (auto simp: randIntn_def fastIntnFromUint32_less split: prod.splits)

lemma randIntn_prod:
  assumes "randIntn r n = (k, r')" "0 < n" "n \<le> 2 ^ 32"
  shows "k < n"
  using randIntn_bound [OF assms(2,3), of r] assms(1) by simp

lemma unat_percent:
  assumes "0 \<le> p" "p \<le> 100"
  shows "unat ((word_of_int p :: u64) * probOne div 100) = nat p * 2 ^ 32 div 100"
proof -
  have "unat (word_of_int p :: u64) = nat p"
    using assms by (simp add: unsigned_of_int take_bit_int_eq_self)
  moreover have "nat p * 2 ^ 32 \<le> 100 * 2 ^ 32" using assms by simp
  ultimately show ?thesis
    by (simp add: probOne_def unat_div_distrib unat_word_ariths push_bit_eq_mult)
qed

definition clampPercent :: "int \<Rightarrow> nat" where
  "clampPercent p = nat (max 0 (min 100 p))"

lemma scaled_draw_le:
  fixes u :: u32 and d :: u64
  assumes "unat d \<le> 2 ^ 32"
  shows "unat (drop_bit 32 ((ucast u :: u64) * d)) \<le> unat d"
proof -
  have "unat ((ucast u :: u64) * d) = unat u * unat d"
    using unat_u32_times [OF assms, of u] by simp
  moreover have "unat u < 2 ^ 32" using unsigned_less [of u] by simp
  then have "unat u * unat d div 2 ^ 32 \<le> 2 ^ 32 * unat d div 2 ^ 32"
    by (intro div_le_mono mult_right_mono) simp_all
  ultimately show ?thesis unfolding unat_drop_bit_eq by (simp add: drop_bit_eq_div)
qed

lemma interpolated_bounds:
  fixes mn mx :: u64
  assumes "mn \<le> mx" "unat mx \<le> 2 ^ 32"
  shows "unat mn \<le> unat (mn + drop_bit 32 ((ucast (u :: u32) :: u64) * (mx - mn)))"
    and "unat (mn + drop_bit 32 ((ucast u :: u64) * (mx - mn))) \<le> unat mx"
proof -
  have d: "unat (mx - mn) = unat mx - unat mn" using assms(1) by (rule unat_sub)
  let ?x = "drop_bit 32 ((ucast u :: u64) * (mx - mn))"
  have x: "unat ?x \<le> unat mx - unat mn"
    using scaled_draw_le [of "mx - mn" u] assms(2) d by simp
  have le: "unat mn \<le> unat mx" using assms(1) by (simp add: word_le_nat_alt)
  have "unat (mn + ?x) = unat mn + unat ?x"
    using x le assms(2) by (intro unat_add_lem [THEN iffD1]) simp
  then show "unat mn \<le> unat (mn + ?x)" and "unat (mn + ?x) \<le> unat mx"
    using x le by simp_all
qed

lemma percent_div_mono: "(a::nat) \<le> b \<Longrightarrow> a * 2 ^ 32 div 100 \<le> b * 2 ^ 32 div 100"
  by (intro div_le_mono) simp

section \<open>Properties\<close>

text \<open>Whatever the configured percentages are, the padding threshold of a connection
  lies between the clamped minimum and the (clamped, at least as large) maximum share of
  the 32-bit range, so it never exceeds probOne; the 64-bit arithmetic of the code does
  not wrap.\<close>

lemma pickPaddingThreshold_bounds:
  "let th = fst (pickPaddingThreshold (Some r) pMin pMax);
       lo = clampPercent pMin; hi = max lo (clampPercent pMax)
   in lo * 2 ^ 32 div 100 \<le> unat th \<and> unat th \<le> hi * 2 ^ 32 div 100 \<and> th \<le> probOne"
proof -
  define a where "a = min 100 (max 0 pMin)"
  define b where "b = min 100 (max pMax (max 0 pMin))"
  let ?mn = "(word_of_int a :: u64) * probOne div 100"
  let ?mx = "(word_of_int b :: u64) * probOne div 100"
  have mn: "unat ?mn = nat a * 2 ^ 32 div 100" by (rule unat_percent) (auto simp: a_def)
  have mx: "unat ?mx = nat b * 2 ^ 32 div 100" by (rule unat_percent) (auto simp: b_def)
  have ab: "nat a = clampPercent pMin" "nat b = max (clampPercent pMin) (clampPercent pMax)"
    by (auto simp: a_def b_def clampPercent_def max_def min_def)
  have b100: "nat b \<le> 100" by (auto simp: b_def)
  have one: "unat probOne = 2 ^ 32" by (simp add: probOne_def)
  have mx_le: "unat ?mx \<le> 2 ^ 32" using percent_div_mono [OF b100] mx by simp
  have mn_mx: "?mn \<le> ?mx" unfolding word_le_nat_alt mn mx by (rule percent_div_mono) (simp add: ab)
  define th where "th = fst (pickPaddingThreshold (Some r) pMin pMax)"
  have "th = (if ?mx \<le> ?mn then ?mn
      else ?mn + drop_bit 32 ((ucast (fst (randUint32 r)) :: u64) * (?mx - ?mn)))"
    unfolding th_def pickPaddingThreshold_def a_def b_def
    by (auto simp: Let_def max_def min_def split: prod.splits)
  then have "unat ?mn \<le> unat th \<and> unat th \<le> unat ?mx"
    using interpolated_bounds [OF mn_mx mx_le] mn_mx
    by (auto simp: word_le_nat_alt)
  then show ?thesis unfolding th_def [symmetric] Let_def
    using mn mx mx_le one by (simp add: ab word_le_nat_alt)
qed

text \<open>C36: Intn never leaves its range (so that every slice access of the codecs indexed by
  it is in bounds), and the generator never reaches the all-zero state, on which xorshift
  would emit zeros for ever.\<close>

theorem randIntn_sound:
  assumes "rng_state r \<noteq> 0" and "0 < n" and "n \<le> 2 ^ 32"
  shows "fst (randIntn r n) < n \<and> rng_state (snd (randIntn r n)) \<noteq> 0
    \<and> rng_state (newSudokuRand seed) \<noteq> 0"
  using assms randIntn_bound randIntn_nonzero newSudokuRand_nonzero by simp

theorem randIntn_sound_witness:
  "rng_state (newSudokuRand 7) \<noteq> 0 \<and> (0::nat) < 24 \<and> (24::nat) \<le> 2 ^ 32
    \<and> fst (randIntn (newSudokuRand 7) 24) < 24"
proof -
  have h: "rng_state (newSudokuRand 7) \<noteq> 0" by (simp add: newSudokuRand_def)
  show ?thesis using h randIntn_sound [OF h, of 24] by simp
qed

end
