(* ===== verification/Sudoku_Layout.thy ===== *)
theory Sudoku_Layout
  imports Prelude
begin

text \<open>
  The byte layouts of the obfuscation layer (obfs/sudoku/layout.go) and the direction modes
  that select them (ascii\_mode.go). A layout says which wire bytes are hints, how a clue
  (value, position) and a 6-bit group are written as a hint byte, and which bytes are
  padding. The array fields are functions of the index; every access of the code masks its
  index to the array's bounds. The locale layout\_contract is what the codecs rely on; the
  three built-in constructors are shown to provide it.
\<close>

section \<open>Layouts\<close>

record byteLayout =
  lay_name :: string
  hintMask :: byte
  hintValue :: byte
  padMarker :: byte
  paddingPool :: "byte list"
  hintTable :: "byte \<Rightarrow> bool"
  encodeHint :: "byte \<Rightarrow> byte \<Rightarrow> byte"
  encodeGroup :: "byte \<Rightarrow> byte"
  decodeGroup :: "byte \<Rightarrow> byte"
  groupValid :: "byte \<Rightarrow> bool"

datatype layoutError =
    InvalidAsciiMode string
  | CustomTableLength nat
  | InvalidCustomChar char
  | CustomTableCounts
  | EmptyPaddingPool

definition isHint :: "byteLayout option \<Rightarrow> byte \<Rightarrow> bool" where
  "isHint l b = (case l of None \<Rightarrow> False | Some l \<Rightarrow> hintTable l b)"

definition hintByte :: "byteLayout \<Rightarrow> byte \<Rightarrow> byte \<Rightarrow> byte" where
  "hintByte l val pos = encodeHint l (val AND 0x03) (pos AND 0x0F)"

definition groupByte :: "byteLayout \<Rightarrow> byte \<Rightarrow> byte" where
  "groupByte l g = encodeGroup l (g AND 0x3F)"

definition decodePackedGroup :: "byteLayout option \<Rightarrow> byte \<Rightarrow> byte \<times> bool" where
  "decodePackedGroup l b =
     (case l of None \<Rightarrow> (0, False) | Some l \<Rightarrow> (decodeGroup l b, groupValid l b))"

definition newASCIILayout :: byteLayout where
  "newASCIILayout =
     (let swap = (\<lambda>b::byte. if b = 0x7F then 0x0A else b)
      in \<lparr>lay_name = ''ascii'',
          hintMask = 0x40, hintValue = 0x40, padMarker = 0x3F,
          paddingPool = map (\<lambda>i. word_of_nat (0x20 + i)) [0..<32],
          hintTable = (\<lambda>wire. wire AND 0x40 = 0x40)(0x0A := True),
          encodeHint = (\<lambda>val pos. swap (0x40 OR push_bit 4 val OR pos)),
          encodeGroup = (\<lambda>group. swap (0x40 OR group)),
          decodeGroup = (\<lambda>wire. if wire AND 0x40 = 0x40 then wire AND 0x3F else 0)(0x0A := 0x3F),
          groupValid = (\<lambda>wire. wire AND 0x40 = 0x40)(0x0A := True)\<rparr>)"

definition newEntropyLayout :: byteLayout where
  "newEntropyLayout =
     \<lparr>lay_name = ''entropy'',
      hintMask = 0x90, hintValue = 0x00, padMarker = 0x80,
      paddingPool = concat (map (\<lambda>i. [word_of_nat (0x80 + i), word_of_nat (0x10 + i)]) [0..<8]),
      hintTable = (\<lambda>wire. wire AND 0x90 = 0),
      encodeHint = (\<lambda>val pos. push_bit 5 val OR pos),
      encodeGroup = (\<lambda>v. push_bit 1 (v AND 0x30) OR (v AND 0x0F)),
      decodeGroup = (\<lambda>wire. if wire AND 0x90 \<noteq> 0 then 0
                            else (drop_bit 1 wire AND 0x30) OR (wire AND 0x0F)),
      groupValid = (\<lambda>wire. wire AND 0x90 = 0)\<rparr>"

text \<open>The scan of a custom pattern: the bit numbers of the x, p and v symbols, in order.\<close>

fun scanPattern :: "nat \<Rightarrow> string \<Rightarrow> nat list \<times> nat list \<times> nat list
    \<Rightarrow> layoutError + (nat list \<times> nat list \<times> nat list)" where
  "scanPattern i [] acc = Inr acc"
| "scanPattern i (c # cs) (xBits, pBits, vBits) =
     (let b = 7 - i in
      if c = CHR ''x'' then scanPattern (Suc i) cs (xBits @ [b], pBits, vBits)
      else if c = CHR ''p'' then scanPattern (Suc i) cs (xBits, pBits @ [b], vBits)
      else if c = CHR ''v'' then scanPattern (Suc i) cs (xBits, pBits, vBits @ [b])
      else Inl (InvalidCustomChar c))"

definition xMaskOf :: "nat list \<Rightarrow> byte" where
  "xMaskOf xBits = foldl (\<lambda>m b. m OR push_bit b 1) 0 xBits"

definition encodeBits :: "nat list \<Rightarrow> nat list \<Rightarrow> nat list \<Rightarrow> byte \<Rightarrow> byte \<Rightarrow> nat option \<Rightarrow> byte" where
  "encodeBits xBits pBits vBits val pos dropX =
     (let out = xMaskOf xBits;
          out = (case dropX of None \<Rightarrow> out | Some d \<Rightarrow> out AND NOT (push_bit (xBits ! d) 1));
          out = (if val AND 0x02 \<noteq> 0 then out OR push_bit (pBits ! 0) 1 else out);
          out = (if val AND 0x01 \<noteq> 0 then out OR push_bit (pBits ! 1) 1 else out)
      in foldl (\<lambda>out (i, b). if drop_bit (3 - i) pos AND 0x01 = 1 then out OR push_bit b 1 else out)
           out (List.enumerate 0 vBits))"

definition decodeBits :: "nat list \<Rightarrow> nat list \<Rightarrow> byte \<Rightarrow> byte" where
  "decodeBits pBits vBits wire =
     (let val = 0;
          val = (if wire AND push_bit (pBits ! 0) 1 \<noteq> 0 then val OR 0x02 else val);
          val = (if wire AND push_bit (pBits ! 1) 1 \<noteq> 0 then val OR 0x01 else val);
          pos = foldl (\<lambda>pos (i, b). if wire AND push_bit b 1 \<noteq> 0 then pos OR push_bit (3 - i) 1 else pos)
                  0 (List.enumerate 0 vBits)
      in push_bit 4 val OR pos)"

definition onesCount8 :: "byte \<Rightarrow> nat" where
  "onesCount8 b = length (filter (bit b) [0..<8])"

text \<open>The padding pool of a custom layout before sorting: first occurrences of the encodings
  with one x bit dropped and at least five bits set.\<close>

definition customPads :: "nat list \<Rightarrow> nat list \<Rightarrow> nat list \<Rightarrow> byte list" where
  "customPads xBits pBits vBits =
     foldl (\<lambda>acc b. if onesCount8 b \<ge> 5 \<and> b \<notin> set acc then acc @ [b] else acc) []
       [encodeBits xBits pBits vBits (word_of_nat val) (word_of_nat pos) (Some d).
          d \<leftarrow> [0..<length xBits], val \<leftarrow> [0..<4], pos \<leftarrow> [0..<16]]"

definition customLayoutOf :: "string \<Rightarrow> nat list \<Rightarrow> nat list \<Rightarrow> nat list \<Rightarrow> byte list \<Rightarrow> byteLayout" where
  "customLayoutOf cleaned xBits pBits vBits padding =
     (let xMask = xMaskOf xBits in
      \<lparr>lay_name = ''custom('' @ cleaned @ '')'',
       hintMask = xMask, hintValue = xMask, padMarker = padding ! 0,
       paddingPool = padding,
       hintTable = (\<lambda>wire. wire AND xMask = xMask),
       encodeHint = (\<lambda>val pos. encodeBits xBits pBits vBits val pos None),
       encodeGroup = (\<lambda>group. encodeBits xBits pBits vBits (drop_bit 4 group AND 0x03)
                               (group AND 0x0F) None),
       decodeGroup = (\<lambda>wire. if wire AND xMask \<noteq> xMask then 0 else decodeBits pBits vBits wire),
       groupValid = (\<lambda>wire. wire AND xMask = xMask)\<rparr>)"

definition cleanPattern :: "string \<Rightarrow> string" where
  "cleanPattern pattern = toLower (filter (\<lambda>c. c \<noteq> CHR '' '') (trimSpace pattern))"

definition newCustomLayout :: "string \<Rightarrow> layoutError + byteLayout" where
  "newCustomLayout pattern =
     (let cleaned = cleanPattern pattern in
      if length cleaned \<noteq> 8 then Inl (CustomTableLength (length cleaned))
      else bindE (scanPattern 0 cleaned ([], [], [])) (\<lambda>(xBits, pBits, vBits).
        if length xBits \<noteq> 2 \<or> length pBits \<noteq> 2 \<or> length vBits \<noteq> 4 then Inl CustomTableCounts
        else let padding = sort (customPads xBits pBits vBits) in
          if padding = [] then Inl EmptyPaddingPool
          else Inr (customLayoutOf cleaned xBits pBits vBits padding)))"

definition resolveLayout :: "string \<Rightarrow> string \<Rightarrow> layoutError + byteLayout" where
  "resolveLayout mode customPattern =
     (let m = toLower mode in
      if m = ''ascii'' \<or> m = ''prefer_ascii'' then Inr newASCIILayout
      else if m = ''entropy'' \<or> m = ''prefer_entropy'' \<or> m = [] then
        (if trimSpace customPattern \<noteq> [] then newCustomLayout customPattern
         else Inr newEntropyLayout)
      else Inl (InvalidAsciiMode mode))"

section \<open>Direction modes\<close>

record ASCIIMode =
  Uplink :: string
  Downlink :: string

definition asciiModeTokenASCII :: string where "asciiModeTokenASCII = ''ascii''"
definition asciiModeTokenEntropy :: string where "asciiModeTokenEntropy = ''entropy''"

definition normalizeASCIIModeToken :: "string \<Rightarrow> string option" where
  "normalizeASCIIModeToken token =
     (let t = toLower (trimSpace token) in
      if t = ''ascii'' \<or> t = ''prefer_ascii'' then Some asciiModeTokenASCII
      else if t = ''entropy'' \<or> t = ''prefer_entropy'' \<or> t = [] then Some asciiModeTokenEntropy
      else None)"

text \<open>strings.SplitN(s, sep, 2) with exactly two parts: the text around the first occurrence.\<close>

fun splitFirst :: "string \<Rightarrow> string \<Rightarrow> (string \<times> string) option" where
  "splitFirst sep [] = (if sep = [] then Some ([], []) else None)"
| "splitFirst sep (c # cs) =
     (if hasPrefix (c # cs) sep then Some ([], drop (length sep) (c # cs))
      else map_option (\<lambda>(a, b). (c # a, b)) (splitFirst sep cs))"

definition ParseASCIIMode :: "string \<Rightarrow> layoutError + ASCIIMode" where
  "ParseASCIIMode mode =
     (let raw = toLower (trimSpace mode) in
      if raw = [] \<or> raw = ''entropy'' \<or> raw = ''prefer_entropy'' then
        Inr \<lparr>Uplink = asciiModeTokenEntropy, Downlink = asciiModeTokenEntropy\<rparr>
      else if raw = ''ascii'' \<or> raw = ''prefer_ascii'' then
        Inr \<lparr>Uplink = asciiModeTokenASCII, Downlink = asciiModeTokenASCII\<rparr>
      else if \<not> hasPrefix raw ''up_'' then Inl (InvalidAsciiMode mode)
      else case splitFirst ''_down_'' (trimPrefix raw ''up_'') of
          None \<Rightarrow> Inl (InvalidAsciiMode mode)
        | Some (p0, p1) \<Rightarrow>
            (case normalizeASCIIModeToken p0 of
               None \<Rightarrow> Inl (InvalidAsciiMode mode)
             | Some up \<Rightarrow>
                 (case normalizeASCIIModeToken p1 of
                    None \<Rightarrow> Inl (InvalidAsciiMode mode)
                  | Some down \<Rightarrow> Inr \<lparr>Uplink = up, Downlink = down\<rparr>)))"

definition Canonical :: "ASCIIMode \<Rightarrow> string" where
  "Canonical m =
     (if Uplink m = asciiModeTokenASCII \<and> Downlink m = asciiModeTokenASCII then ''prefer_ascii''
      else if Uplink m = asciiModeTokenEntropy \<and> Downlink m = asciiModeTokenEntropy
        then ''prefer_entropy''
      else ''up_'' @ Uplink m @ ''_down_'' @ Downlink m)"

definition NormalizeASCIIMode :: "string \<Rightarrow> layoutError + string" where
  "NormalizeASCIIMode mode = bindE (ParseASCIIMode mode) (\<lambda>parsed. Inr (Canonical parsed))"

definition singleDirectionPreference :: "string \<Rightarrow> string" where
  "singleDirectionPreference token =
     (if token = asciiModeTokenASCII then ''prefer_ascii'' else ''prefer_entropy'')"

definition uplinkPreference :: "ASCIIMode \<Rightarrow> string" where
  "uplinkPreference m = singleDirectionPreference (Uplink m)"

definition downlinkPreference :: "ASCIIMode \<Rightarrow> string" where
  "downlinkPreference m = singleDirectionPreference (Downlink m)"

section \<open>The contract of a layout\<close>

locale layout_contract =
  fixes l :: byteLayout
  assumes hint_of_hintByte: "hintTable l (hintByte l v p)"
    and decode_hintByte: "decodeGroup l (hintByte l v p) = push_bit 4 (v AND 3) OR (p AND 15)"
    and pad_not_hint: "b \<in> set (paddingPool l) \<Longrightarrow> \<not> hintTable l b"
    and pool_nonempty: "paddingPool l \<noteq> []"
    and pool_small: "length (paddingPool l) \<le> 256"
    and marker_in_pool: "padMarker l \<in> set (paddingPool l)"
    and group_valid_iff_hint: "groupValid l b = hintTable l b"
    and groupByte_hintByte: "groupByte l g = hintByte l (drop_bit 4 g) g"
begin

lemma and_value_pos: "push_bit 4 (v AND 3) OR (p AND 15) = push_bit 4 (w AND 3) OR (q AND (15::byte))
    \<longleftrightarrow> (v AND 3) = (w AND 3) \<and> (p AND 15) = (q AND 15)" (is "?L \<longleftrightarrow> ?R")
proof
  assume L: ?L
  have "push_bit 4 (v AND 3) OR (p AND 15) = push_bit 4 (w AND 3) OR (q AND (15::byte))"
    by (rule L)
  then have hi: "drop_bit 4 (push_bit 4 (v AND 3) OR (p AND (15::byte)))
      = drop_bit 4 (push_bit 4 (w AND 3) OR (q AND 15))"
    and lo: "(push_bit 4 (v AND 3) OR (p AND (15::byte))) AND 15
      = (push_bit 4 (w AND 3) OR (q AND 15)) AND 15" by simp_all
  have split: "drop_bit 4 (push_bit 4 (a AND 3) OR (b AND (15::byte))) = a AND 3"
    "(push_bit 4 (a AND 3) OR (b AND (15::byte))) AND 15 = b AND 15" for a b :: byte
    unfolding byte_and_mask by (auto intro!: bit_word_eqI simp: bit_simps)
  show ?R using hi lo by (simp only: split)
qed simp

lemma hintByte_inj:
  "hintByte l v p = hintByte l w q \<Longrightarrow> (v AND 3) = (w AND 3) \<and> (p AND 15) = (q AND 15)"
  using decode_hintByte [of v p] decode_hintByte [of w q] and_value_pos by metis

lemma hint_of_groupByte: "hintTable l (groupByte l g)"
  by (simp add: groupByte_hintByte hint_of_hintByte)

lemma decode_groupByte: "decodeGroup l (groupByte l g) = g AND 63"
proof -
  have "push_bit 4 (drop_bit 4 g AND 3) OR (g AND 15) = g AND 63"
    unfolding byte_and_mask by (rule bit_word_eqI) (auto simp: bit_simps)
  then show ?thesis by (simp add: groupByte_hintByte decode_hintByte)
qed

lemma marker_not_hint: "\<not> hintTable l (padMarker l)"
  using marker_in_pool by (rule pad_not_hint)

end

section \<open>The built-in layouts meet the contract\<close>

interpretation ascii: layout_contract newASCIILayout
proof
  fix v p :: byte
  show "hintTable newASCIILayout (hintByte newASCIILayout v p)"
    unfolding hintByte_def by (rule all_clues) code_simp
  show "decodeGroup newASCIILayout (hintByte newASCIILayout v p) = push_bit 4 (v AND 3) OR (p AND 15)"
    unfolding hintByte_def by (rule all_clues) code_simp
next
  fix b g :: byte
  have "\<forall>b\<in>set (paddingPool newASCIILayout). \<not> hintTable newASCIILayout b" by code_simp
  then show "b \<in> set (paddingPool newASCIILayout) \<Longrightarrow> \<not> hintTable newASCIILayout b" by blast
  show "paddingPool newASCIILayout \<noteq> []" "length (paddingPool newASCIILayout) \<le> 256"
    "padMarker newASCIILayout \<in> set (paddingPool newASCIILayout)"
    by code_simp+
  show "groupValid newASCIILayout b = hintTable newASCIILayout b"
    by (simp add: newASCIILayout_def Let_def)
  have "\<forall>g. groupByte newASCIILayout g = hintByte newASCIILayout (drop_bit 4 g) g"
    unfolding all_bytes by code_simp
  then show "groupByte newASCIILayout g = hintByte newASCIILayout (drop_bit 4 g) g" by blast
qed

interpretation entropy: layout_contract newEntropyLayout
proof
  fix v p :: byte
  show "hintTable newEntropyLayout (hintByte newEntropyLayout v p)"
    unfolding hintByte_def by (rule all_clues) code_simp
  show "decodeGroup newEntropyLayout (hintByte newEntropyLayout v p) = push_bit 4 (v AND 3) OR (p AND 15)"
    unfolding hintByte_def by (rule all_clues) code_simp
next
  fix b g :: byte
  have "\<forall>b\<in>set (paddingPool newEntropyLayout). \<not> hintTable newEntropyLayout b" by code_simp
  then show "b \<in> set (paddingPool newEntropyLayout) \<Longrightarrow> \<not> hintTable newEntropyLayout b" by blast
  show "paddingPool newEntropyLayout \<noteq> []" "length (paddingPool newEntropyLayout) \<le> 256"
    "padMarker newEntropyLayout \<in> set (paddingPool newEntropyLayout)"
    by code_simp+
  show "groupValid newEntropyLayout b = hintTable newEntropyLayout b"
    by (simp add: newEntropyLayout_def)
  have "\<forall>g. groupByte newEntropyLayout g = hintByte newEntropyLayout (drop_bit 4 g) g"
    unfolding all_bytes by code_simp
  then show "groupByte newEntropyLayout g = hintByte newEntropyLayout (drop_bit 4 g) g" by blast
qed

section \<open>Custom layouts meet the contract\<close>

text \<open>The positions of a scanned pattern: two x, two p and four v bits, a permutation of
  the eight bit numbers.\<close>

definition pattern_bits :: "nat list \<Rightarrow> nat list \<Rightarrow> nat list \<Rightarrow> bool" where
  "pattern_bits xBits pBits vBits \<longleftrightarrow>
     length xBits = 2 \<and> length pBits = 2 \<and> length vBits = 4
     \<and> mset (xBits @ pBits @ vBits) = mset [0..<8]"

lemma pattern_bitsE:
  assumes "pattern_bits xs ps vs"
  obtains x0 x1 p0 p1 v0 v1 v2 v3 where "xs = [x0, x1]" "ps = [p0, p1]" "vs = [v0, v1, v2, v3]"
    "distinct [x0, x1, p0, p1, v0, v1, v2, v3]" "{x0, x1, p0, p1, v0, v1, v2, v3} = {0..<8}"
proof -
  have len: "length xs = Suc (Suc 0)" "length ps = Suc (Suc 0)" "length vs = Suc (Suc (Suc (Suc 0)))"
    using assms by (simp_all add: pattern_bits_def)
  have m: "mset (xs @ ps @ vs) = mset [0..<8]" using assms by (simp only: pattern_bits_def)
  have d: "distinct (xs @ ps @ vs)" using mset_eq_imp_distinct_iff [OF m] by simp
  have s: "set (xs @ ps @ vs) = {0..<8}" using mset_eq_setD [OF m] by simp
  from len obtain x0 x1 p0 p1 v0 v1 v2 v3 where
    "xs = [x0, x1]" "ps = [p0, p1]" "vs = [v0, v1, v2, v3]"
    by (auto simp: length_Suc_conv)
  with d s that show ?thesis by (auto simp: insert_commute)
qed

lemma bit_and_one_eq: "(drop_bit k (w::byte) AND 1 = 1) = bit w k"
  by (simp add: bit_iff_odd_drop_bit and_one_eq odd_iff_mod_2_eq_one)

lemma and_small_ne: "((w::byte) AND 2 \<noteq> 0) = bit w 1" "(w AND 1 \<noteq> 0) = bit w 0"
  using bit_iff_and_push_bit_not_eq_0 [of w 1] bit_iff_and_push_bit_not_eq_0 [of w 0] by simp_all

lemma and_push_ne: "((w::byte) AND push_bit k 1 \<noteq> 0) = bit w k"
  by (simp add: bit_iff_and_push_bit_not_eq_0)

lemma bit_or_if: "bit (if c then (a::byte) OR b else a) n = (bit a n \<or> c \<and> bit b n)"
  by (simp add: bit_or_iff)

lemma bit_push_one [simp]: "k < 8 \<Longrightarrow> bit (push_bit k 1 :: byte) n = (n = k)"
  "k < 8 \<Longrightarrow> bit (2 ^ k :: byte) n = (n = k)"
  by (auto simp: bit_simps)

lemma bit_xMaskOf: "x0 < 8 \<Longrightarrow> x1 < 8 \<Longrightarrow> bit (xMaskOf [x0, x1]) n = (n = x0 \<or> n = x1)"
  by (simp add: xMaskOf_def bit_or_iff)

lemma pattern_bits_explicit:
  assumes "pattern_bits [x0, x1] [p0, p1] [v0, v1, v2, v3]"
  shows "distinct [x0, x1, p0, p1, v0, v1, v2, v3]"
    and "x0 < 8" "x1 < 8" "p0 < 8" "p1 < 8" "v0 < 8" "v1 < 8" "v2 < 8" "v3 < 8"
    and "n < 8 \<Longrightarrow> n \<in> {x0, x1, p0, p1, v0, v1, v2, v3}"
proof -
  from assms have d: "distinct [x0, x1, p0, p1, v0, v1, v2, v3]"
    and s: "{x0, x1, p0, p1, v0, v1, v2, v3} = {0..<8}"
    by (auto elim!: pattern_bitsE)
  show "distinct [x0, x1, p0, p1, v0, v1, v2, v3]" by (rule d)
  have "y \<in> {x0, x1, p0, p1, v0, v1, v2, v3} \<longleftrightarrow> y < 8" for y
    unfolding s by simp
  then show "x0 < 8" "x1 < 8" "p0 < 8" "p1 < 8" "v0 < 8" "v1 < 8" "v2 < 8" "v3 < 8"
    "n < 8 \<Longrightarrow> n \<in> {x0, x1, p0, p1, v0, v1, v2, v3}" by blast+
qed

lemma bit_encodeBits:
  assumes "x0 < 8" "x1 < 8" "p0 < 8" "p1 < 8" "v0 < 8" "v1 < 8" "v2 < 8" "v3 < 8"
    and "x0 \<noteq> x1" and "dropX \<in> {None, Some 0, Some 1}"
  shows "bit (encodeBits [x0, x1] [p0, p1] [v0, v1, v2, v3] val pos dropX) n \<longleftrightarrow>
     ((n = x0 \<and> dropX \<noteq> Some 0) \<or> (n = x1 \<and> dropX \<noteq> Some 1)) \<or> n = p0 \<and> bit val 1 \<or> n = p1 \<and> bit val 0
     \<or> n = v0 \<and> bit pos 3 \<or> n = v1 \<and> bit pos 2 \<or> n = v2 \<and> bit pos 1 \<or> n = v3 \<and> bit pos 0"
proof -
  have base: "bit (case dropX of None \<Rightarrow> xMaskOf [x0, x1]
       | Some d \<Rightarrow> xMaskOf [x0, x1] AND NOT (push_bit ([x0, x1] ! d) 1)) n
     = ((n = x0 \<and> dropX \<noteq> Some 0) \<or> (n = x1 \<and> dropX \<noteq> Some 1))"
    using assms(1,2,9,10) by (auto simp: bit_xMaskOf bit_and_iff bit_not_iff)
  show ?thesis
    unfolding encodeBits_def Let_def
    by (simp only: List.enumerate_simps foldl.simps prod.case and_small_ne bit_and_one_eq bit_or_if
        base nth_Cons_0 nth_Cons_Suc One_nat_def) (use assms in \<open>auto\<close>)
qed

lemma bit_decodeBits:
  assumes "n < 8"
  shows "bit (decodeBits [p0, p1] [v0, v1, v2, v3] wire) n \<longleftrightarrow>
     n = 5 \<and> bit wire p0 \<or> n = 4 \<and> bit wire p1 \<or> n = 3 \<and> bit wire v0 \<or> n = 2 \<and> bit wire v1
     \<or> n = 1 \<and> bit wire v2 \<or> n = 0 \<and> bit wire v3"
proof -
  have small: "bit (2::byte) m = (m = 1)" "bit (1::byte) m = (m = 0)" "bit (0::byte) m = False" for m
    by (auto simp: bit_2_iff bit_1_iff)
  from assms have "n \<in> {0, 1, 2, 3, 4, 5, 6, 7}" by auto
  then show ?thesis unfolding decodeBits_def Let_def and_push_ne
    by (elim insertE) (simp_all add: bit_or_if bit_or_iff bit_push_bit_iff small)
qed

lemma decode_encodeBits:
  assumes "pattern_bits [x0, x1] [p0, p1] [v0, v1, v2, v3]"
  shows "decodeBits [p0, p1] [v0, v1, v2, v3]
      (encodeBits [x0, x1] [p0, p1] [v0, v1, v2, v3] (val AND 3) (pos AND 15) None)
    = push_bit 4 (val AND 3) OR (pos AND 15)"
proof -
  let ?e = "encodeBits [x0, x1] [p0, p1] [v0, v1, v2, v3] (val AND 3) (pos AND 15) None"
  note pb = pattern_bits_explicit [OF assms]
  have b: "bit ?e n \<longleftrightarrow> n = x0 \<or> n = x1 \<or> n = p0 \<and> bit val 1 \<or> n = p1 \<and> bit val 0
     \<or> n = v0 \<and> bit pos 3 \<or> n = v1 \<and> bit pos 2 \<or> n = v2 \<and> bit pos 1 \<or> n = v3 \<and> bit pos 0" for n
    using pb(1-9) unfolding byte_and_mask by (simp add: bit_encodeBits bit_take_bit_iff)
  have e: "bit ?e p0 = bit val 1" "bit ?e p1 = bit val 0" "bit ?e v0 = bit pos 3"
    "bit ?e v1 = bit pos 2" "bit ?e v2 = bit pos 1" "bit ?e v3 = bit pos 0"
    unfolding b using pb(1) by auto
  show ?thesis
  proof (rule bit_word_eqI)
    fix n :: nat
    assume "n < LENGTH(8)"
    then have "n \<in> {0, 1, 2, 3, 4, 5, 6, 7}" by auto
    then show "bit (decodeBits [p0, p1] [v0, v1, v2, v3] ?e) n
      = bit (push_bit 4 (val AND 3) OR (pos AND 15)) n"
      unfolding bit_decodeBits [OF \<open>n < LENGTH(8)\<close> [simplified]] e unfolding byte_and_mask
      by (elim insertE) (simp_all add: bit_or_iff bit_push_bit_iff bit_take_bit_iff)
  qed
qed

lemma and_eq_mask_iff: "((w::byte) AND m = m) \<longleftrightarrow> (\<forall>n. bit m n \<longrightarrow> bit w n)"
proof
  assume "w AND m = m"
  then show "\<forall>n. bit m n \<longrightarrow> bit w n" by (metis bit_and_iff)
next
  assume "\<forall>n. bit m n \<longrightarrow> bit w n"
  then show "w AND m = m" by (intro bit_word_eqI) (auto simp: bit_and_iff)
qed

lemma hint_encodeBits:
  assumes "pattern_bits [x0, x1] [p0, p1] [v0, v1, v2, v3]" "dropX \<in> {None, Some 0, Some 1}"
  shows "(encodeBits [x0, x1] [p0, p1] [v0, v1, v2, v3] val pos dropX AND xMaskOf [x0, x1]
     = xMaskOf [x0, x1]) \<longleftrightarrow> dropX = None"
  unfolding and_eq_mask_iff using pattern_bits_explicit [OF assms(1)] assms(2)
  by (auto simp: bit_encodeBits bit_xMaskOf)

lemma set_filtered_foldl:
  "set (foldl (\<lambda>acc b. if Q b \<and> b \<notin> set acc then acc @ [b] else acc) acc bs) = set acc \<union> {b \<in> set bs. Q b}"
  by (induction bs arbitrary: acc) auto

lemma set_comprehension3:
  "set [f a b c. a \<leftarrow> A, b \<leftarrow> B, c \<leftarrow> C] = {y. \<exists>a\<in>set A. \<exists>b\<in>set B. \<exists>c\<in>set C. y = f a b c}"
  by auto

lemma set_customPads:
  "set (customPads xs ps vs) = {b. onesCount8 b \<ge> 5 \<and> (\<exists>d < length xs. \<exists>val < 4. \<exists>pos < 16.
      b = encodeBits xs ps vs (word_of_nat val) (word_of_nat pos) (Some d))}"
  unfolding customPads_def set_filtered_foldl set_comprehension3 set_upt
  by (simp add: Bex_def) blast

lemma distinct_filtered_foldl:
  "distinct acc \<Longrightarrow> distinct (foldl (\<lambda>acc b. if Q b \<and> b \<notin> set acc then acc @ [b] else acc) acc bs)"
  by (induction bs arbitrary: acc) auto

lemma length_customPads: "length (customPads xs ps vs) \<le> 256"
proof -
  have "distinct (customPads xs ps vs)" unfolding customPads_def by (rule distinct_filtered_foldl) simp
  then have "length (customPads xs ps vs) = card (set (customPads xs ps vs))" by (simp add: distinct_card)
  also have "\<dots> \<le> card (UNIV :: byte set)" by (rule card_mono) simp_all
  finally show ?thesis by (simp add: card_word)
qed

lemma customPads_not_hint:
  assumes "pattern_bits [x0, x1] [p0, p1] [v0, v1, v2, v3]"
    and "b \<in> set (customPads [x0, x1] [p0, p1] [v0, v1, v2, v3])"
  shows "b AND xMaskOf [x0, x1] \<noteq> xMaskOf [x0, x1]"
proof -
  from assms(2) obtain d val pos where "d < 2"
    "b = encodeBits [x0, x1] [p0, p1] [v0, v1, v2, v3] (word_of_nat val) (word_of_nat pos) (Some d)"
    unfolding set_customPads by (auto simp: numeral_2_eq_2)
  moreover from \<open>d < 2\<close> have "Some d \<in> {None, Some 0, Some 1}" by auto
  ultimately show ?thesis using hint_encodeBits [OF assms(1)] by blast
qed

lemma customPads_nonempty:
  assumes "pattern_bits [x0, x1] [p0, p1] [v0, v1, v2, v3]"
  shows "customPads [x0, x1] [p0, p1] [v0, v1, v2, v3] \<noteq> []"
proof -
  let ?b = "encodeBits [x0, x1] [p0, p1] [v0, v1, v2, v3] (word_of_nat 3) (word_of_nat 15) (Some 0)"
  note pb = pattern_bits_explicit [OF assms]
  have ones: "bit (3::byte) 1" "bit (3::byte) 0" "bit (15::byte) 3" "bit (15::byte) 2" "bit (15::byte) 1"
    "bit (15::byte) 0" by code_simp+
  have "set (filter (bit ?b) [0..<8]) \<supseteq> {x1, p0, p1, v0, v1, v2, v3}"
    using pb ones by (auto simp: bit_encodeBits)
  then have "card {x1, p0, p1, v0, v1, v2, v3} \<le> card (set (filter (bit ?b) [0..<8]))"
    by (intro card_mono) simp_all
  also have "\<dots> \<le> onesCount8 ?b" unfolding onesCount8_def by (rule card_length)
  finally have "5 \<le> onesCount8 ?b" using pb(1) by simp
  then have "?b \<in> set (customPads [x0, x1] [p0, p1] [v0, v1, v2, v3])"
    unfolding set_customPads by (intro CollectI conjI exI [of _ 0] exI [of _ 3] exI [of _ 15]) auto
  then show ?thesis by auto
qed
lemma scanPattern_mset:
  "scanPattern i cs (xs, ps, vs) = Inr (xs', ps', vs') \<Longrightarrow>
   mset (xs' @ ps' @ vs') = mset (xs @ ps @ vs) + mset (map (\<lambda>k. 7 - k) [i..<i + length cs])"
proof (induction cs arbitrary: i xs ps vs)
  case Nil
  then show ?case by simp
next
  case (Cons c cs)
  have "[i..<i + length (c # cs)] = i # [Suc i..<Suc i + length cs]"
    by (simp add: upt_conv_Cons del: upt_Suc)
  then show ?case using Cons.prems
    by (auto simp: Let_def split: if_splits dest!: Cons.IH)
qed

lemma scanPattern_iff:
  "scanPattern i cs (xs, ps, vs) = Inr r \<Longrightarrow> set cs \<subseteq> {CHR ''x'', CHR ''p'', CHR ''v''}
    \<and> length (fst r) = length xs + count_list cs (CHR ''x'')
    \<and> length (fst (snd r)) = length ps + count_list cs (CHR ''p'')
    \<and> length (snd (snd r)) = length vs + count_list cs (CHR ''v'')"
  by (induction cs arbitrary: i xs ps vs) (auto simp: Let_def split: if_splits)

lemma scanPattern_total:
  "set cs \<subseteq> {CHR ''x'', CHR ''p'', CHR ''v''} \<Longrightarrow> \<exists>r. scanPattern i cs (xs, ps, vs) = Inr r"
  by (induction cs arbitrary: i xs ps vs) (auto simp: Let_def)

lemma scanPattern_pattern_bits:
  assumes "scanPattern 0 cs ([], [], []) = Inr (xs, ps, vs)" "length cs = 8"
    and "length xs = 2" "length ps = 2" "length vs = 4"
  shows "pattern_bits xs ps vs"
proof -
  have "mset (xs @ ps @ vs) = mset (map (\<lambda>k. 7 - k) [0..<8])"
    using scanPattern_mset [OF assms(1)] assms(2) by simp
  also have "\<dots> = mset [0..<8]" by code_simp
  finally show ?thesis using assms by (simp add: pattern_bits_def)
qed

lemma sort_eq_Nil: "sort xs = [] \<longleftrightarrow> xs = []"
  by (metis length_0_conv length_sort)

lemma customLayoutOf_contract:
  assumes "pattern_bits xs ps vs" "padding = sort (customPads xs ps vs)"
  shows "layout_contract (customLayoutOf cleaned xs ps vs padding)"
proof -
  from assms(1) obtain x0 x1 p0 p1 v0 v1 v2 v3 where
    eqs: "xs = [x0, x1]" "ps = [p0, p1]" "vs = [v0, v1, v2, v3]" by (rule pattern_bitsE)
  note pb = assms(1) [unfolded eqs]
  have pool: "set padding = set (customPads xs ps vs)" "padding \<noteq> []" "length padding \<le> 256"
    using customPads_nonempty [OF pb] length_customPads by (simp_all add: assms(2) eqs sort_eq_Nil)
  have m: "drop_bit 4 (g AND 0x3F) AND 3 = drop_bit 4 g AND 3" "(g AND 0x3F) AND 0x0F = g AND 0x0F"
    for g :: byte
    unfolding byte_and_mask by (auto intro!: bit_word_eqI simp: bit_simps)
  show ?thesis
    by unfold_locales
      (use pool hint_encodeBits [OF pb, of None] decode_encodeBits [OF pb] customPads_not_hint [OF pb]
        in \<open>auto simp: customLayoutOf_def Let_def hintByte_def groupByte_def eqs m\<close>)
qed

lemma newCustomLayout_contract: "newCustomLayout p = Inr l \<Longrightarrow> layout_contract l"
  by (auto simp: newCustomLayout_def Let_def bindE_eq_Inr split: if_splits
      intro!: customLayoutOf_contract scanPattern_pattern_bits)

lemma resolveLayout_contract: "resolveLayout mode p = Inr l \<Longrightarrow> layout_contract l"
  using newCustomLayout_contract ascii.layout_contract_axioms entropy.layout_contract_axioms
  by (auto simp: resolveLayout_def Let_def split: if_splits)

lemma count_list_xpv:
  "set cs \<subseteq> {CHR ''x'', CHR ''p'', CHR ''v''} \<Longrightarrow>
     length cs = count_list cs (CHR ''x'') + count_list cs (CHR ''p'') + count_list cs (CHR ''v'')"
  by (induction cs) auto

lemma newCustomLayout_scan:
  assumes "newCustomLayout p = Inr l"
  obtains xs ps vs where "scanPattern 0 (cleanPattern p) ([], [], []) = Inr (xs, ps, vs)"
    "length xs = 2" "length ps = 2" "length vs = 4"
proof -
  let ?scan = "scanPattern 0 (cleanPattern p) ([], [], [])"
  show ?thesis
  proof (cases ?scan)
    case (Inl e)
    then show ?thesis using assms by (simp add: newCustomLayout_def Let_def split: if_splits)
  next
    case (Inr r)
    then show ?thesis using assms that by (cases r) (simp add: newCustomLayout_def Let_def split: if_splits)
  qed
qed

lemma newCustomLayout_success:
  "(\<exists>l. newCustomLayout p = Inr l) \<longleftrightarrow>
     set (cleanPattern p) \<subseteq> {CHR ''x'', CHR ''p'', CHR ''v''}
     \<and> count_list (cleanPattern p) (CHR ''x'') = 2 \<and> count_list (cleanPattern p) (CHR ''p'') = 2
     \<and> count_list (cleanPattern p) (CHR ''v'') = 4" (is "?L \<longleftrightarrow> ?R")
proof
  assume ?L
  then obtain xs ps vs where scan: "scanPattern 0 (cleanPattern p) ([], [], []) = Inr (xs, ps, vs)"
    and "length xs = 2" "length ps = 2" "length vs = 4"
    by (metis newCustomLayout_scan)
  with scanPattern_iff [OF scan] show ?R by simp
next
  assume R: ?R
  then obtain r where "scanPattern 0 (cleanPattern p) ([], [], []) = Inr r"
    using scanPattern_total [of "cleanPattern p" 0 "[]" "[]" "[]"] by blast
  then obtain xs ps vs where scan: "scanPattern 0 (cleanPattern p) ([], [], []) = Inr (xs, ps, vs)"
    by (cases r) simp
  from scanPattern_iff [OF scan] R have len: "length xs = 2" "length ps = 2" "length vs = 4" by simp_all
  have l8: "length (cleanPattern p) = 8" using R count_list_xpv [of "cleanPattern p"] by simp
  have pat: "pattern_bits xs ps vs" by (rule scanPattern_pattern_bits [OF scan l8 len])
  then obtain x0 x1 p0 p1 v0 v1 v2 v3 where
    eqs: "xs = [x0, x1]" "ps = [p0, p1]" "vs = [v0, v1, v2, v3]" by (rule pattern_bitsE)
  note pb = pat [unfolded eqs]
  have "sort (customPads xs ps vs) \<noteq> []" using customPads_nonempty [OF pb] by (simp add: eqs sort_eq_Nil)
  then show ?L using scan len l8 by (simp add: newCustomLayout_def)
qed


section \<open>Properties\<close>

lemma decodeBits_lt_64:
  assumes "length ps = 2" "length vs = 4"
  shows "decodeBits ps vs wire < 64"
proof -
  from assms obtain p0 p1 v0 v1 v2 v3 where "ps = [p0, p1]" "vs = [v0, v1, v2, v3]"
    by (auto simp: length_Suc_conv numeral_2_eq_2 numeral_eq_Suc)
  then have "decodeBits ps vs wire = take_bit 6 (decodeBits ps vs wire)"
    by (intro bit_word_eqI) (auto simp: bit_take_bit_iff bit_decodeBits)
  also have "\<dots> < 64"
    unfolding word_less_nat_alt using unat_take_bit_byte [of 6 "decodeBits ps vs wire"] by simp
  finally show ?thesis .
qed

lemma decodeGroup_lt_64:
  assumes "resolveLayout mode pattern = Inr l"
  shows "decodeGroup l b < 64"
proof -
  have "\<forall>b. decodeGroup newASCIILayout b < 64" "\<forall>b. decodeGroup newEntropyLayout b < 64"
    unfolding all_bytes by code_simp+
  moreover have "decodeGroup l b < 64" if l: "newCustomLayout pattern = Inr l"
  proof -
    obtain xs ps vs where scan: "scanPattern 0 (cleanPattern pattern) ([], [], []) = Inr (xs, ps, vs)"
      "length xs = 2" "length ps = 2" "length vs = 4" using newCustomLayout_scan [OF l] .
    with l have "l = customLayoutOf (cleanPattern pattern) xs ps vs (sort (customPads xs ps vs))"
      by (simp add: newCustomLayout_def Let_def split: if_splits)
    with decodeBits_lt_64 [OF scan(3,4)] show ?thesis by (simp add: customLayoutOf_def Let_def)
  qed
  ultimately show ?thesis using assms by (auto simp: resolveLayout_def Let_def split: if_splits)
qed

text \<open>Every layout the resolver returns, for any mode and any custom pattern, keeps hints
  and padding apart: all clues are written as hint bytes, distinct clues as distinct bytes,
  the pool is not empty and none of its bytes is a hint, and groups decode to what was
  encoded.\<close>

lemma resolveLayout_sound:
  assumes "resolveLayout mode pattern = Inr l"
  shows "hintTable l (hintByte l v p)
    \<and> (hintByte l v p = hintByte l w q \<longleftrightarrow> v AND 3 = w AND 3 \<and> p AND 15 = q AND 15)
    \<and> paddingPool l \<noteq> [] \<and> (\<forall>b \<in> set (paddingPool l). \<not> hintTable l b)
    \<and> padMarker l \<in> set (paddingPool l)
    \<and> decodePackedGroup (Some l) (groupByte l g) = (g AND 63, True)"
proof -
  from assms have c: "layout_contract l" by (rule resolveLayout_contract)
  have "hintByte l v p = hintByte l w q \<longleftrightarrow> v AND 3 = w AND 3 \<and> p AND 15 = q AND 15"
    using layout_contract.hintByte_inj [OF c, of v p w q] by (auto simp: hintByte_def)
  then show ?thesis
    using layout_contract.hint_of_hintByte [OF c] layout_contract.pool_nonempty [OF c]
      layout_contract.pad_not_hint [OF c] layout_contract.marker_in_pool [OF c]
      layout_contract.decode_groupByte [OF c] layout_contract.hint_of_groupByte [OF c]
      layout_contract.group_valid_iff_hint [OF c]
    by (simp add: decodePackedGroup_def)
qed

text \<open>Parsing a canonical mode string gives the mode back, so normalising a mode twice is
  normalising it once; a parsed mode only ever holds the two direction tokens.\<close>

lemma ParseASCIIMode_Canonical:
  assumes "ParseASCIIMode mode = Inr m"
  shows "ParseASCIIMode (Canonical m) = Inr m
    \<and> NormalizeASCIIMode (Canonical m) = NormalizeASCIIMode mode
    \<and> Uplink m \<in> {''ascii'', ''entropy''} \<and> Downlink m \<in> {''ascii'', ''entropy''}"
proof -
  have tok: "normalizeASCIIModeToken t = Some u \<Longrightarrow> u \<in> {''ascii'', ''entropy''}" for t u
    by (auto simp: normalizeASCIIModeToken_def Let_def asciiModeTokenASCII_def
        asciiModeTokenEntropy_def split: if_splits)
  have m: "Uplink m \<in> {''ascii'', ''entropy''} \<and> Downlink m \<in> {''ascii'', ''entropy''}"
    using assms by (auto simp: ParseASCIIMode_def Let_def asciiModeTokenASCII_def
        asciiModeTokenEntropy_def split: if_splits option.splits dest!: tok)
  have "\<forall>u\<in>set [''ascii'', ''entropy'']. \<forall>d\<in>set [''ascii'', ''entropy''].
      ParseASCIIMode (Canonical \<lparr>Uplink = u, Downlink = d\<rparr>) = Inr \<lparr>Uplink = u, Downlink = d\<rparr>"
    by code_simp
  then have "ParseASCIIMode (Canonical m) = Inr m" using m by (cases m) auto
  then show ?thesis using assms m by (simp add: NormalizeASCIIMode_def)
qed

end
