(* ===== verification/Sudoku_Grid.thy ===== *)
theory Sudoku_Grid
  imports Prelude
begin

text \<open>
  The 4x4 Sudoku grids and their uniquely identifying clue positions (obfs/sudoku/grid.go
  and the shared data of table.go). A grid is the list of its 16 cells, 0 for an empty cell.
  The theory shows that the backtracking enumerates exactly the valid grids, without
  repetition, that there are 288 of them, and that every one has a combination of four
  positions that identifies it: the property that makes the byte tables total.
\<close>

type_synonym grid = "nat list"

section \<open>Enumeration of the grids\<close>

text \<open>The test of one candidate number at one cell: row and column, then the 2x2 block.\<close>

definition cellFree :: "grid \<Rightarrow> nat \<Rightarrow> nat \<Rightarrow> bool" where
  "cellFree g idx num =
     (let row = idx div 4; col = idx mod 4; br = row div 2 * 2; bc = col div 2 * 2 in
      list_all (\<lambda>i. \<not> (g ! (row * 4 + i) = num \<or> g ! (i * 4 + col) = num)) [0..<4]
      \<and> list_all (\<lambda>r. list_all (\<lambda>c. g ! ((br + r) * 4 + (bc + c)) \<noteq> num) [0..<2]) [0..<2])"

function backtrack :: "nat \<Rightarrow> grid \<Rightarrow> grid list" where
  "backtrack idx g =
     (if idx \<ge> 16 then [g]
      else concat (map (\<lambda>num. if cellFree g idx num then backtrack (idx + 1) (g[idx := num]) else [])
             [1, 2, 3, 4]))"
  by pat_completeness auto
termination
  by (relation "measure (\<lambda>(idx, g). 16 - idx)") auto

declare backtrack.simps [simp del]

definition GenerateAllGrids :: "grid list" where
  "GenerateAllGrids = backtrack 0 (replicate 16 0)"

section \<open>Clue positions\<close>

fun combine :: "nat \<Rightarrow> nat \<Rightarrow> nat list \<Rightarrow> nat list list" where
  "combine start 0 current = [current]"
| "combine start (Suc left) current =
     concat (map (\<lambda>i. combine (i + 1) left (current @ [i])) [start..<16 - Suc left + 1])"

definition combinations :: "nat list list" where
  "combinations = combine 0 4 []"

text \<open>The inner loops: do two grids agree at the positions, and how many grids agree with the
  target (the count stops at two).\<close>

fun cluesMatch :: "grid \<Rightarrow> grid \<Rightarrow> nat list \<Rightarrow> bool" where
  "cluesMatch g target [] = True"
| "cluesMatch g target (pos # ps) = (if g ! pos \<noteq> target ! pos then False else cluesMatch g target ps)"

fun countMatches :: "grid \<Rightarrow> nat list \<Rightarrow> grid list \<Rightarrow> nat \<Rightarrow> nat" where
  "countMatches target candidate [] n = n"
| "countMatches target candidate (g # gs) n =
     (if cluesMatch g target candidate
      then (if n + 1 > 1 then n + 1 else countMatches target candidate gs (n + 1))
      else countMatches target candidate gs n)"

definition uniquePositionsOf :: "grid list \<Rightarrow> grid \<Rightarrow> nat list list" where
  "uniquePositionsOf grids target =
     filter (\<lambda>candidate. countMatches target candidate grids 0 = 1) combinations"

definition sharedSudokuTableData :: "grid list \<times> (grid \<rightharpoonup> nat list list)" where
  "sharedSudokuTableData =
     (let grids = GenerateAllGrids
      in (grids, \<lambda>g. if g \<in> set grids then Some (uniquePositionsOf grids g) else None))"

section \<open>Valid grids\<close>

definition peer :: "nat \<Rightarrow> nat \<Rightarrow> bool" where
  "peer i j \<longleftrightarrow> i \<noteq> j \<and> (i div 4 = j div 4 \<or> i mod 4 = j mod 4
     \<or> i div 8 = j div 8 \<and> i mod 4 div 2 = j mod 4 div 2)"

definition validPrefix :: "nat \<Rightarrow> grid \<Rightarrow> bool" where
  "validPrefix n g \<longleftrightarrow> (\<forall>i<n. 1 \<le> g ! i \<and> g ! i \<le> 4) \<and> (\<forall>i<n. \<forall>j<i. peer i j \<longrightarrow> g ! i \<noteq> g ! j)"

definition validGrid :: "grid \<Rightarrow> bool" where
  "validGrid g \<longleftrightarrow> length g = 16 \<and> validPrefix 16 g"

text \<open>A partial grid of the search: the first cells are filled, the others are empty.\<close>

definition partialGrid :: "nat \<Rightarrow> grid \<Rightarrow> bool" where
  "partialGrid n g \<longleftrightarrow> length g = 16 \<and> validPrefix n g \<and> (\<forall>i. n \<le> i \<and> i < 16 \<longrightarrow> g ! i = 0)"

definition testedCells :: "nat \<Rightarrow> nat list" where
  "testedCells idx =
     (let row = idx div 4; col = idx mod 4; br = row div 2 * 2; bc = col div 2 * 2 in
      map (\<lambda>i. row * 4 + i) [0..<4] @ map (\<lambda>i. i * 4 + col) [0..<4]
      @ concat (map (\<lambda>r. map (\<lambda>c. (br + r) * 4 + (bc + c)) [0..<2]) [0..<2]))"

lemma cellFree_tested: "cellFree g idx num \<longleftrightarrow> (\<forall>j\<in>set (testedCells idx). g ! j \<noteq> num)"
  unfolding list_all_iff [symmetric]
  by (simp add: cellFree_def testedCells_def Let_def upt_rec) blast

lemma set_testedCells:
  assumes "idx < 16"
  shows "set (testedCells idx) = {j. j < 16 \<and> (j = idx \<or> peer idx j)}"
proof -
  have "\<forall>idx\<in>set [0..<16]. set (testedCells idx) = set (filter (\<lambda>j. j = idx \<or> peer idx j) [0..<16])"
    by code_simp
  with assms show ?thesis by auto
qed

lemma cellFree_peers:
  "idx < 16 \<Longrightarrow> cellFree g idx num \<longleftrightarrow> g ! idx \<noteq> num \<and> (\<forall>j<16. peer idx j \<longrightarrow> g ! j \<noteq> num)"
  by (auto simp: cellFree_tested set_testedCells)

lemma cellFree_partial:
  assumes "partialGrid idx g" "idx < 16" "1 \<le> num"
  shows "cellFree g idx num \<longleftrightarrow> (\<forall>j<idx. peer idx j \<longrightarrow> g ! j \<noteq> num)"
  using assms unfolding cellFree_peers [OF assms(2)] partialGrid_def
  by (metis less_imp_le less_trans not_less not_one_le_zero order_refl)

lemma partialGrid_step:
  assumes "partialGrid idx g" "idx < 16" "num \<in> {1, 2, 3, 4}" "cellFree g idx num"
  shows "partialGrid (Suc idx) (g[idx := num])"
proof -
  have free: "\<forall>j<idx. peer idx j \<longrightarrow> g ! j \<noteq> num"
    using cellFree_partial [OF assms(1,2)] assms(3,4) by auto
  show ?thesis using assms(1-3) free
    unfolding partialGrid_def validPrefix_def
    by (auto simp: nth_list_update less_Suc_eq)
qed

text \<open>The search from a partial grid enumerates the valid grids that extend it.\<close>

lemma set_backtrack:
  "partialGrid idx g \<Longrightarrow> idx \<le> 16 \<Longrightarrow>
    set (backtrack idx g) = {h. validGrid h \<and> take idx h = take idx g}"
proof (induction idx g rule: backtrack.induct)
  case (1 idx g)
  show ?case
  proof (cases "idx = 16")
    case True
    with 1 show ?thesis
      by (auto simp: backtrack.simps [of 16] partialGrid_def validGrid_def)
  next
    case False
    with 1 have lt: "idx < 16" by simp
    have len: "length g = 16" using 1 by (simp add: partialGrid_def)
    have IH: "set (backtrack (idx + 1) (g[idx := num])) = {h. validGrid h \<and> take (Suc idx) h = take idx g @ [num]}"
      if "num \<in> {1, 2, 3, 4}" "cellFree g idx num" for num
      using "1.IH" [of num] that lt partialGrid_step [OF "1.prems"(1) lt that] len
      by (simp add: take_Suc_conv_app_nth)
    have "set (backtrack idx g) = (\<Union>num\<in>{num \<in> {1, 2, 3, 4}. cellFree g idx num}.
        {h. validGrid h \<and> take (Suc idx) h = take idx g @ [num]})"
      using IH lt by (auto simp: backtrack.simps [of idx])
    also have "\<dots> = {h. validGrid h \<and> take idx h = take idx g}" (is "?L = ?R")
    proof (intro set_eqI iffI)
      fix h assume "h \<in> ?L"
      then show "h \<in> ?R" using lt
        by (auto simp: validGrid_def take_Suc_conv_app_nth)
    next
      fix h assume h: "h \<in> ?R"
      then have v: "validGrid h" and t: "take idx h = take idx g" and l: "length h = 16"
        by (auto simp: validGrid_def)
      have nth: "\<forall>j<idx. g ! j = h ! j" using t by (metis nth_take)
      have range: "h ! idx \<in> {1, 2, 3, 4}" using v lt by (force simp: validGrid_def validPrefix_def)
      moreover have ge: "1 \<le> h ! idx" using range by auto
      have "\<forall>j<idx. peer idx j \<longrightarrow> h ! j \<noteq> h ! idx"
        using v lt unfolding validGrid_def validPrefix_def by metis
      then have "cellFree g idx (h ! idx)"
        using nth by (simp add: cellFree_partial [OF "1.prems"(1) lt ge])
      ultimately show "h \<in> ?L" using v t l lt by (auto simp: take_Suc_conv_app_nth)
    qed
    finally show ?thesis .
  qed
qed

lemma distinct_backtrack: "partialGrid idx g \<Longrightarrow> idx \<le> 16 \<Longrightarrow> distinct (backtrack idx g)"
proof (induction idx g rule: backtrack.induct)
  case (1 idx g)
  show ?case
  proof (cases "idx = 16")
    case True
    then show ?thesis by (simp add: backtrack.simps)
  next
    case False
    with 1 have lt: "idx < 16" by simp
    have len: "length g = 16" using 1 by (simp add: partialGrid_def)
    define br where "br num = (if cellFree g idx num then backtrack (idx + 1) (g[idx := num]) else [])" for num
    have d: "distinct (br num)" if "num \<in> {1, 2, 3, 4}" for num
      using "1.IH" [of num] that lt partialGrid_step [OF "1.prems"(1) lt that] by (auto simp: br_def)
    have c: "h ! idx = num" if "num \<in> {1, 2, 3, 4}" "h \<in> set (br num)" for h num
    proof -
      have free: "cellFree g idx num" using that(2) by (auto simp: br_def split: if_splits)
      have "take (Suc idx) h = take (Suc idx) (g[idx := num])"
        using set_backtrack [OF partialGrid_step [OF "1.prems"(1) lt that(1) free]] lt that(2) free
        by (auto simp: br_def)
      then have "take (Suc idx) h ! idx = take (Suc idx) (g[idx := num]) ! idx" by simp
      then show ?thesis using lt len by simp
    qed
    have "backtrack idx g = br 1 @ br 2 @ br 3 @ br 4"
      using lt by (simp add: backtrack.simps [of idx] br_def)
    moreover have "set (br a) \<inter> set (br b) = {}" if "a \<in> {1, 2, 3, 4}" "b \<in> {1, 2, 3, 4}" "a \<noteq> b" for a b
      using c [OF that(1)] c [OF that(2)] that(3) by blast
    ultimately show ?thesis using d by (simp add: Int_Un_distrib)
  qed
qed

lemma partialGrid_empty: "partialGrid 0 (replicate 16 0)"
  by (simp add: partialGrid_def validPrefix_def)

lemma set_GenerateAllGrids: "set GenerateAllGrids = {g. validGrid g}"
  unfolding GenerateAllGrids_def using set_backtrack [OF partialGrid_empty] by simp

lemma distinct_GenerateAllGrids: "distinct GenerateAllGrids"
  unfolding GenerateAllGrids_def using distinct_backtrack [OF partialGrid_empty] by simp

lemma validGrid_cell: "validGrid g \<Longrightarrow> i < 16 \<Longrightarrow> g ! i \<in> {1, 2, 3, 4}"
  by (force simp: validGrid_def validPrefix_def)

lemma validGrid_set: "validGrid g \<Longrightarrow> set g \<subseteq> {1, 2, 3, 4}"
  by (metis in_set_conv_nth subsetI validGrid_cell validGrid_def)

section \<open>Clue combinations\<close>

text \<open>The combinations are the strictly increasing lists of four positions.\<close>

lemma set_combine:
  "set (combine start k current) =
    {current @ ps |ps. length ps = k \<and> sorted_wrt (<) ps \<and> (\<forall>p\<in>set ps. start \<le> p \<and> p < 16)}"
proof (induction k arbitrary: start current)
  case 0
  then show ?case by auto
next
  case (Suc k)
  have bound: "p + k < 16" if "sorted_wrt (<) (p # ps)" "length ps = k" "\<forall>q\<in>set (p # ps). q < 16" for p ps
    using that
  proof (induction ps arbitrary: p k)
    case Nil
    then show ?case by simp
  next
    case (Cons q qs)
    from Cons.prems(2) obtain k' where k: "k = Suc k'" "length qs = k'" by auto
    have "q + k' < 16" using Cons.IH [of q k'] Cons.prems k by simp
    with Cons.prems(1) k show ?case by simp
  qed
  show ?case
  proof (intro set_eqI iffI)
    fix x assume "x \<in> set (combine start (Suc k) current)"
    then obtain i ps where "start \<le> i" "i < 16 - Suc k + 1" "x = current @ [i] @ ps"
      "length ps = k" "sorted_wrt (<) ps" "\<forall>p\<in>set ps. i + 1 \<le> p \<and> p < 16"
      by (auto simp: Suc.IH)
    then show "x \<in> {current @ ps |ps. length ps = Suc k \<and> sorted_wrt (<) ps \<and> (\<forall>p\<in>set ps. start \<le> p \<and> p < 16)}"
      by (intro CollectI exI [of _ "i # ps"]) auto
  next
    fix x assume "x \<in> {current @ ps |ps. length ps = Suc k \<and> sorted_wrt (<) ps \<and> (\<forall>p\<in>set ps. start \<le> p \<and> p < 16)}"
    then obtain i ps where x: "x = current @ i # ps" "length ps = k" "sorted_wrt (<) (i # ps)"
      "\<forall>p\<in>set (i # ps). start \<le> p \<and> p < 16" by (auto simp: length_Suc_conv)
    have "i + k < 16" using bound [OF x(3,2)] x(4) by blast
    then have "i \<in> set [start..<16 - Suc k + 1]" using x(4) by auto
    moreover have "x \<in> set (combine (i + 1) k (current @ [i]))"
      using x by (auto simp: Suc.IH)
    ultimately show "x \<in> set (combine start (Suc k) current)" by (auto simp del: upt_Suc)
  qed
qed

lemma set_combinations:
  "set combinations = {ps. length ps = 4 \<and> sorted_wrt (<) ps \<and> (\<forall>p\<in>set ps. p < 16)}"
  unfolding combinations_def set_combine by auto

lemma cluesMatch_iff: "cluesMatch g h ps \<longleftrightarrow> (\<forall>p\<in>set ps. g ! p = h ! p)"
  by (induction ps) auto

lemma countMatches_ge: "n \<le> countMatches t c gs n"
  by (induction gs arbitrary: n) (auto intro: le_trans [OF le_add1])

lemma countMatches_one:
  "countMatches t c gs 1 = 1 \<longleftrightarrow> (\<forall>g\<in>set gs. \<not> cluesMatch g t c)"
  by (induction gs) auto

lemma countMatches_unique:
  assumes "distinct gs" "t \<in> set gs"
  shows "countMatches t c gs 0 = 1 \<longleftrightarrow> (\<forall>g\<in>set gs. cluesMatch g t c \<longrightarrow> g = t)"
  using assms
proof (induction gs)
  case Nil
  then show ?case by simp
next
  case (Cons g gs)
  have self: "cluesMatch t t c" by (simp add: cluesMatch_iff)
  show ?case
  proof (cases "cluesMatch g t c")
    case True
    then have "countMatches t c (g # gs) 0 = 1 \<longleftrightarrow> (\<forall>g\<in>set gs. \<not> cluesMatch g t c)"
      using countMatches_one [of t c gs] by simp
    then show ?thesis using True Cons.prems self by auto
  next
    case False
    then show ?thesis using Cons self by auto
  qed
qed

lemma uniquePositionsOf_iff:
  assumes "validGrid g"
  shows "ps \<in> set (uniquePositionsOf GenerateAllGrids g) \<longleftrightarrow>
    length ps = 4 \<and> sorted_wrt (<) ps \<and> (\<forall>p\<in>set ps. p < 16)
    \<and> (\<forall>h. validGrid h \<longrightarrow> (\<forall>p\<in>set ps. h ! p = g ! p) \<longrightarrow> h = g)"
  using assms countMatches_unique [OF distinct_GenerateAllGrids, of g ps]
  by (auto simp: uniquePositionsOf_def set_combinations set_GenerateAllGrids cluesMatch_iff)

section \<open>Every grid has identifying clues\<close>

text \<open>Renaming the digits of a grid keeps it valid, so it is enough to look at the twelve grids
  whose first block reads 1 2 3 4; for those the clues are found by evaluation.\<close>

definition firstBlockOrdered :: "grid \<Rightarrow> bool" where
  "firstBlockOrdered g \<longleftrightarrow> g ! 0 = 1 \<and> g ! 1 = 2 \<and> g ! 4 = 3 \<and> g ! 5 = 4"

definition canonicalClues :: "(grid \<times> nat list) list" where
  "canonicalClues =
    [([1,2,3,4,3,4,1,2,2,1,4,3,4,3,2,1], [0, 3, 13, 14]),
     ([1,2,3,4,3,4,1,2,2,3,4,1,4,1,2,3], [0, 3, 13, 14]),
     ([1,2,3,4,3,4,1,2,4,1,2,3,2,3,4,1], [0, 3, 13, 14]),
     ([1,2,3,4,3,4,1,2,4,3,2,1,2,1,4,3], [0, 3, 9, 10]),
     ([1,2,3,4,3,4,2,1,2,1,4,3,4,3,1,2], [0, 3, 13, 14]),
     ([1,2,3,4,3,4,2,1,4,3,1,2,2,1,4,3], [0, 2, 9, 11]),
     ([1,2,4,3,3,4,1,2,2,1,3,4,4,3,2,1], [0, 3, 13, 14]),
     ([1,2,4,3,3,4,1,2,4,3,2,1,2,1,3,4], [0, 2, 9, 11]),
     ([1,2,4,3,3,4,2,1,2,1,3,4,4,3,1,2], [0, 2, 13, 15]),
     ([1,2,4,3,3,4,2,1,2,3,1,4,4,1,3,2], [0, 2, 9, 11]),
     ([1,2,4,3,3,4,2,1,4,1,3,2,2,3,1,4], [0, 2, 9, 11]),
     ([1,2,4,3,3,4,2,1,4,3,1,2,2,1,3,4], [0, 2, 9, 11])]"

definition gridCheck :: "grid list \<Rightarrow> bool" where
  "gridCheck gs \<longleftrightarrow> length gs = 288
    \<and> filter firstBlockOrdered gs = map fst canonicalClues
    \<and> list_all (\<lambda>g. list_all (\<lambda>(t, c). if cluesMatch g t c then g = t else True) canonicalClues) gs"

lemma grid_evaluation: "gridCheck GenerateAllGrids"
  by code_simp

lemma length_GenerateAllGrids: "length GenerateAllGrids = 288"
  using grid_evaluation by (simp add: gridCheck_def)

lemma validGrid_map:
  assumes "validGrid g" "bij_betw f {1, 2, 3, 4} {1, 2, 3, 4::nat}"
  shows "validGrid (map f g)"
proof -
  have cell: "g ! i \<in> {1, 2, 3, 4}" if "i < 16" for i using validGrid_cell [OF assms(1) that] .
  have inj: "inj_on f {1, 2, 3, 4}" and im: "f ` {1, 2, 3, 4} = {1, 2, 3, 4}"
    using assms(2) by (auto simp: bij_betw_def)
  have len: "length g = 16" using assms(1) by (simp add: validGrid_def)
  have "1 \<le> f (g ! i) \<and> f (g ! i) \<le> 4" if "i < 16" for i
  proof -
    have "f (g ! i) \<in> {1, 2, 3, 4}" using cell [OF that] im by blast
    then show ?thesis by auto
  qed
  moreover have "f (g ! i) \<noteq> f (g ! j)" if "i < 16" "j < i" "peer i j" for i j
  proof -
    have "g ! i \<noteq> g ! j" using assms(1) that by (simp add: validGrid_def validPrefix_def)
    then show ?thesis using inj_onD [OF inj] cell that by (meson less_trans)
  qed
  ultimately show ?thesis using len by (simp add: validGrid_def validPrefix_def)
qed

lemma firstBlock_distinct:
  assumes "validGrid g"
  shows "distinct [g ! 0, g ! 1, g ! 4, g ! 5]" "{g ! 0, g ! 1, g ! 4, g ! 5} = {1, 2, 3, 4}"
proof -
  have p: "g ! i \<noteq> g ! j" if "i < 16" "j < i" "peer i j" for i j
    using assms that by (simp add: validGrid_def validPrefix_def)
  show d: "distinct [g ! 0, g ! 1, g ! 4, g ! 5]"
    using p [of 1 0] p [of 4 0] p [of 5 0] p [of 4 1] p [of 5 1] p [of 5 4] by (auto simp: peer_def)
  have "{g ! 0, g ! 1, g ! 4, g ! 5} \<subseteq> {1, 2, 3, 4}" using validGrid_cell [OF assms] by simp
  moreover have "card {g ! 0, g ! 1, g ! 4, g ! 5} = card {1, 2, 3, 4::nat}" using d by simp
  ultimately show "{g ! 0, g ! 1, g ! 4, g ! 5} = {1, 2, 3, 4}"
    by (intro card_subset_eq) auto
qed

lemma digit_renaming:
  assumes "distinct [a, b, c, d]" "{a, b, c, d} = {1, 2, 3, 4::nat}"
  obtains f where "bij_betw f {1, 2, 3, 4} {1, 2, 3, 4::nat}" "f a = 1" "f b = 2" "f c = 3" "f d = 4"
proof -
  define f where "f x = (if x = a then 1 else if x = b then 2 else if x = c then 3 else (4::nat))" for x
  have v: "f a = 1" "f b = 2" "f c = 3" "f d = 4" using assms(1) by (auto simp: f_def)
  have "bij_betw f {a, b, c, d} {1, 2, 3, 4}"
    using v by (auto simp: bij_betw_def inj_on_def)
  then show ?thesis using that v unfolding assms(2) by blast
qed

lemma unique_clues_exist:
  assumes "validGrid g"
  shows "uniquePositionsOf GenerateAllGrids g \<noteq> []"
proof -
  obtain f where f: "bij_betw f {1, 2, 3, 4} {1, 2, 3, 4::nat}"
    "f (g ! 0) = 1" "f (g ! 1) = 2" "f (g ! 4) = 3" "f (g ! 5) = 4"
    using digit_renaming [OF firstBlock_distinct [OF assms]] .
  have len: "length g = 16" using assms by (simp add: validGrid_def)
  let ?t = "map f g"
  have t: "validGrid ?t" by (rule validGrid_map [OF assms f(1)])
  have "firstBlockOrdered ?t" using f len by (simp add: firstBlockOrdered_def)
  then have "?t \<in> set (filter firstBlockOrdered GenerateAllGrids)"
    using t set_GenerateAllGrids by simp
  then have "?t \<in> set (map fst canonicalClues)"
    using grid_evaluation by (simp only: gridCheck_def)
  then obtain c where c: "(?t, c) \<in> set canonicalClues" by auto
  then have uniq: "h = ?t" if "validGrid h" "\<forall>p\<in>set c. h ! p = ?t ! p" for h
    using grid_evaluation that set_GenerateAllGrids
    by (fastforce simp: gridCheck_def list_all_iff cluesMatch_iff)
  have shape: "length c = 4 \<and> sorted_wrt (<) c \<and> (\<forall>p\<in>set c. p < 16)"
  proof -
    have "list_all (\<lambda>(t, c). length c = 4 \<and> sorted_wrt (<) c \<and> (\<forall>p\<in>set c. p < 16)) canonicalClues"
      by (simp add: canonicalClues_def)
    with c show ?thesis by (auto simp: list_all_iff)
  qed
  have "h = g" if h: "validGrid h" "\<forall>p\<in>set c. h ! p = g ! p" for h
  proof -
    have hl: "length h = 16" using h(1) by (simp add: validGrid_def)
    have "map f h = ?t"
      using uniq [OF validGrid_map [OF h(1) f(1)]] h(2) shape hl len by simp
    moreover have "inj_on f (set h \<union> set g)"
    proof (rule inj_on_subset)
      show "inj_on f {1, 2, 3, 4}" using f(1) by (simp add: bij_betw_def)
      show "set h \<union> set g \<subseteq> {1, 2, 3, 4}"
        using validGrid_set [OF h(1)] validGrid_set [OF assms] by simp
    qed
    ultimately show ?thesis by (metis map_inj_on)
  qed
  then have "c \<in> set (uniquePositionsOf GenerateAllGrids g)"
    using uniquePositionsOf_iff [OF assms] shape by blast
  then show ?thesis by auto
qed

section \<open>Properties\<close>

text \<open>C35: GenerateAllGrids returns every valid 4x4 Sudoku grid exactly once, 288 in all, which
  is the size the table construction copies.\<close>

theorem GenerateAllGrids_complete:
  "set GenerateAllGrids = {g. validGrid g} \<and> distinct GenerateAllGrids \<and> length GenerateAllGrids = 288"
  by (simp add: set_GenerateAllGrids distinct_GenerateAllGrids length_GenerateAllGrids)

text \<open>The shared data assigns to every valid grid at least one combination of four increasing
  positions, and each assigned combination identifies the grid among all valid ones: a
  valid grid with the same clues is the same grid.\<close>

lemma sharedSudokuTableData_unique:
  assumes "validGrid g"
  shows "\<exists>us. snd sharedSudokuTableData g = Some us \<and> us \<noteq> []
    \<and> (\<forall>ps\<in>set us. length ps = 4 \<and> sorted_wrt (<) ps \<and> (\<forall>p\<in>set ps. p < 16)
        \<and> (\<forall>h. validGrid h \<longrightarrow> (\<forall>p\<in>set ps. h ! p = g ! p) \<longrightarrow> h = g))"
proof -
  have "snd sharedSudokuTableData g = Some (uniquePositionsOf GenerateAllGrids g)"
    using assms by (simp add: sharedSudokuTableData_def Let_def set_GenerateAllGrids)
  then show ?thesis
    using unique_clues_exist [OF assms] uniquePositionsOf_iff [OF assms] by blast
qed

end
