(* ===== verification/Sudoku_Table.thy ===== *)
theory Sudoku_Table
  imports Sudoku_Layout Sudoku_Grid
begin

text \<open>
  The byte tables of the Sudoku codec (obfs/sudoku/table.go, table\_set.go and the table
  construction of transport/tables.go): each byte value is assigned a grid by a shuffle that
  depends on the key, the clues that identify the grid are written as four hint bytes, and
  the decoder looks the sorted hint bytes up. The locale sudoku\_table is what the codecs
  need of a table; the tables built on every layout provide it.

  The shuffle is the Fisher-Yates loop of math/rand; the draws of its seeded source, which
  depend on the SHA-256 digest of the key, are the parameter draws, the k-th draw reduced to
  the range the loop asks for. The table fingerprint is the parameter fingerprint.
\<close>

section \<open>Keys of hint sets\<close>

text \<open>The sorting network for four hint bytes, then the big-endian packing.\<close>

definition packHintBytes :: "byte \<Rightarrow> byte \<Rightarrow> byte \<Rightarrow> byte \<Rightarrow> u32" where
  "packHintBytes h0 h1 h2 h3 =
     (let (h0, h1) = (if h0 > h1 then (h1, h0) else (h0, h1));
          (h2, h3) = (if h2 > h3 then (h3, h2) else (h2, h3));
          (h0, h2) = (if h0 > h2 then (h2, h0) else (h0, h2));
          (h1, h3) = (if h1 > h3 then (h3, h1) else (h1, h3));
          (h1, h2) = (if h1 > h2 then (h2, h1) else (h1, h2))
      in push_bit 24 (ucast h0) OR push_bit 16 (ucast h1) OR push_bit 8 (ucast h2) OR ucast h3)"

definition packHintsToKey :: "byte list \<Rightarrow> u32" where
  "packHintsToKey hints = packHintBytes (hints ! 0) (hints ! 1) (hints ! 2) (hints ! 3)"

section \<open>Table construction\<close>

record Table =
  EncodeTable :: "byte \<Rightarrow> byte list list"
  DecodeMap :: "u32 \<rightharpoonup> byte"
  PaddingPool :: "byte list"
  IsASCII :: bool
  tbl_layout :: byteLayout
  tbl_hint :: u32

text \<open>rand.Shuffle: for i from n - 1 down to 1, swap i with a draw from 0..i.\<close>

fun shuffle :: "(nat \<Rightarrow> nat) \<Rightarrow> nat \<Rightarrow> 'a list \<Rightarrow> 'a list" where
  "shuffle draws 0 xs = xs"
| "shuffle draws (Suc i) xs =
     (let j = draws (Suc i) mod (Suc i + 1)
      in shuffle draws i (xs[Suc i := xs ! j, j := xs ! Suc i]))"

definition shuffledGridsOf :: "(nat \<Rightarrow> nat) \<Rightarrow> grid list \<Rightarrow> grid list" where
  "shuffledGridsOf draws allGrids =
     (let copied = take 288 (allGrids @ replicate 288 (replicate 16 0))
      in shuffle draws (length copied - 1) copied)"

definition hintsOf :: "byteLayout \<Rightarrow> grid \<Rightarrow> nat list \<Rightarrow> byte list" where
  "hintsOf layout targetGrid positions =
     map (\<lambda>pos. hintByte layout (word_of_nat (targetGrid ! pos) - 1) (word_of_nat pos)) positions"

text \<open>The entries in the order the nested loops store them: byte value, index of the clue
  combination, hints.\<close>

definition tableEntries :: "byteLayout \<Rightarrow> grid list \<Rightarrow> (grid \<rightharpoonup> nat list list) \<Rightarrow> (byte \<times> nat \<times> byte list) list" where
  "tableEntries layout shuffledGrids uniquePositions =
     concat (map (\<lambda>byteVal.
       let targetGrid = shuffledGrids ! byteVal in
       map (\<lambda>(positionIndex, positions). (word_of_nat byteVal, positionIndex, hintsOf layout targetGrid positions))
         (List.enumerate 0 (case uniquePositions targetGrid of None \<Rightarrow> [] | Some us \<Rightarrow> us)))
     [0..<256])"

fun storeEntry :: "(byte \<Rightarrow> byte list list) \<times> (u32 \<rightharpoonup> byte) \<Rightarrow> byte \<times> nat \<times> byte list
    \<Rightarrow> (byte \<Rightarrow> byte list list) \<times> (u32 \<rightharpoonup> byte)" where
  "storeEntry (enc, dec) (byteVal, positionIndex, currentHints) =
     ((if positionIndex = 0 then enc(byteVal := enc byteVal @ [currentHints]) else enc),
      dec(packHintsToKey currentHints \<mapsto> byteVal))"

definition tableOfLayout :: "(nat \<Rightarrow> nat) \<Rightarrow> byteLayout \<Rightarrow> Table" where
  "tableOfLayout draws layout =
     (let (allGrids, uniquePositions) = sharedSudokuTableData;
          shuffledGrids = shuffledGridsOf draws allGrids;
          (enc, dec) = foldl storeEntry (\<lambda>_. [], Map.empty) (tableEntries layout shuffledGrids uniquePositions)
      in \<lparr>EncodeTable = enc, DecodeMap = dec, PaddingPool = paddingPool layout,
          IsASCII = (lay_name layout = ''ascii''), tbl_layout = layout, tbl_hint = 0\<rparr>)"

definition newSingleDirectionTable ::
    "(string \<Rightarrow> nat \<Rightarrow> nat) \<Rightarrow> string \<Rightarrow> string \<Rightarrow> string \<Rightarrow> layoutError + Table" where
  "newSingleDirectionTable draws key mode customPattern =
     bindE (resolveLayout mode customPattern) (\<lambda>layout. Inr (tableOfLayout (draws key) layout))"

text \<open>A table with the table of the opposite direction it is linked to.\<close>

record LinkedTable =
  this_table :: Table
  opposite_table :: Table

definition OppositeDirection :: "LinkedTable \<Rightarrow> LinkedTable" where
  "OppositeDirection t = \<lparr>this_table = opposite_table t, opposite_table = this_table t\<rparr>"

definition tableHint :: "LinkedTable option \<Rightarrow> u32" where
  "tableHint t = (case t of None \<Rightarrow> 0 | Some t \<Rightarrow> tbl_hint (this_table t))"

definition customPatternForToken :: "string \<Rightarrow> string \<Rightarrow> string" where
  "customPatternForToken token customPattern =
     (if token = asciiModeTokenEntropy then customPattern else [])"

definition tableHintFingerprint :: "(string \<Rightarrow> u32) \<Rightarrow> string \<Rightarrow> string \<Rightarrow> string \<Rightarrow> string \<Rightarrow> u32" where
  "tableHintFingerprint fingerprint key mode uplinkPattern downlinkPattern =
     fingerprint (''sudoku-table-hint'' @ [CHR 0x00] @ key @ [CHR 0x00] @ mode @ [CHR 0x00]
       @ toLower (trimSpace uplinkPattern) @ [CHR 0x00] @ toLower (trimSpace downlinkPattern))"

definition NewTableWithCustom ::
    "(string \<Rightarrow> nat \<Rightarrow> nat) \<Rightarrow> (string \<Rightarrow> u32) \<Rightarrow> string \<Rightarrow> string \<Rightarrow> string \<Rightarrow> layoutError + LinkedTable" where
  "NewTableWithCustom draws fingerprint key mode customPattern =
     bindE (ParseASCIIMode mode) (\<lambda>asciiMode.
       let uplinkPattern = customPatternForToken (Uplink asciiMode) customPattern;
           downlinkPattern = customPatternForToken (Downlink asciiMode) customPattern;
           hint = tableHintFingerprint fingerprint key (Canonical asciiMode) uplinkPattern downlinkPattern
       in bindE (newSingleDirectionTable draws key (uplinkPreference asciiMode) uplinkPattern) (\<lambda>uplink.
         let uplink = uplink\<lparr>tbl_hint := hint\<rparr> in
         if Uplink asciiMode = Downlink asciiMode
         then Inr \<lparr>this_table = uplink, opposite_table = uplink\<rparr>
         else bindE (newSingleDirectionTable draws key (downlinkPreference asciiMode) downlinkPattern)
           (\<lambda>downlink. Inr \<lparr>this_table = uplink, opposite_table = downlink\<lparr>tbl_hint := hint\<rparr>\<rparr>)))"

section \<open>Table sets\<close>

fun newTables :: "(string \<Rightarrow> nat \<Rightarrow> nat) \<Rightarrow> (string \<Rightarrow> u32) \<Rightarrow> string \<Rightarrow> string \<Rightarrow> string list
    \<Rightarrow> layoutError + LinkedTable list" where
  "newTables draws fp key mode [] = Inr []"
| "newTables draws fp key mode (p # ps) =
     bindE (NewTableWithCustom draws fp key mode p) (\<lambda>t.
       bindE (newTables draws fp key mode ps) (\<lambda>ts. Inr (t # ts)))"

definition NewTableSet :: "(string \<Rightarrow> nat \<Rightarrow> nat) \<Rightarrow> (string \<Rightarrow> u32) \<Rightarrow> string \<Rightarrow> string \<Rightarrow> string list
    \<Rightarrow> layoutError + LinkedTable list" where
  "NewTableSet draws fp key mode patterns =
     (if patterns = [] then bindE (NewTableWithCustom draws fp key mode []) (\<lambda>t. Inr [t])
      else newTables draws fp key mode patterns)"

definition normalizeCustomPatterns :: "string \<Rightarrow> string list \<Rightarrow> string list" where
  "normalizeCustomPatterns customTable customTables =
     (let patterns = customTables;
          patterns = (if patterns = [] \<and> trimSpace customTable \<noteq> [] then [customTable] else patterns)
      in if patterns = [] then [[]] else patterns)"

definition normalizeTablePatterns :: "string \<Rightarrow> string \<Rightarrow> string list \<Rightarrow> layoutError + string list" where
  "normalizeTablePatterns tableType customTable customTables =
     (let patterns = normalizeCustomPatterns customTable customTables
      in bindE (ParseASCIIMode tableType) (\<lambda>_. Inr patterns))"

definition NewTablesWithCustomPatterns ::
    "(string \<Rightarrow> nat \<Rightarrow> nat) \<Rightarrow> (string \<Rightarrow> u32) \<Rightarrow> string \<Rightarrow> string \<Rightarrow> string \<Rightarrow> string list
      \<Rightarrow> layoutError + LinkedTable list" where
  "NewTablesWithCustomPatterns draws fp key tableType customTable customTables =
     bindE (normalizeTablePatterns tableType customTable customTables) (\<lambda>patterns.
       newTables draws fp key tableType (map trimSpace patterns))"

definition isValidCustomPattern :: "string \<Rightarrow> bool" where
  "isValidCustomPattern pattern =
     (if length pattern \<noteq> 8 then False
      else count_list pattern (CHR ''x'') = 2 \<and> count_list pattern (CHR ''p'') = 2
        \<and> count_list pattern (CHR ''v'') = 4
        \<and> rev (dropWhile (\<lambda>c. c \<in> set ''xpv'') (rev (dropWhile (\<lambda>c. c \<in> set ''xpv'') pattern))) = [])"

definition normalizeServerCustomPattern :: "string \<Rightarrow> string" where
  "normalizeServerCustomPattern pattern =
     (let pattern = toLower (trimSpace pattern)
      in if \<not> isValidCustomPattern pattern then [] else pattern)"

definition normalizeServerCustomPatterns :: "string list \<Rightarrow> string list" where
  "normalizeServerCustomPatterns patterns =
     filter (\<lambda>p. p \<noteq> []) (map normalizeServerCustomPattern patterns)"

fun fallbackTables :: "(string \<Rightarrow> nat \<Rightarrow> nat) \<Rightarrow> (string \<Rightarrow> u32) \<Rightarrow> string \<Rightarrow> string list \<Rightarrow> string set
    \<Rightarrow> layoutError + LinkedTable list" where
  "fallbackTables draws fp key [] seen = Inr []"
| "fallbackTables draws fp key (t # ts) seen =
     (if t \<in> seen then fallbackTables draws fp key ts seen
      else bindE (NewTableWithCustom draws fp key t []) (\<lambda>table.
        bindE (fallbackTables draws fp key ts (insert t seen)) (\<lambda>tables. Inr (table # tables))))"

definition NewServerTablesWithCustomPatterns ::
    "(string \<Rightarrow> nat \<Rightarrow> nat) \<Rightarrow> (string \<Rightarrow> u32) \<Rightarrow> string \<Rightarrow> string \<Rightarrow> string \<Rightarrow> string list
      \<Rightarrow> layoutError + LinkedTable list" where
  "NewServerTablesWithCustomPatterns draws fp key tableType customTable customTables =
     (let customTable = normalizeServerCustomPattern customTable;
          customTables = normalizeServerCustomPatterns customTables
      in bindE (normalizeTablePatterns tableType customTable customTables) (\<lambda>patterns.
         bindE (ParseASCIIMode tableType) (\<lambda>asciiMode.
         let patterns = (if Uplink asciiMode = ''entropy'' \<and> patterns \<noteq> [] \<and> trimSpace (patterns ! 0) \<noteq> []
                         then [] # patterns else patterns)
         in bindE (NewTablesWithCustomPatterns draws fp key tableType [] patterns) (\<lambda>tables.
           if trimSpace customTable = [] \<and> customTables = []
           then bindE (fallbackTables draws fp key
                  [''prefer_ascii'', ''prefer_entropy'', ''up_ascii_down_entropy'', ''up_entropy_down_ascii'']
                  {toLower (trimSpace tableType)}) (\<lambda>fallbacks. Inr (tables @ fallbacks))
           else Inr tables))))"

section \<open>Hint keys identify hint sets\<close>

text \<open>The network of five compare-and-swap steps sorts.\<close>

definition sortingNetwork :: "'a::linorder \<Rightarrow> 'a \<Rightarrow> 'a \<Rightarrow> 'a \<Rightarrow> 'a list" where
  "sortingNetwork a b c d =
     (let h0 = min a b; h1 = max a b; h2 = min c d; h3 = max c d;
          g0 = min h0 h2; g2 = max h0 h2; g1 = min h1 h3; g3 = max h1 h3
      in [g0, min g1 g2, max g1 g2, g3])"

lemma sorted_sortingNetwork: "sorted (sortingNetwork a b c d)"
  by (auto simp: sortingNetwork_def Let_def min_le_iff_disj le_max_iff_disj)

lemma mset_min_max: "{#min a b, max a b#} = {#a, b :: 'a::linorder#}"
  by (auto simp: min_def max_def)

lemma mset_sortingNetwork: "mset (sortingNetwork a b c d) = mset [a, b, c, d]"
proof -
  define h0 h1 h2 h3 where "h0 = min a b" and "h1 = max a b" and "h2 = min c d" and "h3 = max c d"
  define g0 g2 g1 g3 where "g0 = min h0 h2" and "g2 = max h0 h2" and "g1 = min h1 h3" and "g3 = max h1 h3"
  have "mset (sortingNetwork a b c d) = {#g0, g3#} + {#min g1 g2, max g1 g2#}"
    by (simp add: sortingNetwork_def Let_def g0_def g1_def g2_def g3_def h0_def h1_def h2_def h3_def
        add_mset_commute)
  also have "\<dots> = {#min h0 h2, max h0 h2#} + {#min h1 h3, max h1 h3#}"
    unfolding mset_min_max [of g1 g2] by (simp add: g0_def g1_def g2_def g3_def add_mset_commute)
  also have "\<dots> = {#h0, h2#} + {#h1, h3#}" by (simp only: mset_min_max)
  also have "\<dots> = {#min a b, max a b#} + {#min c d, max c d#}"
    by (simp add: h0_def h1_def h2_def h3_def add_mset_commute)
  also have "\<dots> = mset [a, b, c, d]"
    unfolding mset_min_max by (simp add: add_mset_commute)
  finally show ?thesis .
qed

lemma swap_min_max: "(if a > b then (b, a) else (a, b)) = (min a b, max a (b :: 'a::linorder))"
  by (auto simp: min_def max_def)

lemma packHintBytes_sort: "packHintBytes a b c d = bigEndianUint32 (sort [a, b, c, d])"
proof -
  have "sort [a, b, c, d] = sortingNetwork a b c d"
    by (rule properties_for_sort) (simp_all only: mset_sortingNetwork sorted_sortingNetwork)
  then show ?thesis
    by (simp only: packHintBytes_def swap_min_max Let_def prod.case sortingNetwork_def bigEndianUint32.simps)
qed

lemma list4E:
  assumes "length xs = 4"
  obtains a b c d where "xs = [a, b, c, d]"
  using assms by (auto simp: length_Suc_conv numeral_eq_Suc)

lemma packHintsToKey_sort: "length hs = 4 \<Longrightarrow> packHintsToKey hs = bigEndianUint32 (sort hs)"
  by (auto simp: packHintsToKey_def packHintBytes_sort elim!: list4E)

lemma packHintsToKey_eq_iff:
  assumes "length hs = 4" "length ks = 4"
  shows "packHintsToKey hs = packHintsToKey ks \<longleftrightarrow> mset hs = mset ks"
proof
  assume eq: "packHintsToKey hs = packHintsToKey ks"
  have inj: "xs = ys" if "bigEndianUint32 xs = bigEndianUint32 ys" "length xs = 4" "length ys = 4" for xs ys
    using that by (metis list4E putUint32_bigEndian)
  have "sort hs = sort ks"
    using eq assms by (intro inj) (simp_all add: packHintsToKey_sort)
  then show "mset hs = mset ks" by (metis mset_sort)
next
  assume "mset hs = mset ks"
  then have "sort hs = sort ks" by (metis mset_sort properties_for_sort sorted_sort)
  then show "packHintsToKey hs = packHintsToKey ks" using assms by (simp add: packHintsToKey_sort)
qed

section \<open>The shuffle is a permutation\<close>

lemma mset_shuffle: "i < length xs \<Longrightarrow> mset (shuffle draws i xs) = mset xs"
proof (induction i arbitrary: xs)
  case 0
  then show ?case by simp
next
  case (Suc i)
  let ?j = "draws (Suc i) mod (Suc i + 1)"
  have j: "?j < length xs"
    using Suc.prems mod_less_divisor [of "Suc i + 1" "draws (Suc i)"] by linarith
  have "mset (shuffle draws (Suc i) xs) = mset (xs[Suc i := xs ! ?j, ?j := xs ! Suc i])"
    using Suc.IH [of "xs[Suc i := xs ! ?j, ?j := xs ! Suc i]"] Suc.prems by (simp add: Let_def)
  also have "\<dots> = mset xs" by (rule mset_swap [OF j Suc.prems])
  finally show ?case .
qed

lemma shuffledGrids_perm: "mset (shuffledGridsOf draws GenerateAllGrids) = mset GenerateAllGrids"
  by (simp add: shuffledGridsOf_def Let_def mset_shuffle length_GenerateAllGrids)

lemma shuffledGrids_facts:
  shows length_shuffledGrids: "length (shuffledGridsOf draws GenerateAllGrids) = 288"
    and distinct_shuffledGrids: "distinct (shuffledGridsOf draws GenerateAllGrids)"
    and valid_shuffledGrids: "n < 288 \<Longrightarrow> validGrid (shuffledGridsOf draws GenerateAllGrids ! n)"
proof -
  note perm = shuffledGrids_perm [of draws]
  show len: "length (shuffledGridsOf draws GenerateAllGrids) = 288"
    using mset_eq_length [OF perm] by (simp add: length_GenerateAllGrids)
  show "distinct (shuffledGridsOf draws GenerateAllGrids)"
    using mset_eq_imp_distinct_iff [OF perm] distinct_GenerateAllGrids by simp
  show "n < 288 \<Longrightarrow> validGrid (shuffledGridsOf draws GenerateAllGrids ! n)"
    using mset_eq_setD [OF perm] set_GenerateAllGrids len by (metis mem_Collect_eq nth_mem)
qed

lemma valid_shuffled_byte: "validGrid (shuffledGridsOf draws GenerateAllGrids ! unat (b :: byte))"
proof -
  have "unat b < 256" using unsigned_less [of b] by simp
  then show ?thesis by (intro valid_shuffledGrids) simp
qed

section \<open>Entries of different bytes have different keys\<close>

lemma word_of_nat_byte_eq:
  assumes "a < 256" "b < 256" "(word_of_nat a :: byte) = word_of_nat b"
  shows "a = b"
proof -
  have "unat (word_of_nat a :: byte) = unat (word_of_nat b :: byte)" using assms(3) by simp
  then show ?thesis using assms(1,2) by (simp add: unat_of_nat)
qed

lemma clue_bytes:
  assumes "v \<in> {1, 2, 3, 4}" "w \<in> {1, 2, 3, 4}" "p < 16" "q < (16::nat)"
    and "(word_of_nat v - 1 :: byte) AND 3 = (word_of_nat w - 1) AND 3"
    and "(word_of_nat p :: byte) AND 15 = word_of_nat q AND 15"
  shows "v = w \<and> p = q"
proof -
  have "(word_of_nat p :: byte) AND 15 = word_of_nat p" if "p < 16" for p
    using that unfolding byte_and_mask by (intro word_unat_eq_iff [THEN iffD2])
      (simp add: unsigned_take_bit_eq unat_of_nat take_bit_nat_eq_self)
  then have "(word_of_nat p :: byte) = word_of_nat q" using assms(3,4,6) by simp
  then have "p = q" using assms(3,4) by (intro word_of_nat_byte_eq) simp_all
  moreover have "v = w" using assms(1,2,5) by auto
  ultimately show ?thesis by simp
qed

context layout_contract
begin

lemma hintsOf_hint: "h \<in> set (hintsOf l g ps) \<Longrightarrow> hintTable l h"
  by (auto simp: hintsOf_def hint_of_hintByte)

lemma hintsOf_agree:
  assumes g: "validGrid g" "validGrid h" and ps: "\<forall>p\<in>set ps. p < 16" and qs: "\<forall>q\<in>set qs. q < 16"
    and sub: "set (hintsOf l g ps) \<subseteq> set (hintsOf l h qs)"
  shows "\<forall>p\<in>set ps. h ! p = g ! p"
proof
  fix p assume p: "p \<in> set ps"
  then have "hintByte l (word_of_nat (g ! p) - 1) (word_of_nat p) \<in> set (hintsOf l h qs)"
    using sub by (auto simp: hintsOf_def)
  then obtain q where q: "q \<in> set qs"
    "hintByte l (word_of_nat (g ! p) - 1) (word_of_nat p) = hintByte l (word_of_nat (h ! q) - 1) (word_of_nat q)"
    by (auto simp: hintsOf_def)
  have "g ! p = h ! q \<and> p = q"
    using hintByte_inj [OF q(2)] p q(1) ps qs validGrid_cell [OF g(1)] validGrid_cell [OF g(2)]
    by (intro clue_bytes) auto
  then show "h ! p = g ! p" by metis
qed

end

lemma in_concat_mapI: "n \<in> set ns \<Longrightarrow> x \<in> set (f n) \<Longrightarrow> x \<in> set (concat (map f ns))"
  by auto

lemma tableEntries_iff:
  fixes draws l
  defines "gs \<equiv> shuffledGridsOf draws GenerateAllGrids"
  shows "(b, i, hs) \<in> set (tableEntries l gs (snd sharedSudokuTableData)) \<longleftrightarrow>
     i < length (uniquePositionsOf GenerateAllGrids (gs ! unat b))
     \<and> hs = hintsOf l (gs ! unat b) (uniquePositionsOf GenerateAllGrids (gs ! unat b) ! i)"
proof -
  have us: "snd sharedSudokuTableData (gs ! n) = Some (uniquePositionsOf GenerateAllGrids (gs ! n))"
    if "n < 256" for n
    using valid_shuffledGrids [of n draws] that
    by (simp add: gs_def sharedSudokuTableData_def Let_def set_GenerateAllGrids)
  have "(b, i, hs) \<in> set (tableEntries l gs (snd sharedSudokuTableData)) \<longleftrightarrow>
     (\<exists>n<256. b = word_of_nat n \<and> i < length (uniquePositionsOf GenerateAllGrids (gs ! n))
       \<and> hs = hintsOf l (gs ! n) (uniquePositionsOf GenerateAllGrids (gs ! n) ! i))"
    (is "?L \<longleftrightarrow> ?R")
  proof
    show "?L \<Longrightarrow> ?R" by (auto simp: tableEntries_def Let_def us in_set_enumerate_eq)
    assume ?R
    then obtain n where n: "n < 256" "b = word_of_nat n"
      "(i, uniquePositionsOf GenerateAllGrids (gs ! n) ! i) \<in> set (List.enumerate 0 (uniquePositionsOf GenerateAllGrids (gs ! n)))"
      "hs = hintsOf l (gs ! n) (uniquePositionsOf GenerateAllGrids (gs ! n) ! i)"
      by (auto simp: in_set_enumerate_eq)
    then show ?L unfolding tableEntries_def Let_def
      by (intro in_concat_mapI [where n = n])
        (auto simp: us intro!: image_eqI [where x = "(i, uniquePositionsOf GenerateAllGrids (gs ! n) ! i)"])
  qed
  also have "\<dots> \<longleftrightarrow> i < length (uniquePositionsOf GenerateAllGrids (gs ! unat b))
     \<and> hs = hintsOf l (gs ! unat b) (uniquePositionsOf GenerateAllGrids (gs ! unat b) ! i)"
  proof -
    have "unat (word_of_nat n :: byte) = n" if "n < 256" for n using that by (simp add: unat_of_nat)
    moreover have "unat b < 256" "word_of_nat (unat b) = b" using unsigned_less [of b] by simp_all
    ultimately show ?thesis by metis
  qed
  finally show ?thesis .
qed

lemma storeEntry_decode:
  assumes "\<forall>(b, i, hs)\<in>set es. packHintsToKey hs = k \<longrightarrow> b = v"
    and "(\<exists>(b, i, hs)\<in>set es. packHintsToKey hs = k) \<or> dec k = Some v"
  shows "snd (foldl storeEntry (enc, dec) es) k = Some v"
  using assms
proof (induction es arbitrary: enc dec)
  case Nil
  then show ?case by simp
next
  case (Cons e es)
  obtain b i hs where e: "e = (b, i, hs)" by (cases e)
  have "snd (foldl storeEntry (fst (storeEntry (enc, dec) e), snd (storeEntry (enc, dec) e)) es) k = Some v"
    using Cons.prems by (intro Cons.IH) (auto simp: e)
  then show ?case by simp
qed

lemma storeEntry_encode:
  "set (fst (foldl storeEntry (enc, dec) es) b) = set (enc b) \<union> {hs. (b, 0, hs) \<in> set es}"
proof (induction es arbitrary: enc dec)
  case Nil
  then show ?case by simp
next
  case (Cons e es)
  obtain b' i hs where e: "e = (b', i, hs)" by (cases e)
  show ?case by (auto simp: e Cons.IH split: if_splits)
qed

lemma storeEntry_encode_list:
  "fst (foldl storeEntry (enc, dec) es) b = enc b @ map (snd \<circ> snd) (filter (\<lambda>e. fst e = b \<and> fst (snd e) = 0) es)"
proof (induction es arbitrary: enc dec)
  case Nil
  then show ?case by simp
next
  case (Cons e es)
  obtain b' i hs where e: "e = (b', i, hs)" by (cases e)
  show ?case by (simp add: e Cons.IH)
qed

lemma enumerate_index_0: "length (filter (\<lambda>e. fst (g e) = b \<and> fst (snd (g e)) = 0) (List.enumerate n us)) \<le> 1"
  if "\<And>e. fst (snd (g e)) = fst e"
proof (cases us)
  case (Cons u vs)
  have "filter (\<lambda>e. fst (g e) = b \<and> fst (snd (g e)) = 0) (List.enumerate (Suc n) vs) = []"
    by (auto simp: filter_empty_conv that in_set_enumerate_eq)
  then show ?thesis by (simp add: Cons)
qed simp

lemma concat_one:
  assumes "i < n" "\<And>k. k < n \<Longrightarrow> k \<noteq> i \<Longrightarrow> f k = []"
  shows "concat (map f [0..<n]) = f i"
proof -
  have "[0..<n] = [0..<i] @ i # [Suc i..<n]"
    using assms(1) upt_add_eq_append [of 0 i "n - i"] upt_conv_Cons [of i n] by simp
  moreover have "concat (map f [0..<i]) = []" "concat (map f [Suc i..<n]) = []"
    using assms by auto
  ultimately show ?thesis
    by (simp only: map_append list.map concat.simps concat_append append_Nil append_Nil2)
qed

lemma tableEntries_index_0:
  "length (filter (\<lambda>e. fst e = b \<and> fst (snd e) = 0) (tableEntries l gs u)) \<le> 1"
proof -
  let ?P = "\<lambda>e :: byte \<times> nat \<times> byte list. fst e = b \<and> fst (snd e) = 0"
  define f where "f = (\<lambda>v. filter ?P (map (\<lambda>(i, ps). (word_of_nat v, i, hintsOf l (gs ! v) ps))
    (List.enumerate 0 (case u (gs ! v) of None \<Rightarrow> [] | Some us \<Rightarrow> us))))"
  have "filter ?P (tableEntries l gs u) = concat (map f [0..<256])"
    by (simp add: tableEntries_def filter_concat f_def Let_def comp_def)
  also have "\<dots> = f (unat b)"
  proof (rule concat_one)
    show "unat b < 256" using unsigned_less [of b] by simp
    fix k :: nat
    assume "k < 256" "k \<noteq> unat b"
    moreover have "unat (word_of_nat k :: byte) = k" using \<open>k < 256\<close> by (simp add: unat_of_nat)
    ultimately have "word_of_nat k \<noteq> b" by metis
    then show "f k = []" by (auto simp: f_def filter_empty_conv)
  qed
  finally show ?thesis
    using enumerate_index_0 [of "\<lambda>(i, ps). (word_of_nat (unat b), i, hintsOf l (gs ! unat b) ps)" b 0]
    by (simp add: f_def filter_map comp_def case_prod_beta)
qed

section \<open>The contract of a table\<close>

locale sudoku_table =
  fixes t :: Table
  assumes table_layout: "layout_contract (tbl_layout t)"
    and encode_nonempty: "EncodeTable t b \<noteq> []"
    and encode_small: "length (EncodeTable t b) \<le> 2 ^ 32"
    and encode_length: "puzzle \<in> set (EncodeTable t b) \<Longrightarrow> length puzzle = 4"
    and encode_hints: "puzzle \<in> set (EncodeTable t b) \<Longrightarrow> h \<in> set puzzle \<Longrightarrow> hintTable (tbl_layout t) h"
    and decode_puzzle: "puzzle \<in> set (EncodeTable t b) \<Longrightarrow> mset hs = mset puzzle \<Longrightarrow>
      DecodeMap t (packHintsToKey hs) = Some b"
    and table_pads: "PaddingPool t = paddingPool (tbl_layout t)"
begin

lemma pads_nonempty: "PaddingPool t \<noteq> []"
  using layout_contract.pool_nonempty [OF table_layout] by (simp add: table_pads)

lemma pads_small: "length (PaddingPool t) \<le> 2 ^ 32"
  using layout_contract.pool_small [OF table_layout] by (simp add: table_pads)

lemma pads_not_hints: "p \<in> set (PaddingPool t) \<Longrightarrow> \<not> hintTable (tbl_layout t) p"
  using layout_contract.pad_not_hint [OF table_layout] by (simp add: table_pads)

lemma decode_puzzle_bytes:
  assumes "puzzle \<in> set (EncodeTable t b)" "mset [h0, h1, h2, h3] = mset puzzle"
  shows "DecodeMap t (packHintBytes h0 h1 h2 h3) = Some b"
  using decode_puzzle [OF assms] by (simp add: packHintsToKey_def)

end

text \<open>The clue combinations of a table entry and the key they are stored under.\<close>

lemma tableOfLayout_entry:
  fixes draws l
  defines "gs \<equiv> shuffledGridsOf draws GenerateAllGrids"
  assumes l: "layout_contract l" and ps: "ps \<in> set (uniquePositionsOf GenerateAllGrids (gs ! unat b))"
    and hs: "mset hs = mset (hintsOf l (gs ! unat b) ps)"
  shows "DecodeMap (tableOfLayout draws l) (packHintsToKey hs) = Some b"
proof -
  let ?es = "tableEntries l gs (snd sharedSudokuTableData)"
  have valid: "validGrid (gs ! unat b)" for b :: byte
    by (simp add: gs_def valid_shuffled_byte)
  note clues = uniquePositionsOf_iff [OF valid, THEN iffD1]
  have len: "length hs = 4"
    using mset_eq_length [OF hs] clues [OF ps] by (simp add: hintsOf_def)
  from ps obtain i where i: "i < length (uniquePositionsOf GenerateAllGrids (gs ! unat b))"
    "uniquePositionsOf GenerateAllGrids (gs ! unat b) ! i = ps" by (auto simp: in_set_conv_nth)
  then have mem: "(b, i, hintsOf l (gs ! unat b) ps) \<in> set ?es"
    by (simp add: gs_def tableEntries_iff)
  have key: "packHintsToKey (hintsOf l (gs ! unat b) ps) = packHintsToKey hs"
    using hs len clues [OF ps] by (simp add: packHintsToKey_eq_iff hintsOf_def)
  have same: "b' = b" if "(b', i', hs') \<in> set ?es" "packHintsToKey hs' = packHintsToKey hs" for b' i' hs'
  proof -
    from that(1) obtain qs where qs: "qs \<in> set (uniquePositionsOf GenerateAllGrids (gs ! unat b'))"
      and hs': "hs' = hintsOf l (gs ! unat b') qs"
      unfolding gs_def tableEntries_iff by (blast intro: nth_mem)
    have "mset hs' = mset hs"
      using that(2) len clues [OF qs] by (simp add: packHintsToKey_eq_iff hs' hintsOf_def)
    then have "set (hintsOf l (gs ! unat b) ps) \<subseteq> set (hintsOf l (gs ! unat b') qs)"
      using hs hs' by (metis mset_eq_setD order_refl)
    then have "\<forall>p\<in>set ps. gs ! unat b' ! p = gs ! unat b ! p"
      using layout_contract.hintsOf_agree [OF l valid valid] clues [OF ps] clues [OF qs] by blast
    then have "gs ! unat b' = gs ! unat b" using clues [OF ps] valid by blast
    moreover have "unat c < 288" for c :: byte
    proof -
      have "unat c < 256" using unsigned_less [of c] by simp
      then show ?thesis by simp
    qed
    ultimately have "unat b' = unat b"
      using distinct_shuffledGrids [of draws] length_shuffledGrids [of draws]
      by (simp add: gs_def nth_eq_iff_index_eq)
    then show ?thesis by (simp add: word_unat_eq_iff)
  qed
  have "snd (foldl storeEntry (\<lambda>_. [], Map.empty) ?es) (packHintsToKey hs) = Some b"
    using mem key same by (intro storeEntry_decode) blast+
  then show ?thesis
    by (simp add: tableOfLayout_def Let_def gs_def sharedSudokuTableData_def case_prod_beta)
qed

lemma tableOfLayout_puzzles:
  "set (EncodeTable (tableOfLayout draws l) b) =
    {hintsOf l (shuffledGridsOf draws GenerateAllGrids ! unat b)
       (uniquePositionsOf GenerateAllGrids (shuffledGridsOf draws GenerateAllGrids ! unat b) ! 0)}"
proof -
  let ?gs = "shuffledGridsOf draws GenerateAllGrids"
  have "0 < length (uniquePositionsOf GenerateAllGrids (?gs ! unat b))"
    using unique_clues_exist [OF valid_shuffled_byte] by blast
  moreover have "set (EncodeTable (tableOfLayout draws l) b) =
      {hs. (b, 0, hs) \<in> set (tableEntries l ?gs (snd sharedSudokuTableData))}"
    using storeEntry_encode [of "\<lambda>_. []" Map.empty "tableEntries l ?gs (snd sharedSudokuTableData)" b]
    by (simp add: tableOfLayout_def Let_def sharedSudokuTableData_def case_prod_beta)
  ultimately show ?thesis by (auto simp: tableEntries_iff)
qed

lemma tableOfLayout_contract:
  assumes "layout_contract l"
  shows "sudoku_table (tableOfLayout draws l)"
proof -
  let ?gs = "shuffledGridsOf draws GenerateAllGrids" and ?t = "tableOfLayout draws l"
  have lay: "tbl_layout ?t = l" "PaddingPool ?t = paddingPool l"
    by (simp_all add: tableOfLayout_def Let_def case_prod_beta)
  have ps: "uniquePositionsOf GenerateAllGrids (?gs ! unat b) ! 0
      \<in> set (uniquePositionsOf GenerateAllGrids (?gs ! unat b))"
    for b :: byte
    using unique_clues_exist [OF valid_shuffled_byte] by simp
  show ?thesis
  proof (rule sudoku_table.intro)
    fix b :: byte and puzzle hs :: "byte list" and h :: byte
    show "layout_contract (tbl_layout ?t)" "PaddingPool ?t = paddingPool (tbl_layout ?t)"
      using assms by (simp_all add: lay)
    have "set (EncodeTable ?t b) \<noteq> {}" unfolding tableOfLayout_puzzles by (rule insert_not_empty)
    then show "EncodeTable ?t b \<noteq> []" by (simp only: set_empty not_False_eq_True)
    have "length (EncodeTable ?t b) \<le> 1"
      using tableEntries_index_0 [of b l ?gs "snd sharedSudokuTableData"]
      by (simp add: tableOfLayout_def Let_def sharedSudokuTableData_def case_prod_beta
          storeEntry_encode_list)
    then show "length (EncodeTable ?t b) \<le> 2 ^ 32" by simp
    assume p: "puzzle \<in> set (EncodeTable ?t b)"
    show "length puzzle = 4"
      using p uniquePositionsOf_iff [OF valid_shuffled_byte, THEN iffD1, OF ps [of b]]
      by (simp add: tableOfLayout_puzzles hintsOf_def)
    show "h \<in> set puzzle \<Longrightarrow> hintTable (tbl_layout ?t) h"
      using p layout_contract.hintsOf_hint [OF assms] by (auto simp: tableOfLayout_puzzles lay)
    show "mset hs = mset puzzle \<Longrightarrow> DecodeMap ?t (packHintsToKey hs) = Some b"
      using p tableOfLayout_entry [OF assms ps [of b]] by (simp add: tableOfLayout_puzzles)
  qed
qed

context layout_contract
begin

lemma hintsOf_distinct:
  assumes "distinct ps" "\<forall>p\<in>set ps. p < 16" "validGrid g"
  shows "distinct (hintsOf l g ps)"
proof -
  have "p = q" if "p \<in> set ps" "q \<in> set ps"
    "hintByte l (word_of_nat (g ! p) - 1) (word_of_nat p) = hintByte l (word_of_nat (g ! q) - 1) (word_of_nat q)" for p q
  proof -
    have "g ! p = g ! q \<and> p = q"
      using hintByte_inj [OF that(3)] that(1, 2) assms(2) validGrid_cell [OF assms(3)]
      by (intro clue_bytes) auto
    then show ?thesis ..
  qed
  then show ?thesis using assms(1) by (auto simp: hintsOf_def distinct_map inj_on_def)
qed

end

lemma storeEntry_dom:
  "snd (foldl storeEntry (enc, dec) es) k = Some v \<Longrightarrow>
     dec k = Some v \<or> (\<exists>b i hs. (b, i, hs) \<in> set es \<and> packHintsToKey hs = k)"
proof (induction es arbitrary: enc dec)
  case (Cons e es)
  obtain b i hs where e: "e = (b, i, hs)" by (cases e)
  have "snd (foldl storeEntry (fst (storeEntry (enc, dec) e), snd (storeEntry (enc, dec) e)) es) k = Some v"
    using Cons.prems by simp
  from Cons.IH [OF this] show ?case by (auto simp: e split: if_splits)
qed simp

text \<open>Four equal hints are no clue combination: the decoder misses.\<close>

lemma tableOfLayout_miss:
  assumes "layout_contract l"
  shows "DecodeMap (tableOfLayout draws l) (packHintBytes h h h h) = None"
proof (rule ccontr)
  let ?gs = "shuffledGridsOf draws GenerateAllGrids"
  assume "DecodeMap (tableOfLayout draws l) (packHintBytes h h h h) \<noteq> None"
  then obtain v where "snd (foldl storeEntry (\<lambda>_. [], Map.empty) (tableEntries l ?gs (snd sharedSudokuTableData)))
      (packHintBytes h h h h) = Some v"
    by (auto simp: tableOfLayout_def Let_def sharedSudokuTableData_def case_prod_beta)
  from storeEntry_dom [OF this] obtain b i hs where
    entry: "(b, i, hs) \<in> set (tableEntries l ?gs (snd sharedSudokuTableData))"
    and key: "packHintsToKey hs = packHintBytes h h h h" by auto
  from entry obtain ps where ps: "ps \<in> set (uniquePositionsOf GenerateAllGrids (?gs ! unat b))"
    and hs: "hs = hintsOf l (?gs ! unat b) ps"
    unfolding tableEntries_iff by (blast intro: nth_mem)
  note clues = uniquePositionsOf_iff [OF valid_shuffled_byte, THEN iffD1, OF ps]
  have "distinct hs" unfolding hs
    using clues layout_contract.hintsOf_distinct [OF assms _ _ valid_shuffled_byte]
    by (auto simp: strict_sorted_iff)
  moreover have "mset hs = mset [h, h, h, h]"
    using key clues packHintsToKey_eq_iff [of hs "[h, h, h, h]"] by (simp add: packHintsToKey_def hs hintsOf_def)
  ultimately show False by (metis mset_eq_imp_distinct_iff distinct_length_2_or_more)
qed

interpretation ascii_table: sudoku_table "tableOfLayout draws newASCIILayout" for draws
  by (rule tableOfLayout_contract) (rule ascii.layout_contract_axioms)

interpretation entropy_table: sudoku_table "tableOfLayout draws newEntropyLayout" for draws
  by (rule tableOfLayout_contract) (rule entropy.layout_contract_axioms)

lemma sudoku_table_hint: "sudoku_table t \<Longrightarrow> sudoku_table (t\<lparr>tbl_hint := h\<rparr>)"
  by (simp add: sudoku_table_def)

lemma newSingleDirectionTable_contract:
  "newSingleDirectionTable draws key mode pattern = Inr t \<Longrightarrow> sudoku_table t"
  by (auto simp: newSingleDirectionTable_def bindE_eq_Inr intro: tableOfLayout_contract resolveLayout_contract)

lemma NewTableWithCustom_contract:
  assumes "NewTableWithCustom draws fp key mode pattern = Inr t"
  shows "sudoku_table (this_table t) \<and> sudoku_table (opposite_table t)"
  using assms
  by (auto simp: NewTableWithCustom_def bindE_eq_Inr Let_def split: if_splits
      intro!: sudoku_table_hint dest: newSingleDirectionTable_contract)

section \<open>Construction succeeds\<close>

text \<open>A pattern a table can be built from: none, or eight letters with the right counts.\<close>

definition usablePattern :: "string \<Rightarrow> bool" where
  "usablePattern p \<longleftrightarrow> trimSpace p = [] \<or> (\<exists>l. newCustomLayout p = Inr l)"

lemma Preference_prefs:
  "singleDirectionPreference token = ''prefer_ascii'' \<or> singleDirectionPreference token = ''prefer_entropy''"
  by (simp add: singleDirectionPreference_def)

lemma resolveLayout_usable:
  assumes "usablePattern p" "mode = ''prefer_ascii'' \<or> mode = ''prefer_entropy''"
  obtains l where "resolveLayout mode p = Inr l"
proof (cases "mode = ''prefer_ascii''")
  case True
  have "toLower ''prefer_ascii'' = ''prefer_ascii''" by code_simp
  with True that show ?thesis by (simp add: resolveLayout_def)
next
  case False
  moreover have "toLower ''prefer_entropy'' = ''prefer_entropy''" by code_simp
  ultimately have "resolveLayout mode p =
      (if trimSpace p \<noteq> [] then newCustomLayout p else Inr newEntropyLayout)"
    using assms(2) by (simp add: resolveLayout_def)
  with assms(1) that show ?thesis by (auto simp: usablePattern_def split: if_splits)
qed

lemma newSingleDirectionTable_usable:
  assumes "usablePattern p" "mode = singleDirectionPreference token"
  obtains t where "newSingleDirectionTable draws key mode p = Inr t"
  using resolveLayout_usable [OF assms(1), of mode] Preference_prefs [of token] assms(2)
  by (metis newSingleDirectionTable_def bindE_simps(2))

lemma usable_customPatternForToken: "usablePattern p \<Longrightarrow> usablePattern (customPatternForToken token p)"
  by (simp add: customPatternForToken_def usablePattern_def)

lemma NewTableWithCustom_usable:
  assumes "ParseASCIIMode mode = Inr m" "usablePattern p"
  obtains t where "NewTableWithCustom draws fp key mode p = Inr t"
proof -
  let ?pat = "\<lambda>token. customPatternForToken token p"
  obtain u where u: "newSingleDirectionTable draws key (uplinkPreference m) (?pat (Uplink m)) = Inr u"
    using newSingleDirectionTable_usable [OF usable_customPatternForToken [OF assms(2)]]
    by (metis uplinkPreference_def)
  obtain d where "newSingleDirectionTable draws key (downlinkPreference m) (?pat (Downlink m)) = Inr d"
    using newSingleDirectionTable_usable [OF usable_customPatternForToken [OF assms(2)]]
    by (metis downlinkPreference_def)
  with u assms(1) that show ?thesis
    by (cases "Uplink m = Downlink m") (simp_all add: NewTableWithCustom_def Let_def)
qed

lemma newTables_usable:
  assumes "ParseASCIIMode mode = Inr m" "\<forall>p\<in>set ps. usablePattern p"
  shows "\<exists>ts. newTables draws fp key mode ps = Inr ts \<and> length ts = length ps"
  using assms(2)
proof (induction ps)
  case (Cons p ps)
  then obtain ts where "newTables draws fp key mode ps = Inr ts" "length ts = length ps" by auto
  moreover obtain t where "NewTableWithCustom draws fp key mode p = Inr t"
    using NewTableWithCustom_usable [OF assms(1), of p draws fp key] Cons.prems by auto
  ultimately show ?case by simp
qed simp

lemma newTables_contract:
  "newTables draws fp key mode ps = Inr ts \<Longrightarrow> t \<in> set ts \<Longrightarrow>
     sudoku_table (this_table t) \<and> sudoku_table (opposite_table t)"
  by (induction ps arbitrary: ts) (auto simp: bindE_eq_Inr dest: NewTableWithCustom_contract)

lemma fallbackTables_usable:
  assumes "\<forall>m\<in>set ms. \<exists>a. ParseASCIIMode m = Inr a"
  shows "\<exists>ts. fallbackTables draws fp key ms seen = Inr ts"
  using assms
proof (induction ms arbitrary: seen)
  case (Cons m ms)
  then obtain a where "ParseASCIIMode m = Inr a" by auto
  then obtain t where "NewTableWithCustom draws fp key m [] = Inr t"
    using NewTableWithCustom_usable [of m a "[]" draws fp key] by (auto simp: usablePattern_def)
  moreover obtain ts where "fallbackTables draws fp key ms (insert m seen) = Inr ts"
    using Cons by fastforce
  ultimately show ?case using Cons by auto
qed simp

lemma fallbackTables_contract:
  "fallbackTables draws fp key ms seen = Inr ts \<Longrightarrow> t \<in> set ts \<Longrightarrow>
     sudoku_table (this_table t) \<and> sudoku_table (opposite_table t)"
  by (induction ms arbitrary: seen ts)
    (auto simp: bindE_eq_Inr split: if_splits dest: NewTableWithCustom_contract)

lemma trim_Nil_all:
  assumes "rev (dropWhile P (rev (dropWhile P xs))) = []"
  shows "\<forall>x\<in>set xs. P x"
proof -
  let ?ys = "dropWhile P xs"
  have all: "\<forall>x\<in>set ?ys. P x" using assms by (simp add: dropWhile_eq_Nil_conv)
  have "?ys = []"
  proof (rule ccontr)
    assume "?ys \<noteq> []"
    then show False using hd_dropWhile [of P xs] all hd_in_set by blast
  qed
  then show ?thesis by (simp add: dropWhile_eq_Nil_conv)
qed

lemma isValidCustomPattern_usable:
  assumes "isValidCustomPattern p" "toLower p = p" "trimSpace p = p"
  shows "usablePattern p"
proof -
  note valid = assms(1) [unfolded isValidCustomPattern_def if_bool_eq_conj simp_thms not_not]
  from valid have trim: "rev (dropWhile (\<lambda>c. c \<in> set ''xpv'') (rev (dropWhile (\<lambda>c. c \<in> set ''xpv'') p))) = []"
    by blast
  from trim have letters: "\<forall>c\<in>set p. c \<in> set ''xpv''" by (rule trim_Nil_all)
  have "CHR '' '' \<notin> set ''xpv''" by simp
  with letters have "\<forall>c\<in>set p. c \<noteq> CHR '' ''" by metis
  then have "filter (\<lambda>c. c \<noteq> CHR '' '') p = p" by (simp only: filter_id_conv)
  then have clean: "cleanPattern p = p" using assms(2, 3) by (simp add: cleanPattern_def)
  have "set p \<subseteq> {CHR ''x'', CHR ''p'', CHR ''v''}" using letters by auto
  moreover have "count_list p (CHR ''x'') = 2" "count_list p (CHR ''p'') = 2" "count_list p (CHR ''v'') = 4"
    using valid by blast+
  ultimately have "\<exists>l. newCustomLayout p = Inr l"
    unfolding newCustomLayout_success clean by blast
  then show ?thesis by (simp add: usablePattern_def)
qed

lemma normalizeServerCustomPattern_usable:
  "usablePattern (normalizeServerCustomPattern p)"
  "trimSpace (normalizeServerCustomPattern p) = normalizeServerCustomPattern p"
  by (simp_all add: normalizeServerCustomPattern_def Let_def isValidCustomPattern_usable)
    (simp add: usablePattern_def)

lemma normalizeTablePatterns_usable:
  assumes "usablePattern c" "\<forall>p\<in>set cs. usablePattern p" "normalizeTablePatterns mode c cs = Inr ps"
  shows "ps \<noteq> [] \<and> (\<forall>p\<in>set ps. usablePattern p)"
proof -
  have "usablePattern []" by (simp add: usablePattern_def)
  with assms show ?thesis
    by (auto simp: normalizeTablePatterns_def normalizeCustomPatterns_def Let_def bindE_eq_Inr
        split: if_splits)
qed

lemma usable_trimSpace: "usablePattern p \<Longrightarrow> usablePattern (trimSpace p)"
  by (auto simp: usablePattern_def newCustomLayout_def cleanPattern_def)

lemma fallback_modes_parse:
  "\<forall>m\<in>set [''prefer_ascii'', ''prefer_entropy'', ''up_ascii_down_entropy'', ''up_entropy_down_ascii''].
     \<exists>a. ParseASCIIMode m = Inr a"
proof -
  have "ParseASCIIMode ''prefer_ascii'' = Inr \<lparr>Uplink = ''ascii'', Downlink = ''ascii''\<rparr>"
    "ParseASCIIMode ''prefer_entropy'' = Inr \<lparr>Uplink = ''entropy'', Downlink = ''entropy''\<rparr>"
    "ParseASCIIMode ''up_ascii_down_entropy'' = Inr \<lparr>Uplink = ''ascii'', Downlink = ''entropy''\<rparr>"
    "ParseASCIIMode ''up_entropy_down_ascii'' = Inr \<lparr>Uplink = ''entropy'', Downlink = ''ascii''\<rparr>"
    by code_simp+
  then show ?thesis by simp
qed

text \<open>The list of patterns the server builds its first tables from.\<close>

lemma NewTablesWithCustomPatterns_usable:
  assumes "ParseASCIIMode mode = Inr m" "ps \<noteq> []" "\<forall>p\<in>set ps. usablePattern p"
  shows "\<exists>ts. NewTablesWithCustomPatterns draws fp key mode [] ps = Inr ts \<and> ts \<noteq> []"
proof -
  have "normalizeTablePatterns mode [] ps = Inr ps"
    using assms by (simp add: normalizeTablePatterns_def normalizeCustomPatterns_def)
  moreover obtain ts where "newTables draws fp key mode (map trimSpace ps) = Inr ts" "length ts = length ps"
    using newTables_usable [OF assms(1), of "map trimSpace ps" draws fp key] assms(3)
    by (auto simp: usable_trimSpace)
  ultimately show ?thesis using assms(2) by (auto simp: NewTablesWithCustomPatterns_def)
qed

lemma NewTablesWithCustomPatterns_contract:
  "NewTablesWithCustomPatterns draws fp key mode c cs = Inr ts \<Longrightarrow> t \<in> set ts \<Longrightarrow>
     sudoku_table (this_table t) \<and> sudoku_table (opposite_table t)"
  unfolding NewTablesWithCustomPatterns_def bindE_eq_Inr by (metis newTables_contract)

lemma NewServerTables_usable:
  assumes "ParseASCIIMode mode = Inr m"
  shows "\<exists>ts. NewServerTablesWithCustomPatterns draws fp key mode c cs = Inr ts \<and> ts \<noteq> []"
proof -
  let ?c = "normalizeServerCustomPattern c" and ?cs = "normalizeServerCustomPatterns cs"
  obtain ps where ps: "normalizeTablePatterns mode ?c ?cs = Inr ps"
    using assms by (simp add: normalizeTablePatterns_def)
  have "\<forall>p\<in>set ?cs. usablePattern p"
    by (auto simp: normalizeServerCustomPatterns_def normalizeServerCustomPattern_usable)
  with ps have good: "ps \<noteq> []" "\<forall>p\<in>set ps. usablePattern p"
    using normalizeTablePatterns_usable normalizeServerCustomPattern_usable(1) by blast+
  define qs where "qs = (if Uplink m = ''entropy'' \<and> ps \<noteq> [] \<and> trimSpace (ps ! 0) \<noteq> [] then [] # ps else ps)"
  have "qs \<noteq> []" "\<forall>p\<in>set qs. usablePattern p"
    using good by (auto simp: qs_def usablePattern_def)
  then obtain ts where ts: "NewTablesWithCustomPatterns draws fp key mode [] qs = Inr ts" "ts \<noteq> []"
    using NewTablesWithCustomPatterns_usable [OF assms] by blast
  obtain fs where fs: "fallbackTables draws fp key
      [''prefer_ascii'', ''prefer_entropy'', ''up_ascii_down_entropy'', ''up_entropy_down_ascii'']
      {toLower (trimSpace mode)} = Inr fs"
    using fallbackTables_usable [OF fallback_modes_parse] by blast
  show ?thesis
    unfolding NewServerTablesWithCustomPatterns_def Let_def ps assms bindE_simps qs_def [symmetric] ts fs
    using ts(2) by simp
qed

lemma NewServerTables_contract:
  assumes "NewServerTablesWithCustomPatterns draws fp key mode c cs = Inr ts" "t \<in> set ts"
  shows "sudoku_table (this_table t) \<and> sudoku_table (opposite_table t)"
  using assms(1) assms(2)
  unfolding NewServerTablesWithCustomPatterns_def Let_def bindE_eq_Inr
  by (auto simp: bindE_eq_Inr simp del: fallbackTables.simps split: if_splits
      dest: NewTablesWithCustomPatterns_contract fallbackTables_contract)

section \<open>Properties of the tables\<close>

text \<open>PackHintBytes gives four hint bytes a key that does not depend on the order they
  arrive in and that no other collection of hint bytes has.\<close>

lemma packHintBytes_order_independent:
  "packHintBytes a b c d = packHintBytes a' b' c' d' \<longleftrightarrow> mset [a, b, c, d] = mset [a', b', c', d']"
  using packHintsToKey_eq_iff [of "[a, b, c, d]" "[a', b', c', d']"] by (simp add: packHintsToKey_def)

text \<open>C27: for every key and every accepted mode and pattern, both directions of the table
  NewTableWithCustom returns have an encoding of every byte, by four bytes the decoder takes
  for hints, and looking the four bytes up in any order returns that byte and no other.\<close>

theorem NewTableWithCustom_decodes:
  assumes "NewTableWithCustom draws fp key mode pattern = Inr lt"
    and "t \<in> {this_table lt, opposite_table lt}"
  shows "EncodeTable t b \<noteq> []
    \<and> list_all (\<lambda>puzzle. length puzzle = 4 \<and> list_all (hintTable (tbl_layout t)) puzzle) (EncodeTable t b)
    \<and> list_all (\<lambda>puzzle. mset [h0, h1, h2, h3] \<noteq> mset puzzle
                          \<or> DecodeMap t (packHintBytes h0 h1 h2 h3) = Some b) (EncodeTable t b)
    \<and> \<not> list_ex (hintTable (tbl_layout t)) (PaddingPool t)"
proof -
  have t: "sudoku_table t" using NewTableWithCustom_contract [OF assms(1)] assms(2) by auto
  show ?thesis
    using sudoku_table.encode_nonempty [OF t] sudoku_table.encode_length [OF t] sudoku_table.encode_hints [OF t]
      sudoku_table.decode_puzzle_bytes [OF t] sudoku_table.pads_not_hints [OF t]
    by (auto simp: list_all_iff list_ex_iff)
qed

theorem NewTableWithCustom_decodes_witness:
  "let t = (tableOfLayout (\<lambda>_. 0) newASCIILayout)\<lparr>tbl_hint := 7\<rparr>; p = EncodeTable t 65 ! 0 in
     NewTableWithCustom (\<lambda>_ _. 0) (\<lambda>_. 7) ''key'' ''ascii'' [] = Inr \<lparr>this_table = t, opposite_table = t\<rparr>
     \<and> length p = 4 \<and> DecodeMap t (packHintBytes (p ! 3) (p ! 1) (p ! 0) (p ! 2)) = Some 65"
proof -
  define t where "t = (tableOfLayout (\<lambda>_. 0) newASCIILayout)\<lparr>tbl_hint := 7\<rparr>"
  have "resolveLayout ''prefer_ascii'' [] = Inr newASCIILayout"
    "ParseASCIIMode ''ascii'' = Inr \<lparr>Uplink = ''ascii'', Downlink = ''ascii''\<rparr>"
    "uplinkPreference \<lparr>Uplink = ''ascii'', Downlink = ''ascii''\<rparr> = ''prefer_ascii''"
    "customPatternForToken ''ascii'' [] = []"
    by code_simp+
  then have ok: "NewTableWithCustom (\<lambda>_ _. 0) (\<lambda>_. 7) ''key'' ''ascii'' []
      = Inr \<lparr>this_table = t, opposite_table = t\<rparr>"
    by (simp add: NewTableWithCustom_def newSingleDirectionTable_def tableHintFingerprint_def t_def Let_def)
  note facts = NewTableWithCustom_decodes [OF ok, of t 65]
  define p where "p = EncodeTable t 65 ! 0"
  have p: "p \<in> set (EncodeTable t 65)" "length p = 4"
    using facts by (simp_all add: p_def list_all_iff)
  then have "mset [p ! 3, p ! 1, p ! 0, p ! 2] = mset p"
    by (auto simp: add_mset_commute elim!: list4E)
  with p have "DecodeMap t (packHintBytes (p ! 3) (p ! 1) (p ! 0) (p ! 2)) = Some 65"
    using facts [of "p ! 3" "p ! 1" "p ! 0" "p ! 2"] by (auto simp: list_all_iff)
  with ok p show ?thesis by (simp add: t_def p_def Let_def)
qed

text \<open>Whatever stale or malformed custom patterns the panel delivers, the server gets a
  non-empty list of working tables for every table type that parses, and the error of
  ParseASCIIMode otherwise.\<close>

lemma NewServerTables_total:
  "case ParseASCIIMode mode of
     Inl e \<Rightarrow> NewServerTablesWithCustomPatterns draws fp key mode custom customs = Inl e
   | Inr m \<Rightarrow> (\<exists>tables. NewServerTablesWithCustomPatterns draws fp key mode custom customs = Inr tables
       \<and> tables \<noteq> []
       \<and> list_all (\<lambda>t. sudoku_table (this_table t) \<and> sudoku_table (opposite_table t)) tables)"
proof (cases "ParseASCIIMode mode")
  case (Inl e)
  then show ?thesis by (simp add: NewServerTablesWithCustomPatterns_def normalizeTablePatterns_def)
next
  case (Inr m)
  then show ?thesis
    using NewServerTables_usable [OF Inr, of draws fp key custom customs]
      NewServerTables_contract [of draws fp key mode custom customs]
    by (auto simp: list_all_iff)
qed

end
