(* ===== verification/Conn_Util.thy ===== *)
theory Conn_Util
  imports Prelude
begin

text \<open>
  Network endpoints and the write helpers of transport/connutil (connutil.go,
  write\_buffers.go), with the part of bufio.Reader the codecs use.

  A writer is the bytes it has accepted, the sizes of the Write calls it has seen and the
  script of its answers: an answer is the count and the error the next Write call returns,
  and a writer whose script is used up accepts everything. A reader is the chunks the
  network will still deliver and the error that follows them.
\<close>

section \<open>Writers\<close>

record writer =
  wr_out :: "byte list"
  wr_calls :: "nat list"
  wr_script :: "(int \<times> ioerr option) list"

definition connWrite :: "writer \<Rightarrow> byte list \<Rightarrow> (int \<times> ioerr option) \<times> writer" where
  "connWrite w b =
     (case wr_script w of
        [] \<Rightarrow> ((int (length b), None),
               w\<lparr>wr_out := wr_out w @ b, wr_calls := wr_calls w @ [length b]\<rparr>)
      | (n, err) # rest \<Rightarrow>
          ((n, err), w\<lparr>wr_out := wr_out w @ take (nat n) b, wr_calls := wr_calls w @ [length b],
                       wr_script := rest\<rparr>))"

text \<open>connutil.WriteFull: the loop stops at the first error, at an impossible count and at a
  write without progress.\<close>

function WriteFull :: "writer \<Rightarrow> byte list \<Rightarrow> ioerr option \<times> writer" where
  "WriteFull w b =
     (if b = [] then (None, w)
      else let ((n, err), w') = connWrite w b in
        if n < 0 \<or> n > int (length b) then (Some ErrShortWrite, w')
        else case err of
            Some e \<Rightarrow> (Some e, w')
          | None \<Rightarrow> if n = 0 then (Some ErrShortWrite, w') else WriteFull w' (drop (nat n) b))"
  by pat_completeness auto
termination
  by (relation "measure (\<lambda>(w, b). length b)") auto

declare WriteFull.simps [simp del]

text \<open>connutil.WriteBuffers on a writer without a coalescing path of its own.\<close>

function writeOneBuffer :: "writer \<Rightarrow> byte list \<Rightarrow> nat \<Rightarrow> nat \<times> ioerr option \<times> writer" where
  "writeOneBuffer w p tot =
     (if p = [] then (tot, None, w)
      else let ((n, err), w') = connWrite w p in
        if n < 0 \<or> n > int (length p) then (tot, Some ErrShortWrite, w')
        else let tot' = tot + nat n in
          case err of
            Some e \<Rightarrow> (tot', Some e, w')
          | None \<Rightarrow> if n = 0 then (tot', Some ErrShortWrite, w')
                    else writeOneBuffer w' (drop (nat n) p) tot')"
  by pat_completeness auto
termination
  by (relation "measure (\<lambda>(w, p, t). length p)") auto

declare writeOneBuffer.simps [simp del]

fun writeBuffersFrom :: "writer \<Rightarrow> byte list list \<Rightarrow> nat \<Rightarrow> nat \<times> ioerr option \<times> writer" where
  "writeBuffersFrom w [] tot = (tot, None, w)"
| "writeBuffersFrom w (p # ps) tot =
     (case writeOneBuffer w p tot of
        (tot', Some e, w') \<Rightarrow> (tot', Some e, w')
      | (tot', None, w') \<Rightarrow> writeBuffersFrom w' ps tot')"

definition WriteBuffers :: "writer \<Rightarrow> byte list list \<Rightarrow> nat \<times> ioerr option \<times> writer" where
  "WriteBuffers w buffers = writeBuffersFrom w buffers 0"

text \<open>The coalescing path: the writer's own WriteBuffers answered (n, err).\<close>

definition coalescedResult :: "nat \<Rightarrow> ioerr option \<Rightarrow> byte list list \<Rightarrow> nat \<times> ioerr option" where
  "coalescedResult n err buffers =
     (case err of
        None \<Rightarrow> (n, if n \<noteq> sum_list (map length buffers) then Some ErrShortWrite else None)
      | Some e \<Rightarrow> (n, Some e))"

section \<open>Half-closing\<close>

text \<open>The optional interfaces a connection implements, and which close operation a helper
  reaches through them.\<close>

record closeCaps =
  has_closeRead :: bool
  has_closeWrite :: bool
  has_close :: bool

datatype closeAction = NoClose | DoCloseRead | DoCloseWrite | DoClose

definition TryCloseRead :: "closeCaps option \<Rightarrow> closeAction" where
  "TryCloseRead target =
     (case target of None \<Rightarrow> NoClose
      | Some c \<Rightarrow> if has_closeRead c then DoCloseRead else NoClose)"

definition TryCloseWrite :: "closeCaps option \<Rightarrow> closeAction" where
  "TryCloseWrite target =
     (case target of None \<Rightarrow> NoClose
      | Some c \<Rightarrow> if has_closeWrite c then DoCloseWrite
                 else if has_close c then DoClose else NoClose)"

section \<open>Buffered readers\<close>

record source =
  src_chunks :: "byte list list"
  src_final :: ioerr

definition connRead :: "source \<Rightarrow> nat \<Rightarrow> byte list \<times> ioerr option \<times> source" where
  "connRead s k =
     (case src_chunks s of
        [] \<Rightarrow> ([], Some (src_final s), s)
      | c # cs \<Rightarrow>
          if length c \<le> k then (c, None, s\<lparr>src_chunks := cs\<rparr>)
          else (take k c, None, s\<lparr>src_chunks := drop k c # cs\<rparr>))"

text \<open>bufio.Reader.fill on an empty buffer of the given size: at most 100 empty reads.\<close>

fun bufioFill :: "nat \<Rightarrow> nat \<Rightarrow> source \<Rightarrow> byte list \<times> ioerr option \<times> source" where
  "bufioFill sz 0 s = ([], Some (ErrIO ''multiple Read calls return no data or error''), s)"
| "bufioFill sz (Suc i) s =
     (let (b, err, s') = connRead s sz in
      if err \<noteq> None \<or> b \<noteq> [] then (b, err, s') else bufioFill sz i s')"

definition IOBufferSize :: nat where "IOBufferSize = 32 * 1024"

text \<open>peekBufferedChunk on the buffered bytes buf: Peek(1) fills an empty buffer.\<close>

definition peekBufferedChunk :: "byte list \<Rightarrow> source \<Rightarrow> (ioerr + byte list) \<times> source" where
  "peekBufferedChunk buf s =
     (if buf = [] then
        let (b, err, s') = bufioFill IOBufferSize 100 s in
        if b = [] then (Inl (case err of Some e \<Rightarrow> e | None \<Rightarrow> EOF), s') else (Inr b, s')
      else (Inr buf, s))"

section \<open>Lemmas\<close>

text \<open>What a write helper may do with a buffer: it sends a prefix, in calls of at most k
  bytes; success means that everything was sent, and a connection that accepts every byte
  gives success.\<close>

definition sends :: "nat \<Rightarrow> writer \<Rightarrow> byte list \<Rightarrow> ioerr option \<Rightarrow> writer \<Rightarrow> bool" where
  "sends k w p err w' \<longleftrightarrow>
     (\<exists>s s' cs. p = s @ s' \<and> wr_out w' = wr_out w @ s \<and> (err = None \<longrightarrow> s' = [])
        \<and> wr_calls w' = wr_calls w @ cs \<and> (\<forall>c\<in>set cs. c \<le> k)
        \<and> (wr_script w = [] \<longrightarrow> err = None \<and> wr_script w' = []))"

lemma sends_Nil: "sends k w [] None w"
  by (auto simp: sends_def)

lemma sends_mono:
  assumes "sends k w p err w'" "k \<le> k'"
  shows "sends k' w p err w'"
proof -
  from assms(1) obtain s s' cs where s: "p = s @ s'" "wr_out w' = wr_out w @ s" "err = None \<longrightarrow> s' = []"
    "wr_calls w' = wr_calls w @ cs" "\<forall>c\<in>set cs. c \<le> k" "wr_script w = [] \<longrightarrow> err = None \<and> wr_script w' = []"
    unfolding sends_def by blast
  then have "\<forall>c\<in>set cs. c \<le> k'" using assms(2) by auto
  with s show ?thesis unfolding sends_def by blast
qed

lemma sends_append:
  assumes "sends k w p None w'" "sends k w' q err w''"
  shows "sends k w (p @ q) err w''"
proof -
  from assms(1) obtain cs where w': "wr_out w' = wr_out w @ p" "wr_calls w' = wr_calls w @ cs"
    "\<forall>c\<in>set cs. c \<le> k" "wr_script w = [] \<longrightarrow> wr_script w' = []"
    unfolding sends_def by auto
  from assms(2) obtain s s' ds where w'': "q = s @ s'" "wr_out w'' = wr_out w' @ s" "err = None \<longrightarrow> s' = []"
    "wr_calls w'' = wr_calls w' @ ds" "\<forall>c\<in>set ds. c \<le> k" "wr_script w' = [] \<longrightarrow> err = None \<and> wr_script w'' = []"
    unfolding sends_def by blast
  show ?thesis unfolding sends_def
    by (rule exI [of _ "p @ s"], rule exI [of _ s'], rule exI [of _ "cs @ ds"]) (use w' w'' in auto)
qed

lemma sends_stop:
  assumes "sends k w p (Some e) w'"
  shows "sends k w (p @ q) (Some e) w'"
proof -
  from assms obtain s s' cs where s: "p = s @ s'" "wr_out w' = wr_out w @ s"
    "wr_calls w' = wr_calls w @ cs" "\<forall>c\<in>set cs. c \<le> k" "wr_script w \<noteq> []"
    unfolding sends_def by blast
  show ?thesis unfolding sends_def
    by (rule exI [of _ s], rule exI [of _ "s' @ q"], rule exI [of _ cs]) (use s in auto)
qed

lemma connWrite_sends:
  assumes "connWrite w b = ((n, err), w')" "0 \<le> n" "n \<le> int (length b)" "err = None"
  shows "sends (length b) w (take (nat n) b) None w'"
  using assms unfolding sends_def
  by (intro exI [of _ "take (nat n) b"] exI [of _ "[]"] exI [of _ "[length b]"])
    (auto simp: connWrite_def split: list.splits)

lemma connWrite_stop:
  assumes "connWrite w b = ((n, err), w')" "n < 0 \<or> n > int (length b) \<or> err \<noteq> None \<or> n = 0" "b \<noteq> []"
  shows "sends (length b) w b (Some e) w'"
proof -
  have "wr_script w \<noteq> []" using assms by (auto simp: connWrite_def split: list.splits)
  with assms show ?thesis unfolding sends_def
    by (intro exI [of _ "take (nat n) b"] exI [of _ "drop (nat n) b"] exI [of _ "[length b]"])
      (auto simp: connWrite_def split: list.splits)
qed

lemma WriteFull_sends: "sends (length b) w b (fst (WriteFull w b)) (snd (WriteFull w b))"
proof (induction "length b" arbitrary: w b rule: less_induct)
  case less
  show ?case
  proof (cases "b = []")
    case True
    then show ?thesis by (simp add: WriteFull.simps sends_Nil)
  next
    case False
    obtain n err w' where step: "connWrite w b = ((n, err), w')" by (metis prod.exhaust)
    show ?thesis
    proof (cases "\<not> (n < 0 \<or> n > int (length b)) \<and> err = None \<and> n \<noteq> 0")
      case True
      let ?d = "drop (nat n) b"
      have "sends (length ?d) w' ?d (fst (WriteFull w' ?d)) (snd (WriteFull w' ?d))"
        using less.hyps [of ?d w'] True False by auto
      then have "sends (length b) w' ?d (fst (WriteFull w' ?d)) (snd (WriteFull w' ?d))"
        by (rule sends_mono) simp
      moreover have "WriteFull w b = WriteFull w' ?d"
        using True False step by (subst WriteFull.simps) simp
      moreover have "sends (length b) w (take (nat n) b) None w'"
        using connWrite_sends [OF step] True by simp
      ultimately have "sends (length b) w (take (nat n) b @ ?d) (fst (WriteFull w b)) (snd (WriteFull w b))"
        by (simp only: sends_append)
      then show ?thesis by (simp only: append_take_drop_id)
    next
      case stop: False
      then have "snd (WriteFull w b) = w'" "fst (WriteFull w b) \<noteq> None"
        using False step by (subst WriteFull.simps; auto split: option.splits)+
      then show ?thesis using connWrite_stop [OF step] stop False by auto
    qed
  qed
qed

lemma WriteFull_ok [simp]:
  "wr_script w = [] \<Longrightarrow> b \<noteq> [] \<Longrightarrow>
     WriteFull w b = (None, w\<lparr>wr_out := wr_out w @ b, wr_calls := wr_calls w @ [length b]\<rparr>)"
  by (subst WriteFull.simps) (simp add: connWrite_def WriteFull.simps)

lemma WriteFull_Nil [simp]: "WriteFull w [] = (None, w)"
  by (simp add: WriteFull.simps)

lemma writeOneBuffer_WriteFull:
  "writeOneBuffer w p tot = (tot', err, w') \<Longrightarrow> WriteFull w p = (err, w') \<and> tot \<le> tot'
     \<and> tot' \<le> tot + length p \<and> (err = None \<longrightarrow> tot' = tot + length p)"
proof (induction "length p" arbitrary: w p tot rule: less_induct)
  case less
  show ?case
  proof (cases "p = []")
    case True
    with less.prems show ?thesis by (simp add: writeOneBuffer.simps)
  next
    case False
    obtain n e v where step: "connWrite w p = ((n, e), v)" by (metis prod.exhaust)
    show ?thesis
    proof (cases "\<not> (n < 0 \<or> n > int (length p)) \<and> e = None \<and> n \<noteq> 0")
      case True
      with less.prems False step have "writeOneBuffer v (drop (nat n) p) (tot + nat n) = (tot', err, w')"
        by (subst (asm) writeOneBuffer.simps) simp
      moreover have "WriteFull w p = WriteFull v (drop (nat n) p)"
        using True False step by (subst WriteFull.simps) simp
      ultimately show ?thesis
        using less.hyps [of "drop (nat n) p" v "tot + nat n"] True False by auto
    next
      case stop: False
      have "WriteFull w p = (err, w') \<and> tot \<le> tot' \<and> tot' \<le> tot + length p \<and> err \<noteq> None"
        using stop False step less.prems
        by (subst WriteFull.simps, subst (asm) writeOneBuffer.simps)
          (auto split: option.splits if_splits)
      then show ?thesis by auto
    qed
  qed
qed

lemma writeBuffersFrom_sends:
  "writeBuffersFrom w ps tot = (tot', err, w') \<Longrightarrow> \<forall>p\<in>set ps. length p \<le> k \<Longrightarrow>
     sends k w (concat ps) err w' \<and> tot \<le> tot' \<and> tot' \<le> tot + sum_list (map length ps)
     \<and> (err = None \<longrightarrow> tot' = tot + sum_list (map length ps))"
proof (induction ps arbitrary: w tot)
  case Nil
  then show ?case by (simp add: sends_Nil)
next
  case (Cons p ps)
  obtain t e v where one: "writeOneBuffer w p tot = (t, e, v)" by (metis prod.exhaust)
  note facts = writeOneBuffer_WriteFull [OF one]
  have p: "sends k w p e v"
    using WriteFull_sends [of p w] facts Cons.prems(2) by (auto intro: sends_mono)
  show ?case
  proof (cases e)
    case (Some x)
    with Cons.prems one have "tot' = t" "err = Some x" "w' = v" by simp_all
    moreover have "sends k w (p @ concat ps) (Some x) v" using sends_stop p Some by blast
    ultimately show ?thesis using facts by simp
  next
    case None
    with Cons.prems one have "writeBuffersFrom v ps t = (tot', err, w')" by simp
    from Cons.IH [OF this] Cons.prems(2) have
      "sends k v (concat ps) err w'" "t \<le> tot'" "tot' \<le> t + sum_list (map length ps)"
      "err = None \<longrightarrow> tot' = t + sum_list (map length ps)" by auto
    moreover have "sends k w (p @ concat ps) err w'" using sends_append p None calculation(1) by blast
    ultimately show ?thesis using facts None by simp
  qed
qed

section \<open>Properties\<close>

text \<open>WriteFull hands the connection a prefix of the buffer whatever the connection
  answers (short counts, impossible counts, errors), and the whole buffer when it reports
  success; on a connection that accepts every byte it does report success.\<close>

lemma WriteFull_all_or_error:
  "\<exists>s s'. b = s @ s' \<and> wr_out (snd (WriteFull w b)) = wr_out w @ s
     \<and> (fst (WriteFull w b) = None \<longrightarrow> s' = [])
     \<and> (wr_script w = [] \<longrightarrow> fst (WriteFull w b) = None)"
  using WriteFull_sends [of b w] unfolding sends_def by auto

text \<open>WriteBuffers sends a prefix of the concatenated buffers, never counts more bytes
  than the buffers hold, and when it reports success every buffer was sent in order and
  the count is their total length.\<close>

lemma WriteBuffers_in_order:
  assumes "WriteBuffers w buffers = (n, err, w')"
  shows "\<exists>s s'. concat buffers = s @ s' \<and> wr_out w' = wr_out w @ s
    \<and> n \<le> sum_list (map length buffers)
    \<and> (err = None \<longrightarrow> s' = [] \<and> n = sum_list (map length buffers))"
proof -
  define k where "k = sum_list (map length buffers)"
  have "\<forall>p\<in>set buffers. length p \<le> k" by (auto simp: k_def intro!: member_le_sum_list)
  from writeBuffersFrom_sends [OF assms [unfolded WriteBuffers_def] this]
  show ?thesis unfolding sends_def by (auto simp: k_def)
qed

end
