(* ===== verification/Byte_Stream.thy ===== *)
theory Byte_Stream
  imports Prelude
begin

text \<open>
  The contract of a readable byte stream, as the layers of the transport rely on it in each
  other: while the stream holds bytes, Read returns a non-empty piece of the front of at
  most the length of the buffer; when it holds none, Read reports how the stream ended. The
  Sudoku connections, the record connection and the streams of a multiplex session are
  interpreted as instances, so that what a caller gets from a sequence of reads is proved
  once.
\<close>

text \<open>The calls Read(buf of length k) for each k, up to the first error.\<close>

fun readAll :: "('c \<Rightarrow> nat \<Rightarrow> (('e + byte list) \<times> 'c) option) \<Rightarrow> 'c \<Rightarrow> nat list
    \<Rightarrow> (byte list \<times> 'e option \<times> 'c) option" where
  "readAll rd c [] = Some ([], None, c)"
| "readAll rd c (k # ks) =
     do { (res, c) \<leftarrow> rd c k;
          (case res of
             Inl e \<Rightarrow> Some ([], Some e, c)
           | Inr out \<Rightarrow> do { (rest, err, c) \<leftarrow> readAll rd c ks; Some (out @ rest, err, c) }) }"

text \<open>io.ReadFull: Read until the buffer is full or an error comes; short maps the error that
  interrupts a read already begun (io.EOF becomes io.ErrUnexpectedEOF).\<close>

partial_function (option) streamReadFull ::
    "('c \<Rightarrow> nat \<Rightarrow> (('e + byte list) \<times> 'c) option) \<Rightarrow> ('e \<Rightarrow> 'e) \<Rightarrow> 'c \<Rightarrow> nat \<Rightarrow> byte list
      \<Rightarrow> (('e + byte list) \<times> 'c) option" where
  "streamReadFull rd short c n acc =
     (if n = 0 then Some (Inr acc, c)
      else (case rd c n of
          None \<Rightarrow> None
        | Some (Inl e, c) \<Rightarrow> Some (Inl (if acc = [] then e else short e), c)
        | Some (Inr b, c) \<Rightarrow> streamReadFull rd short c (n - length b) (acc @ b)))"

declare streamReadFull.simps [code]

text \<open>What Read leaves alone, ReadFull leaves alone.\<close>

lemma streamReadFull_frame:
  assumes "streamReadFull rd short c n acc = Some y"
  shows "(\<forall>c k res c'. rd c k = Some (res, c') \<longrightarrow> f c' = f c) \<longrightarrow> f (snd y) = f c"
  by (rule streamReadFull.raw_induct [OF _ assms])
    (auto split: if_splits option.splits prod.splits sum.splits)

locale byte_stream =
  fixes holds :: "'c \<Rightarrow> byte list \<Rightarrow> bool"
    and rd :: "'c \<Rightarrow> nat \<Rightarrow> (('e + byte list) \<times> 'c) option"
    and fin :: "'c \<Rightarrow> 'e"
  assumes read_data: "\<lbrakk>holds c q; q \<noteq> []; 0 < k\<rbrakk> \<Longrightarrow>
      \<exists>o' q' c'. rd c k = Some (Inr o', c') \<and> q = o' @ q' \<and> o' \<noteq> [] \<and> length o' \<le> k \<and> holds c' q' \<and> fin c' = fin c"
    and read_end: "\<lbrakk>holds c []; 0 < k\<rbrakk> \<Longrightarrow> \<exists>c'. rd c k = Some (Inl (fin c), c')"
begin

lemma readAll_holds:
  "holds c q \<Longrightarrow> \<forall>k\<in>set ks. 0 < k \<Longrightarrow> length q < length ks \<Longrightarrow>
     \<exists>c'. readAll rd c ks = Some (q, Some (fin c), c')"
proof (induction ks arbitrary: c q)
  case (Cons k ks)
  show ?case
  proof (cases "q = []")
    case True
    then show ?thesis using read_end [of c k] Cons.prems by auto
  next
    case False
    then obtain o' q' c' where o: "rd c k = Some (Inr o', c')" "q = o' @ q'" "o' \<noteq> []" "holds c' q'" "fin c' = fin c"
      using read_data [of c q k] Cons.prems by auto
    then have "length q' < length ks" using Cons.prems by (cases o') auto
    then obtain c'' where "readAll rd c' ks = Some (q', Some (fin c'), c'')"
      using Cons.IH [OF o(4)] Cons.prems by auto
    then show ?thesis using o by simp
  qed
qed simp

lemma readFull_holds:
  "holds c q \<Longrightarrow> n \<le> length q \<Longrightarrow>
     \<exists>c'. streamReadFull rd short c n acc = Some (Inr (acc @ take n q), c') \<and> holds c' (drop n q) \<and> fin c' = fin c"
proof (induction n arbitrary: c q acc rule: less_induct)
  case (less n)
  show ?case
  proof (cases "n = 0")
    case True
    then show ?thesis using less.prems by (simp add: streamReadFull.simps)
  next
    case False
    then have "q \<noteq> []" "0 < n" using less.prems by auto
    from read_data [OF less.prems(1) this] obtain o' q' c' where
      o: "rd c n = Some (Inr o', c')" "q = o' @ q'" "o' \<noteq> []" "length o' \<le> n" "holds c' q'" "fin c' = fin c" by blast
    then have "n - length o' < n" using False by (cases o') auto
    from less.IH [OF this o(5), of "acc @ o'"] less.prems(2) o show ?thesis
      using False by (subst streamReadFull.simps) auto
  qed
qed

text \<open>However few reads there are, what they deliver is a prefix of what the stream holds.\<close>

lemma readAll_prefix:
  "holds c q \<Longrightarrow> \<forall>k\<in>set ks. 0 < k \<Longrightarrow> \<exists>o' q' err c'. readAll rd c ks = Some (o', err, c') \<and> q = o' @ q'"
proof (induction ks arbitrary: c q)
  case (Cons k ks)
  show ?case
  proof (cases "q = []")
    case True
    then show ?thesis using read_end [of c k] Cons.prems by auto
  next
    case False
    then obtain o' q' c' where o: "rd c k = Some (Inr o', c')" "q = o' @ q'" "holds c' q'"
      using read_data [of c q k] Cons.prems by auto
    from Cons.IH [OF o(3)] Cons.prems obtain o'' q'' err c'' where
      "readAll rd c' ks = Some (o'', err, c'')" "q' = o'' @ q''" by auto
    with o show ?thesis by simp
  qed
qed simp

end

end
