(* ===== verification/Sudoku_Classic.thy ===== *)
theory Sudoku_Classic
  imports Sudoku_Table Sudoku_Rand Conn_Util Byte_Stream
begin

text \<open>
  The classic Sudoku codec (obfs/sudoku/classic\_encode.go, encode.go, write\_buffer.go,
  classic\_decode.go, conn.go and the classic half of downlink.go): each payload byte becomes
  four hint bytes in a random order, with random padding between them; the reader drops
  what is not a hint and looks every four hints up.

  An index out of range is the value None. The encoders append to a slice; the reusable
  write buffer is represented by its capacity, which is what the batching depends on.
\<close>

section \<open>Encoding\<close>

definition perm4 :: "nat list list" where
  "perm4 = [[0,1,2,3], [0,1,3,2], [0,2,1,3], [0,2,3,1], [0,3,1,2], [0,3,2,1],
            [1,0,2,3], [1,0,3,2], [1,2,0,3], [1,2,3,0], [1,3,0,2], [1,3,2,0],
            [2,0,1,3], [2,0,3,1], [2,1,0,3], [2,1,3,0], [2,3,0,1], [2,3,1,0],
            [3,0,1,2], [3,0,2,1], [3,1,0,2], [3,1,2,0], [3,2,0,1], [3,2,1,0]]"

text \<open>pads[rng.Intn(padLen)]\<close>

definition randomPad :: "Table \<Rightarrow> sudokuRand \<Rightarrow> (byte \<times> sudokuRand) option" where
  "randomPad t r =
     (let (i, r) = randIntn r (length (PaddingPool t))
      in map_option (\<lambda>b. (b, r)) (index (PaddingPool t) i))"

text \<open>The puzzle of a byte and the order its hints are sent in.\<close>

definition pickPuzzle :: "Table \<Rightarrow> sudokuRand \<Rightarrow> byte \<Rightarrow> (byte list \<times> nat list \<times> sudokuRand) option" where
  "pickPuzzle t r b =
     (let puzzles = EncodeTable t b; (i, r) = randIntn r (length puzzles) in
      do { puzzle \<leftarrow> index puzzles i;
           let (j, r) = randIntn r (length perm4);
           perm \<leftarrow> index perm4 j;
           Some (puzzle, perm, r) })"

text \<open>if uint64(rng.Uint32()) < threshold, a pad\<close>

definition maybePad :: "Table \<Rightarrow> sudokuRand \<Rightarrow> u64 \<Rightarrow> (byte list \<times> sudokuRand) option" where
  "maybePad t r threshold =
     (let (u, r) = randUint32 r in
      if (ucast u :: u64) < threshold then map_option (\<lambda>(b, r). ([b], r)) (randomPad t r)
      else Some ([], r))"

fun appendHintsPadded :: "byte list \<Rightarrow> Table \<Rightarrow> sudokuRand \<Rightarrow> byte list \<Rightarrow> nat list
    \<Rightarrow> (byte list \<times> sudokuRand) option" where
  "appendHintsPadded out t r puzzle [] = Some (out, r)"
| "appendHintsPadded out t r puzzle (idx # perm) =
     do { (pad, r) \<leftarrow> randomPad t r;
          h \<leftarrow> index puzzle idx;
          appendHintsPadded (out @ [pad, h]) t r puzzle perm }"

fun appendHintsMaybe :: "byte list \<Rightarrow> Table \<Rightarrow> sudokuRand \<Rightarrow> u64 \<Rightarrow> byte list \<Rightarrow> nat list
    \<Rightarrow> (byte list \<times> sudokuRand) option" where
  "appendHintsMaybe out t r threshold puzzle [] = Some (out, r)"
| "appendHintsMaybe out t r threshold puzzle (idx # perm) =
     do { (pad, r) \<leftarrow> maybePad t r threshold;
          h \<leftarrow> index puzzle idx;
          appendHintsMaybe (out @ pad @ [h]) t r threshold puzzle perm }"

fun appendSudokuPayloadNoPadding :: "byte list \<Rightarrow> Table \<Rightarrow> sudokuRand \<Rightarrow> byte list
    \<Rightarrow> (byte list \<times> sudokuRand) option" where
  "appendSudokuPayloadNoPadding out t r [] = Some (out, r)"
| "appendSudokuPayloadNoPadding out t r (b # p) =
     do { (puzzle, perm, r) \<leftarrow> pickPuzzle t r b;
          h0 \<leftarrow> index puzzle (perm ! 0);
          h1 \<leftarrow> index puzzle (perm ! 1);
          h2 \<leftarrow> index puzzle (perm ! 2);
          h3 \<leftarrow> index puzzle (perm ! 3);
          appendSudokuPayloadNoPadding (out @ [h0, h1, h2, h3]) t r p }"

fun appendAlwaysPadded :: "byte list \<Rightarrow> Table \<Rightarrow> sudokuRand \<Rightarrow> byte list
    \<Rightarrow> (byte list \<times> sudokuRand) option" where
  "appendAlwaysPadded out t r [] = Some (out, r)"
| "appendAlwaysPadded out t r (b # p) =
     do { (pad, r) \<leftarrow> randomPad t r;
          (puzzle, perm, r) \<leftarrow> pickPuzzle t r b;
          (out, r) \<leftarrow> appendHintsPadded (out @ [pad]) t r puzzle perm;
          appendAlwaysPadded out t r p }"

fun appendMaybePadded :: "byte list \<Rightarrow> Table \<Rightarrow> sudokuRand \<Rightarrow> u64 \<Rightarrow> byte list
    \<Rightarrow> (byte list \<times> sudokuRand) option" where
  "appendMaybePadded out t r threshold [] = Some (out, r)"
| "appendMaybePadded out t r threshold (b # p) =
     do { (pad, r) \<leftarrow> maybePad t r threshold;
          (puzzle, perm, r) \<leftarrow> pickPuzzle t r b;
          (out, r) \<leftarrow> appendHintsMaybe (out @ pad) t r threshold puzzle perm;
          appendMaybePadded out t r threshold p }"

definition appendSudokuPayload :: "byte list \<Rightarrow> Table \<Rightarrow> sudokuRand \<Rightarrow> u64 \<Rightarrow> byte list
    \<Rightarrow> (byte list \<times> sudokuRand) option" where
  "appendSudokuPayload dst t r paddingThreshold p =
     (if p = [] then Some (dst, r)
      else if paddingThreshold = 0 then appendSudokuPayloadNoPadding dst t r p
      else if paddingThreshold \<ge> probOne then appendAlwaysPadded dst t r p
      else appendMaybePadded dst t r paddingThreshold p)"

text \<open>encode.go: the one-shot encoders, which also end the payload with padding.\<close>

definition encodeSudokuPayloadNoPadding :: "Table \<Rightarrow> sudokuRand \<Rightarrow> byte list
    \<Rightarrow> (byte list \<times> sudokuRand) option" where
  "encodeSudokuPayloadNoPadding t r p = appendSudokuPayloadNoPadding [] t r p"

definition encodeSudokuPayload :: "Table \<Rightarrow> sudokuRand \<Rightarrow> u64 \<Rightarrow> byte list
    \<Rightarrow> (byte list \<times> sudokuRand) option" where
  "encodeSudokuPayload t r paddingThreshold p =
     (if p = [] then Some ([], r)
      else if paddingThreshold = 0 then encodeSudokuPayloadNoPadding t r p
      else if paddingThreshold \<ge> probOne then
        do { (out, r) \<leftarrow> appendAlwaysPadded [] t r p;
             (pad, r) \<leftarrow> randomPad t r;
             Some (out @ [pad], r) }
      else
        do { (out, r) \<leftarrow> appendMaybePadded [] t r paddingThreshold p;
             (pad, r) \<leftarrow> maybePad t r paddingThreshold;
             Some (out @ pad, r) })"

section \<open>Batched writing\<close>

definition maxEncodedWriteSize :: nat where "maxEncodedWriteSize = 32 * 1024"

function writeEncoded :: "writer \<Rightarrow> byte list \<Rightarrow> ioerr option \<times> writer" where
  "writeEncoded w p =
     (if p = [] then (None, w)
      else let n = min (length p) maxEncodedWriteSize in
        case WriteFull w (take n p) of
          (Some e, w') \<Rightarrow> (Some e, w')
        | (None, w') \<Rightarrow> writeEncoded w' (drop n p))"
  by pat_completeness auto
termination
  by (relation "measure (\<lambda>(w, p). length p)") (auto simp: maxEncodedWriteSize_def)

declare writeEncoded.simps [simp del]

text \<open>The result of a payload write: the capacity of the buffer kept for the next call, the
  count, the error, the writer and the generator. An append beyond the capacity would
  replace the buffer by a larger one.\<close>

record writeResult =
  res_cap :: nat
  res_n :: nat
  res_err :: "ioerr option"
  res_writer :: writer
  res_rng :: sudokuRand

partial_function (option) writePayloadLoop ::
    "writer \<Rightarrow> nat \<Rightarrow> byte list \<Rightarrow> Table \<Rightarrow> sudokuRand \<Rightarrow> u64 \<Rightarrow> nat \<Rightarrow> byte list \<Rightarrow> nat \<Rightarrow> nat
      \<Rightarrow> writeResult option" where
  "writePayloadLoop w cap out t r threshold maxExpansion p tot buffered =
     (if p \<noteq> [] then
        let n = min (length p) ((cap - length out - 1) div maxExpansion) in
        if n = 0 then
          (case writeEncoded w out of
             (Some e, w') \<Rightarrow> Some \<lparr>res_cap = cap, res_n = tot, res_err = Some e, res_writer = w', res_rng = r\<rparr>
           | (None, w') \<Rightarrow> writePayloadLoop w' cap [] t r threshold maxExpansion p (tot + buffered) 0)
        else do {
          (out, r) \<leftarrow> appendSudokuPayload out t r threshold (take n p);
          writePayloadLoop w (max cap (length out)) out t r threshold maxExpansion (drop n p) tot (buffered + n) }
      else do {
        (out, r) \<leftarrow>
          (if threshold \<ge> probOne then map_option (\<lambda>(b, r). (out @ [b], r)) (randomPad t r)
           else if threshold \<noteq> 0 then map_option (\<lambda>(bs, r). (out @ bs, r)) (maybePad t r threshold)
           else Some (out, r));
        let cap = max cap (length out);
        (case writeEncoded w out of
           (Some e, w') \<Rightarrow> Some \<lparr>res_cap = cap, res_n = tot, res_err = Some e, res_writer = w', res_rng = r\<rparr>
         | (None, w') \<Rightarrow> Some \<lparr>res_cap = cap, res_n = tot + buffered, res_err = None, res_writer = w', res_rng = r\<rparr>) })"

declare writePayloadLoop.simps [code]

definition writeSudokuPayload ::
    "writer \<Rightarrow> nat \<Rightarrow> Table \<Rightarrow> sudokuRand \<Rightarrow> u64 \<Rightarrow> byte list \<Rightarrow> writeResult option" where
  "writeSudokuPayload w bufCap t r threshold p =
     (let maxExpansion = (if threshold = 0 then 4 else 9);
          needed = min (min (length p) maxEncodedWriteSize * maxExpansion + 1) maxEncodedWriteSize;
          cap = (if bufCap < needed then needed else bufCap)
      in writePayloadLoop w cap [] t r threshold maxExpansion p 0 0)"

section \<open>Decoding\<close>

datatype codecError = InvalidSudokuMapMiss | ReadError ioerr

record decodeResult =
  dec_out :: "byte list"
  dec_consumed :: nat
  dec_err :: "codecError option"
  dec_hintBuf :: "byte list"
  dec_hintCount :: nat

text \<open>Conn.decode: the loop over the chunk, rest being chunk[consumed:] and plen the size
  of the destination. None is the panic of a write beyond hintBuf.\<close>

fun decodeLoop :: "Table \<Rightarrow> nat \<Rightarrow> byte list \<Rightarrow> nat \<Rightarrow> byte list \<Rightarrow> nat \<Rightarrow> byte list \<Rightarrow> decodeResult option" where
  "decodeLoop t plen hintBuf hintCount out consumed rest =
     (let done = Some \<lparr>dec_out = out, dec_consumed = consumed, dec_err = None,
                       dec_hintBuf = hintBuf, dec_hintCount = hintCount\<rparr> in
      if \<not> length out < plen then done
      else case rest of
        [] \<Rightarrow> done
      | b # rest1 \<Rightarrow>
        (let hint = hintTable (tbl_layout t) in
         if hintCount = 0 \<and> 3 < length rest
            \<and> hint (rest ! 0) \<and> hint (rest ! 1) \<and> hint (rest ! 2) \<and> hint (rest ! 3) then
           (case DecodeMap t (packHintBytes (rest ! 0) (rest ! 1) (rest ! 2) (rest ! 3)) of
              None \<Rightarrow> Some \<lparr>dec_out = out, dec_consumed = consumed, dec_err = Some InvalidSudokuMapMiss,
                            dec_hintBuf = hintBuf, dec_hintCount = hintCount\<rparr>
            | Some v \<Rightarrow> decodeLoop t plen hintBuf hintCount (out @ [v]) (consumed + 4) (drop 4 rest))
         else if \<not> hint b then decodeLoop t plen hintBuf hintCount out (consumed + 1) rest1
         else if \<not> hintCount < length hintBuf then None
         else
           (let hintBuf = hintBuf[hintCount := b]; hintCount = hintCount + 1 in
            if hintCount \<noteq> 4 then decodeLoop t plen hintBuf hintCount out (consumed + 1) rest1
            else
              (case DecodeMap t (packHintBytes (hintBuf ! 0) (hintBuf ! 1) (hintBuf ! 2) (hintBuf ! 3)) of
                 None \<Rightarrow> Some \<lparr>dec_out = out, dec_consumed = consumed + 1, dec_err = Some InvalidSudokuMapMiss,
                               dec_hintBuf = hintBuf, dec_hintCount = hintCount\<rparr>
               | Some v \<Rightarrow> decodeLoop t plen hintBuf 0 (out @ [v]) (consumed + 1) rest1))))"

declare decodeLoop.simps [simp del]

section \<open>Connections\<close>

record Conn =
  conn_writer :: writer
  conn_source :: source
  conn_table :: Table
  conn_reader :: "byte list option"
  conn_recorder :: "byte list option"
  conn_recording :: bool
  conn_hintBuf :: "byte list"
  conn_hintCount :: nat
  conn_writeCap :: nat
  conn_rng :: sudokuRand
  conn_paddingThreshold :: u64

definition NewConn :: "sudokuRand \<Rightarrow> writer \<Rightarrow> source \<Rightarrow> Table \<Rightarrow> int \<Rightarrow> int \<Rightarrow> bool \<Rightarrow> Conn" where
  "NewConn localRng w s t pMin pMax rec =
     (let (threshold, rng) = pickPaddingThreshold (Some localRng) pMin pMax
      in \<lparr>conn_writer = w, conn_source = s, conn_table = t, conn_reader = None,
          conn_recorder = (if rec then Some [] else None), conn_recording = rec,
          conn_hintBuf = [0, 0, 0, 0], conn_hintCount = 0, conn_writeCap = 0,
          conn_rng = (case rng of Some r \<Rightarrow> r | None \<Rightarrow> localRng), conn_paddingThreshold = threshold\<rparr>)"

definition StopRecording :: "Conn \<Rightarrow> Conn" where
  "StopRecording sc = sc\<lparr>conn_recording := False, conn_recorder := None\<rparr>"

definition GetBufferedAndRecorded :: "Conn \<Rightarrow> byte list" where
  "GetBufferedAndRecorded sc =
     (let recorded = (case conn_recorder sc of None \<Rightarrow> [] | Some bs \<Rightarrow> bs) in
      case conn_reader sc of None \<Rightarrow> recorded | Some buffered \<Rightarrow> recorded @ buffered)"

definition connWritePayload :: "Conn \<Rightarrow> byte list \<Rightarrow> (nat \<times> ioerr option \<times> Conn) option" where
  "connWritePayload sc p =
     (if p = [] then Some (0, None, sc)
      else do {
        res \<leftarrow> writeSudokuPayload (conn_writer sc) (conn_writeCap sc) (conn_table sc) (conn_rng sc)
                 (conn_paddingThreshold sc) p;
        Some (res_n res, res_err res,
              sc\<lparr>conn_writer := res_writer res, conn_writeCap := res_cap res, conn_rng := res_rng res\<rparr>) })"

text \<open>One pass of Read's loop: Inl is the error it returns, Inr the bytes decoded so far.\<close>

definition readPass :: "Conn \<Rightarrow> nat \<Rightarrow> ((codecError + byte list) \<times> Conn) option" where
  "readPass sc plen =
     (let buf = (case conn_reader sc of None \<Rightarrow> [] | Some b \<Rightarrow> b) in
      case peekBufferedChunk buf (conn_source sc) of
        (Inl e, s) \<Rightarrow> Some (Inl (ReadError e), sc\<lparr>conn_reader := Some [], conn_source := s\<rparr>)
      | (Inr chunk, s) \<Rightarrow> do {
          d \<leftarrow> decodeLoop (conn_table sc) plen (conn_hintBuf sc) (conn_hintCount sc) [] 0 chunk;
          let consumed = dec_consumed d;
          let sc = sc\<lparr>conn_source := s, conn_reader := Some (drop consumed chunk),
            conn_hintBuf := dec_hintBuf d, conn_hintCount := dec_hintCount d,
            conn_recorder := (if conn_recording sc
              then map_option (\<lambda>bs. bs @ take consumed chunk) (conn_recorder sc) else conn_recorder sc)\<rparr>;
          Some (case dec_err d of Some e \<Rightarrow> Inl e | None \<Rightarrow> Inr (dec_out d), sc) })"

partial_function (option) connReadLoop :: "Conn \<Rightarrow> nat \<Rightarrow> ((codecError + byte list) \<times> Conn) option" where
  "connReadLoop sc plen =
     do { (res, sc) \<leftarrow> readPass sc plen;
          (case res of
             Inl e \<Rightarrow> Some (Inl e, sc)
           | Inr out \<Rightarrow> if out \<noteq> [] then Some (Inr out, sc) else connReadLoop sc plen) }"

declare connReadLoop.simps [code]

definition connReadPayload :: "Conn \<Rightarrow> nat \<Rightarrow> ((codecError + byte list) \<times> Conn) option" where
  "connReadPayload sc plen = (if plen = 0 then Some (Inr [], sc) else connReadLoop sc plen)"

section \<open>The encoders emit decodable groups\<close>

text \<open>The decoder's specification: the hints, four at a time.\<close>

fun decodeGroups :: "Table \<Rightarrow> byte list \<Rightarrow> byte list option" where
  "decodeGroups t [] = Some []"
| "decodeGroups t (a # b # c # d # hs) =
     (case DecodeMap t (packHintBytes a b c d) of
        None \<Rightarrow> None
      | Some v \<Rightarrow> map_option ((#) v) (decodeGroups t hs))"
| "decodeGroups t _ = None"

text \<open>A step of an encoder: whatever was in the buffer, it appends e and leaves the
  generator in state r'.\<close>

definition emits :: "(byte list \<Rightarrow> (byte list \<times> sudokuRand) option) \<Rightarrow> byte list \<Rightarrow> sudokuRand \<Rightarrow> bool" where
  "emits f e r' \<longleftrightarrow> (\<forall>out. f out = Some (out @ e, r'))"

lemma emitsD: "emits f e r' \<Longrightarrow> f out = Some (out @ e, r')"
  by (simp add: emits_def)

lemma decodeGroups_append:
  "decodeGroups t hs = Some p \<Longrightarrow> decodeGroups t (hs @ ks) = map_option ((@) p) (decodeGroups t ks)"
proof (induction t hs arbitrary: p rule: decodeGroups.induct)
  case (1 t)
  then show ?case by (cases "decodeGroups t ks") simp_all
next
  case (2 t a b c d hs)
  from 2(2) obtain v q where v: "DecodeMap t (packHintBytes a b c d) = Some v"
    and q: "decodeGroups t hs = Some q" and "p = v # q"
    by (auto split: option.splits)
  with 2(1) [OF v q] show ?case by (cases "decodeGroups t ks") simp_all
qed simp_all

lemma decodeGroups_length: "decodeGroups t hs = Some p \<Longrightarrow> length hs = 4 * length p"
  by (induction t hs arbitrary: p rule: decodeGroups.induct) (auto split: option.splits)

lemma perm4_in_range: "perm \<in> set perm4 \<Longrightarrow> length perm = 4 \<and> (\<forall>i\<in>set perm. i < 4)"
  unfolding perm4_def by auto

lemma perm4_puzzle:
  assumes "perm \<in> set perm4" "length puzzle = 4"
  shows "mset (map ((!) puzzle) perm) = mset puzzle"
proof -
  have "mset perm = mset [0, 1, 2, 3]"
    using assms(1) unfolding perm4_def by (auto simp: add_mset_commute)
  then have "mset (map ((!) puzzle) perm) = mset (map ((!) puzzle) [0, 1, 2, 3])"
    by (simp only: mset_map)
  also have "\<dots> = mset puzzle" using assms(2) by (auto elim!: list4E)
  finally show ?thesis .
qed

context sudoku_table
begin

lemma randomPad_ok: "\<exists>b r'. randomPad t r = Some (b, r') \<and> \<not> hintTable (tbl_layout t) b"
proof -
  obtain i r' where i: "randIntn r (length (PaddingPool t)) = (i, r')" by (metis prod.exhaust)
  then have "i < length (PaddingPool t)"
    using randIntn_prod [OF i] pads_nonempty pads_small by simp
  then show ?thesis using i pads_not_hints by (simp add: randomPad_def)
qed

lemma maybePad_ok:
  "\<exists>bs r'. maybePad t r th = Some (bs, r') \<and> length bs \<le> 1 \<and> filter (hintTable (tbl_layout t)) bs = []"
proof -
  obtain u r1 where u: "randUint32 r = (u, r1)" by (metis prod.exhaust)
  obtain b r2 where "randomPad t r1 = Some (b, r2)" "\<not> hintTable (tbl_layout t) b"
    using randomPad_ok by blast
  with u show ?thesis by (simp add: maybePad_def)
qed

lemma pickPuzzle_ok:
  "\<exists>puzzle perm r'. pickPuzzle t r b = Some (puzzle, perm, r') \<and> puzzle \<in> set (EncodeTable t b)
     \<and> perm \<in> set perm4"
proof -
  obtain i r1 where i: "randIntn r (length (EncodeTable t b)) = (i, r1)" by (metis prod.exhaust)
  obtain j r2 where j: "randIntn r1 (length perm4) = (j, r2)" by (metis prod.exhaust)
  have "i < length (EncodeTable t b)"
    using randIntn_prod [OF i] encode_nonempty encode_small by simp
  moreover have "j < length perm4" using randIntn_prod [OF j] by (simp add: perm4_def)
  ultimately show ?thesis using i j by (simp add: pickPuzzle_def)
qed


lemma hintTable_puzzle:
  "puzzle \<in> set (EncodeTable t b) \<Longrightarrow> i < 4 \<Longrightarrow> hintTable (tbl_layout t) (puzzle ! i)"
  using encode_hints encode_length by (metis nth_mem)

lemma appendHintsPadded_ok:
  assumes p: "puzzle \<in> set (EncodeTable t b)" and "\<forall>i\<in>set perm. i < 4"
  shows "\<exists>e r'. emits (\<lambda>out. appendHintsPadded out t r puzzle perm) e r' \<and> length e = 2 * length perm
    \<and> filter (hintTable (tbl_layout t)) e = map ((!) puzzle) perm"
  using assms(2)
proof (induction perm arbitrary: r)
  case Nil
  then show ?case by (auto simp: emits_def)
next
  case (Cons idx perm)
  obtain pad r1 where pad: "randomPad t r = Some (pad, r1)" "\<not> hintTable (tbl_layout t) pad"
    using randomPad_ok by blast
  obtain e r2 where e: "emits (\<lambda>out. appendHintsPadded out t r1 puzzle perm) e r2" "length e = 2 * length perm"
    "filter (hintTable (tbl_layout t)) e = map ((!) puzzle) perm"
    using Cons by fastforce
  have idx: "idx < 4" using Cons.prems by simp
  have "emits (\<lambda>out. appendHintsPadded out t r puzzle (idx # perm)) (pad # puzzle ! idx # e) r2"
    using pad emitsD [OF e(1)] idx encode_length [OF p] by (simp add: emits_def)
  with e pad idx show ?case using hintTable_puzzle [OF p idx]
    by (intro exI [of _ "pad # puzzle ! idx # e"] exI [of _ r2]) simp
qed

lemma appendHintsMaybe_ok:
  assumes p: "puzzle \<in> set (EncodeTable t b)" and "\<forall>i\<in>set perm. i < 4"
  shows "\<exists>e r'. emits (\<lambda>out. appendHintsMaybe out t r th puzzle perm) e r' \<and> length e \<le> 2 * length perm
    \<and> filter (hintTable (tbl_layout t)) e = map ((!) puzzle) perm"
  using assms(2)
proof (induction perm arbitrary: r)
  case Nil
  then show ?case by (auto simp: emits_def)
next
  case (Cons idx perm)
  obtain pad r1 where pad: "maybePad t r th = Some (pad, r1)" "length pad \<le> 1"
    "filter (hintTable (tbl_layout t)) pad = []"
    using maybePad_ok by blast
  obtain e r2 where e: "emits (\<lambda>out. appendHintsMaybe out t r1 th puzzle perm) e r2" "length e \<le> 2 * length perm"
    "filter (hintTable (tbl_layout t)) e = map ((!) puzzle) perm"
    using Cons by fastforce
  have idx: "idx < 4" using Cons.prems by simp
  have "emits (\<lambda>out. appendHintsMaybe out t r th puzzle (idx # perm)) (pad @ puzzle ! idx # e) r2"
    using pad emitsD [OF e(1)] idx encode_length [OF p] by (simp add: emits_def)
  with e pad idx show ?case using hintTable_puzzle [OF p idx]
    by (intro exI [of _ "pad @ puzzle ! idx # e"] exI [of _ r2]) (simp add: filter_empty_conv)
qed

lemma decodeGroups_puzzle:
  assumes "puzzle \<in> set (EncodeTable t b)" "perm \<in> set perm4"
  shows "decodeGroups t (map ((!) puzzle) perm @ hs) = map_option ((#) b) (decodeGroups t hs)"
proof -
  have len: "length (map ((!) puzzle) perm) = 4" using perm4_in_range [OF assms(2)] by simp
  then obtain h0 h1 h2 h3 where hs: "map ((!) puzzle) perm = [h0, h1, h2, h3]" by (rule list4E)
  have "DecodeMap t (packHintBytes h0 h1 h2 h3) = Some b"
    using decode_puzzle_bytes [OF assms(1)] perm4_puzzle [OF assms(2) encode_length [OF assms(1)]]
    by (simp add: hs)
  then show ?thesis by (simp add: hs)
qed

text \<open>Each of the three encoders appends an encoding of the payload, of bounded length.\<close>

lemma appendSudokuPayloadNoPadding_ok:
  "\<exists>e r'. emits (\<lambda>out. appendSudokuPayloadNoPadding out t r p) e r' \<and> length e = 4 * length p
     \<and> decodeGroups t (filter (hintTable (tbl_layout t)) e) = Some p"
proof (induction p arbitrary: r)
  case Nil
  then show ?case by (auto simp: emits_def)
next
  case (Cons b p)
  obtain puzzle perm r1 where pick: "pickPuzzle t r b = Some (puzzle, perm, r1)"
    and puzzle: "puzzle \<in> set (EncodeTable t b)" and perm: "perm \<in> set perm4"
    using pickPuzzle_ok by blast
  obtain e r2 where e: "emits (\<lambda>out. appendSudokuPayloadNoPadding out t r1 p) e r2"
    "length e = 4 * length p" "decodeGroups t (filter (hintTable (tbl_layout t)) e) = Some p"
    using Cons by blast
  obtain i j k l where perm': "perm = [i, j, k, l]" using perm4_in_range [OF perm] list4E by metis
  then have lt: "i < 4" "j < 4" "k < 4" "l < 4" using perm4_in_range [OF perm] by auto
  let ?h = "map ((!) puzzle) perm"
  have "emits (\<lambda>out. appendSudokuPayloadNoPadding out t r (b # p)) (?h @ e) r2"
    using pick emitsD [OF e(1)] lt encode_length [OF puzzle] by (simp add: emits_def perm')
  moreover have "filter (hintTable (tbl_layout t)) ?h = ?h"
    using hintTable_puzzle [OF puzzle] lt by (simp add: perm')
  ultimately show ?case
    using e decodeGroups_puzzle [OF puzzle perm] perm4_in_range [OF perm]
    by (intro exI [of _ "?h @ e"] exI [of _ r2]) simp
qed

lemma appendAlwaysPadded_ok:
  "\<exists>e r'. emits (\<lambda>out. appendAlwaysPadded out t r p) e r' \<and> length e \<le> 9 * length p
     \<and> decodeGroups t (filter (hintTable (tbl_layout t)) e) = Some p"
proof (induction p arbitrary: r)
  case Nil
  then show ?case by (auto simp: emits_def)
next
  case (Cons b p)
  obtain pad r0 where pad: "randomPad t r = Some (pad, r0)" "\<not> hintTable (tbl_layout t) pad"
    using randomPad_ok by blast
  obtain puzzle perm r1 where pick: "pickPuzzle t r0 b = Some (puzzle, perm, r1)"
    and puzzle: "puzzle \<in> set (EncodeTable t b)" and perm: "perm \<in> set perm4"
    using pickPuzzle_ok by blast
  obtain d r2 where d: "emits (\<lambda>out. appendHintsPadded out t r1 puzzle perm) d r2" "length d = 2 * length perm"
    "filter (hintTable (tbl_layout t)) d = map ((!) puzzle) perm"
    using appendHintsPadded_ok [OF puzzle] perm4_in_range [OF perm] by blast
  obtain e r3 where e: "emits (\<lambda>out. appendAlwaysPadded out t r2 p) e r3"
    "length e \<le> 9 * length p" "decodeGroups t (filter (hintTable (tbl_layout t)) e) = Some p"
    using Cons by blast
  have "emits (\<lambda>out. appendAlwaysPadded out t r (b # p)) (pad # d @ e) r3"
    using pick pad emitsD [OF e(1)] emitsD [OF d(1)] by (simp add: emits_def)
  then show ?case
    using e d pad decodeGroups_puzzle [OF puzzle perm] perm4_in_range [OF perm]
    by (intro exI [of _ "pad # d @ e"] exI [of _ r3]) simp
qed

lemma appendMaybePadded_ok:
  "\<exists>e r'. emits (\<lambda>out. appendMaybePadded out t r th p) e r' \<and> length e \<le> 9 * length p
     \<and> decodeGroups t (filter (hintTable (tbl_layout t)) e) = Some p"
proof (induction p arbitrary: r)
  case Nil
  then show ?case by (auto simp: emits_def)
next
  case (Cons b p)
  obtain pad r0 where pad: "maybePad t r th = Some (pad, r0)" "length pad \<le> 1"
    "filter (hintTable (tbl_layout t)) pad = []"
    using maybePad_ok by blast
  obtain puzzle perm r1 where pick: "pickPuzzle t r0 b = Some (puzzle, perm, r1)"
    and puzzle: "puzzle \<in> set (EncodeTable t b)" and perm: "perm \<in> set perm4"
    using pickPuzzle_ok by blast
  obtain d r2 where d: "emits (\<lambda>out. appendHintsMaybe out t r1 th puzzle perm) d r2" "length d \<le> 2 * length perm"
    "filter (hintTable (tbl_layout t)) d = map ((!) puzzle) perm"
    using appendHintsMaybe_ok [OF puzzle] perm4_in_range [OF perm] by blast
  obtain e r3 where e: "emits (\<lambda>out. appendMaybePadded out t r2 th p) e r3"
    "length e \<le> 9 * length p" "decodeGroups t (filter (hintTable (tbl_layout t)) e) = Some p"
    using Cons by blast
  have "emits (\<lambda>out. appendMaybePadded out t r th (b # p)) (pad @ d @ e) r3"
    using pick pad emitsD [OF e(1)] emitsD [OF d(1)] by (simp add: emits_def)
  then show ?case
    using e d pad decodeGroups_puzzle [OF puzzle perm] perm4_in_range [OF perm]
    by (intro exI [of _ "pad @ d @ e"] exI [of _ r3]) simp
qed


text \<open>The expansion bound of the batching, and the padding after a payload.\<close>

end

definition expansion :: "u64 \<Rightarrow> nat" where
  "expansion th = (if th = 0 then 4 else 9)"

definition trailingPad :: "Table \<Rightarrow> sudokuRand \<Rightarrow> u64 \<Rightarrow> (byte list \<times> sudokuRand) option" where
  "trailingPad t r th =
     (if th \<ge> probOne then map_option (\<lambda>(b, r). ([b], r)) (randomPad t r)
      else if th \<noteq> 0 then maybePad t r th else Some ([], r))"

lemma probOne_ne_0 [simp]: "\<not> probOne \<le> 0" "probOne \<noteq> 0"
  by (simp_all add: probOne_def)

lemma appendSudokuPayloadNoPadding_append:
  "appendSudokuPayloadNoPadding out t r (p @ q) =
     Option.bind (appendSudokuPayloadNoPadding out t r p) (\<lambda>(out, r). appendSudokuPayloadNoPadding out t r q)"
  by (induction p arbitrary: out r) (auto simp: case_prod_beta intro!: Option.bind_cong)

lemma appendAlwaysPadded_append:
  "appendAlwaysPadded out t r (p @ q) =
     Option.bind (appendAlwaysPadded out t r p) (\<lambda>(out, r). appendAlwaysPadded out t r q)"
  by (induction p arbitrary: out r) (auto simp: case_prod_beta intro!: Option.bind_cong)

lemma appendMaybePadded_append:
  "appendMaybePadded out t r th (p @ q) =
     Option.bind (appendMaybePadded out t r th p) (\<lambda>(out, r). appendMaybePadded out t r th q)"
  by (induction p arbitrary: out r) (auto simp: case_prod_beta intro!: Option.bind_cong)

lemma appendSudokuPayload_append:
  "appendSudokuPayload out t r th (p @ q) =
     Option.bind (appendSudokuPayload out t r th p) (\<lambda>(out, r). appendSudokuPayload out t r th q)"
proof -
  have "appendSudokuPayload out t r th (p @ q) =
      (if th = 0 then appendSudokuPayloadNoPadding out t r (p @ q)
       else if th \<ge> probOne then appendAlwaysPadded out t r (p @ q)
       else appendMaybePadded out t r th (p @ q))" for out r p q
    by (cases "p @ q = []") (simp_all add: appendSudokuPayload_def)
  note eq = this [of _ _ "[]", simplified]
  show ?thesis
    unfolding eq
    by (simp add: appendSudokuPayloadNoPadding_append appendAlwaysPadded_append appendMaybePadded_append)
qed

lemma encodeSudokuPayload_split:
  assumes "p \<noteq> []"
  shows "encodeSudokuPayload t r th p =
     do { (out, r) \<leftarrow> appendSudokuPayload [] t r th p; (pad, r) \<leftarrow> trailingPad t r th; Some (out @ pad, r) }"
  using assms
  by (auto simp: encodeSudokuPayload_def encodeSudokuPayloadNoPadding_def appendSudokuPayload_def
      trailingPad_def case_prod_beta bind_map_option comp_def intro!: Option.bind_cong)

lemma writeEncoded_sends: "sends maxEncodedWriteSize w p (fst (writeEncoded w p)) (snd (writeEncoded w p))"
proof (induction "length p" arbitrary: w p rule: less_induct)
  case less
  show ?case
  proof (cases "p = []")
    case True
    then show ?thesis by (simp add: writeEncoded.simps sends_Nil)
  next
    case False
    let ?n = "min (length p) maxEncodedWriteSize"
    obtain err w' where full: "WriteFull w (take ?n p) = (err, w')" by (metis prod.exhaust)
    have first: "sends maxEncodedWriteSize w (take ?n p) err w'"
      using WriteFull_sends [of "take ?n p" w] by (auto simp: full intro: sends_mono)
    show ?thesis
    proof (cases err)
      case (Some e)
      then have "writeEncoded w p = (Some e, w')" using False full by (subst writeEncoded.simps) simp
      then show ?thesis using sends_stop [of _ w "take ?n p" e w' "drop ?n p"] first Some
        by (simp only: append_take_drop_id fst_conv snd_conv)
    next
      case None
      have eq: "writeEncoded w p = writeEncoded w' (drop ?n p)"
        using False full None by (subst writeEncoded.simps) simp
      have "length (drop ?n p) < length p" using False by (simp add: maxEncodedWriteSize_def)
      from sends_append [OF first [unfolded None] less.hyps [OF this]]
      show ?thesis unfolding eq by (simp only: append_take_drop_id)
    qed
  qed
qed

context sudoku_table
begin

lemma appendSudokuPayload_ok:
  "\<exists>e r'. emits (\<lambda>out. appendSudokuPayload out t r th p) e r' \<and> length e \<le> expansion th * length p
     \<and> decodeGroups t (filter (hintTable (tbl_layout t)) e) = Some p"
proof (cases "p = []")
  case True
  then show ?thesis by (auto simp: appendSudokuPayload_def emits_def)
next
  case False
  consider "th = 0" | "th \<noteq> 0" "th \<ge> probOne" | "th \<noteq> 0" "\<not> th \<ge> probOne" by blast
  then show ?thesis
  proof cases
    case 1
    then show ?thesis using appendSudokuPayloadNoPadding_ok [of r p] False
      by (auto simp: appendSudokuPayload_def expansion_def)
  next
    case 2
    then show ?thesis using appendAlwaysPadded_ok [of r p] False
      by (auto simp: appendSudokuPayload_def expansion_def)
  next
    case 3
    then show ?thesis using appendMaybePadded_ok [of r th p] False
      by (auto simp: appendSudokuPayload_def expansion_def)
  qed
qed

lemma trailingPad_ok:
  "\<exists>bs r'. trailingPad t r th = Some (bs, r') \<and> length bs \<le> 1 \<and> filter (hintTable (tbl_layout t)) bs = []"
  using randomPad_ok [of r] maybePad_ok [of r th] by (auto simp: trailingPad_def)


lemma writePayloadLoop_flush:
  assumes "p \<noteq> []" "min (length p) ((cap - length out - 1) div m) = 0"
  shows "writePayloadLoop w cap out t r th m p tot buf =
     (case writeEncoded w out of
        (Some e, w') \<Rightarrow> Some \<lparr>res_cap = cap, res_n = tot, res_err = Some e, res_writer = w', res_rng = r\<rparr>
      | (None, w') \<Rightarrow> writePayloadLoop w' cap [] t r th m p (tot + buf) 0)"
  using assms by (subst writePayloadLoop.simps) simp

lemma writePayloadLoop_fill:
  assumes "n = min (length p) ((cap - length out - 1) div m)" "n \<noteq> 0"
    and "emits (\<lambda>out. appendSudokuPayload out t r th (take n p)) e r'" "length (out @ e) \<le> cap"
  shows "writePayloadLoop w cap out t r th m p tot buf =
     writePayloadLoop w cap (out @ e) t r' th m (drop n p) tot (buf + n)"
proof -
  have "p \<noteq> []" using assms(1, 2) by auto
  then have "writePayloadLoop w cap out t r th m p tot buf =
      do { (out, r) \<leftarrow> appendSudokuPayload out t r th (take n p);
           writePayloadLoop w (max cap (length out)) out t r th m (drop n p) tot (buf + n) }"
    using assms(2) by (subst writePayloadLoop.simps) (simp only: Let_def assms(1) [symmetric] if_True if_False not_False_eq_True)
  then show ?thesis using emitsD [OF assms(3), of out] assms(4) by (simp add: max_absorb1)
qed

lemma writePayloadLoop_end:
  assumes "trailingPad t r th = Some (pad, r')" "length (out @ pad) \<le> cap"
  shows "writePayloadLoop w cap out t r th m [] tot buf =
     (case writeEncoded w (out @ pad) of
        (Some e, w') \<Rightarrow> Some \<lparr>res_cap = cap, res_n = tot, res_err = Some e, res_writer = w', res_rng = r'\<rparr>
      | (None, w') \<Rightarrow> Some \<lparr>res_cap = cap, res_n = tot + buf, res_err = None, res_writer = w', res_rng = r'\<rparr>)"
  using assms
  by (subst writePayloadLoop.simps)
    (auto simp: trailingPad_def map_option_case max_absorb1 split: if_splits option.splits prod.splits)

text \<open>What the loop has left to send is the buffer, the encoding of the rest and the
  trailing pad; it sends a prefix of that, all of it when it reports success.\<close>

lemma writePayloadLoop_sends:
  assumes "length out < cap" "expansion th < cap"
    and "emits (\<lambda>out. appendSudokuPayload out t r th p) e r1" "trailingPad t r1 th = Some (pad, r2)"
    and "length pad \<le> 1"
  shows "\<exists>res. writePayloadLoop w cap out t r th (expansion th) p tot buf = Some res
    \<and> sends maxEncodedWriteSize w (out @ e @ pad) (res_err res) (res_writer res)
    \<and> res_cap res = cap \<and> tot \<le> res_n res \<and> res_n res \<le> tot + buf + length p
    \<and> (res_err res = None \<longrightarrow> res_n res = tot + buf + length p \<and> res_rng res = r2)"
  using assms(1, 3, 4)
proof (induction "2 * length p + (if out = [] then 0 else 1)" arbitrary: w out r p e tot buf rule: less_induct)
  case less
  let ?m = "expansion th" let ?n = "min (length p) ((cap - length out - 1) div ?m)"
  obtain err w' where wr: "writeEncoded w out = (err, w')" by (metis prod.exhaust)
  have sent: "sends maxEncodedWriteSize w out err w'" using writeEncoded_sends [of w out] wr by simp
  have mpos: "0 < ?m" by (simp add: expansion_def)
  show ?case
  proof (cases "p = []")
    case True
    then have e: "e = []" "r1 = r" using emitsD [OF less.prems(2), of "[]"] by (simp_all add: appendSudokuPayload_def)
    obtain err2 w2 where wr2: "writeEncoded w (out @ pad) = (err2, w2)" by (metis prod.exhaust)
    have "sends maxEncodedWriteSize w (out @ pad) err2 w2" using writeEncoded_sends [of w "out @ pad"] wr2 by simp
    moreover have "writePayloadLoop w cap out t r th ?m [] tot buf =
       (case (err2, w2) of
          (Some e, w') \<Rightarrow> Some \<lparr>res_cap = cap, res_n = tot, res_err = Some e, res_writer = w', res_rng = r2\<rparr>
        | (None, w') \<Rightarrow> Some \<lparr>res_cap = cap, res_n = tot + buf, res_err = None, res_writer = w', res_rng = r2\<rparr>)"
      unfolding wr2 [symmetric]
      using less.prems assms(5) e by (intro writePayloadLoop_end) simp_all
    ultimately show ?thesis using True e by (cases err2) simp_all
  next
    case p: False
    show ?thesis
    proof (cases "?n = 0")
      case True
      then have "(cap - length out - 1) div ?m = 0" using p by (simp add: min_def split: if_splits)
      then have "cap - length out - 1 < ?m" using mpos by (simp add: div_eq_0_iff)
      then have out: "out \<noteq> []" using assms(2) by auto
      note loop = writePayloadLoop_flush [OF p True, where w = w and r = r and th = th and tot = tot and buf = buf, unfolded wr]
      show ?thesis
      proof (cases err)
        case (Some x)
        then show ?thesis using loop sends_stop [of _ w out x w' "e @ pad"] sent by simp
      next
        case None
        have "0 < cap" using assms(2) by simp
        from less.hyps [of p "[]" r e w' "tot + buf" 0, OF _ _ less.prems(2,3)] out this
        obtain res where res: "writePayloadLoop w' cap [] t r th ?m p (tot + buf) 0 = Some res"
          "sends maxEncodedWriteSize w' (e @ pad) (res_err res) (res_writer res)"
          "res_cap res = cap" "tot + buf \<le> res_n res" "res_n res \<le> tot + buf + length p"
          "res_err res = None \<longrightarrow> res_n res = tot + buf + length p \<and> res_rng res = r2" by auto
        moreover have "sends maxEncodedWriteSize w (out @ e @ pad) (res_err res) (res_writer res)"
          using sends_append [OF sent [unfolded None] res(2)] .
        ultimately show ?thesis using loop None by simp
      qed
    next
      case n: False
      obtain e1 r' where e1: "emits (\<lambda>out. appendSudokuPayload out t r th (take ?n p)) e1 r'"
        "length e1 \<le> ?m * length (take ?n p)" using appendSudokuPayload_ok by blast
      obtain e2 r3 where e2: "emits (\<lambda>out. appendSudokuPayload out t r' th (drop ?n p)) e2 r3"
        using appendSudokuPayload_ok by blast
      have "appendSudokuPayload [] t r th p = Some (e1 @ e2, r3)"
        using appendSudokuPayload_append [of "[]" t r th "take ?n p" "drop ?n p"]
          emitsD [OF e1(1), of "[]"] emitsD [OF e2, of e1] by (simp only: append_take_drop_id append_Nil bind.simps prod.case)
      then have e: "e = e1 @ e2" "r3 = r1" using emitsD [OF less.prems(2), of "[]"] by simp_all
      have "?m * ?n \<le> cap - length out - 1"
        by (metis min.cobounded2 mult_le_mono2 order_trans times_div_less_eq_dividend)
      then have fits: "length (out @ e1) < cap" using e1(2) less.prems(1) by simp
      have "2 * length (drop ?n p) + (if out @ e1 = [] then 0 else 1) < 2 * length p + (if out = [] then 0 else 1)"
      proof -
        have "length (drop ?n p) < length p" using n p by simp
        then have "2 * length (drop ?n p) + 1 < 2 * length p" by linarith
        then show ?thesis by (auto split: if_splits)
      qed
      from less.hyps [OF this fits, of r' e2 w tot "buf + ?n"] e2 e less.prems(3)
      obtain res where res: "writePayloadLoop w cap (out @ e1) t r' th ?m (drop ?n p) tot (buf + ?n) = Some res"
          "sends maxEncodedWriteSize w ((out @ e1) @ e2 @ pad) (res_err res) (res_writer res)"
          "res_cap res = cap" "tot \<le> res_n res" "res_n res \<le> tot + (buf + ?n) + length (drop ?n p)"
          "res_err res = None \<longrightarrow> res_n res = tot + (buf + ?n) + length (drop ?n p) \<and> res_rng res = r2" by auto
      moreover have "?n + length (drop ?n p) = length p" by simp
      ultimately show ?thesis
        using writePayloadLoop_fill [OF refl n e1(1), where w = w and tot = tot and buf = buf] fits e by simp
    qed
  qed
qed

end

section \<open>The decoder returns the groups\<close>

text \<open>A decoder state and the hints it still has to process: those in hintBuf and those of
  the bytes to come.\<close>

definition pendingHints :: "Table \<Rightarrow> byte list \<Rightarrow> nat \<Rightarrow> byte list \<Rightarrow> byte list" where
  "pendingHints t hintBuf hintCount wire = take hintCount hintBuf @ filter (hintTable (tbl_layout t)) wire"

definition decodeOk :: "Table \<Rightarrow> nat \<Rightarrow> byte list \<Rightarrow> nat \<Rightarrow> byte list \<Rightarrow> byte list \<Rightarrow> byte list \<Rightarrow> decodeResult \<Rightarrow> bool" where
  "decodeOk t plen out consumed rest future q d \<longleftrightarrow>
     dec_err d = None \<and> length (dec_hintBuf d) = 4 \<and> dec_hintCount d < 4
     \<and> (\<exists>o' q' n. dec_out d = out @ o' \<and> q = o' @ q' \<and> dec_consumed d = consumed + n \<and> n \<le> length rest
          \<and> decodeGroups t (pendingHints t (dec_hintBuf d) (dec_hintCount d) (drop n rest @ future)) = Some q'
          \<and> (n = length rest \<or> plen \<le> length (dec_out d)) \<and> length (dec_out d) \<le> max plen (length out))"

lemma decodeOk_step:
  assumes "decodeOk t plen (out @ o1) (consumed + k) (drop k rest) future q d" "k \<le> length rest"
    and "length (out @ o1) \<le> plen"
  shows "decodeOk t plen out consumed rest future (o1 @ q) d"
proof -
  from assms(1) obtain o' q' n where h: "dec_err d = None" "length (dec_hintBuf d) = 4" "dec_hintCount d < 4"
    "dec_out d = (out @ o1) @ o'" "q = o' @ q'" "dec_consumed d = consumed + k + n" "n \<le> length (drop k rest)"
    "decodeGroups t (pendingHints t (dec_hintBuf d) (dec_hintCount d) (drop n (drop k rest) @ future)) = Some q'"
    "n = length (drop k rest) \<or> plen \<le> length (dec_out d)" "length (dec_out d) \<le> max plen (length (out @ o1))"
    unfolding decodeOk_def by blast
  show ?thesis unfolding decodeOk_def
    using h assms(2, 3)
    by (intro conjI exI [of _ "o1 @ o'"] exI [of _ q'] exI [of _ "k + n"])
      (auto simp: add.commute)
qed

lemma Cons4E:
  assumes "3 < length xs"
  obtains a b c d ys where "xs = a # b # c # d # ys"
proof -
  have "Suc (Suc (Suc (Suc 0))) \<le> length xs" using assms by simp
  then show ?thesis using that by (auto simp: Suc_le_length_iff)
qed

lemma decodeLoop_slow:
  assumes "length out < plen"
    and "\<not> (hintCount = 0 \<and> 3 < length (b # rest1) \<and> hintTable (tbl_layout t) ((b # rest1) ! 0)
      \<and> hintTable (tbl_layout t) ((b # rest1) ! 1) \<and> hintTable (tbl_layout t) ((b # rest1) ! 2)
      \<and> hintTable (tbl_layout t) ((b # rest1) ! 3))"
  shows "decodeLoop t plen hintBuf hintCount out consumed (b # rest1) =
    (if \<not> hintTable (tbl_layout t) b then decodeLoop t plen hintBuf hintCount out (consumed + 1) rest1
     else if \<not> hintCount < length hintBuf then None
     else let hintBuf = hintBuf[hintCount := b]; hintCount = hintCount + 1 in
       if hintCount \<noteq> 4 then decodeLoop t plen hintBuf hintCount out (consumed + 1) rest1
       else case DecodeMap t (packHintBytes (hintBuf ! 0) (hintBuf ! 1) (hintBuf ! 2) (hintBuf ! 3)) of
           None \<Rightarrow> Some \<lparr>dec_out = out, dec_consumed = consumed + 1, dec_err = Some InvalidSudokuMapMiss,
                         dec_hintBuf = hintBuf, dec_hintCount = hintCount\<rparr>
         | Some v \<Rightarrow> decodeLoop t plen hintBuf 0 (out @ [v]) (consumed + 1) rest1)"
  by (subst decodeLoop.simps) (simp only: Let_def list.case assms if_False not_True_eq_False)

lemma decodeLoop_ok:
  assumes "length hintBuf = 4" "hintCount < 4"
    and "decodeGroups t (pendingHints t hintBuf hintCount (rest @ future)) = Some q"
  shows "\<exists>d. decodeLoop t plen hintBuf hintCount out consumed rest = Some d
    \<and> decodeOk t plen out consumed rest future q d"
  using assms
proof (induction "length rest" arbitrary: rest hintBuf hintCount out consumed q rule: less_induct)
  case less
  let ?H = "hintTable (tbl_layout t)"
  show ?case
  proof (cases "length out < plen \<and> rest \<noteq> []")
    case False
    then have "decodeLoop t plen hintBuf hintCount out consumed rest =
        Some \<lparr>dec_out = out, dec_consumed = consumed, dec_err = None, dec_hintBuf = hintBuf, dec_hintCount = hintCount\<rparr>"
      by (subst decodeLoop.simps) (auto simp: Let_def split: list.splits)
    then show ?thesis using False less.prems by (auto simp: decodeOk_def)
  next
    case True
    then obtain b rest1 where rest: "rest = b # rest1" and out: "length out < plen" by (cases rest) auto
    show ?thesis
    proof (cases "hintCount = 0 \<and> 3 < length rest \<and> ?H (rest ! 0) \<and> ?H (rest ! 1) \<and> ?H (rest ! 2) \<and> ?H (rest ! 3)")
      case fast: True
      let ?k = "packHintBytes (rest ! 0) (rest ! 1) (rest ! 2) (rest ! 3)"
      obtain b0 b1 b2 b3 rest4 where r4: "rest = b0 # b1 # b2 # b3 # rest4"
        using fast by (blast elim: Cons4E)
      then have "pendingHints t hintBuf hintCount (rest @ future) =
          rest ! 0 # rest ! 1 # rest ! 2 # rest ! 3 # pendingHints t hintBuf 0 (drop 4 rest @ future)"
        using fast by (simp add: pendingHints_def)
      with less.prems(3) obtain v q2 where v: "DecodeMap t ?k = Some v" "q = v # q2"
        "decodeGroups t (pendingHints t hintBuf 0 (drop 4 rest @ future)) = Some q2"
        by (auto split: option.splits)
      have "decodeLoop t plen hintBuf hintCount out consumed rest =
          decodeLoop t plen hintBuf 0 (out @ [v]) (consumed + 4) (drop 4 rest)"
        using fast out v(1) rest by (subst decodeLoop.simps) (simp add: Let_def)
      moreover have "length (drop 4 rest) < length rest" by (simp add: r4)
      then obtain d where "decodeLoop t plen hintBuf 0 (out @ [v]) (consumed + 4) (drop 4 rest) = Some d"
        "decodeOk t plen (out @ [v]) (consumed + 4) (drop 4 rest) future q2 d"
        using less.hyps [of "drop 4 rest" hintBuf 0 q2 "out @ [v]" "consumed + 4"] fast less.prems(1) v(3) by auto
      ultimately show ?thesis
        using decodeOk_step [of t plen out "[v]" consumed 4 rest future q2] fast out v(2) by auto
    next
      case slow: False
      show ?thesis
      proof (cases "?H b")
        case False
        have "decodeLoop t plen hintBuf hintCount out consumed rest =
            decodeLoop t plen hintBuf hintCount out (consumed + 1) rest1"
          using False decodeLoop_slow [OF out slow [unfolded rest]] by (simp add: rest)
        moreover have "decodeGroups t (pendingHints t hintBuf hintCount (rest1 @ future)) = Some q"
          using less.prems(3) False by (simp add: pendingHints_def rest)
        ultimately show ?thesis
          using less.hyps [of rest1 hintBuf hintCount q out "consumed + 1"] less.prems(1, 2)
            decodeOk_step [of t plen out "[]" consumed 1 rest future q] out by (auto simp: rest)
      next
        case True
        define hb where "hb = hintBuf[hintCount := b]"
        have hb: "length hb = 4" "take (Suc hintCount) hb = take hintCount hintBuf @ [b]"
          using less.prems(1, 2) by (simp_all add: hb_def take_Suc_conv_app_nth take_update_cancel)
        have pend: "pendingHints t hintBuf hintCount (rest @ future) =
            take (Suc hintCount) hb @ filter ?H (rest1 @ future)"
          using True by (simp add: pendingHints_def rest hb)
        show ?thesis
        proof (cases "Suc hintCount = 4")
          case False
          then have "decodeLoop t plen hintBuf hintCount out consumed rest =
              decodeLoop t plen hb (Suc hintCount) out (consumed + 1) rest1"
            using True decodeLoop_slow [OF out slow [unfolded rest]] less.prems(1, 2)
            by (simp add: rest Let_def hb_def)
          moreover have "decodeGroups t (pendingHints t hb (Suc hintCount) (rest1 @ future)) = Some q"
            using less.prems(3) unfolding pend by (simp only: pendingHints_def)
          ultimately show ?thesis
            using less.hyps [of rest1 hb "Suc hintCount" q out "consumed + 1"] less.prems(2) hb(1) False
              decodeOk_step [of t plen out "[]" consumed 1 rest future q] out by (auto simp: rest)
        next
          case four: True
          obtain h0 h1 h2 h3 where hs: "hb = [h0, h1, h2, h3]" using hb(1) by (rule list4E)
          have "pendingHints t hintBuf hintCount (rest @ future) = h0 # h1 # h2 # h3 # pendingHints t hb 0 (rest1 @ future)"
            unfolding pend four by (simp add: hs pendingHints_def)
          with less.prems(3) obtain v q2 where v: "DecodeMap t (packHintBytes h0 h1 h2 h3) = Some v" "q = v # q2"
            "decodeGroups t (pendingHints t hb 0 (rest1 @ future)) = Some q2"
            by (auto split: option.splits)
          have "hintBuf[hintCount := b] = [h0, h1, h2, h3]" using hs by (simp add: hb_def)
          then have "decodeLoop t plen hintBuf hintCount out consumed rest =
              decodeLoop t plen hb 0 (out @ [v]) (consumed + 1) rest1"
            using True decodeLoop_slow [OF out slow [unfolded rest]] less.prems(1, 2) four v(1)
            by (simp add: rest Let_def hs)
          moreover obtain d where "decodeLoop t plen hb 0 (out @ [v]) (consumed + 1) rest1 = Some d"
            "decodeOk t plen (out @ [v]) (consumed + 1) rest1 future q2 d"
            using less.hyps [of rest1 hb 0 q2 "out @ [v]" "consumed + 1"] hb(1) v(3) by (auto simp: rest)
          ultimately show ?thesis
            using decodeOk_step [of t plen out "[v]" consumed 1 rest future q2] out v(2) by (auto simp: rest)
        qed
      qed
    qed
  qed
qed

section \<open>Reading from a connection\<close>

text \<open>The bytes a connection has still to decode, and a connection from which the payload q
  can be read: no chunk of the network is empty, and the hints in hintBuf, in the read
  buffer and on the wire decode to q.\<close>

definition undecoded :: "Conn \<Rightarrow> byte list" where
  "undecoded sc = (case conn_reader sc of None \<Rightarrow> [] | Some b \<Rightarrow> b) @ concat (src_chunks (conn_source sc))"

definition connHolds :: "Conn \<Rightarrow> byte list \<Rightarrow> bool" where
  "connHolds sc q \<longleftrightarrow> length (conn_hintBuf sc) = 4 \<and> conn_hintCount sc < 4
     \<and> [] \<notin> set (src_chunks (conn_source sc))
     \<and> decodeGroups (conn_table sc) (pendingHints (conn_table sc) (conn_hintBuf sc) (conn_hintCount sc) (undecoded sc)) = Some q"

lemma bufioFill_chunk:
  assumes "[] \<notin> set (src_chunks s)" "src_chunks s \<noteq> []" "0 < sz"
  shows "\<exists>b s'. bufioFill sz (Suc i) s = (b, None, s') \<and> b \<noteq> [] \<and> concat (src_chunks s) = b @ concat (src_chunks s')
    \<and> [] \<notin> set (src_chunks s') \<and> src_final s' = src_final s"
  using assms by (cases "src_chunks s") (auto simp: connRead_def Let_def)

lemma bufioFill_end:
  "src_chunks s = [] \<Longrightarrow> bufioFill sz (Suc i) s = ([], Some (src_final s), s)"
  by (simp add: connRead_def)

lemma peekBufferedChunk_data:
  assumes "[] \<notin> set (src_chunks s)" "buf @ concat (src_chunks s) \<noteq> []"
  shows "\<exists>b s'. peekBufferedChunk buf s = (Inr b, s') \<and> b \<noteq> []
    \<and> buf @ concat (src_chunks s) = b @ concat (src_chunks s') \<and> [] \<notin> set (src_chunks s') \<and> src_final s' = src_final s"
proof (cases "buf = []")
  case True
  with assms have "src_chunks s \<noteq> []" by auto
  moreover have "0 < IOBufferSize" by (simp add: IOBufferSize_def)
  ultimately obtain b s' where "bufioFill IOBufferSize 100 s = (b, None, s')" "b \<noteq> []"
    "concat (src_chunks s) = b @ concat (src_chunks s')" "[] \<notin> set (src_chunks s')" "src_final s' = src_final s"
    using bufioFill_chunk [OF assms(1), of IOBufferSize 99] by auto
  then show ?thesis using True by (simp add: peekBufferedChunk_def)
next
  case False
  then show ?thesis using assms by (simp add: peekBufferedChunk_def)
qed

lemma peekBufferedChunk_end:
  "src_chunks s = [] \<Longrightarrow> peekBufferedChunk [] s = (Inl (src_final s), s)"
  using bufioFill_end [of s IOBufferSize 99] by (simp add: peekBufferedChunk_def)

text \<open>One pass over the buffered chunk.\<close>

lemma readPass_data:
  assumes "connHolds sc q" "undecoded sc \<noteq> []" "0 < plen"
  shows "\<exists>o' q' sc'. readPass sc plen = Some (Inr o', sc') \<and> q = o' @ q' \<and> connHolds sc' q'
    \<and> length o' \<le> plen \<and> length (undecoded sc') < length (undecoded sc)
    \<and> conn_table sc' = conn_table sc \<and> src_final (conn_source sc') = src_final (conn_source sc)"
proof -
  let ?t = "conn_table sc" and ?buf = "case conn_reader sc of None \<Rightarrow> [] | Some b \<Rightarrow> b"
  note inv = assms(1) [unfolded connHolds_def]
  obtain chunk s' where peek: "peekBufferedChunk ?buf (conn_source sc) = (Inr chunk, s')" "chunk \<noteq> []"
    "undecoded sc = chunk @ concat (src_chunks s')" "[] \<notin> set (src_chunks s')"
    "src_final s' = src_final (conn_source sc)"
    using peekBufferedChunk_data [of "conn_source sc" ?buf] inv assms(2) by (auto simp: undecoded_def)
  obtain d where d: "decodeLoop ?t plen (conn_hintBuf sc) (conn_hintCount sc) [] 0 chunk = Some d"
    "decodeOk ?t plen [] 0 chunk (concat (src_chunks s')) q d"
    using decodeLoop_ok [of "conn_hintBuf sc" "conn_hintCount sc" ?t chunk "concat (src_chunks s')" q plen "[]" 0]
      inv peek(3) by auto
  from d(2) obtain q' where q: "dec_err d = None" "q = dec_out d @ q'" "dec_consumed d \<le> length chunk"
    "length (dec_hintBuf d) = 4" "dec_hintCount d < 4"
    "decodeGroups ?t (pendingHints ?t (dec_hintBuf d) (dec_hintCount d) (drop (dec_consumed d) chunk @ concat (src_chunks s'))) = Some q'"
    "dec_consumed d = length chunk \<or> plen \<le> length (dec_out d)" "length (dec_out d) \<le> plen"
    by (auto simp: decodeOk_def)
  have "0 < dec_consumed d"
  proof (rule ccontr)
    assume "\<not> 0 < dec_consumed d"
    with q(7) peek(2) assms(3) have "dec_out d \<noteq> []" by auto
    let ?F = "length (filter (hintTable (tbl_layout ?t)) (undecoded sc))"
    have "conn_hintCount sc + ?F = 4 * length q"
      using decodeGroups_length [of ?t "pendingHints ?t (conn_hintBuf sc) (conn_hintCount sc) (undecoded sc)" q] inv
      by (simp add: pendingHints_def)
    moreover have "dec_hintCount d + ?F = 4 * length q'"
      using decodeGroups_length [OF q(6)] \<open>\<not> 0 < dec_consumed d\<close> peek(3) q(4, 5) by (simp add: pendingHints_def)
    moreover have "conn_hintCount sc < 4" "length q = length (dec_out d) + length q'" using inv q(2) by simp_all
    ultimately have "length (dec_out d) = 0" by linarith
    with \<open>dec_out d \<noteq> []\<close> show False by simp
  qed
  define sc' where "sc' = sc\<lparr>conn_source := s', conn_reader := Some (drop (dec_consumed d) chunk),
    conn_hintBuf := dec_hintBuf d, conn_hintCount := dec_hintCount d,
    conn_recorder := (if conn_recording sc then map_option (\<lambda>bs. bs @ take (dec_consumed d) chunk) (conn_recorder sc)
      else conn_recorder sc)\<rparr>"
  have "readPass sc plen = Some (Inr (dec_out d), sc')"
    using peek(1) d(1) q(1) by (simp add: readPass_def Let_def sc'_def)
  moreover have "connHolds sc' q'"
    using q(4, 5, 6) peek(4) by (simp add: connHolds_def sc'_def undecoded_def)
  moreover have "length (undecoded sc') < length (undecoded sc)"
    using \<open>0 < dec_consumed d\<close> q(3) peek(2, 3) by (simp add: sc'_def undecoded_def)
  ultimately show ?thesis using q(2, 8) peek(5) by (auto simp: sc'_def)
qed

lemma readPass_end:
  assumes "undecoded sc = []" "[] \<notin> set (src_chunks (conn_source sc))"
  shows "readPass sc plen = Some (Inl (ReadError (src_final (conn_source sc))), sc\<lparr>conn_reader := Some []\<rparr>)"
proof -
  have "src_chunks (conn_source sc) = []" using assms by (cases "src_chunks (conn_source sc)") (auto simp: undecoded_def)
  then show ?thesis using assms(1) peekBufferedChunk_end [of "conn_source sc"]
    by (simp add: readPass_def Let_def undecoded_def)
qed

text \<open>Read returns: some of the payload, or the error of the network once there is none.\<close>

lemma connReadLoop_ok:
  assumes "connHolds sc q" "0 < plen"
  shows "\<exists>sc'. conn_table sc' = conn_table sc \<and> src_final (conn_source sc') = src_final (conn_source sc)
    \<and> (if q = [] then connReadLoop sc plen = Some (Inl (ReadError (src_final (conn_source sc))), sc')
       else \<exists>o' q'. connReadLoop sc plen = Some (Inr o', sc') \<and> q = o' @ q' \<and> o' \<noteq> []
         \<and> length o' \<le> plen \<and> connHolds sc' q')"
  using assms(1)
proof (induction "length (undecoded sc)" arbitrary: sc rule: less_induct)
  case less
  show ?case
  proof (cases "undecoded sc = []")
    case True
    then have "decodeGroups (conn_table sc) (take (conn_hintCount sc) (conn_hintBuf sc)) = Some q"
      and inv: "[] \<notin> set (src_chunks (conn_source sc))" "length (conn_hintBuf sc) = 4" "conn_hintCount sc < 4"
      using less.prems by (simp_all add: connHolds_def pendingHints_def)
    then have "q = []" using decodeGroups_length by fastforce
    then show ?thesis using readPass_end [OF True inv(1), of plen]
      by (subst connReadLoop.simps) simp
  next
    case False
    from readPass_data [OF less.prems False assms(2)] obtain o' q' sc1 where
      pass: "readPass sc plen = Some (Inr o', sc1)" "q = o' @ q'" "connHolds sc1 q'" "length o' \<le> plen"
      "length (undecoded sc1) < length (undecoded sc)"
      "conn_table sc1 = conn_table sc" "src_final (conn_source sc1) = src_final (conn_source sc)" by blast
    show ?thesis
    proof (cases "o' = []")
      case True
      then have eq: "connReadLoop sc plen = connReadLoop sc1 plen" using pass(1) by (subst connReadLoop.simps) simp
      have "connHolds sc1 q" using pass(2, 3) True by simp
      from less.hyps [OF pass(5) this] show ?thesis unfolding eq pass(6, 7) .
    next
      case False
      then have "connReadLoop sc plen = Some (Inr o', sc1)" using pass(1) by (subst connReadLoop.simps) simp
      then show ?thesis using pass False by auto
    qed
  qed
qed

section \<open>Whole conversations\<close>

fun connWriteAll :: "Conn \<Rightarrow> byte list list \<Rightarrow> (nat \<times> ioerr option \<times> Conn) option" where
  "connWriteAll sc [] = Some (0, None, sc)"
| "connWriteAll sc (p # ps) =
     do { (n, err, sc) \<leftarrow> connWritePayload sc p;
          (case err of
             Some e \<Rightarrow> Some (n, Some e, sc)
           | None \<Rightarrow> do { (m, err, sc) \<leftarrow> connWriteAll sc ps; Some (n + m, err, sc) }) }"

lemma connReadPayload_pos: "0 < k \<Longrightarrow> connReadPayload sc k = connReadLoop sc k"
  by (simp add: connReadPayload_def)

interpretation classic: byte_stream connHolds connReadPayload "\<lambda>sc. ReadError (src_final (conn_source sc))"
proof
  fix sc q and k :: nat
  assume "connHolds sc q" "q \<noteq> []" "0 < k"
  then show "\<exists>o' q' sc'. connReadPayload sc k = Some (Inr o', sc') \<and> q = o' @ q' \<and> o' \<noteq> [] \<and> length o' \<le> k
      \<and> connHolds sc' q' \<and> ReadError (src_final (conn_source sc')) = ReadError (src_final (conn_source sc))"
    using connReadLoop_ok [of sc q k] by (auto simp: connReadPayload_pos)
next
  fix sc and k :: nat
  assume "connHolds sc []" "0 < k"
  then show "\<exists>sc'. connReadPayload sc k = Some (Inl (ReadError (src_final (conn_source sc))), sc')"
    using connReadLoop_ok [of sc "[]" k] by (auto simp: connReadPayload_pos)
qed

context sudoku_table
begin

lemma encodeSudokuPayload_ok:
  "\<exists>e r'. encodeSudokuPayload t r th p = Some (e, r') \<and> length e \<le> expansion th * length p + 1
     \<and> decodeGroups t (filter (hintTable (tbl_layout t)) e) = Some p"
proof (cases "p = []")
  case True
  then show ?thesis by (simp add: encodeSudokuPayload_def)
next
  case False
  obtain e r1 where e: "emits (\<lambda>out. appendSudokuPayload out t r th p) e r1" "length e \<le> expansion th * length p"
     "decodeGroups t (filter (hintTable (tbl_layout t)) e) = Some p" using appendSudokuPayload_ok by blast
  obtain pad r2 where "trailingPad t r1 th = Some (pad, r2)" "length pad \<le> 1" "filter (hintTable (tbl_layout t)) pad = []"
    using trailingPad_ok by blast
  then show ?thesis using False e emitsD [OF e(1), of "[]"]
    by (intro exI [of _ "e @ pad"] exI [of _ r2]) (simp add: encodeSudokuPayload_split)
qed

lemma writeSudokuPayload_sends:
  assumes "p \<noteq> []" "encodeSudokuPayload t r th p = Some (e, r')"
  shows "\<exists>res. writeSudokuPayload w cap t r th p = Some res
    \<and> sends maxEncodedWriteSize w e (res_err res) (res_writer res) \<and> res_n res \<le> length p
    \<and> (res_err res = None \<longrightarrow> res_n res = length p \<and> res_rng res = r')
    \<and> res_cap res \<le> max cap maxEncodedWriteSize"
proof -
  obtain e0 r1 where e0: "emits (\<lambda>out. appendSudokuPayload out t r th p) e0 r1" using appendSudokuPayload_ok by blast
  obtain pad r2 where pad: "trailingPad t r1 th = Some (pad, r2)" "length pad \<le> 1" using trailingPad_ok by blast
  have e: "e = e0 @ pad" "r' = r2"
    using assms emitsD [OF e0, of "[]"] pad(1) by (simp_all add: encodeSudokuPayload_split)
  define needed where "needed = min (min (length p) maxEncodedWriteSize * expansion th + 1) maxEncodedWriteSize"
  define c where "c = (if cap < needed then needed else cap)"
  have "expansion th \<le> min (length p) maxEncodedWriteSize * expansion th"
    using assms(1) by (cases p) (simp_all add: maxEncodedWriteSize_def)
  moreover have "expansion th < maxEncodedWriteSize" by (simp add: expansion_def maxEncodedWriteSize_def)
  ultimately have "expansion th < needed" unfolding needed_def min_less_iff_conj by linarith
  moreover have "needed \<le> maxEncodedWriteSize" by (simp add: needed_def)
  ultimately have cap: "expansion th < c" "c \<le> max cap maxEncodedWriteSize"
    by (auto simp: c_def)
  from writePayloadLoop_sends [of "[]" c th r p e0 r1 pad r2 w 0 0] cap e0 pad
  obtain res where "writePayloadLoop w c [] t r th (expansion th) p 0 0 = Some res"
    "sends maxEncodedWriteSize w (e0 @ pad) (res_err res) (res_writer res)" "res_cap res = c"
    "res_n res \<le> length p" "res_err res = None \<longrightarrow> res_n res = length p \<and> res_rng res = r2" by auto
  moreover have "writeSudokuPayload w cap t r th p = writePayloadLoop w c [] t r th (expansion th) p 0 0"
    by (simp only: writeSudokuPayload_def Let_def expansion_def c_def needed_def)
  ultimately show ?thesis using cap(2) e by simp
qed

lemma connWritePayload_ok:
  assumes "conn_table sc = t" "wr_script (conn_writer sc) = []"
  shows "\<exists>e sc'. connWritePayload sc p = Some (length p, None, sc') \<and> conn_table sc' = t
    \<and> wr_script (conn_writer sc') = [] \<and> wr_out (conn_writer sc') = wr_out (conn_writer sc) @ e
    \<and> decodeGroups t (filter (hintTable (tbl_layout t)) e) = Some p"
proof (cases "p = []")
  case True
  then show ?thesis using assms by (auto simp: connWritePayload_def)
next
  case False
  obtain e r' where e: "encodeSudokuPayload t (conn_rng sc) (conn_paddingThreshold sc) p = Some (e, r')"
    "decodeGroups t (filter (hintTable (tbl_layout t)) e) = Some p" using encodeSudokuPayload_ok by blast
  from writeSudokuPayload_sends [OF False e(1), of "conn_writer sc" "conn_writeCap sc"] assms
  show ?thesis using e(2) False by (auto simp: connWritePayload_def sends_def)
qed

lemma connWriteAll_ok:
  "conn_table sc = t \<Longrightarrow> wr_script (conn_writer sc) = [] \<Longrightarrow>
     \<exists>e sc'. connWriteAll sc ps = Some (length (concat ps), None, sc')
       \<and> wr_out (conn_writer sc') = wr_out (conn_writer sc) @ e
       \<and> decodeGroups t (filter (hintTable (tbl_layout t)) e) = Some (concat ps)"
proof (induction ps arbitrary: sc)
  case Nil
  then show ?case by simp
next
  case (Cons p ps)
  from connWritePayload_ok [OF Cons.prems, of p] obtain e sc1 where
    e: "connWritePayload sc p = Some (length p, None, sc1)" "conn_table sc1 = t" "wr_script (conn_writer sc1) = []"
      "wr_out (conn_writer sc1) = wr_out (conn_writer sc) @ e"
      "decodeGroups t (filter (hintTable (tbl_layout t)) e) = Some p" by blast
  from Cons.IH [OF e(2, 3)] obtain d sc2 where
    "connWriteAll sc1 ps = Some (length (concat ps), None, sc2)"
    "wr_out (conn_writer sc2) = wr_out (conn_writer sc1) @ d"
    "decodeGroups t (filter (hintTable (tbl_layout t)) d) = Some (concat ps)" by blast
  then show ?case using e decodeGroups_append [OF e(5)]
    by (intro exI [of _ "e @ d"] exI [of _ sc2]) simp
qed

lemma NewConn_holds:
  assumes "decodeGroups t (filter (hintTable (tbl_layout t)) (concat chunks)) = Some q" "[] \<notin> set chunks"
  shows "connHolds (NewConn r w \<lparr>src_chunks = chunks, src_final = e\<rparr> t a b rec) q"
  using assms by (simp add: connHolds_def NewConn_def undecoded_def pendingHints_def case_prod_beta Let_def)

lemma round_trip:
  assumes "connWriteAll (NewConn r \<lparr>wr_out = [], wr_calls = [], wr_script = []\<rparr> s t a b rec) ps = Some (n, err, sc)"
    and "concat chunks = wr_out (conn_writer sc)" "[] \<notin> set chunks"
    and "\<forall>k\<in>set ks. 0 < k" "length (concat ps) < length ks"
  shows "\<exists>sc'. n = length (concat ps) \<and> err = None \<and>
    readAll connReadPayload (NewConn r' w' \<lparr>src_chunks = chunks, src_final = EOF\<rparr> t a' b' rec') ks
      = Some (concat ps, Some (ReadError EOF), sc')"
proof -
  let ?sc = "NewConn r \<lparr>wr_out = [], wr_calls = [], wr_script = []\<rparr> s t a b rec"
  have sc: "conn_table ?sc = t" "conn_writer ?sc = \<lparr>wr_out = [], wr_calls = [], wr_script = []\<rparr>"
    by (simp_all add: NewConn_def case_prod_beta Let_def)
  from connWriteAll_ok [of ?sc ps] sc assms(1) have
    "n = length (concat ps)" "err = None"
    "decodeGroups t (filter (hintTable (tbl_layout t)) (wr_out (conn_writer sc))) = Some (concat ps)" by auto
  moreover from this NewConn_holds [of chunks "concat ps" r' w' EOF a' b' rec'] assms(2, 3)
  have "connHolds (NewConn r' w' \<lparr>src_chunks = chunks, src_final = EOF\<rparr> t a' b' rec') (concat ps)" by simp
  from classic.readAll_holds [OF this assms(4, 5)]
  obtain sc' where "readAll connReadPayload (NewConn r' w' \<lparr>src_chunks = chunks, src_final = EOF\<rparr> t a' b' rec') ks
      = Some (concat ps, Some (ReadError EOF), sc')"
    by (auto simp: NewConn_def case_prod_beta Let_def)
  ultimately show ?thesis by simp
qed

end

section \<open>Recording\<close>

text \<open>While a connection records, what it recorded, buffered and has not received yet is what
  the network sent.\<close>

definition wireSeen :: "Conn \<Rightarrow> byte list" where
  "wireSeen sc = GetBufferedAndRecorded sc @ concat (src_chunks (conn_source sc))"

definition recordsWire :: "Conn \<Rightarrow> byte list \<Rightarrow> bool" where
  "recordsWire sc wire \<longleftrightarrow> conn_recording sc \<and> conn_recorder sc \<noteq> None \<and> wireSeen sc = wire"

lemma concat_connRead:
  "connRead s k = (b, err, s') \<Longrightarrow> concat (src_chunks s) = b @ concat (src_chunks s')"
  by (auto simp: connRead_def split: list.splits if_splits)

lemma concat_bufioFill:
  "bufioFill sz i s = (b, err, s') \<Longrightarrow> concat (src_chunks s) = b @ concat (src_chunks s')"
proof (induction sz i s rule: bufioFill.induct)
  case (2 sz i s)
  obtain b1 err1 s1 where "connRead s sz = (b1, err1, s1)" by (metis prod.exhaust)
  then show ?case using 2 concat_connRead [of s sz b1 err1 s1] by (auto split: if_splits)
qed simp

lemma concat_peekBufferedChunk:
  assumes "peekBufferedChunk buf s = (res, s')"
  shows "buf @ concat (src_chunks s) = (case res of Inl _ \<Rightarrow> [] | Inr b \<Rightarrow> b) @ concat (src_chunks s')"
proof (cases "buf = []")
  case True
  obtain b err s1 where fill: "bufioFill IOBufferSize 100 s = (b, err, s1)" by (metis prod.exhaust)
  then show ?thesis using assms True concat_bufioFill [OF fill]
    by (auto simp: peekBufferedChunk_def split: if_splits)
next
  case False
  then show ?thesis using assms by (auto simp: peekBufferedChunk_def)
qed

lemma readPass_records:
  assumes "recordsWire sc wire" "readPass sc plen = Some (res, sc')"
  shows "recordsWire sc' wire"
proof -
  let ?buf = "case conn_reader sc of None \<Rightarrow> [] | Some b \<Rightarrow> b"
  obtain pk s' where peek: "peekBufferedChunk ?buf (conn_source sc) = (pk, s')" by (metis prod.exhaust)
  obtain rec where rec: "conn_recorder sc = Some rec" "conn_recording sc"
    "wire = rec @ ?buf @ concat (src_chunks (conn_source sc))"
    using assms(1) by (auto simp: recordsWire_def wireSeen_def GetBufferedAndRecorded_def Let_def split: option.splits)
  note seen = rec(3) [unfolded concat_peekBufferedChunk [OF peek]]
  show ?thesis
  proof (cases pk)
    case (Inl e)
    then have "sc' = sc\<lparr>conn_reader := Some [], conn_source := s'\<rparr>"
      using assms(2) peek by (simp add: readPass_def Let_def)
    then show ?thesis using rec(1, 2) seen Inl
      by (simp add: recordsWire_def wireSeen_def GetBufferedAndRecorded_def)
  next
    case (Inr chunk)
    then obtain d where "decodeLoop (conn_table sc) plen (conn_hintBuf sc) (conn_hintCount sc) [] 0 chunk = Some d"
      and "sc' = sc\<lparr>conn_source := s', conn_reader := Some (drop (dec_consumed d) chunk),
        conn_hintBuf := dec_hintBuf d, conn_hintCount := dec_hintCount d,
        conn_recorder := Some (rec @ take (dec_consumed d) chunk)\<rparr>"
      using assms(2) peek rec(1, 2) by (auto simp: readPass_def Let_def bind_eq_Some_conv)
    then show ?thesis using rec(1, 2) seen Inr
      by (simp add: recordsWire_def wireSeen_def GetBufferedAndRecorded_def)
  qed
qed

lemma connReadLoop_records:
  assumes "connReadLoop sc plen = Some y"
  shows "recordsWire sc wire \<longrightarrow> recordsWire (snd y) wire"
proof (rule connReadLoop.raw_induct [OF _ assms])
  fix f :: "Conn \<Rightarrow> nat \<Rightarrow> ((codecError + byte list) \<times> Conn) option" and sc plen y
  assume IH: "\<And>sc plen y. f sc plen = Some y \<Longrightarrow> recordsWire sc wire \<longrightarrow> recordsWire (snd y) wire"
    and run: "readPass sc plen \<bind> (\<lambda>(res, sc). case res of Inl e \<Rightarrow> Some (Inl e, sc)
      | Inr out \<Rightarrow> if out \<noteq> [] then Some (Inr out, sc) else f sc plen) = Some y"
  show "recordsWire sc wire \<longrightarrow> recordsWire (snd y) wire"
  proof
    assume rec: "recordsWire sc wire"
    from run obtain r1 sc1 where pass: "readPass sc plen = Some (r1, sc1)"
      and rest: "(case r1 of Inl e \<Rightarrow> Some (Inl e, sc1)
        | Inr out \<Rightarrow> if out \<noteq> [] then Some (Inr out, sc1) else f sc1 plen) = Some y"
      by (auto simp: bind_eq_Some_conv)
    have "recordsWire sc1 wire" using readPass_records [OF rec pass] .
    then show "recordsWire (snd y) wire" using rest IH by (auto split: sum.splits if_splits)
  qed
qed

lemma connReads_records:
  "readAll connReadPayload sc ks = Some (out, err, sc') \<Longrightarrow> recordsWire sc wire \<Longrightarrow> recordsWire sc' wire"
proof (induction ks arbitrary: sc out)
  case (Cons k ks)
  then obtain res sc1 where pass: "connReadPayload sc k = Some (res, sc1)"
    by (auto simp: bind_eq_Some_conv)
  then have "recordsWire sc1 wire"
    using Cons.prems(2) connReadLoop_records [of sc k "(res, sc1)" wire]
    by (auto simp: connReadPayload_def split: if_splits)
  then show ?case using Cons pass by (auto simp: bind_eq_Some_conv split: sum.splits)
qed simp

section \<open>Properties of the classic codec\<close>

text \<open>A table of either direction of a successfully built pair meets the contract.\<close>

lemma built_table:
  "NewTableWithCustom draws fp key mode pattern = Inr lt \<Longrightarrow> t \<in> {this_table lt, opposite_table lt} \<Longrightarrow>
     sudoku_table t"
  using NewTableWithCustom_contract by auto

text \<open>The built table used in the witnesses.\<close>

lemma ascii_table_built:
  "NewTableWithCustom (\<lambda>_ _. 0) (\<lambda>_. 0) ''key'' ''ascii'' [] =
     Inr \<lparr>this_table = tableOfLayout (\<lambda>_. 0) newASCIILayout, opposite_table = tableOfLayout (\<lambda>_. 0) newASCIILayout\<rparr>"
proof -
  have "resolveLayout ''prefer_ascii'' [] = Inr newASCIILayout"
    "ParseASCIIMode ''ascii'' = Inr \<lparr>Uplink = ''ascii'', Downlink = ''ascii''\<rparr>"
    "uplinkPreference \<lparr>Uplink = ''ascii'', Downlink = ''ascii''\<rparr> = ''prefer_ascii''"
    "customPatternForToken ''ascii'' [] = []"
    by code_simp+
  moreover have "(tableOfLayout d l)\<lparr>tbl_hint := 0\<rparr> = tableOfLayout d l" for d l
    by (simp add: tableOfLayout_def Let_def case_prod_beta)
  ultimately show ?thesis
    by (simp add: NewTableWithCustom_def newSingleDirectionTable_def tableHintFingerprint_def Let_def)
qed

text \<open>C1: the classic codec is transparent. For every key, mode and pattern a table is built
  for, every sequence of writes, every padding configuration and generator state, the writes
  succeed and report the sizes of their buffers; and however the network cuts the wire
  bytes into chunks and whatever the sizes of the read buffers are, the reader of the other
  end gets the concatenated payload and then EOF.\<close>

theorem classic_round_trip:
  assumes "NewTableWithCustom draws fp key mode pattern = Inr lt" "t \<in> {this_table lt, opposite_table lt}"
  shows "\<exists>sc. connWriteAll (NewConn r \<lparr>wr_out = [], wr_calls = [], wr_script = []\<rparr> s t pMin pMax rec) ps
      = Some (length (concat ps), None, sc)
    \<and> (\<forall>chunks ks. concat chunks = wr_out (conn_writer sc) \<and> [] \<notin> set chunks
         \<and> (\<forall>k\<in>set ks. 0 < k) \<and> length (concat ps) < length ks \<longrightarrow>
         (\<exists>sc'. readAll connReadPayload (NewConn r' w' \<lparr>src_chunks = chunks, src_final = EOF\<rparr> t pMin' pMax' rec') ks
            = Some (concat ps, Some (ReadError EOF), sc')))"
proof -
  note t = built_table [OF assms]
  let ?sc = "NewConn r \<lparr>wr_out = [], wr_calls = [], wr_script = []\<rparr> s t pMin pMax rec"
  have "conn_table ?sc = t" "wr_script (conn_writer ?sc) = []"
    by (simp_all add: NewConn_def case_prod_beta Let_def)
  then obtain sc where sc: "connWriteAll ?sc ps = Some (length (concat ps), None, sc)"
    using sudoku_table.connWriteAll_ok [OF t] by blast
  show ?thesis
  proof (rule exI [of _ sc], intro conjI allI impI sc)
    fix chunks and ks :: "nat list"
    assume "concat chunks = wr_out (conn_writer sc) \<and> [] \<notin> set chunks \<and> (\<forall>k\<in>set ks. 0 < k)
      \<and> length (concat ps) < length ks"
    then show "\<exists>sc'. readAll connReadPayload (NewConn r' w' \<lparr>src_chunks = chunks, src_final = EOF\<rparr> t pMin' pMax' rec') ks
        = Some (concat ps, Some (ReadError EOF), sc')"
      using sudoku_table.round_trip [OF t sc, of chunks ks r' w' pMin' pMax' rec'] by simp
  qed
qed

theorem classic_round_trip_witness:
  "let t = tableOfLayout (\<lambda>_. 0) newASCIILayout; r = newSudokuRand 5;
       w = \<lparr>wr_out = [], wr_calls = [], wr_script = []\<rparr>; s = \<lparr>src_chunks = [], src_final = EOF\<rparr> in
     \<exists>sc sc'. connWriteAll (NewConn r w s t 5 60 False) [[72, 105], [33]] = Some (3, None, sc)
       \<and> readAll connReadPayload (NewConn r w \<lparr>src_chunks = map (\<lambda>b. [b]) (wr_out (conn_writer sc)), src_final = EOF\<rparr> t 0 0 True)
           [2, 1, 7, 7] = Some ([72, 105, 33], Some (ReadError EOF), sc')"
proof -
  define t where "t = tableOfLayout (\<lambda>_. 0) newASCIILayout"
  define w where "w = \<lparr>wr_out = [], wr_calls = [], wr_script = []\<rparr>"
  define s where "s = \<lparr>src_chunks = [], src_final = EOF\<rparr>"
  define r where "r = newSudokuRand 5"
  define ps :: "byte list list" where "ps = [[72, 105], [33]]"
  have "t \<in> {this_table \<lparr>this_table = t, opposite_table = t\<rparr>, opposite_table \<lparr>this_table = t, opposite_table = t\<rparr>}"
    by simp
  from classic_round_trip [OF ascii_table_built [folded t_def] this, of r s 5 60 False ps r w 0 0 True, folded w_def]
  obtain sc where sc: "connWriteAll (NewConn r w s t 5 60 False) ps = Some (length (concat ps), None, sc)"
    and read: "\<And>chunks ks. concat chunks = wr_out (conn_writer sc) \<and> [] \<notin> set chunks
         \<and> (\<forall>k\<in>set ks. 0 < k) \<and> length (concat ps) < length ks \<Longrightarrow>
         (\<exists>sc'. readAll connReadPayload (NewConn r w \<lparr>src_chunks = chunks, src_final = EOF\<rparr> t 0 0 True) ks
            = Some (concat ps, Some (ReadError EOF), sc'))"
    by blast
  have "concat (map (\<lambda>b. [b]) xs) = xs" for xs :: "byte list" by (induction xs) auto
  then have "\<exists>sc'. readAll connReadPayload (NewConn r w \<lparr>src_chunks = map (\<lambda>b. [b]) (wr_out (conn_writer sc)), src_final = EOF\<rparr> t 0 0 True)
      [2, 1, 7, 7] = Some (concat ps, Some (ReadError EOF), sc')"
    by (intro read) (auto simp: ps_def)
  moreover have "concat ps = [72, 105, 33]" "length (concat ps) = 3" by (simp_all add: ps_def)
  ultimately show ?thesis using sc unfolding Let_def t_def w_def s_def r_def ps_def by metis
qed



text \<open>A recording connection keeps what a fallback server needs. After any sequence of
  reads, also of bytes that are no Sudoku traffic and of reads that fail, the recorded and
  buffered bytes GetBufferedAndRecorded returns, followed by what the network has not
  delivered yet, are exactly the bytes the peer sent.\<close>

lemma GetBufferedAndRecorded_complete:
  assumes "readAll connReadPayload (NewConn r w \<lparr>src_chunks = chunks, src_final = e\<rparr> t pMin pMax True) ks = Some (out, err, sc)"
  shows "GetBufferedAndRecorded sc @ concat (src_chunks (conn_source sc)) = concat chunks"
proof -
  have "recordsWire (NewConn r w \<lparr>src_chunks = chunks, src_final = e\<rparr> t pMin pMax True) (concat chunks)"
    by (simp add: recordsWire_def wireSeen_def NewConn_def GetBufferedAndRecorded_def case_prod_beta Let_def)
  from connReads_records [OF assms this] show ?thesis by (simp add: recordsWire_def wireSeen_def)
qed

text \<open>A decoding error leaves the connection in a state that panics. When the fourth of
  four hints that are no clue combination arrives in a later chunk, Read reports
  ErrInvalidSudokuMapMiss and leaves hintCount at 4; the next hint byte indexes hintBuf out
  of range (None), for every table on the ASCII layout.\<close>

lemma decode_panics_after_miss:
  "let t = tableOfLayout draws newASCIILayout; h = hintByte newASCIILayout 0 0 in
   \<exists>d. decodeLoop t 8 [h, h, h, 0] 3 [] 0 [h] = Some d \<and> dec_err d = Some InvalidSudokuMapMiss
     \<and> decodeLoop t 8 (dec_hintBuf d) (dec_hintCount d) [] 0 [h] = None"
proof -
  let ?t = "tableOfLayout draws newASCIILayout" and ?h = "hintByte newASCIILayout 0 0"
  have hint: "hintTable (tbl_layout ?t) ?h"
    by (simp add: tableOfLayout_def Let_def case_prod_beta ascii.hint_of_hintByte)
  have miss: "DecodeMap ?t (packHintBytes ?h ?h ?h ?h) = None"
    by (rule tableOfLayout_miss) (rule ascii.layout_contract_axioms)
  have "decodeLoop ?t 8 [?h, ?h, ?h, 0] 3 [] 0 [?h] = Some \<lparr>dec_out = [], dec_consumed = 1,
      dec_err = Some InvalidSudokuMapMiss, dec_hintBuf = [?h, ?h, ?h, ?h], dec_hintCount = 4\<rparr>"
    using hint miss by (subst decodeLoop_slow) (simp_all add: Let_def eval_nat_numeral)
  moreover have "decodeLoop ?t 8 [?h, ?h, ?h, ?h] 4 [] 0 [?h] = None"
    using hint by (subst decodeLoop_slow) simp_all
  ultimately show ?thesis by (simp add: Let_def)
qed

end
