(* ===== verification/Sudoku_Packed.thy ===== *)
theory Sudoku_Packed
  imports Sudoku_Classic
begin

text \<open>
  The packed codec (obfs/sudoku/packed.go, packed\_blocks.go, packed\_decode.go): bytes are cut
  into 6-bit groups, each written as one hint byte with optional padding between them.

  As in the classic codec, None stands for a panic (an index out of range, a slice with a
  negative length). bitBuf and readBitBuf are 64-bit words. A buffer is the bytes appended
  to it; its capacity enters where the code computes with it.
\<close>

section \<open>State\<close>

definition packedProtectedPrefixBytes :: nat where "packedProtectedPrefixBytes = 14"

record PackedConn =
  pk_writer :: writer
  pk_source :: source
  pk_table :: Table
  pk_reader :: "byte list option"
  pk_recorder :: "byte list option"
  pk_recording :: bool
  pk_writeCap :: nat
  pk_bitBuf :: u64
  pk_bitCount :: nat
  pk_readBitBuf :: u64
  pk_readBits :: nat
  pk_rng :: sudokuRand
  pk_paddingThreshold :: u64
  pk_padMarker :: byte
  pk_padPool :: "byte list"

definition NewPackedConnWithRecord :: "sudokuRand \<Rightarrow> writer \<Rightarrow> source \<Rightarrow> Table \<Rightarrow> int \<Rightarrow> int \<Rightarrow> bool \<Rightarrow> PackedConn" where
  "NewPackedConnWithRecord localRng w s t pMin pMax rec =
     (let (threshold, rng) = pickPaddingThreshold (Some localRng) pMin pMax;
          marker = padMarker (tbl_layout t);
          pool = filter (\<lambda>b. b \<noteq> marker) (PaddingPool t);
          pool = (if pool = [] then [marker] else pool)
      in \<lparr>pk_writer = w, pk_source = s, pk_table = t, pk_reader = None,
          pk_recorder = (if rec then Some [] else None), pk_recording = rec,
          pk_writeCap = 0, pk_bitBuf = 0, pk_bitCount = 0, pk_readBitBuf = 0, pk_readBits = 0,
          pk_rng = (case rng of Some r \<Rightarrow> r | None \<Rightarrow> localRng), pk_paddingThreshold = threshold,
          pk_padMarker = marker, pk_padPool = pool\<rparr>)"

definition NewPackedConn :: "sudokuRand \<Rightarrow> writer \<Rightarrow> source \<Rightarrow> Table \<Rightarrow> int \<Rightarrow> int \<Rightarrow> PackedConn" where
  "NewPackedConn localRng w s t pMin pMax = NewPackedConnWithRecord localRng w s t pMin pMax False"

definition pkStopRecording :: "PackedConn \<Rightarrow> PackedConn" where
  "pkStopRecording pc = pc\<lparr>pk_recording := False, pk_recorder := None\<rparr>"

definition pkGetBufferedAndRecorded :: "PackedConn \<Rightarrow> byte list" where
  "pkGetBufferedAndRecorded pc =
     (let recorded = (case pk_recorder pc of None \<Rightarrow> [] | Some bs \<Rightarrow> bs) in
      case pk_reader pc of None \<Rightarrow> recorded | Some buffered \<Rightarrow> recorded @ buffered)"

section \<open>Encoding\<close>

text \<open>Padding from a pool: getPaddingByte, the padding before a group and the optional one.\<close>

definition getPaddingByte :: "byte list \<Rightarrow> sudokuRand \<Rightarrow> (byte \<times> sudokuRand) option" where
  "getPaddingByte pool r =
     (let (i, r) = randIntn r (length pool) in map_option (\<lambda>b. (b, r)) (index pool i))"

definition maybeAppendPackedPadding :: "byte list \<Rightarrow> sudokuRand \<Rightarrow> u64 \<Rightarrow> byte list \<Rightarrow> (byte list \<times> sudokuRand) option" where
  "maybeAppendPackedPadding out r threshold pool =
     (if threshold \<noteq> 0 then
        let (u, r) = randUint32 r in
        if (ucast u :: u64) < threshold then
          let (v, r) = randUint32 r in
          map_option (\<lambda>b. (out @ [b], r)) (index pool (fastIntnFromUint32 v (length pool)))
        else Some (out, r)
      else Some (out, r))"

definition appendPackedGroup :: "byte list \<Rightarrow> byteLayout \<Rightarrow> sudokuRand \<Rightarrow> u64 \<Rightarrow> byte list \<Rightarrow> byte \<Rightarrow> (byte list \<times> sudokuRand) option" where
  "appendPackedGroup out l r threshold pool g =
     do { (out, r) \<leftarrow> maybeAppendPackedPadding out r threshold pool;
          Some (out @ [encodeGroup l (g AND 0x3F)], r) }"

text \<open>The loop that takes complete groups from the pending bits, and a byte pushed into them.\<close>

record bitWriter =
  bw_out :: "byte list"
  bw_rng :: sudokuRand
  bw_buf :: u64
  bw_count :: nat

function drainGroups :: "byteLayout \<Rightarrow> u64 \<Rightarrow> byte list \<Rightarrow> bitWriter \<Rightarrow> bitWriter option" where
  "drainGroups l threshold pool b =
     (if bw_count b \<ge> 6 then
        let n = bw_count b - 6; g = ucast (drop_bit n (bw_buf b)); buf = (if n = 0 then 0 else bw_buf b AND mask n) in
        do { (out, r) \<leftarrow> appendPackedGroup (bw_out b) l (bw_rng b) threshold pool g;
             drainGroups l threshold pool (b\<lparr>bw_out := out, bw_rng := r, bw_buf := buf, bw_count := n\<rparr>) }
      else Some b)"
  by pat_completeness auto
termination
  by (relation "measure (\<lambda>(l, t, p, b). bw_count b)") auto

declare drainGroups.simps [simp del]

definition pushByte :: "byteLayout \<Rightarrow> u64 \<Rightarrow> byte list \<Rightarrow> bitWriter \<Rightarrow> byte \<Rightarrow> bitWriter option" where
  "pushByte l threshold pool b x =
     drainGroups l threshold pool (b\<lparr>bw_buf := push_bit 8 (bw_buf b) OR ucast x, bw_count := bw_count b + 8\<rparr>)"

text \<open>writeProtectedPrefix: leading padding (the bound is drawn again in every round), then the
  first bytes with forced padding after every one or two of them.\<close>

definition appendForcedPadding :: "byte list \<Rightarrow> bitWriter \<Rightarrow> bitWriter option" where
  "appendForcedPadding pool b =
     do { (x, r) \<leftarrow> getPaddingByte pool (bw_rng b); Some (b\<lparr>bw_out := bw_out b @ [x], bw_rng := r\<rparr>) }"

function leadingPadding :: "byte list \<Rightarrow> nat \<Rightarrow> bitWriter \<Rightarrow> bitWriter option" where
  "leadingPadding pool padCount b =
     (let (k, r) = randIntn (bw_rng b) 2; b = b\<lparr>bw_rng := r\<rparr> in
      if padCount < 1 + k then
        do { b \<leftarrow> appendForcedPadding pool b; leadingPadding pool (padCount + 1) b }
      else Some b)"
  by pat_completeness auto
termination
proof (relation "measure (\<lambda>(p, n, b). 2 - n)")
  fix pool :: "byte list" and padCount k :: nat and b y :: bitWriter and x r
  assume "x = randIntn (bw_rng b) 2" "(k, r) = x" "padCount < 1 + k"
  then have "padCount < 2" using randIntn_prod [of "bw_rng b" 2 k r] by simp
  then show "((pool, padCount + 1, y), pool, padCount, b) \<in> measure (\<lambda>(p, n, b). 2 - n)" by simp
qed simp

declare leadingPadding.simps [simp del]

definition nextProtectedPrefixGap :: "sudokuRand \<Rightarrow> nat \<times> sudokuRand" where
  "nextProtectedPrefixGap r = (let (k, r) = randIntn r 2 in (1 + k, r))"

fun prefixBytes :: "byteLayout \<Rightarrow> u64 \<Rightarrow> byte list \<Rightarrow> nat \<Rightarrow> nat \<Rightarrow> bitWriter \<Rightarrow> byte list \<Rightarrow> bitWriter option" where
  "prefixBytes l threshold pool gap effective b [] = Some b"
| "prefixBytes l threshold pool gap effective b (x # xs) =
     do { b \<leftarrow> pushByte l threshold pool b x;
          if effective + 1 \<ge> gap then
            do { b \<leftarrow> appendForcedPadding pool b;
                 let (gap, r) = nextProtectedPrefixGap (bw_rng b);
                 prefixBytes l threshold pool gap 0 (b\<lparr>bw_rng := r\<rparr>) xs }
          else prefixBytes l threshold pool gap (effective + 1) b xs }"

definition writeProtectedPrefix :: "byteLayout \<Rightarrow> u64 \<Rightarrow> byte list \<Rightarrow> bitWriter \<Rightarrow> byte list \<Rightarrow> (bitWriter \<times> nat) option" where
  "writeProtectedPrefix l threshold pool b p =
     (if p = [] then Some (b, 0)
      else
        let limit = min (length p) packedProtectedPrefixBytes in
        do { b \<leftarrow> leadingPadding pool 0 b;
             let (gap, r) = nextProtectedPrefixGap (bw_rng b);
             b \<leftarrow> prefixBytes l threshold pool gap 0 (b\<lparr>bw_rng := r\<rparr>) (take limit p);
             Some (b, limit) })"

text \<open>Bytes up to the next group boundary; the result has the bytes that are left.\<close>

fun alignBytes :: "byteLayout \<Rightarrow> u64 \<Rightarrow> byte list \<Rightarrow> bitWriter \<Rightarrow> byte list \<Rightarrow> (bitWriter \<times> byte list) option" where
  "alignBytes l threshold pool b [] = Some (b, [])"
| "alignBytes l threshold pool b (x # xs) =
     (if bw_count b > 0 then
        do { (out, r) \<leftarrow> maybeAppendPackedPadding (bw_out b) (bw_rng b) threshold pool;
             b \<leftarrow> pushByte l threshold pool (b\<lparr>bw_out := out, bw_rng := r\<rparr>) x;
             alignBytes l threshold pool b xs }
      else Some (b, x # xs))"

text \<open>appendPackedBlocks: four groups per three bytes, without and with padding draws.\<close>

definition blockGroups :: "byte \<Rightarrow> byte \<Rightarrow> byte \<Rightarrow> byte list" where
  "blockGroups b0 b1 b2 =
     [drop_bit 2 b0, push_bit 4 (b0 AND 3) OR drop_bit 4 b1, push_bit 2 (b1 AND 15) OR drop_bit 6 b2, b2 AND 63]"

fun appendGroupsPadded :: "byte list \<Rightarrow> byteLayout \<Rightarrow> sudokuRand \<Rightarrow> u64 \<Rightarrow> byte list \<Rightarrow> byte list \<Rightarrow> (byte list \<times> sudokuRand) option" where
  "appendGroupsPadded out l r threshold pads [] = Some (out, r)"
| "appendGroupsPadded out l r threshold pads (g # gs) =
     (let (u, r) = randUint32 r in
      do { (out, r) \<leftarrow> (if (ucast u :: u64) < threshold then
               let (v, r) = randUint32 r in
               map_option (\<lambda>b. (out @ [b], r)) (index pads (fastIntnFromUint32 v (length pads)))
             else Some (out, r));
           appendGroupsPadded (out @ [encodeGroup l g]) l r threshold pads gs })"

fun appendPackedBlocks :: "byte list \<Rightarrow> byte list \<Rightarrow> byteLayout \<Rightarrow> sudokuRand \<Rightarrow> u64 \<Rightarrow> byte list \<Rightarrow> (byte list \<times> sudokuRand) option" where
  "appendPackedBlocks out (b0 # b1 # b2 # p) l r threshold pads =
     (if threshold = 0 then appendPackedBlocks (out @ map (encodeGroup l) (blockGroups b0 b1 b2)) p l r threshold pads
      else do { (out, r) \<leftarrow> appendGroupsPadded out l r threshold pads (blockGroups b0 b1 b2);
                appendPackedBlocks out p l r threshold pads })"
| "appendPackedBlocks out p l r threshold pads = Some (out, r)"

text \<open>The batches: q holds the complete blocks still to be sent, done counts the bytes of the
  payload before them and written those that an error would report. The result is the error,
  the writer, the buffer, the generator and written.\<close>

definition goQuot :: "int \<Rightarrow> int \<Rightarrow> int" where
  "goQuot a b = (if a < 0 then - ((- a) div b) else a div b)"

partial_function (option) writeBlocks ::
    "byteLayout \<Rightarrow> u64 \<Rightarrow> byte list \<Rightarrow> nat \<Rightarrow> writer \<Rightarrow> byte list \<Rightarrow> sudokuRand \<Rightarrow> byte list \<Rightarrow> nat \<Rightarrow> nat
      \<Rightarrow> (ioerr option \<times> writer \<times> byte list \<times> sudokuRand \<times> nat) option" where
  "writeBlocks l threshold pool capacity w out r q i written =
     (if q = [] then Some (None, w, out, r, written)
      else
        let blockSize = (if threshold \<noteq> 0 then 8 else 4);
            count = min (goQuot (int capacity - int (length out) - 8) blockSize * 3) (int (length q)) in
        if count = 0 then
          (case writeEncoded w out of
             (Some e, w) \<Rightarrow> Some (Some e, w, out, r, written)
           | (None, w) \<Rightarrow> writeBlocks l threshold pool capacity w [] r q i i)
        else if count < 0 then None
        else do { (out, r) \<leftarrow> appendPackedBlocks out (take (nat count) q) l r threshold pool;
                  writeBlocks l threshold pool capacity w out r (drop (nat count) q) (i + nat count) written })"

declare writeBlocks.simps [code]

fun pushBytes :: "byteLayout \<Rightarrow> u64 \<Rightarrow> byte list \<Rightarrow> bitWriter \<Rightarrow> byte list \<Rightarrow> bitWriter option" where
  "pushBytes l threshold pool b [] = Some b"
| "pushBytes l threshold pool b (x # xs) =
     do { b \<leftarrow> pushByte l threshold pool b x; pushBytes l threshold pool b xs }"

text \<open>Residual bits are left-aligned in a last group and followed by the marker.\<close>

definition flushResidual :: "byteLayout \<Rightarrow> u64 \<Rightarrow> byte list \<Rightarrow> byte \<Rightarrow> bitWriter \<Rightarrow> bitWriter option" where
  "flushResidual l threshold pool marker b =
     (if bw_count b > 0 then
        let g = ucast (push_bit (6 - bw_count b) (bw_buf b)) in
        do { (out, r) \<leftarrow> appendPackedGroup (bw_out b) l (bw_rng b) threshold pool g;
             Some (b\<lparr>bw_out := out @ [marker], bw_rng := r, bw_buf := 0, bw_count := 0\<rparr>) }
      else Some b)"

definition pkWrite :: "PackedConn \<Rightarrow> byte list \<Rightarrow> (nat \<times> ioerr option \<times> PackedConn) option" where
  "pkWrite pc p =
     (if p = [] then Some (0, None, pc)
      else if pk_padPool pc = [] then Some (0, Some ErrClosedPipe, pc)
      else
        let l = tbl_layout (pk_table pc); th = pk_paddingThreshold pc; pool = pk_padPool pc;
            needed = min (min (length p) maxEncodedWriteSize * 3 + 64) maxEncodedWriteSize;
            capacity = max (pk_writeCap pc) needed;
            b0 = \<lparr>bw_out = [], bw_rng = pk_rng pc, bw_buf = pk_bitBuf pc, bw_count = pk_bitCount pc\<rparr> in
        do { (b, i) \<leftarrow> writeProtectedPrefix l th pool b0 p;
             (b, rest) \<leftarrow> alignBytes l th pool b (drop i p);
             let blocks = length rest div 3 * 3;
             (err, w, out, r, written) \<leftarrow> writeBlocks l th pool capacity (pk_writer pc) (bw_out b) (bw_rng b)
                 (take blocks rest) (length p - length rest) 0;
             let pc = pc\<lparr>pk_writeCap := capacity, pk_writer := w\<rparr>;
             (case err of
                Some e \<Rightarrow> Some (written, Some e, pc\<lparr>pk_rng := r, pk_bitBuf := bw_buf b, pk_bitCount := bw_count b\<rparr>)
              | None \<Rightarrow>
                  do { b \<leftarrow> pushBytes l th pool (b\<lparr>bw_out := out, bw_rng := r\<rparr>) (drop blocks rest);
                       b \<leftarrow> flushResidual l th pool (pk_padMarker pc) b;
                       (out, r) \<leftarrow> maybeAppendPackedPadding (bw_out b) (bw_rng b) th pool;
                       let pc = pc\<lparr>pk_rng := r, pk_bitBuf := bw_buf b, pk_bitCount := bw_count b\<rparr>;
                       (case writeEncoded (pk_writer pc) out of
                          (Some e, w) \<Rightarrow> Some (written, Some e, pc\<lparr>pk_writer := w\<rparr>)
                        | (None, w) \<Rightarrow> Some (length p, None, pc\<lparr>pk_writer := w\<rparr>)) }) })"

definition pkFlush :: "PackedConn \<Rightarrow> (ioerr option \<times> PackedConn) option" where
  "pkFlush pc =
     (if pk_padPool pc = [] then Some (Some ErrClosedPipe, pc)
      else
        let l = tbl_layout (pk_table pc);
            (out, pc) = (if pk_bitCount pc > 0
              then ([groupByte l (ucast (push_bit (6 - pk_bitCount pc) (pk_bitBuf pc)) AND 0x3F), pk_padMarker pc],
                    pc\<lparr>pk_bitBuf := 0, pk_bitCount := 0\<rparr>)
              else ([], pc)) in
        do { (out, r) \<leftarrow> maybeAppendPackedPadding out (pk_rng pc) (pk_paddingThreshold pc) (pk_padPool pc);
             let pc = pc\<lparr>pk_rng := r\<rparr>;
             if out \<noteq> [] then
               (case writeEncoded (pk_writer pc) out of (err, w) \<Rightarrow> Some (err, pc\<lparr>pk_writer := w\<rparr>))
             else Some (None, pc) })"

section \<open>Decoding\<close>

record bitReader =
  br_buf :: u64
  br_bits :: nat

text \<open>One wire byte on the byte-wise path: the byte it completes, if any.\<close>

definition pkDecodeByte :: "byteLayout \<Rightarrow> byte \<Rightarrow> bitReader \<Rightarrow> byte \<Rightarrow> byte option \<times> bitReader" where
  "pkDecodeByte l marker s b =
     (let g = decodeGroup l b in
      if g \<ge> 64 then (None, if b = marker then \<lparr>br_buf = 0, br_bits = 0\<rparr> else s)
      else
        let buf = push_bit 6 (br_buf s) OR ucast g; n = br_bits s + 6 in
        if n \<ge> 8 then
          let n = n - 8; val = ucast (drop_bit n buf) in
          (Some val, \<lparr>br_buf = (if n = 0 then 0 else buf AND mask n), br_bits = n\<rparr>)
        else (None, \<lparr>br_buf = buf, br_bits = n\<rparr>))"

text \<open>decode: room is what is left of the caller's buffer; the result has the bytes decoded, the
  number of wire bytes consumed and the reader.\<close>

fun pkDecode :: "byteLayout \<Rightarrow> byte \<Rightarrow> nat \<Rightarrow> bitReader \<Rightarrow> byte list \<Rightarrow> byte list \<times> nat \<times> bitReader" where
  "pkDecode l marker room s [] = ([], 0, s)"
| "pkDecode l marker room s (b # chunk) =
     (if room = 0 then ([], 0, s)
      else if br_bits s = 0 \<and> 3 \<le> room \<and> 3 \<le> length chunk
          \<and> (decodeGroup l b OR decodeGroup l (chunk ! 0) OR decodeGroup l (chunk ! 1) OR decodeGroup l (chunk ! 2)) < 64 then
        let g1 = decodeGroup l b; g2 = decodeGroup l (chunk ! 0); g3 = decodeGroup l (chunk ! 1); g4 = decodeGroup l (chunk ! 2);
            (out, n, s) = pkDecode l marker (room - 3) s (drop 3 chunk) in
        ([push_bit 2 g1 OR drop_bit 4 g2, push_bit 4 g2 OR drop_bit 2 g3, push_bit 6 g3 OR g4] @ out, n + 4, s)
      else (case pkDecodeByte l marker s b of
          (Some val, s) \<Rightarrow> let (out, n, s) = pkDecode l marker (room - 1) s chunk in (val # out, n + 1, s)
        | (None, s) \<Rightarrow> let (out, n, s) = pkDecode l marker room s chunk in (out, n + 1, s)))"

definition pkReadPass :: "PackedConn \<Rightarrow> nat \<Rightarrow> (ioerr + byte list) \<times> PackedConn" where
  "pkReadPass pc plen =
     (let buf = (case pk_reader pc of None \<Rightarrow> [] | Some b \<Rightarrow> b) in
      case peekBufferedChunk buf (pk_source pc) of
        (Inl e, s) \<Rightarrow>
          (Inl e, (if e = EOF then pc\<lparr>pk_readBitBuf := 0, pk_readBits := 0\<rparr> else pc)\<lparr>pk_reader := Some [], pk_source := s\<rparr>)
      | (Inr chunk, s) \<Rightarrow>
          let (out, consumed, st) = pkDecode (tbl_layout (pk_table pc)) (pk_padMarker pc) plen
                 \<lparr>br_buf = pk_readBitBuf pc, br_bits = pk_readBits pc\<rparr> chunk in
          (Inr out, pc\<lparr>pk_source := s, pk_reader := Some (drop consumed chunk),
            pk_readBitBuf := br_buf st, pk_readBits := br_bits st,
            pk_recorder := (if pk_recording pc
              then map_option (\<lambda>bs. bs @ take consumed chunk) (pk_recorder pc) else pk_recorder pc)\<rparr>))"

partial_function (option) pkReadLoop :: "PackedConn \<Rightarrow> nat \<Rightarrow> ((ioerr + byte list) \<times> PackedConn) option" where
  "pkReadLoop pc plen =
     (case pkReadPass pc plen of
        (Inl e, pc) \<Rightarrow> Some (Inl e, pc)
      | (Inr out, pc) \<Rightarrow> if out \<noteq> [] then Some (Inr out, pc) else pkReadLoop pc plen)"

declare pkReadLoop.simps [code]

definition pkRead :: "PackedConn \<Rightarrow> nat \<Rightarrow> ((ioerr + byte list) \<times> PackedConn) option" where
  "pkRead pc plen = (if plen = 0 then Some (Inr [], pc) else pkReadLoop pc plen)"


section \<open>Bits\<close>

text \<open>The low n bits of a word, most significant first, and the reference packing: a bit string cut
  into groups of six.\<close>

definition bitsN :: "nat \<Rightarrow> 'a::len word \<Rightarrow> bool list" where
  "bitsN n w = rev (map (bit w) [0..<n])"

definition bitsOf :: "byte list \<Rightarrow> bool list" where
  "bitsOf p = concat (map (bitsN 8) p)"

definition ofBits :: "bool list \<Rightarrow> byte" where
  "ofBits bs = foldl (\<lambda>w b. 2 * w + of_bool b) 0 bs"

function groupsOf :: "bool list \<Rightarrow> byte list" where
  "groupsOf bs = (if length bs < 6 then [] else ofBits (take 6 bs) # groupsOf (drop 6 bs))"
  by pat_completeness auto
termination by (relation "measure length") auto

function leftover :: "bool list \<Rightarrow> bool list" where
  "leftover bs = (if length bs < 6 then bs else leftover (drop 6 bs))"
  by pat_completeness auto
termination by (relation "measure length") auto

declare groupsOf.simps [simp del] leftover.simps [simp del]

lemma length_bitsN [simp]: "length (bitsN n w) = n"
  by (simp add: bitsN_def)

lemma bitsOf_simps [simp]:
  "bitsOf [] = []" "bitsOf (x # xs) = bitsN 8 x @ bitsOf xs" "bitsOf (xs @ ys) = bitsOf xs @ bitsOf ys"
  by (simp_all add: bitsOf_def)

lemma length_bitsOf [simp]: "length (bitsOf p) = 8 * length p"
  by (induction p) auto

lemma bitsN_add: "bitsN (m + k) w = bitsN m (drop_bit k w) @ bitsN k w"
proof -
  have "[0..<m + k] = [0..<k] @ map (\<lambda>i. k + i) [0..<m]"
    by (intro nth_equalityI) (auto simp: nth_append)
  then show ?thesis by (simp add: bitsN_def bit_drop_bit_eq comp_def rev_map)
qed

lemma bitsN_cong: "(\<And>i. i < n \<Longrightarrow> bit v i = bit w i) \<Longrightarrow> bitsN n v = bitsN n w"
  by (simp add: bitsN_def)

lemma bitsN_mask: "bitsN n (w AND mask n) = bitsN n w"
  by (rule bitsN_cong) (auto simp: bit_and_iff bit_mask_iff dest: bit_imp_le_length)

lemma bitsN_ucast: "n \<le> 8 \<Longrightarrow> bitsN n (ucast (w :: u64) :: byte) = bitsN n w"
  by (rule bitsN_cong) (auto simp: bit_ucast_iff)

lemma bitsN_push:
  assumes "n + 8 \<le> 64"
  shows "bitsN (n + 8) (push_bit 8 (w :: u64) OR ucast (x :: byte)) = bitsN n w @ bitsN 8 x"
proof -
  have "bitsN n (drop_bit 8 (push_bit 8 w OR ucast x)) = bitsN n w"
    using assms by (intro bitsN_cong) (auto simp: bit_simps dest: bit_imp_le_length)
  moreover have "bitsN 8 (push_bit 8 w OR ucast x) = bitsN 8 x"
    unfolding bitsN_def by (intro arg_cong [of _ _ rev] map_cong) (auto simp: bit_simps)
  ultimately show ?thesis by (simp add: bitsN_add)
qed

lemma bitsN_residual:
  assumes "c \<le> 6"
  shows "bitsN 6 (push_bit (6 - c) (w :: u64)) = bitsN c w @ replicate (6 - c) False"
proof -
  have "bitsN c (drop_bit (6 - c) (push_bit (6 - c) w)) = bitsN c w"
    using assms by (intro bitsN_cong) (auto simp: bit_simps dest: bit_imp_le_length)
  moreover have "bitsN (6 - c) (push_bit (6 - c) w) = replicate (6 - c) False"
    by (intro nth_equalityI) (auto simp: bitsN_def rev_nth bit_simps)
  ultimately show ?thesis using assms bitsN_add [of c "6 - c" "push_bit (6 - c) w"] by simp
qed

lemma ofBits_bitsN: "ofBits (bitsN 6 (g :: byte)) = g AND 63"
proof -
  have "\<forall>g :: byte. ofBits (bitsN 6 g) = g AND 63" unfolding all_bytes by code_simp
  then show ?thesis by blast
qed

lemma groupsOf_short: "length bs < 6 \<Longrightarrow> groupsOf bs = [] \<and> leftover bs = bs"
  by (simp add: groupsOf.simps leftover.simps)

lemma groupsOf_step:
  "length g = 6 \<Longrightarrow> groupsOf (g @ bs) = ofBits g # groupsOf bs \<and> leftover (g @ bs) = leftover bs"
  using groupsOf.simps [of "g @ bs"] leftover.simps [of "g @ bs"] by simp

lemma groupsOf_append:
  "groupsOf (xs @ ys) = groupsOf xs @ groupsOf (leftover xs @ ys) \<and> leftover (xs @ ys) = leftover (leftover xs @ ys)"
proof (induction "length xs" arbitrary: xs rule: less_induct)
  case less
  show ?case
  proof (cases "length xs < 6")
    case True
    then show ?thesis by (simp add: groupsOf_short)
  next
    case False
    then have "xs = take 6 xs @ drop 6 xs" "length (take 6 xs) = 6" by simp_all
    then have eq: "groupsOf (xs @ ys) = ofBits (take 6 xs) # groupsOf (drop 6 xs @ ys)" "leftover (xs @ ys) = leftover (drop 6 xs @ ys)"
      "groupsOf xs = ofBits (take 6 xs) # groupsOf (drop 6 xs)" "leftover xs = leftover (drop 6 xs)"
      using groupsOf_step [of "take 6 xs"] by (metis append.assoc)+
    have "length (drop 6 xs) < length xs" using False by simp
    from less [OF this] show ?thesis by (simp add: eq)
  qed
qed

lemma length_leftover: "length (leftover bs) = length bs mod 6"
proof (induction bs rule: leftover.induct)
  case (1 bs)
  then show ?case by (subst leftover.simps) (simp add: le_mod_geq)
qed

lemma length_groupsOf: "length (groupsOf bs) = length bs div 6"
proof (induction bs rule: groupsOf.induct)
  case (1 bs)
  then show ?case by (subst groupsOf.simps) (simp add: le_div_geq)
qed


section \<open>What the encoder emits\<close>

text \<open>A padding pool for a layout: not empty, and none of its bytes is a hint. The hints of a
  wire string are what a decoder that knows padding from hints would keep.\<close>

definition okPool :: "byteLayout \<Rightarrow> byte list \<Rightarrow> bool" where
  "okPool l pool \<longleftrightarrow> layout_contract l \<and> pool \<noteq> [] \<and> length pool \<le> 2 ^ 32 \<and> (\<forall>b\<in>set pool. \<not> hintTable l b)"

definition wireHints :: "byteLayout \<Rightarrow> byte list \<Rightarrow> byte list" where
  "wireHints l e = filter (hintTable l) e"

lemma wireHints_simps [simp]:
  "wireHints l [] = []" "wireHints l (xs @ ys) = wireHints l xs @ wireHints l ys"
  by (simp_all add: wireHints_def)

lemma wireHints_pads: "okPool l pool \<Longrightarrow> set e \<subseteq> set pool \<Longrightarrow> wireHints l e = []"
  by (auto simp: okPool_def wireHints_def filter_empty_conv)

lemma okPool_encodeGroup: "okPool l pool \<Longrightarrow> hintTable l (encodeGroup l (g AND 63))"
  using layout_contract.hint_of_groupByte [of l g] by (simp add: okPool_def groupByte_def)

lemma getPaddingByte_ok:
  assumes "okPool l pool"
  shows "\<exists>x r'. getPaddingByte pool r = Some (x, r') \<and> x \<in> set pool"
proof -
  obtain i r' where i: "randIntn r (length pool) = (i, r')" by (metis prod.exhaust)
  have "i < length pool" using randIntn_prod [OF i] assms by (simp add: okPool_def)
  with i show ?thesis by (simp add: getPaddingByte_def)
qed

lemma maybeAppendPackedPadding_ok:
  assumes "okPool l pool"
  shows "\<exists>e r'. maybeAppendPackedPadding out r th pool = Some (out @ e, r') \<and> set e \<subseteq> set pool
    \<and> length e \<le> (if th = 0 then 0 else 1)"
proof -
  obtain u r1 where u: "randUint32 r = (u, r1)" by (metis prod.exhaust)
  obtain v r2 where v: "randUint32 r1 = (v, r2)" by (metis prod.exhaust)
  have "fastIntnFromUint32 v (length pool) < length pool"
    using fastIntnFromUint32_less assms by (simp add: okPool_def)
  with u v show ?thesis by (auto simp: maybeAppendPackedPadding_def)
qed

lemma appendPackedGroup_ok:
  assumes "okPool l pool"
  shows "\<exists>e r'. appendPackedGroup out l r th pool g = Some (out @ e, r')
    \<and> wireHints l e = [encodeGroup l (g AND 63)] \<and> length e \<le> (if th = 0 then 1 else 2)"
proof -
  obtain e r' where e: "maybeAppendPackedPadding out r th pool = Some (out @ e, r')" "set e \<subseteq> set pool"
    "length e \<le> (if th = 0 then 0 else 1)" using maybeAppendPackedPadding_ok [OF assms] by blast
  then show ?thesis using wireHints_pads [OF assms e(2)] okPool_encodeGroup [OF assms, of g]
    by (intro exI [of _ "e @ [encodeGroup l (g AND 63)]"] exI [of _ r']) (auto simp: appendPackedGroup_def wireHints_def split: if_splits)
qed

text \<open>A step of the bit writer: from b to b' it has taken in bits, emitted the complete groups
  among its pending bits and these, in at most k wire bytes, and kept the rest.\<close>

definition pend :: "bitWriter \<Rightarrow> bool list" where
  "pend b = bitsN (bw_count b) (bw_buf b)"

definition encodes :: "byteLayout \<Rightarrow> bitWriter \<Rightarrow> bool list \<Rightarrow> nat \<Rightarrow> bitWriter \<Rightarrow> bool" where
  "encodes l b bs k b' \<longleftrightarrow> pend b' = leftover (pend b @ bs) \<and> bw_count b' < 6
     \<and> (\<exists>e. bw_out b' = bw_out b @ e \<and> wireHints l e = map (encodeGroup l) (groupsOf (pend b @ bs)) \<and> length e \<le> k)"

lemma length_pend [simp]: "length (pend b) = bw_count b"
  by (simp add: pend_def)

lemma encodes_count: "encodes l b bs k b' \<Longrightarrow> bw_count b' = (bw_count b + length bs) mod 6"
  using length_leftover [of "pend b @ bs"] length_pend [of b'] by (simp add: encodes_def)

lemma encodes_trans:
  assumes "encodes l b x k b1" "encodes l b1 y m b2"
  shows "encodes l b (x @ y) (k + m) b2"
proof -
  from assms(1) obtain e where e: "bw_out b1 = bw_out b @ e" "wireHints l e = map (encodeGroup l) (groupsOf (pend b @ x))" "length e \<le> k"
    unfolding encodes_def by blast
  from assms(2) obtain f where f: "bw_out b2 = bw_out b1 @ f" "wireHints l f = map (encodeGroup l) (groupsOf (pend b1 @ y))" "length f \<le> m"
    unfolding encodes_def by blast
  have "pend b1 = leftover (pend b @ x)" "pend b2 = leftover (pend b1 @ y)" "bw_count b2 < 6"
    using assms by (simp_all add: encodes_def)
  then show ?thesis unfolding encodes_def using e f groupsOf_append [of "pend b @ x" y]
    by (intro conjI exI [of _ "e @ f"]) simp_all
qed

lemma encodes_pads:
  assumes "okPool l pool" "bw_count b < 6" "set e \<subseteq> set pool" "length e \<le> k"
  shows "encodes l b [] k (b\<lparr>bw_out := bw_out b @ e, bw_rng := r\<rparr>)"
  using assms wireHints_pads [OF assms(1, 3)] groupsOf_short [of "pend b"] by (simp add: encodes_def pend_def)

lemma encodes_rng: "encodes l b bs k b' \<Longrightarrow> encodes l b bs k (b'\<lparr>bw_rng := r\<rparr>)"
  by (simp add: encodes_def pend_def)

lemma drainGroups_ok:
  assumes "okPool l pool"
  shows "\<exists>b'. drainGroups l th pool b = Some b' \<and> encodes l b [] (2 * (bw_count b div 6)) b'"
proof (induction "bw_count b" arbitrary: b rule: less_induct)
  case less
  show ?case
  proof (cases "bw_count b \<ge> 6")
    case False
    then show ?thesis using groupsOf_short [of "pend b"]
      by (intro exI [of _ b]) (simp add: drainGroups.simps encodes_def)
  next
    case True
    define n where "n = bw_count b - 6"
    define g where "g = (ucast (drop_bit n (bw_buf b)) :: byte)"
    obtain e r where e: "appendPackedGroup (bw_out b) l (bw_rng b) th pool g = Some (bw_out b @ e, r)"
      "wireHints l e = [encodeGroup l (g AND 63)]" "length e \<le> 2"
      using appendPackedGroup_ok [OF assms, of "bw_out b" "bw_rng b" th g] by (auto split: if_splits)
    define b1 where "b1 = b\<lparr>bw_out := bw_out b @ e, bw_rng := r, bw_buf := (if n = 0 then 0 else bw_buf b AND mask n), bw_count := n\<rparr>"
    have "bw_count b1 < bw_count b" using True by (simp add: b1_def n_def)
    from less [OF this] obtain b' where b': "drainGroups l th pool b1 = Some b'" "encodes l b1 [] (2 * (n div 6)) b'"
      by (auto simp: b1_def)
    have "bw_count b = 6 + n" using True by (simp add: n_def)
    then have split: "pend b = bitsN 6 g @ pend b1"
      using bitsN_add [of 6 n "bw_buf b"] by (simp add: pend_def b1_def g_def bitsN_ucast bitsN_mask) (simp add: bitsN_def)
    have "groupsOf (pend b) = (g AND 63) # groupsOf (pend b1)" "leftover (pend b) = leftover (pend b1)"
      using groupsOf_step [of "bitsN 6 g" "pend b1"] by (simp_all add: split ofBits_bitsN)
    moreover from b'(2) obtain f where "bw_out b' = bw_out b1 @ f" "wireHints l f = map (encodeGroup l) (groupsOf (pend b1))"
      "length f \<le> 2 * (n div 6)" "pend b' = leftover (pend b1)" "bw_count b' < 6" by (auto simp: encodes_def)
    ultimately have "encodes l b [] (2 * (bw_count b div 6)) b'"
      unfolding encodes_def using e \<open>bw_count b = 6 + n\<close> div_add_self1 [of 6 n]
      by (intro conjI exI [of _ "e @ f"]) (simp_all add: b1_def)
    moreover have "drainGroups l th pool b = drainGroups l th pool b1"
      using True e(1) by (subst drainGroups.simps) (simp add: n_def g_def b1_def Let_def)
    ultimately show ?thesis using b'(1) by auto
  qed
qed

lemma pushByte_ok:
  assumes "okPool l pool" "bw_count b < 6"
  shows "\<exists>b'. pushByte l th pool b x = Some b' \<and> encodes l b (bitsN 8 x) 4 b'"
proof -
  let ?b = "b\<lparr>bw_buf := push_bit 8 (bw_buf b) OR ucast x, bw_count := bw_count b + 8\<rparr>"
  have "pend ?b = pend b @ bitsN 8 x" using assms(2) bitsN_push [of "bw_count b" "bw_buf b" x] by (simp add: pend_def)
  moreover obtain b' where "drainGroups l th pool ?b = Some b'" "encodes l ?b [] (2 * ((bw_count b + 8) div 6)) b'"
    using drainGroups_ok [OF assms(1), of th ?b] by auto
  moreover have "2 * ((bw_count b + 8) div 6) \<le> 4" using assms(2) by simp
  ultimately show ?thesis unfolding encodes_def pushByte_def by fastforce
qed

lemma pushBytes_ok:
  "okPool l pool \<Longrightarrow> bw_count b < 6 \<Longrightarrow>
     \<exists>b'. pushBytes l th pool b xs = Some b' \<and> encodes l b (bitsOf xs) (4 * length xs) b'"
proof (induction xs arbitrary: b)
  case Nil
  then show ?case using groupsOf_short [of "pend b"] by (simp add: encodes_def)
next
  case (Cons x xs)
  obtain b1 where b1: "pushByte l th pool b x = Some b1" "encodes l b (bitsN 8 x) 4 b1"
    using pushByte_ok Cons.prems by blast
  moreover have "bw_count b1 < 6" using b1(2) by (simp add: encodes_def)
  ultimately obtain b2 where "pushBytes l th pool b1 xs = Some b2" "encodes l b1 (bitsOf xs) (4 * length xs) b2"
    using Cons by blast
  with b1 encodes_trans [OF b1(2)] show ?case by auto
qed


text \<open>The protected prefix and the alignment.\<close>

lemma appendForcedPadding_ok:
  assumes "okPool l pool" "bw_count b < 6"
  shows "\<exists>x r. appendForcedPadding pool b = Some (b\<lparr>bw_out := bw_out b @ [x], bw_rng := r\<rparr>) \<and> x \<in> set pool
    \<and> encodes l b [] 1 (b\<lparr>bw_out := bw_out b @ [x], bw_rng := r\<rparr>)"
proof -
  obtain x r where x: "getPaddingByte pool (bw_rng b) = Some (x, r)" "x \<in> set pool"
    using getPaddingByte_ok [OF assms(1)] by blast
  then show ?thesis using encodes_pads [OF assms, of "[x]" 1 r]
    by (intro exI [of _ x] exI [of _ r]) (simp add: appendForcedPadding_def)
qed

lemma leadingPadding_ok:
  assumes "okPool l pool" "bw_count b < 6"
  shows "\<exists>b' x e. leadingPadding pool 0 b = Some b' \<and> encodes l b [] 2 b' \<and> bw_out b' = bw_out b @ x # e \<and> x \<in> set pool"
proof -
  have last: "\<exists>b' e. leadingPadding pool 1 b1 = Some b' \<and> encodes l b1 [] 1 b' \<and> bw_out b' = bw_out b1 @ e" if "bw_count b1 < 6" for b1
  proof -
    obtain k r where k: "randIntn (bw_rng b1) 2 = (k, r)" by (metis prod.exhaust)
    have stop: "leadingPadding pool 2 b2 = Some (b2\<lparr>bw_rng := snd (randIntn (bw_rng b2) 2)\<rparr>)" for b2
      using randIntn_bound [of 2 "bw_rng b2"] by (subst leadingPadding.simps) (auto split: prod.split)
    let ?b = "b1\<lparr>bw_rng := r\<rparr>"
    have "bw_count ?b < 6" using that by simp
    then obtain x r' where x: "appendForcedPadding pool ?b = Some (?b\<lparr>bw_out := bw_out ?b @ [x], bw_rng := r'\<rparr>)" "x \<in> set pool"
      using appendForcedPadding_ok [OF assms(1)] by blast
    show ?thesis
    proof (cases "1 < 1 + k")
      case True
      then have "leadingPadding pool 1 b1 = leadingPadding pool 2 (?b\<lparr>bw_out := bw_out ?b @ [x], bw_rng := r'\<rparr>)"
        using k x(1) by (subst leadingPadding.simps) (simp add: numeral_2_eq_2)
      then show ?thesis using stop encodes_pads [OF assms(1) that, of "[x]" 1] x(2) by simp
    next
      case False
      then have "leadingPadding pool 1 b1 = Some ?b" using k by (subst leadingPadding.simps) simp
      then show ?thesis using encodes_pads [OF assms(1) that, of "[]" 1 r] by simp
    qed
  qed
  obtain k r where k: "randIntn (bw_rng b) 2 = (k, r)" by (metis prod.exhaust)
  let ?b = "b\<lparr>bw_rng := r\<rparr>"
  obtain x r' where x: "appendForcedPadding pool ?b = Some (?b\<lparr>bw_out := bw_out ?b @ [x], bw_rng := r'\<rparr>)" "x \<in> set pool"
    using appendForcedPadding_ok [OF assms(1), of ?b] assms(2) by fastforce
  let ?b1 = "b\<lparr>bw_out := bw_out b @ [x], bw_rng := r'\<rparr>"
  have one: "encodes l b [] 1 ?b1" using encodes_pads [OF assms, of "[x]" 1 r'] x(2) by simp
  have "leadingPadding pool 0 b = leadingPadding pool 1 ?b1"
    using k x(1) by (subst leadingPadding.simps) simp
  moreover obtain b' e where "leadingPadding pool 1 ?b1 = Some b'" "bw_out b' = bw_out ?b1 @ e" "encodes l ?b1 [] 1 b'"
    using last [of ?b1] assms(2) by auto
  moreover from encodes_trans [OF one this(3)] have "encodes l b [] 2 b'" by (simp add: numeral_2_eq_2)
  ultimately show ?thesis using x(2) by (intro exI [of _ b'] exI [of _ x] exI [of _ e]) simp
qed

lemma prefixBytes_ok:
  "okPool l pool \<Longrightarrow> bw_count b < 6 \<Longrightarrow>
     \<exists>b'. prefixBytes l th pool gap eff b xs = Some b' \<and> encodes l b (bitsOf xs) (5 * length xs) b'"
proof (induction xs arbitrary: b gap eff)
  case Nil
  then show ?case using groupsOf_short [of "pend b"] by (simp add: encodes_def)
next
  case (Cons x xs)
  obtain b1 where b1: "pushByte l th pool b x = Some b1" "encodes l b (bitsN 8 x) 4 b1"
    using pushByte_ok Cons.prems by blast
  then have c1: "bw_count b1 < 6" by (simp add: encodes_def)
  show ?case
  proof (cases "eff + 1 \<ge> gap")
    case True
    obtain y r where y: "appendForcedPadding pool b1 = Some (b1\<lparr>bw_out := bw_out b1 @ [y], bw_rng := r\<rparr>)"
      "encodes l b1 [] 1 (b1\<lparr>bw_out := bw_out b1 @ [y], bw_rng := r\<rparr>)"
      using appendForcedPadding_ok [OF Cons.prems(1) c1] by blast
    obtain gap' r' where gap: "nextProtectedPrefixGap r = (gap', r')" by (metis prod.exhaust)
    let ?b2 = "b1\<lparr>bw_out := bw_out b1 @ [y], bw_rng := r'\<rparr>"
    have "encodes l b1 [] 1 ?b2" using encodes_rng [OF y(2), of r'] by simp
    from encodes_trans [OF b1(2) this] have two: "encodes l b (bitsN 8 x) 5 ?b2" by simp
    moreover obtain b' where "prefixBytes l th pool gap' 0 ?b2 xs = Some b'" "encodes l ?b2 (bitsOf xs) (5 * length xs) b'"
      using Cons.IH [OF Cons.prems(1), of ?b2] c1 by auto
    ultimately show ?thesis using encodes_trans [OF two] b1(1) y(1) gap True by auto
  next
    case False
    obtain b' where "prefixBytes l th pool gap (eff + 1) b1 xs = Some b'" "encodes l b1 (bitsOf xs) (5 * length xs) b'"
      using Cons.IH [OF Cons.prems(1) c1] by blast
    moreover from this encodes_trans [OF b1(2)] have "encodes l b (bitsOf (x # xs)) (4 + 5 * length xs) b'" by simp
    then have "encodes l b (bitsOf (x # xs)) (5 * length (x # xs)) b'" unfolding encodes_def by fastforce
    ultimately show ?thesis using b1(1) False by auto
  qed
qed

lemma writeProtectedPrefix_ok:
  assumes "okPool l pool" "bw_count b < 6" "p \<noteq> []" "bw_out b = []"
  shows "\<exists>b' x e. writeProtectedPrefix l th pool b p = Some (b', min (length p) 14)
    \<and> encodes l b (bitsOf (take 14 p)) 72 b' \<and> bw_out b' = x # e \<and> x \<in> set pool"
proof -
  obtain b1 x e where b1: "leadingPadding pool 0 b = Some b1" "encodes l b [] 2 b1" "bw_out b1 = x # e" "x \<in> set pool"
    using leadingPadding_ok [OF assms(1, 2)] assms(4) by auto
  obtain gap r where gap: "nextProtectedPrefixGap (bw_rng b1) = (gap, r)" by (metis prod.exhaust)
  have b1': "encodes l b [] 2 (b1\<lparr>bw_rng := r\<rparr>)" using encodes_rng [OF b1(2)] .
  then have "bw_count (b1\<lparr>bw_rng := r\<rparr>) < 6" unfolding encodes_def by blast
  then obtain b2 where b2: "prefixBytes l th pool gap 0 (b1\<lparr>bw_rng := r\<rparr>) (take 14 p) = Some b2"
    "encodes l (b1\<lparr>bw_rng := r\<rparr>) (bitsOf (take 14 p)) (5 * length (take 14 p)) b2"
    using prefixBytes_ok [OF assms(1)] by blast
  have "take (min (length p) 14) p = take 14 p" by (simp add: min_def)
  moreover have "encodes l b (bitsOf (take 14 p)) 72 b2"
    using encodes_trans [OF b1' b2(2)] unfolding encodes_def by fastforce
  moreover obtain f where "bw_out b2 = bw_out b1 @ f" using b2(2) by (auto simp: encodes_def)
  ultimately show ?thesis using assms(3) b1 b2(1) gap
    by (auto simp: writeProtectedPrefix_def packedProtectedPrefixBytes_def Let_def)
qed

lemma alignBytes_ok:
  "okPool l pool \<Longrightarrow> bw_count b < 6 \<Longrightarrow> even (bw_count b) \<Longrightarrow>
     \<exists>b' used rest. alignBytes l th pool b p = Some (b', rest) \<and> p = used @ rest \<and> encodes l b (bitsOf used) (5 * length used) b'
       \<and> (rest \<noteq> [] \<longrightarrow> bw_count b' = 0) \<and> length used \<le> (6 - bw_count b) div 2 mod 3"
proof (induction p arbitrary: b)
  case Nil
  then show ?case using groupsOf_short [of "pend b"] by (simp add: encodes_def)
next
  case (Cons x xs)
  show ?case
  proof (cases "bw_count b = 0")
    case True
    then show ?thesis using Cons.prems groupsOf_short [of "pend b"]
      by (intro exI [of _ b] exI [of _ "[]"] exI [of _ "x # xs"]) (simp add: encodes_def)
  next
    case False
    obtain e r where e: "maybeAppendPackedPadding (bw_out b) (bw_rng b) th pool = Some (bw_out b @ e, r)" "set e \<subseteq> set pool" "length e \<le> 1"
      using maybeAppendPackedPadding_ok [OF Cons.prems(1), of "bw_out b" "bw_rng b" th] by (auto split: if_splits)
    let ?b = "b\<lparr>bw_out := bw_out b @ e, bw_rng := r\<rparr>"
    have one: "encodes l b [] 1 ?b" using encodes_pads [OF Cons.prems(1, 2) e(2, 3)] .
    obtain b1 where b1: "pushByte l th pool ?b x = Some b1" "encodes l ?b (bitsN 8 x) 4 b1"
      using pushByte_ok [OF Cons.prems(1), of ?b] Cons.prems(2) by auto
    from encodes_trans [OF one b1(2)] have two: "encodes l b (bitsN 8 x) 5 b1" by simp
    have cnt: "bw_count b1 = (bw_count b + 8) mod 6" using encodes_count [OF two] by simp
    have c: "bw_count b = 2 \<and> bw_count b1 = 4 \<or> bw_count b = 4 \<and> bw_count b1 = 0"
    proof -
      obtain m where m: "bw_count b = 2 * m" using Cons.prems(3) by (rule evenE)
      then have "m = 1 \<or> m = 2" using Cons.prems(2) False by arith
      with m cnt show ?thesis by auto
    qed
    then have "bw_count b1 < 6" "even (bw_count b1)" by auto
    from Cons.IH [OF Cons.prems(1) this] obtain b' used rest where IH: "alignBytes l th pool b1 xs = Some (b', rest)" "xs = used @ rest"
      "encodes l b1 (bitsOf used) (5 * length used) b'" "rest \<noteq> [] \<longrightarrow> bw_count b' = 0" "length used \<le> (6 - bw_count b1) div 2 mod 3"
      by blast
    have "length (x # used) \<le> (6 - bw_count b) div 2 mod 3" using IH(5) c by auto
    with IH b1(1) e(1) False encodes_trans [OF two IH(3)] show ?thesis
      by (intro exI [of _ b'] exI [of _ "x # used"] exI [of _ rest]) simp
  qed
qed


text \<open>Complete blocks.\<close>

lemma upto_bits: "[0..<6] = [0, 1, 2, 3, 4, 5]" "[0..<4] = [0, 1, 2, 3]" "[0..<2] = [0, Suc 0]"
  by (simp_all add: upt_rec)

lemma block_bits:
  "bitsN 6 (push_bit 4 (b0 AND 3) OR drop_bit 4 (b1 :: byte)) = bitsN 2 b0 @ bitsN 4 (drop_bit 4 b1)"
  "bitsN 6 (push_bit 2 (b1 AND 15) OR drop_bit 6 (b2 :: byte)) = bitsN 4 b1 @ bitsN 2 (drop_bit 6 b2)"
  "bitsN 6 (b2 AND 63 :: byte) = bitsN 6 b2"
proof -
  have m: "(3 :: byte) = mask 2" "(15 :: byte) = mask 4" "(63 :: byte) = mask 6" by (simp_all add: mask_eq_exp_minus_1)
  show "bitsN 6 (push_bit 4 (b0 AND 3) OR drop_bit 4 (b1 :: byte)) = bitsN 2 b0 @ bitsN 4 (drop_bit 4 b1)"
    "bitsN 6 (push_bit 2 (b1 AND 15) OR drop_bit 6 (b2 :: byte)) = bitsN 4 b1 @ bitsN 2 (drop_bit 6 b2)"
    "bitsN 6 (b2 AND 63 :: byte) = bitsN 6 b2"
    unfolding m bitsN_def upto_bits by (simp_all add: bit_simps)
qed

lemma blockGroups_small: "map (\<lambda>g. g AND 63) (blockGroups b0 b1 b2) = blockGroups b0 b1 b2"
proof -
  have m: "(3 :: byte) = mask 2" "(15 :: byte) = mask 4" "(63 :: byte) = mask 6" by (simp_all add: mask_eq_exp_minus_1)
  show ?thesis unfolding blockGroups_def m by (auto simp: bit_eq_iff bit_simps dest: bit_imp_le_length)
qed

lemma blockGroups_hints:
  assumes "okPool l pool" "g \<in> set (blockGroups b0 b1 b2)"
  shows "hintTable l (encodeGroup l g)"
proof -
  have "g AND 63 = g" using blockGroups_small [of b0 b1 b2] assms(2) unfolding blockGroups_def by auto
  then show ?thesis using okPool_encodeGroup [OF assms(1), of g] by simp
qed

lemma groupsOf_block:
  "groupsOf (bitsOf [b0, b1, b2] @ bs) = blockGroups b0 b1 b2 @ groupsOf bs"
  "leftover (bitsOf [b0, b1, b2] @ bs) = leftover bs"
proof -
  have eq: "bitsOf [b0, b1, b2] @ bs = concat (map (bitsN 6) (blockGroups b0 b1 b2)) @ bs"
    using bitsN_add [of 6 2 b0] bitsN_add [of 4 4 b1] bitsN_add [of 2 6 b2] by (simp add: blockGroups_def block_bits del: push_bit_and)
  have gs: "groupsOf (concat (map (bitsN 6) gs) @ bs) = map (\<lambda>g. g AND 63) gs @ groupsOf bs
      \<and> leftover (concat (map (bitsN 6) gs) @ bs) = leftover bs" for gs :: "byte list"
    by (induction gs) (simp_all add: groupsOf_step ofBits_bitsN)
  show "groupsOf (bitsOf [b0, b1, b2] @ bs) = blockGroups b0 b1 b2 @ groupsOf bs"
    unfolding eq using gs [of "blockGroups b0 b1 b2"] blockGroups_small by simp
  show "leftover (bitsOf [b0, b1, b2] @ bs) = leftover bs" unfolding eq using gs by blast
qed

lemma appendGroupsPadded_ok:
  assumes "okPool l pool" "map (\<lambda>g. g AND 63) gs = gs"
  shows "\<exists>e r'. appendGroupsPadded out l r th pool gs = Some (out @ e, r')
    \<and> wireHints l e = map (encodeGroup l) gs \<and> length e \<le> 2 * length gs"
  using assms(2)
proof (induction gs arbitrary: out r)
  case (Cons g gs)
  obtain u r1 where u: "randUint32 r = (u, r1)" by (metis prod.exhaust)
  obtain v r2 where v: "randUint32 r1 = (v, r2)" by (metis prod.exhaust)
  have "fastIntnFromUint32 v (length pool) < length pool"
    using fastIntnFromUint32_less assms(1) by (simp add: okPool_def)
  then obtain e r3 where e: "(if (ucast u :: u64) < th then
         let (v, r) = randUint32 r1 in
         map_option (\<lambda>b. (out @ [b], r)) (index pool (fastIntnFromUint32 v (length pool)))
       else Some (out, r1)) = Some (out @ e, r3)" "set e \<subseteq> set pool" "length e \<le> 1"
    using v by (cases "(ucast u :: u64) < th") auto
  obtain f r' where f: "appendGroupsPadded (out @ e @ [encodeGroup l g]) l r3 th pool gs = Some ((out @ e @ [encodeGroup l g]) @ f, r')"
    "wireHints l f = map (encodeGroup l) gs" "length f \<le> 2 * length gs" using Cons by fastforce
  have "hintTable l (encodeGroup l g)" using okPool_encodeGroup [OF assms(1), of g] Cons.prems by simp
  then have "wireHints l (e @ [encodeGroup l g] @ f) = map (encodeGroup l) (g # gs)"
    using wireHints_pads [OF assms(1) e(2)] f(2) by (simp add: wireHints_def)
  with u e f show ?case
    by (intro exI [of _ "e @ [encodeGroup l g] @ f"] exI [of _ r']) (simp add: bind_eq_Some_conv)
qed simp

lemma appendPackedBlocks_ok:
  "okPool l pool \<Longrightarrow> length q mod 3 = 0 \<Longrightarrow>
     \<exists>e r'. appendPackedBlocks out q l r th pool = Some (out @ e, r') \<and> wireHints l e = map (encodeGroup l) (groupsOf (bitsOf q))
       \<and> length e \<le> (if th = 0 then 4 else 8) * (length q div 3) \<and> leftover (bitsOf q) = []"
proof (induction out q l r th pool rule: appendPackedBlocks.induct)
  case (1 out b0 b1 b2 p l r th pool)
  have bits: "groupsOf (bitsOf (b0 # b1 # b2 # p)) = blockGroups b0 b1 b2 @ groupsOf (bitsOf p)"
    "leftover (bitsOf (b0 # b1 # b2 # p)) = leftover (bitsOf p)"
    using groupsOf_block [of b0 b1 b2 "bitsOf p"] by simp_all
  have len: "length p mod 3 = 0" "Suc (Suc (Suc (length p))) div 3 = Suc (length p div 3)"
    using 1(4) by (simp_all add: mod_Suc split: if_splits)
  have "wireHints l (map (encodeGroup l) (blockGroups b0 b1 b2)) = map (encodeGroup l) (blockGroups b0 b1 b2)"
    unfolding wireHints_def filter_id_conv using blockGroups_hints [OF 1(3)] by auto
  moreover have "length (blockGroups b0 b1 b2) = 4" by (simp add: blockGroups_def)
  ultimately show ?case
  proof (cases "th = 0")
    case True
    with 1(1) [OF True 1(3) len(1)] obtain e r' where e: "appendPackedBlocks (out @ map (encodeGroup l) (blockGroups b0 b1 b2)) p l r th pool
        = Some ((out @ map (encodeGroup l) (blockGroups b0 b1 b2)) @ e, r')" "wireHints l e = map (encodeGroup l) (groupsOf (bitsOf p))"
      "length e \<le> 4 * (length p div 3)" "leftover (bitsOf p) = []" by auto
    show ?thesis
      by (intro exI [of _ "map (encodeGroup l) (blockGroups b0 b1 b2) @ e"] exI [of _ r'])
        (use e True bits len \<open>wireHints l (map _ _) = _\<close> \<open>length (blockGroups b0 b1 b2) = 4\<close> in simp)
  next
    case False
    obtain e r1 where e: "appendGroupsPadded out l r th pool (blockGroups b0 b1 b2) = Some (out @ e, r1)"
      "wireHints l e = map (encodeGroup l) (blockGroups b0 b1 b2)" "length e \<le> 8"
      using appendGroupsPadded_ok [OF 1(3) blockGroups_small, of out r th b0 b1 b2] by (auto simp: blockGroups_def)
    from 1(2) [OF False e(1) refl 1(3) len(1)] False obtain f r' where "appendPackedBlocks (out @ e) p l r1 th pool = Some ((out @ e) @ f, r')"
      "wireHints l f = map (encodeGroup l) (groupsOf (bitsOf p))" "length f \<le> 8 * (length p div 3)" "leftover (bitsOf p) = []" by auto
    with e False bits len show ?thesis by (intro exI [of _ "e @ f"] exI [of _ r']) simp
  qed
qed (auto simp: groupsOf_short)


text \<open>The batches on a connection that accepts every byte.\<close>

lemma writeEncoded_ok:
  assumes "wr_script w = []"
  shows "\<exists>w'. writeEncoded w p = (None, w') \<and> wr_out w' = wr_out w @ p \<and> wr_script w' = []"
  using writeEncoded_sends [of w p] assms unfolding sends_def by (cases "writeEncoded w p") auto

definition blockSizeOf :: "u64 \<Rightarrow> nat" where
  "blockSizeOf th = (if th \<noteq> 0 then 8 else 4)"

text \<open>The number of payload bytes of the next batch.\<close>

definition batchSize :: "u64 \<Rightarrow> nat \<Rightarrow> byte list \<Rightarrow> byte list \<Rightarrow> nat" where
  "batchSize th capacity out q = min ((capacity - length out - 8) div blockSizeOf th * 3) (length q)"

lemma batchSize_eq:
  assumes "length out + 8 \<le> capacity"
  shows "min (goQuot (int capacity - int (length out) - 8) (if th \<noteq> 0 then 8 else 4) * 3) (int (length q))
    = int (batchSize th capacity out q)"
proof -
  have "int capacity - int (length out) - 8 = int (capacity - length out - 8)" using assms by simp
  then show ?thesis by (simp add: goQuot_def batchSize_def blockSizeOf_def zdiv_int of_nat_min)
qed

lemma batch_ok:
  assumes "okPool l pool" "length out + 8 \<le> capacity" "length q mod 3 = 0"
  shows "\<exists>e r'. appendPackedBlocks out (take (batchSize th capacity out q) q) l r th pool = Some (out @ e, r')
    \<and> length (out @ e) + 8 \<le> capacity
    \<and> map (encodeGroup l) (groupsOf (bitsOf q)) = wireHints l e @ map (encodeGroup l) (groupsOf (bitsOf (drop (batchSize th capacity out q) q)))
    \<and> length (drop (batchSize th capacity out q) q) mod 3 = 0"
proof -
  define n where "n = batchSize th capacity out q"
  have n: "n \<le> length q" "n mod 3 = 0" "n div 3 \<le> (capacity - length out - 8) div blockSizeOf th"
    using assms(3) by (auto simp: n_def batchSize_def min_def)
  then have len: "length (take n q) = n" by simp
  obtain e r' where e: "appendPackedBlocks out (take n q) l r th pool = Some (out @ e, r')"
    "wireHints l e = map (encodeGroup l) (groupsOf (bitsOf (take n q)))" "length e \<le> blockSizeOf th * (n div 3)"
    "leftover (bitsOf (take n q)) = []"
    using appendPackedBlocks_ok [OF assms(1), of "take n q" out r th] n(2) len unfolding blockSizeOf_def by (cases "th = 0") auto
  have "length e \<le> blockSizeOf th * ((capacity - length out - 8) div blockSizeOf th)"
    using e(3) n(3) by (meson le_trans mult_le_mono2)
  also have "\<dots> \<le> capacity - length out - 8" by simp
  finally have "length (out @ e) + 8 \<le> capacity" using assms(2) by simp
  moreover have "groupsOf (bitsOf q) = groupsOf (bitsOf (take n q)) @ groupsOf (bitsOf (drop n q))"
    using groupsOf_append [of "bitsOf (take n q)" "bitsOf (drop n q)"] e(4)
    by (metis append_Nil append_take_drop_id bitsOf_simps(3))
  moreover have "length (drop n q) mod 3 = 0" using n(1, 2) assms(3) by (auto simp: mod_eq_0_iff_dvd)
  ultimately show ?thesis using e(1, 2) unfolding n_def [symmetric] by auto
qed

lemma writeBlocks_step:
  assumes "okPool l pool" "length out + 8 \<le> capacity" "q \<noteq> []" "0 < batchSize th capacity out q"
    and "appendPackedBlocks out (take (batchSize th capacity out q) q) l r th pool = Some (out', r')"
  shows "writeBlocks l th pool capacity w out r q i written =
    writeBlocks l th pool capacity w out' r' (drop (batchSize th capacity out q) q) (i + batchSize th capacity out q) written"
  using assms batchSize_eq [OF assms(2), of th q] by (subst writeBlocks.simps) (simp add: Let_def)

lemma writeBlocks_ok:
  assumes "okPool l pool" "wr_script w = []" "length out + 8 \<le> capacity" "16 \<le> capacity" "length q mod 3 = 0"
  shows "\<exists>w' out' r' written' e. writeBlocks l th pool capacity w out r q i written = Some (None, w', out', r', written')
    \<and> wr_out w' @ out' = wr_out w @ out @ e \<and> wireHints l e = map (encodeGroup l) (groupsOf (bitsOf q))
    \<and> length out' + 8 \<le> capacity \<and> wr_script w' = []"
  using assms(2, 3, 5)
proof (induction "length q" arbitrary: w out r q i written rule: less_induct)
  case less
  show ?case
  proof (cases "q = []")
    case True
    then show ?thesis using less.prems
      by (intro exI [of _ w] exI [of _ out] exI [of _ r] exI [of _ written] exI [of _ "[]"])
        (simp add: writeBlocks.simps groupsOf_short)
  next
    case False
    have go: "\<exists>w' out' r' written' e. writeBlocks l th pool capacity w1 out1 r q i1 written1 = Some (None, w', out', r', written')
      \<and> wr_out w' @ out' = wr_out w1 @ out1 @ e \<and> wireHints l e = map (encodeGroup l) (groupsOf (bitsOf q))
      \<and> length out' + 8 \<le> capacity \<and> wr_script w' = []"
      if out1: "length out1 + 8 \<le> capacity" and w1: "wr_script w1 = []" and pos: "0 < batchSize th capacity out1 q" for w1 out1 i1 written1
    proof -
      let ?n = "batchSize th capacity out1 q"
      obtain e r1 where e: "appendPackedBlocks out1 (take ?n q) l r th pool = Some (out1 @ e, r1)" "length (out1 @ e) + 8 \<le> capacity"
        "map (encodeGroup l) (groupsOf (bitsOf q)) = wireHints l e @ map (encodeGroup l) (groupsOf (bitsOf (drop ?n q)))"
        "length (drop ?n q) mod 3 = 0"
        using batch_ok [OF assms(1) out1 less.prems(3), of th r] by (elim exE conjE)
      have "length (drop ?n q) < length q" using pos False by simp
      from less.hyps [OF this w1 e(2, 4)] obtain w' out' r' written' f where
        "writeBlocks l th pool capacity w1 (out1 @ e) r1 (drop ?n q) (i1 + ?n) written1 = Some (None, w', out', r', written')"
        "wr_out w' @ out' = wr_out w1 @ (out1 @ e) @ f" "wireHints l f = map (encodeGroup l) (groupsOf (bitsOf (drop ?n q)))"
        "length out' + 8 \<le> capacity" "wr_script w' = []" by blast
      then show ?thesis using writeBlocks_step [OF assms(1) out1 False pos e(1)] e(3)
        by (intro exI [of _ w'] exI [of _ out'] exI [of _ r'] exI [of _ written'] exI [of _ "e @ f"]) simp
    qed
    show ?thesis
    proof (cases "batchSize th capacity out q = 0")
      case pos: False
      then show ?thesis using go [OF less.prems(2, 1)] by simp
    next
      case zero: True
      obtain w1 where w1: "writeEncoded w out = (None, w1)" "wr_out w1 = wr_out w @ out" "wr_script w1 = []"
        using writeEncoded_ok [OF less.prems(1)] by blast
      have "writeBlocks l th pool capacity w out r q i written = writeBlocks l th pool capacity w1 [] r q i i"
        using False zero w1(1) batchSize_eq [OF less.prems(2), of th q] by (subst writeBlocks.simps) (simp add: Let_def)
      moreover have "0 < batchSize th capacity [] q"
        using assms(4) False less.prems(3) by (auto simp: batchSize_def blockSizeOf_def div_greater_zero_iff)
      ultimately show ?thesis using go [of "[]" w1 i i] w1 assms(4) by auto
    qed
  qed
qed

text \<open>The end of a write: residual bits and the marker.\<close>

definition fillBits :: "bool list \<Rightarrow> bool list" where
  "fillBits bs = (if leftover bs = [] then [] else replicate (6 - length (leftover bs)) False)"

lemma flushResidual_ok:
  assumes "okPool l pool" "bw_count b < 6" "marker \<in> set pool' \<and> okPool l pool'"
  shows "\<exists>b' e. flushResidual l th pool marker b = Some b' \<and> bw_out b' = bw_out b @ e \<and> bw_count b' = 0 \<and> pend b' = []
    \<and> wireHints l e = map (encodeGroup l) (groupsOf (pend b @ fillBits (pend b)))"
proof (cases "bw_count b = 0")
  case True
  then have "pend b = []" by (simp add: pend_def bitsN_def)
  with True show ?thesis by (simp add: flushResidual_def fillBits_def groupsOf_short)
next
  case False
  define g where "g = (ucast (push_bit (6 - bw_count b) (bw_buf b)) :: byte)"
  obtain e r where e: "appendPackedGroup (bw_out b) l (bw_rng b) th pool g = Some (bw_out b @ e, r)"
    "wireHints l e = [encodeGroup l (g AND 63)]" using appendPackedGroup_ok [OF assms(1)] by blast
  have bits: "bitsN 6 g = pend b @ replicate (6 - bw_count b) False"
    using assms(2) bitsN_residual [of "bw_count b" "bw_buf b"] by (simp add: g_def bitsN_ucast pend_def)
  have left: "leftover (pend b) = pend b" "pend b \<noteq> []" using assms(2) False groupsOf_short [of "pend b"] length_pend [of b] by (auto simp del: length_pend)
  have "groupsOf (pend b @ fillBits (pend b)) = [g AND 63]"
    using groupsOf_step [of "bitsN 6 g" "[]"] groupsOf_short [of "[]"] left assms(2) ofBits_bitsN [of g, unfolded bits]
    by (simp add: fillBits_def bits)
  moreover have "wireHints l [marker] = []" using assms(3) wireHints_pads [of l pool' "[marker]"] by auto
  ultimately show ?thesis using False e
    by (intro exI [of _ "b\<lparr>bw_out := bw_out b @ e @ [marker], bw_rng := r, bw_buf := 0, bw_count := 0\<rparr>"] exI [of _ "e @ [marker]"])
      (simp add: flushResidual_def Let_def g_def pend_def bitsN_def)
qed


section \<open>A whole write\<close>

definition writable :: "PackedConn \<Rightarrow> bool" where
  "writable pc \<longleftrightarrow> okPool (tbl_layout (pk_table pc)) (pk_padPool pc) \<and> okPool (tbl_layout (pk_table pc)) [pk_padMarker pc]
     \<and> pk_bitCount pc = 0 \<and> wr_script (pk_writer pc) = []"

lemma leftover_idem: "leftover (leftover bs) = leftover bs"
  using length_leftover [of bs] by (intro conjunct2 [OF groupsOf_short]) simp

lemma fillBits_leftover: "fillBits (leftover bs) = fillBits bs"
  by (simp add: fillBits_def leftover_idem)

lemma groupsOf_fill:
  "groupsOf (bs @ fillBits bs) = groupsOf bs @ groupsOf (leftover bs @ fillBits (leftover bs))"
  using groupsOf_append [of bs "fillBits bs"] by (simp add: fillBits_leftover)

text \<open>The prefix and the alignment: the bits taken, and enough room left for the batches.\<close>

lemma prefix_align_ok:
  assumes "okPool l pool" "p \<noteq> []" and b0_def: "b0 = \<lparr>bw_out = [], bw_rng = r, bw_buf = buf, bw_count = 0\<rparr>"
  shows "\<exists>b1 b2 used rest x e. writeProtectedPrefix l th pool b0 p = Some (b1, min (length p) 14)
    \<and> alignBytes l th pool b1 (drop (min (length p) 14) p) = Some (b2, rest) \<and> p = used @ rest
    \<and> pend b2 = leftover (bitsOf used) \<and> bw_count b2 < 6 \<and> (rest \<noteq> [] \<longrightarrow> bw_count b2 = 0 \<and> 14 \<le> length used)
    \<and> bw_out b2 = x # e \<and> x \<in> set pool \<and> length (bw_out b2) \<le> 82
    \<and> wireHints l (bw_out b2) = map (encodeGroup l) (groupsOf (bitsOf used))"
proof -
  have pend0: "pend b0 = []" "bw_count b0 < 6" "bw_out b0 = []" by (simp_all add: b0_def pend_def bitsN_def)
  obtain b1 x e where b1: "writeProtectedPrefix l th pool b0 p = Some (b1, min (length p) 14)"
    "encodes l b0 (bitsOf (take 14 p)) 72 b1" "bw_out b1 = x # e" "x \<in> set pool"
    using writeProtectedPrefix_ok [OF assms(1) pend0(2) assms(2) pend0(3)] by blast
  have "bw_count b1 = 8 * length (take 14 p) mod 6" using encodes_count [OF b1(2)] by (simp add: b0_def)
  then have "even (bw_count b1)" "bw_count b1 < 6" by (simp_all add: dvd_mod)
  from alignBytes_ok [OF assms(1) this(2, 1), of th "drop 14 p"] obtain b2 used rest where
    b2: "alignBytes l th pool b1 (drop 14 p) = Some (b2, rest)" "drop 14 p = used @ rest"
      "encodes l b1 (bitsOf used) (5 * length used) b2" "rest \<noteq> [] \<longrightarrow> bw_count b2 = 0" "length used \<le> (6 - bw_count b1) div 2 mod 3"
    by blast
  have drop: "drop (min (length p) 14) p = drop 14 p" by (simp add: min_def)
  have "(6 - bw_count b1) div 2 mod 3 \<le> 2" by (simp add: less_Suc_eq_le [symmetric])
  then have used: "length used \<le> 2" using b2(5) by linarith
  note enc = encodes_trans [OF b1(2) b2(3)]
  obtain f where f: "bw_out b2 = f" "wireHints l f = map (encodeGroup l) (groupsOf (bitsOf (take 14 p @ used)))"
     "length f \<le> 72 + 5 * length used" "pend b2 = leftover (bitsOf (take 14 p @ used))" "bw_count b2 < 6"
    using enc pend0 by (auto simp: encodes_def)
  obtain g where g: "bw_out b2 = bw_out b1 @ g" using b2(3) by (auto simp: encodes_def)
  have p: "p = (take 14 p @ used) @ rest" using b2(2) by (metis append_assoc append_take_drop_id)
  have long: "14 \<le> length (take 14 p @ used)" if "rest \<noteq> []"
  proof -
    have "drop 14 p \<noteq> []" using b2(2) that by simp
    then show ?thesis by simp
  qed
  show ?thesis
    by (rule exI [of _ b1], rule exI [of _ b2], rule exI [of _ "take 14 p @ used"], rule exI [of _ rest], rule exI [of _ x], rule exI [of _ "e @ g"])
      (use b1 b2(1, 4) f g used p long drop in auto)
qed

text \<open>The batches between the alignment and the tail; without complete blocks nothing happens.\<close>

lemma blocks_ok:
  assumes "okPool l pool" "wr_script w = []" "rest \<noteq> [] \<longrightarrow> 14 \<le> length p" "length out \<le> 82"
    and "length q mod 3 = 0" "rest = [] \<longrightarrow> q = []"
    and "capacity = max c (min (min (length p) maxEncodedWriteSize * 3 + 64) maxEncodedWriteSize)"
  shows "\<exists>w' out' r' written' e. writeBlocks l th pool capacity w out r q i 0 = Some (None, w', out', r', written')
    \<and> wr_out w' @ out' = wr_out w @ out @ e \<and> wireHints l e = map (encodeGroup l) (groupsOf (bitsOf q)) \<and> wr_script w' = []"
proof (cases "q = []")
  case True
  then show ?thesis using assms(2)
    by (intro exI [of _ w] exI [of _ out] exI [of _ r] exI [of _ 0] exI [of _ "[]"]) (simp add: writeBlocks.simps groupsOf_short)
next
  case False
  then have "106 \<le> capacity" using assms(3, 6, 7) by (auto simp: maxEncodedWriteSize_def)
  with writeBlocks_ok [OF assms(1, 2) _ _ assms(5), of out capacity th r i 0] assms(4) show ?thesis by fastforce
qed

lemma pkWrite_ok:
  assumes "writable pc" "p \<noteq> []"
  defines "l \<equiv> tbl_layout (pk_table pc)"
  shows "\<exists>pc' x e. pkWrite pc p = Some (length p, None, pc') \<and> wr_out (pk_writer pc') = wr_out (pk_writer pc) @ x # e
    \<and> x \<in> set (pk_padPool pc) \<and> wireHints l (x # e) = map (encodeGroup l) (groupsOf (bitsOf p @ fillBits (bitsOf p)))
    \<and> writable pc' \<and> pk_table pc' = pk_table pc"
proof -
  let ?th = "pk_paddingThreshold pc" and ?pool = "pk_padPool pc"
  let ?cap = "max (pk_writeCap pc) (min (min (length p) maxEncodedWriteSize * 3 + 64) maxEncodedWriteSize)"
  let ?b0 = "\<lparr>bw_out = [], bw_rng = pk_rng pc, bw_buf = pk_bitBuf pc, bw_count = 0\<rparr>"
  have ok: "okPool l ?pool" "okPool l [pk_padMarker pc]" "pk_bitCount pc = 0" "wr_script (pk_writer pc) = []" "?pool \<noteq> []"
    using assms(1) by (simp_all add: writable_def l_def okPool_def)
  obtain b1 b2 used rest x e where b2: "writeProtectedPrefix l ?th ?pool ?b0 p = Some (b1, min (length p) 14)"
    "alignBytes l ?th ?pool b1 (drop (min (length p) 14) p) = Some (b2, rest)" "p = used @ rest"
    "pend b2 = leftover (bitsOf used)" "bw_count b2 < 6" "rest \<noteq> [] \<longrightarrow> bw_count b2 = 0 \<and> 14 \<le> length used"
    "bw_out b2 = x # e" "x \<in> set ?pool" "length (bw_out b2) \<le> 82"
    "wireHints l (bw_out b2) = map (encodeGroup l) (groupsOf (bitsOf used))"
    using prefix_align_ok [OF ok(1) assms(2) refl, where th = ?th and r = "pk_rng pc" and buf = "pk_bitBuf pc"] by (elim exE conjE)
  define n where "n = length rest div 3 * 3"
  have n: "length (take n rest) mod 3 = 0" "n \<le> length rest" by (simp_all add: n_def)
  have "rest \<noteq> [] \<longrightarrow> 14 \<le> length p" using b2(3, 6) by auto
  from blocks_ok [OF ok(1, 4) this b2(9) n(1) _ refl, where c = "pk_writeCap pc" and th = ?th and r = "bw_rng b2" and i = "length p - length rest"]
  obtain w' out' r' written' f where blk: "writeBlocks l ?th ?pool ?cap (pk_writer pc) (bw_out b2) (bw_rng b2) (take n rest)
      (length p - length rest) 0 = Some (None, w', out', r', written')" "wr_out w' @ out' = wr_out (pk_writer pc) @ bw_out b2 @ f"
    "wireHints l f = map (encodeGroup l) (groupsOf (bitsOf (take n rest)))" "wr_script w' = []" by auto
  let ?b3 = "b2\<lparr>bw_out := out', bw_rng := r'\<rparr>"
  have p3: "pend ?b3 = pend b2" by (simp add: pend_def)
  obtain b4 where b4: "pushBytes l ?th ?pool ?b3 (drop n rest) = Some b4" "encodes l ?b3 (bitsOf (drop n rest)) (4 * length (drop n rest)) b4"
    using pushBytes_ok [OF ok(1), where b = ?b3 and xs = "drop n rest" and th = ?th] b2(5) by auto
  then obtain g where g: "bw_out b4 = out' @ g" "wireHints l g = map (encodeGroup l) (groupsOf (pend b2 @ bitsOf (drop n rest)))"
    "pend b4 = leftover (pend b2 @ bitsOf (drop n rest))" "bw_count b4 < 6" by (auto simp: encodes_def p3)
  obtain b5 h where b5: "flushResidual l ?th ?pool (pk_padMarker pc) b4 = Some b5" "bw_out b5 = bw_out b4 @ h" "bw_count b5 = 0"
    "wireHints l h = map (encodeGroup l) (groupsOf (pend b4 @ fillBits (pend b4)))"
    using flushResidual_ok [OF ok(1) g(4), of "pk_padMarker pc" "[pk_padMarker pc]" ?th] ok(2) by auto
  obtain d r5 where d: "maybeAppendPackedPadding (bw_out b5) (bw_rng b5) ?th ?pool = Some (bw_out b5 @ d, r5)" "set d \<subseteq> set ?pool"
    using maybeAppendPackedPadding_ok [OF ok(1)] by blast
  obtain w5 where w5: "writeEncoded w' (bw_out b5 @ d) = (None, w5)" "wr_out w5 = wr_out w' @ bw_out b5 @ d" "wr_script w5 = []"
    using writeEncoded_ok [OF blk(4)] by blast
  have groups: "groupsOf (bitsOf p) = groupsOf (bitsOf used) @ groupsOf (bitsOf (take n rest)) @ groupsOf (pend b2 @ bitsOf (drop n rest))
      \<and> leftover (bitsOf p) = pend b4"
  proof (cases "rest = []")
    case True
    then show ?thesis using b2(3, 4) g(3) groupsOf_short [of "[]"] groupsOf_short [of "leftover (bitsOf used)"]
      length_leftover [of "bitsOf used"] by (simp add: leftover_idem)
  next
    case False
    then have "pend b2 = []" using b2(6) by (simp add: pend_def bitsN_def)
    moreover have "leftover (bitsOf (take n rest)) = []"
      using length_leftover [of "bitsOf (take n rest)"] n(1) by (auto simp: mod_eq_0_iff_dvd dest: mod_0_imp_dvd)
    moreover have "bitsOf p = bitsOf used @ bitsOf (take n rest) @ bitsOf (drop n rest)"
      using b2(3) by (metis append_take_drop_id bitsOf_simps(3))
    ultimately show ?thesis using b2(4) g(3) groupsOf_append [of "bitsOf used" "bitsOf (take n rest) @ bitsOf (drop n rest)"]
        groupsOf_append [of "bitsOf (take n rest)" "bitsOf (drop n rest)"] by simp
  qed
  let ?wire = "bw_out b2 @ f @ g @ h @ d"
  have "wireHints l ?wire = map (encodeGroup l) (groupsOf (bitsOf p @ fillBits (bitsOf p)))"
    using b2(10) blk(3) g(2) b5(4) wireHints_pads [OF ok(1) d(2)] groups groupsOf_fill [of "bitsOf p"] by simp
  moreover have "wr_out w5 = wr_out (pk_writer pc) @ ?wire"
    using w5(2) b5(2) g(1) blk(2) by (metis append_assoc)
  moreover have "pkWrite pc p = Some (length p, None, pc\<lparr>pk_writeCap := ?cap, pk_writer := w5, pk_rng := r5,
      pk_bitBuf := bw_buf b5, pk_bitCount := 0\<rparr>)"
    using assms(2) ok(3, 5) b2(1, 2) blk(1) b4(1) b5(1, 3) d(1) w5(1)
    by (simp add: pkWrite_def l_def [symmetric] Let_def n_def [symmetric])
  ultimately show ?thesis using b2(7, 8) assms(1) w5(3)
    by (intro exI [of _ "pc\<lparr>pk_writeCap := ?cap, pk_writer := w5, pk_rng := r5, pk_bitBuf := bw_buf b5, pk_bitCount := 0\<rparr>"]
        exI [of _ x] exI [of _ "e @ f @ g @ h @ d"]) (simp add: writable_def)
qed


section \<open>Decoding\<close>

text \<open>The decoder without its fast path.\<close>

fun pkDecodeSlow :: "byteLayout \<Rightarrow> byte \<Rightarrow> nat \<Rightarrow> bitReader \<Rightarrow> byte list \<Rightarrow> byte list \<times> nat \<times> bitReader" where
  "pkDecodeSlow l marker room s [] = ([], 0, s)"
| "pkDecodeSlow l marker room s (b # chunk) =
     (if room = 0 then ([], 0, s)
      else (case pkDecodeByte l marker s b of
          (Some val, s) \<Rightarrow> let (out, n, s) = pkDecodeSlow l marker (room - 1) s chunk in (val # out, n + 1, s)
        | (None, s) \<Rightarrow> let (out, n, s) = pkDecodeSlow l marker room s chunk in (out, n + 1, s)))"

definition brInv :: "bitReader \<Rightarrow> bool" where
  "brInv s \<longleftrightarrow> br_bits s < 8 \<and> (br_bits s = 0 \<longrightarrow> br_buf s = 0)"

lemma pkDecodeByte_inv: "brInv s \<Longrightarrow> brInv (snd (pkDecodeByte l marker s b))"
  by (auto simp: brInv_def pkDecodeByte_def Let_def)

lemma byte_lt_64: "(x :: byte) < 64 \<longleftrightarrow> (\<forall>k\<ge>6. \<not> bit x k)"
proof -
  have "\<forall>x :: byte. (x < 64) = (\<not> bit x 6 \<and> \<not> bit x 7)" unfolding all_bytes by code_simp
  then have "x < 64 \<longleftrightarrow> \<not> bit x 6 \<and> \<not> bit x 7" by blast
  moreover have "k = 6 \<or> k = 7" if "bit x k" "6 \<le> k" for k using bit_imp_le_length [OF that(1)] that(2) by auto
  ultimately show ?thesis by auto
qed

lemma or_lt_64: "((a :: byte) OR b OR c OR d) < 64 \<longleftrightarrow> a < 64 \<and> b < 64 \<and> c < 64 \<and> d < 64"
  unfolding byte_lt_64 by (auto simp: bit_or_iff)

text \<open>Four groups from an empty reader make three bytes and leave it empty.\<close>

lemma four_groups:
  assumes "g1 < 64" "g2 < 64" "g3 < 64" "(g4 :: byte) < 64"
  defines "w1 \<equiv> (ucast g1 :: u64)"
  defines "w2 \<equiv> push_bit 6 w1 OR ucast g2"
  defines "w3 \<equiv> push_bit 6 (w2 AND mask 4) OR ucast g3"
  defines "w4 \<equiv> push_bit 6 (w3 AND mask 2) OR ucast g4"
  shows "(ucast (drop_bit 4 w2) :: byte) = push_bit 2 g1 OR drop_bit 4 g2"
    "(ucast (drop_bit 2 w3) :: byte) = push_bit 4 g2 OR drop_bit 2 g3"
    "(ucast w4 :: byte) = push_bit 6 g3 OR g4"
  using assms(1 - 4)
  by (auto simp: w1_def w2_def w3_def w4_def bit_eq_iff bit_simps byte_lt_64)

lemma pkDecodeByte_group:
  assumes "decodeGroup l b < 64"
  shows "pkDecodeByte l marker s b =
    (let buf = push_bit 6 (br_buf s) OR ucast (decodeGroup l b); n = br_bits s + 6 in
     if n \<ge> 8 then (Some (ucast (drop_bit (n - 8) buf)), \<lparr>br_buf = (if n - 8 = 0 then 0 else buf AND mask (n - 8)), br_bits = n - 8\<rparr>)
     else (None, \<lparr>br_buf = buf, br_bits = n\<rparr>))"
  using assms by (auto simp: pkDecodeByte_def Let_def not_le)

lemma slow_four:
  assumes "decodeGroup l a < 64" "decodeGroup l b < 64" "decodeGroup l c < 64" "decodeGroup l d < 64" "3 \<le> room"
    and "brInv s" "br_bits s = 0"
  shows "pkDecodeSlow l marker room s (a # b # c # d # chunk) =
    (let g1 = decodeGroup l a; g2 = decodeGroup l b; g3 = decodeGroup l c; g4 = decodeGroup l d;
         (out, n, s) = pkDecodeSlow l marker (room - 3) s chunk in
     ([push_bit 2 g1 OR drop_bit 4 g2, push_bit 4 g2 OR drop_bit 2 g3, push_bit 6 g3 OR g4] @ out, n + 4, s))"
proof -
  have s: "s = \<lparr>br_buf = 0, br_bits = 0\<rparr>" using assms(6, 7) by (cases s) (simp add: brInv_def)
  obtain out n s' where rest: "pkDecodeSlow l marker (room - 3) s chunk = (out, n, s')" by (metis prod.exhaust)
  obtain m where m: "room = m + 3" using assms(5) by (metis add.commute le_add_diff_inverse)
  define w1 where "w1 = (ucast (decodeGroup l a) :: u64)"
  define w2 where "w2 = push_bit 6 w1 OR ucast (decodeGroup l b)"
  define w3 where "w3 = push_bit 6 (w2 AND mask 4) OR ucast (decodeGroup l c)"
  define w4 where "w4 = push_bit 6 (w3 AND mask 2) OR ucast (decodeGroup l d)"
  note four = four_groups [OF assms(1 - 4), folded w1_def, folded w2_def, folded w3_def, folded w4_def]
  have steps: "pkDecodeByte l marker s a = (None, \<lparr>br_buf = w1, br_bits = 6\<rparr>)"
    "pkDecodeByte l marker \<lparr>br_buf = w1, br_bits = 6\<rparr> b = (Some (ucast (drop_bit 4 w2)), \<lparr>br_buf = w2 AND mask 4, br_bits = 4\<rparr>)"
    "pkDecodeByte l marker \<lparr>br_buf = w2 AND mask 4, br_bits = 4\<rparr> c = (Some (ucast (drop_bit 2 w3)), \<lparr>br_buf = w3 AND mask 2, br_bits = 2\<rparr>)"
    "pkDecodeByte l marker \<lparr>br_buf = w3 AND mask 2, br_bits = 2\<rparr> d = (Some (ucast w4), s)"
    using assms(1 - 4) by (simp_all add: pkDecodeByte_group s w1_def w2_def w3_def w4_def)
  have room: "room \<noteq> 0" "room - 1 \<noteq> 0" "room - 1 - 1 \<noteq> 0" "room - 1 - 1 - 1 = room - 3" using assms(5) by auto
  show ?thesis
    by (simp only: pkDecodeSlow.simps steps room rest four Let_def if_False prod.case option.case append_Cons append_Nil) simp
qed

lemma pkDecode_slow:
  "brInv s \<Longrightarrow> pkDecode l marker room s chunk = pkDecodeSlow l marker room s chunk"
proof (induction l marker room s chunk rule: pkDecode.induct)
  case (2 l marker room s b chunk)
  show ?case
  proof (cases "br_bits s = 0 \<and> 3 \<le> room \<and> 3 \<le> length chunk
      \<and> (decodeGroup l b OR decodeGroup l (chunk ! 0) OR decodeGroup l (chunk ! 1) OR decodeGroup l (chunk ! 2)) < 64")
    case fast: True
    then obtain c d e rest where chunk: "chunk = c # d # e # rest"
      by (metis (no_types) Suc_le_length_iff numeral_3_eq_3)
    have groups: "decodeGroup l b < 64" "decodeGroup l c < 64" "decodeGroup l d < 64" "decodeGroup l e < 64"
      using fast by (simp_all add: chunk or_lt_64 numeral_2_eq_2)
    have "room \<noteq> 0" using fast by simp
    from 2(1) [OF this fast refl refl refl refl] 2(4)
    have "pkDecode l marker (room - 3) s rest = pkDecodeSlow l marker (room - 3) s rest" by (simp add: chunk)
    moreover have "3 \<le> room" "br_bits s = 0" using fast by blast+
    ultimately show ?thesis using fast slow_four [OF groups, of room s marker rest] 2(4)
      by (simp add: chunk numeral_2_eq_2)
  next
    case False
    show ?thesis
    proof (cases "room = 0")
      case room: False
      obtain v s' where step: "pkDecodeByte l marker s b = (v, s')" by (metis prod.exhaust)
      then have "brInv s'" using pkDecodeByte_inv [OF 2(4), of l marker b] by simp
      then show ?thesis using 2(2, 3) [OF room False step [symmetric]] room False step by (cases v) auto
    qed simp
  qed
qed simp

section \<open>Padding on the wire\<close>

text \<open>The built layouts have no sentinel: a byte that is not a hint decodes to group 0.\<close>

lemma decodeGroup_padding:
  assumes "resolveLayout mode pattern = Inr l" "\<not> hintTable l b"
  shows "decodeGroup l b = 0"
proof -
  have "decodeGroup l b = 0" if "newCustomLayout pattern = Inr l"
    using that assms(2) by (auto simp: newCustomLayout_def Let_def bindE_eq_Inr customLayoutOf_def split: if_splits)
  moreover have "decodeGroup newASCIILayout b = 0" if "\<not> hintTable newASCIILayout b"
    using that by (auto simp: newASCIILayout_def Let_def split: if_splits)
  moreover have "decodeGroup newEntropyLayout b = 0" if "\<not> hintTable newEntropyLayout b"
    using that by (simp add: newEntropyLayout_def)
  ultimately show ?thesis using assms by (auto simp: resolveLayout_def Let_def split: if_splits)
qed

definition resolved :: "Table \<Rightarrow> bool" where
  "resolved t \<longleftrightarrow> (\<exists>m p. resolveLayout m p = Inr (tbl_layout t))"

lemma resolved_hint: "resolved t \<Longrightarrow> resolved (t\<lparr>tbl_hint := h\<rparr>)"
  by (simp add: resolved_def)

lemma newSingleDirectionTable_resolved: "newSingleDirectionTable draws key mode p = Inr t \<Longrightarrow> resolved t"
proof -
  have lay: "tbl_layout (tableOfLayout d l) = l" for d l by (simp add: tableOfLayout_def Let_def case_prod_beta)
  assume "newSingleDirectionTable draws key mode p = Inr t"
  then obtain l where "resolveLayout mode p = Inr l" "t = tableOfLayout (draws key) l"
    by (auto simp: newSingleDirectionTable_def bindE_eq_Inr)
  with lay show "resolved t" unfolding resolved_def by metis
qed

lemma built_resolved:
  assumes "NewTableWithCustom draws fp key mode pattern = Inr lt"
  shows "resolved (this_table lt) \<and> resolved (opposite_table lt)"
  using assms
  by (auto simp: NewTableWithCustom_def bindE_eq_Inr Let_def split: if_splits
      intro!: resolved_hint dest: newSingleDirectionTable_resolved)

lemma built_layout:
  assumes "NewTableWithCustom draws fp key mode pattern = Inr lt" "t \<in> {this_table lt, opposite_table lt}"
  shows "\<exists>m p. resolveLayout m p = Inr (tbl_layout t)"
  using built_resolved [OF assms(1)] assms(2) by (auto simp: resolved_def)

lemma decode_pad_first:
  assumes "decodeGroup l x = 0" "decodeGroup l y < 64" "0 < room"
  shows "\<exists>out n s. pkDecodeSlow l marker room \<lparr>br_buf = 0, br_bits = 0\<rparr> (x # y # chunk)
    = (drop_bit 4 (decodeGroup l y) # out, n, s)"
proof -
  have "pkDecodeByte l marker \<lparr>br_buf = 0, br_bits = 0\<rparr> x = (None, \<lparr>br_buf = 0, br_bits = 6\<rparr>)"
    using assms(1) by (simp add: pkDecodeByte_group)
  moreover have "(ucast (drop_bit 4 (ucast (decodeGroup l y) :: u64)) :: byte) = drop_bit 4 (decodeGroup l y)"
    by (auto simp: bit_eq_iff bit_simps dest: bit_imp_le_length)
  then have "\<exists>s. pkDecodeByte l marker \<lparr>br_buf = 0, br_bits = 6\<rparr> y = (Some (drop_bit 4 (decodeGroup l y)), s)"
    using assms(2) by (simp add: pkDecodeByte_group)
  ultimately obtain s where "pkDecodeSlow l marker room \<lparr>br_buf = 0, br_bits = 0\<rparr> (x # y # chunk) =
      (case pkDecodeSlow l marker (room - 1) s chunk of (out, n, s) \<Rightarrow> (drop_bit 4 (decodeGroup l y) # out, n + 2, s))"
    using assms(3) by (auto simp: case_prod_beta)
  then show ?thesis by (simp add: case_prod_beta)
qed


lemma NewPackedConn_writable:
  assumes "sudoku_table t" "wr_script w = []"
  shows "writable (NewPackedConnWithRecord r w s t a b rec)"
proof -
  note c = sudoku_table.table_layout [OF assms(1)]
  have pool: "PaddingPool t = paddingPool (tbl_layout t)" using sudoku_table.table_pads [OF assms(1)] .
  have small: "length (filter P (paddingPool (tbl_layout t))) \<le> 2 ^ 32" for P
    using le_trans [OF length_filter_le [of P "paddingPool (tbl_layout t)"] layout_contract.pool_small [OF c]] by simp
  have pads: "\<not> hintTable (tbl_layout t) b" if "b \<in> set (paddingPool (tbl_layout t))" for b
    using layout_contract.pad_not_hint [OF c that] .
  have okp: "okPool (tbl_layout t) [padMarker (tbl_layout t)]"
    using c pads [OF layout_contract.marker_in_pool [OF c]] by (simp add: okPool_def)
  have okq: "okPool (tbl_layout t) (filter P (paddingPool (tbl_layout t)))" if "filter P (paddingPool (tbl_layout t)) \<noteq> []" for P
    using c small [of P] pads that by (simp add: okPool_def)
  have fields: "pk_table (NewPackedConnWithRecord r w s t a b rec) = t" "pk_bitCount (NewPackedConnWithRecord r w s t a b rec) = 0"
    "pk_writer (NewPackedConnWithRecord r w s t a b rec) = w" "pk_padMarker (NewPackedConnWithRecord r w s t a b rec) = padMarker (tbl_layout t)"
    "pk_padPool (NewPackedConnWithRecord r w s t a b rec) =
      (let pool = filter (\<lambda>b. b \<noteq> padMarker (tbl_layout t)) (paddingPool (tbl_layout t)) in if pool = [] then [padMarker (tbl_layout t)] else pool)"
    by (simp_all add: NewPackedConnWithRecord_def pool Let_def case_prod_beta)
  show ?thesis unfolding writable_def fields Let_def using okp okq assms(2)
    by (cases "filter (\<lambda>b. b \<noteq> padMarker (tbl_layout t)) (paddingPool (tbl_layout t)) = []") simp_all
qed

lemma drop_bit_group: "(g :: byte) < 64 \<Longrightarrow> drop_bit 4 g < 4"
proof -
  have "\<forall>g :: byte. g < 64 \<longrightarrow> drop_bit 4 g < 4" unfolding all_bytes by code_simp
  then show "g < 64 \<Longrightarrow> drop_bit 4 g < 4" by blast
qed

lemma peek_single:
  assumes "wire = x # y # rest"
  shows "\<exists>rest' s'. peekBufferedChunk [] \<lparr>src_chunks = [wire], src_final = EOF\<rparr> = (Inr (x # y # rest'), s')"
proof -
  have n: "IOBufferSize = Suc (Suc (IOBufferSize - 2))" by (simp add: IOBufferSize_def)
  have "\<exists>rest' s'. connRead \<lparr>src_chunks = [wire], src_final = EOF\<rparr> IOBufferSize = (x # y # rest', None, s')"
    using assms by (subst n) (simp add: connRead_def)
  then obtain rest' s' where "connRead \<lparr>src_chunks = [wire], src_final = EOF\<rparr> IOBufferSize = (x # y # rest', None, s')" by blast
  then have "bufioFill IOBufferSize (Suc 99) \<lparr>src_chunks = [wire], src_final = EOF\<rparr> = (x # y # rest', None, s')"
    by (simp only: bufioFill.simps Let_def prod.case) simp
  then have "bufioFill IOBufferSize 100 \<lparr>src_chunks = [wire], src_final = EOF\<rparr> = (x # y # rest', None, s')" by simp
  then show ?thesis by (simp add: peekBufferedChunk_def)
qed

section \<open>Properties of the packed codec\<close>

text \<open>C28: the batched packed writer emits the reference packing. On a connection built from any
  table that accepts every byte, Write returns, reports the whole payload, leaves no pending
  bits, and the hint bytes among what it sends are the 6-bit groups of the payload's bits, in
  order, zero-filled at the end: the protected prefix, the aligned bytes, the three-byte
  blocks in bounded batches and the tail join without a seam, whatever the padding draws.\<close>

theorem packed_write_groups:
  assumes "NewTableWithCustom draws fp key mode pattern = Inr lt" "t \<in> {this_table lt, opposite_table lt}"
    and "wr_script w = []" "p \<noteq> []"
  shows "\<exists>pc' e. pkWrite (NewPackedConn r w s t a b) p = Some (length p, None, pc') \<and> pk_bitCount pc' = 0
    \<and> wr_out (pk_writer pc') = wr_out w @ e
    \<and> filter (hintTable (tbl_layout t)) e = map (encodeGroup (tbl_layout t)) (groupsOf (bitsOf p @ fillBits (bitsOf p)))"
proof -
  let ?pc = "NewPackedConn r w s t a b"
  have pc: "writable ?pc" "pk_table ?pc = t" "pk_writer ?pc = w"
    using NewPackedConn_writable [OF built_table [OF assms(1, 2)] assms(3)]
    by (simp_all add: NewPackedConn_def) (simp_all add: NewPackedConnWithRecord_def Let_def case_prod_beta)
  from pkWrite_ok [OF pc(1) assms(4), unfolded pc(2, 3)] show ?thesis
    unfolding writable_def wireHints_def by blast
qed

theorem packed_write_groups_witness:
  "let t = tableOfLayout (\<lambda>_. 0) newASCIILayout; w = \<lparr>wr_out = [], wr_calls = [], wr_script = []\<rparr>;
       s = \<lparr>src_chunks = [], src_final = EOF\<rparr> in
   \<exists>pc' e. pkWrite (NewPackedConn (newSudokuRand 5) w s t 5 60) [72, 105] = Some (2, None, pc') \<and> wr_out (pk_writer pc') = e
     \<and> filter (hintTable (tbl_layout t)) e = map (encodeGroup (tbl_layout t)) [18, 6, 36]"
proof -
  define t where "t = tableOfLayout (\<lambda>_. 0) newASCIILayout"
  define w where "w = \<lparr>wr_out = [], wr_calls = [], wr_script = []\<rparr>"
  define s where "s = \<lparr>src_chunks = [], src_final = EOF\<rparr>"
  define p :: "byte list" where "p = [72, 105]"
  have "t \<in> {this_table \<lparr>this_table = t, opposite_table = t\<rparr>, opposite_table \<lparr>this_table = t, opposite_table = t\<rparr>}" by simp
  note built = packed_write_groups [OF ascii_table_built [folded t_def] this]
  have "wr_script w = []" "p \<noteq> []" by (simp_all add: w_def p_def)
  from built [OF this, of "newSudokuRand 5" s 5 60] obtain pc' e where run: "pkWrite (NewPackedConn (newSudokuRand 5) w s t 5 60) p = Some (length p, None, pc')"
    "wr_out (pk_writer pc') = wr_out w @ e"
    "filter (hintTable (tbl_layout t)) e = map (encodeGroup (tbl_layout t)) (groupsOf (bitsOf p @ fillBits (bitsOf p)))"
    by (elim exE conjE)
  have "groupsOf (bitsOf p @ fillBits (bitsOf p)) = [18, 6, 36]" "length p = 2" unfolding p_def by code_simp+
  with run show ?thesis unfolding Let_def t_def [symmetric] w_def [symmetric] s_def [symmetric] p_def [symmetric]
    by (intro exI [of _ pc'] exI [of _ e]) (simp add: w_def)
qed

text \<open>The decoder's four-byte fast path changes nothing: from every reader state the decoder
  reaches, for every chunk and buffer size, it returns the same bytes, consumes the same
  number of wire bytes and leaves the same state as the byte-wise decoder.\<close>

lemma packed_decode_fast_path:
  assumes "brInv s"
  shows "pkDecode l marker room s chunk = pkDecodeSlow l marker room s chunk \<and> brInv (snd (snd (pkDecode l marker room s chunk)))"
proof -
  have "brInv (snd (snd (pkDecodeSlow l marker room s chunk)))" using assms
  proof (induction l marker room s chunk rule: pkDecodeSlow.induct)
    case (2 l marker room s b chunk)
    obtain v s' where step: "pkDecodeByte l marker s b = (v, s')" by (metis prod.exhaust)
    then have "brInv s'" using pkDecodeByte_inv [OF 2(3), of l marker b] by simp
    then show ?case using 2 step by (cases "room = 0"; cases v) (auto simp: case_prod_beta)
  qed simp
  then show ?thesis using pkDecode_slow [OF assms] by simp
qed

text \<open>C37: the packed decoder reads padding as data. Every packed Write begins with a padding byte,
  the decoder tells padding from groups by a table entry of 64 or more, and the layouts never
  store one: the padding counts as group 0. So a payload whose first byte is at least 4 is
  never read back: the first byte the other end reads is below 4.\<close>

theorem packed_padding_decoded_as_data:
  assumes "NewTableWithCustom draws fp key mode pattern = Inr lt" "t \<in> {this_table lt, opposite_table lt}"
    and "p \<noteq> []" "4 \<le> hd p" "0 < k"
  shows "\<exists>pc' x out pc''. pkWrite (NewPackedConn r \<lparr>wr_out = [], wr_calls = [], wr_script = []\<rparr> s t a b) p = Some (length p, None, pc')
    \<and> pkRead (NewPackedConn r' w \<lparr>src_chunks = [wr_out (pk_writer pc')], src_final = EOF\<rparr> t a' b') k = Some (Inr (x # out), pc'')
    \<and> x < 4 \<and> x \<noteq> hd p"
proof -
  let ?l = "tbl_layout t" and ?pc = "NewPackedConn r \<lparr>wr_out = [], wr_calls = [], wr_script = []\<rparr> s t a b"
  obtain m q where lay: "resolveLayout m q = Inr ?l" using built_layout [OF assms(1, 2)] by blast
  have pc: "writable ?pc" "pk_table ?pc = t" "wr_out (pk_writer ?pc) = []"
    using NewPackedConn_writable [OF built_table [OF assms(1, 2)], of "\<lparr>wr_out = [], wr_calls = [], wr_script = []\<rparr>"]
    by (simp_all add: NewPackedConn_def) (simp_all add: NewPackedConnWithRecord_def Let_def case_prod_beta)
  from pkWrite_ok [OF pc(1) assms(3), unfolded pc(2, 3)] obtain pc' x e where
    wr: "pkWrite ?pc p = Some (length p, None, pc')" "wr_out (pk_writer pc') = x # e" "x \<in> set (pk_padPool ?pc)"
      "wireHints ?l (x # e) = map (encodeGroup ?l) (groupsOf (bitsOf p @ fillBits (bitsOf p)))" by auto
  have "\<not> hintTable ?l x" using wr(3) pc(1, 2) by (auto simp: writable_def okPool_def)
  then have x: "decodeGroup ?l x = 0" "wireHints ?l (x # e) = wireHints ?l e"
    using decodeGroup_padding [OF lay] by (simp_all add: wireHints_def)
  have "length (groupsOf (bitsOf p @ fillBits (bitsOf p))) \<noteq> 0"
    using assms(3) by (cases p) (auto simp: length_groupsOf div_eq_0_iff)
  then have "e \<noteq> []" using wr(4) x(2) by auto
  then obtain y rest where e: "e = y # rest" by (cases e) auto
  let ?rc = "NewPackedConn r' w \<lparr>src_chunks = [wr_out (pk_writer pc')], src_final = EOF\<rparr> t a' b'"
  obtain rest' s' where peek: "peekBufferedChunk [] \<lparr>src_chunks = [wr_out (pk_writer pc')], src_final = EOF\<rparr> = (Inr (x # y # rest'), s')"
    using peek_single [of "wr_out (pk_writer pc')" x y rest] wr(2) e by blast
  have y: "decodeGroup ?l y < 64" using decodeGroup_lt_64 [OF lay] .
  from decode_pad_first [OF x(1) y assms(5), of "padMarker ?l" rest'] obtain out n st where
    dec: "pkDecode ?l (padMarker ?l) k \<lparr>br_buf = 0, br_bits = 0\<rparr> (x # y # rest') = (drop_bit 4 (decodeGroup ?l y) # out, n, st)"
    using pkDecode_slow [of "\<lparr>br_buf = 0, br_bits = 0\<rparr>" ?l "padMarker ?l" k "x # y # rest'"] by (auto simp: brInv_def)
  have "\<exists>pc''. pkReadPass ?rc k = (Inr (drop_bit 4 (decodeGroup ?l y) # out), pc'')"
    using peek dec by (simp add: pkReadPass_def NewPackedConn_def NewPackedConnWithRecord_def Let_def case_prod_beta)
  then have "\<exists>pc''. pkRead ?rc k = Some (Inr (drop_bit 4 (decodeGroup ?l y) # out), pc'')"
    using assms(5) by (auto simp: pkRead_def pkReadLoop.simps)
  moreover have "drop_bit 4 (decodeGroup ?l y) < 4" using drop_bit_group [OF y] .
  ultimately show ?thesis using wr(1) assms(4) by (metis leD)
qed


theorem packed_padding_decoded_as_data_witness:
  "let t = tableOfLayout (\<lambda>_. 0) newASCIILayout; w = \<lparr>wr_out = [], wr_calls = [], wr_script = []\<rparr>;
       s = \<lparr>src_chunks = [], src_final = EOF\<rparr> in
   \<exists>pc' x out pc''. pkWrite (NewPackedConn (newSudokuRand 5) w s t 5 60) [72, 105] = Some (2, None, pc')
     \<and> pkRead (NewPackedConn (newSudokuRand 7) w \<lparr>src_chunks = [wr_out (pk_writer pc')], src_final = EOF\<rparr> t 5 60) 16
         = Some (Inr (x # out), pc'') \<and> x \<noteq> 72"
proof -
  define t where "t = tableOfLayout (\<lambda>_. 0) newASCIILayout"
  define w where "w = \<lparr>wr_out = [], wr_calls = [], wr_script = []\<rparr>"
  define s where "s = \<lparr>src_chunks = [], src_final = EOF\<rparr>"
  have "t \<in> {this_table \<lparr>this_table = t, opposite_table = t\<rparr>, opposite_table \<lparr>this_table = t, opposite_table = t\<rparr>}" by simp
  note built = packed_padding_decoded_as_data [OF ascii_table_built [folded t_def] this]
  have "[72, 105] \<noteq> ([] :: byte list)" "4 \<le> hd [72, 105 :: byte]" "0 < (16 :: nat)" by simp_all
  from built [OF this, of "newSudokuRand 5" s 5 60 "newSudokuRand 7" w 5 60, folded w_def] obtain pc' x out pc'' where
    run: "pkWrite (NewPackedConn (newSudokuRand 5) w s t 5 60) [72, 105] = Some (length [72, 105 :: byte], None, pc')"
      "pkRead (NewPackedConn (newSudokuRand 7) w \<lparr>src_chunks = [wr_out (pk_writer pc')], src_final = EOF\<rparr> t 5 60) 16
         = Some (Inr (x # out), pc'')" "x \<noteq> hd [72, 105]"
    by (elim exE conjE)
  have "pkWrite (NewPackedConn (newSudokuRand 5) w s t 5 60) [72, 105] = Some (2, None, pc')" "x \<noteq> 72"
    using run(1, 3) by simp_all
  with run(2) show ?thesis unfolding Let_def t_def [symmetric] w_def [symmetric] s_def [symmetric]
    by (intro exI [of _ pc'] exI [of _ x] exI [of _ out] exI [of _ pc'']) simp
qed

end
