(* ===== verification/Downlink.thy ===== *)
theory Downlink
  imports Sudoku_Packed
begin

text \<open>
  The server's downlink writers (obfs/sudoku/downlink.go): a writer over the classic codec or
  over a packed connection, with the flush functions the caller runs when it ends. A nil
  pointer or interface is None. The layout of a table is never nil in the program: every
  table comes from newSingleDirectionTable.
\<close>

record sudokuDataWriter =
  sdw_writer :: "writer option"
  sdw_table :: "Table option"
  sdw_rng :: "sudokuRand option"
  sdw_paddingThreshold :: u64
  sdw_writeCap :: nat

definition newSudokuDataWriter :: "writer option \<Rightarrow> Table option \<Rightarrow> sudokuRand option \<Rightarrow> int \<Rightarrow> int \<Rightarrow> sudokuDataWriter" where
  "newSudokuDataWriter w t rng pMin pMax =
     (let (threshold, rng) = pickPaddingThreshold rng pMin pMax in
      \<lparr>sdw_writer = w, sdw_table = t, sdw_rng = rng, sdw_paddingThreshold = threshold, sdw_writeCap = 4096\<rparr>)"

definition sudokuDataWrite :: "sudokuDataWriter \<Rightarrow> byte list \<Rightarrow> (nat \<times> ioerr option \<times> sudokuDataWriter) option" where
  "sudokuDataWrite dw p =
     (if p = [] then Some (0, None, dw)
      else (case (sdw_writer dw, sdw_table dw, sdw_rng dw) of
          (Some w, Some t, Some r) \<Rightarrow>
            do { res \<leftarrow> writeSudokuPayload w (sdw_writeCap dw) t r (sdw_paddingThreshold dw) p;
                 Some (res_n res, res_err res,
                   dw\<lparr>sdw_writer := Some (res_writer res), sdw_writeCap := res_cap res, sdw_rng := Some (res_rng res)\<rparr>) }
        | _ \<Rightarrow> Some (0, Some ErrClosedPipe, dw)))"

text \<open>The io.Writer behind a downlink is one of the two codecs.\<close>

datatype dataWriter = ClassicData sudokuDataWriter | PackedData PackedConn

record DownlinkWriter =
  dl_dataWriter :: "dataWriter option"

definition newDownlinkWriter :: "dataWriter option \<Rightarrow> DownlinkWriter" where
  "newDownlinkWriter d = \<lparr>dl_dataWriter = d\<rparr>"

definition NewDownlinkWriter :: "sudokuRand \<Rightarrow> writer \<Rightarrow> Table \<Rightarrow> int \<Rightarrow> int \<Rightarrow> DownlinkWriter" where
  "NewDownlinkWriter localRng raw t pMin pMax =
     newDownlinkWriter (Some (ClassicData (newSudokuDataWriter (Some raw) (Some t) (Some localRng) pMin pMax)))"

definition NewPackedDownlinkWriter :: "sudokuRand \<Rightarrow> writer \<Rightarrow> source \<Rightarrow> Table \<Rightarrow> int \<Rightarrow> int \<Rightarrow> DownlinkWriter" where
  "NewPackedDownlinkWriter localRng raw s t pMin pMax =
     newDownlinkWriter (Some (PackedData (NewPackedConn localRng raw s t pMin pMax)))"

text \<open>The flush function shares the packed connection with the writer, so here it acts on the
  writer.\<close>

definition flushDownlink :: "DownlinkWriter \<Rightarrow> (ioerr option \<times> DownlinkWriter) option" where
  "flushDownlink dl =
     (case dl_dataWriter dl of
        Some (PackedData pc) \<Rightarrow> do { (err, pc) \<leftarrow> pkFlush pc; Some (err, dl\<lparr>dl_dataWriter := Some (PackedData pc)\<rparr>) }
      | _ \<Rightarrow> Some (None, dl))"

definition NewServerDownlinkWriter ::
    "sudokuRand \<Rightarrow> writer \<Rightarrow> source \<Rightarrow> Table \<Rightarrow> int \<Rightarrow> int \<Rightarrow> bool
      \<Rightarrow> DownlinkWriter \<times> (DownlinkWriter \<Rightarrow> (ioerr option \<times> DownlinkWriter) option) list" where
  "NewServerDownlinkWriter localRng raw s t pMin pMax pure =
     (if pure then (NewDownlinkWriter localRng raw t pMin pMax, [])
      else (NewPackedDownlinkWriter localRng raw s t pMin pMax, [flushDownlink]))"

definition downlinkWrite :: "DownlinkWriter \<Rightarrow> byte list \<Rightarrow> (nat \<times> ioerr option \<times> DownlinkWriter) option" where
  "downlinkWrite dl p =
     (if p = [] then Some (0, None, dl)
      else (case dl_dataWriter dl of
          None \<Rightarrow> Some (0, Some ErrClosedPipe, dl)
        | Some (ClassicData d) \<Rightarrow>
            do { (n, err, d) \<leftarrow> sudokuDataWrite d p; Some (n, err, dl\<lparr>dl_dataWriter := Some (ClassicData d)\<rparr>) }
        | Some (PackedData pc) \<Rightarrow>
            do { (n, err, pc) \<leftarrow> pkWrite pc p; Some (n, err, dl\<lparr>dl_dataWriter := Some (PackedData pc)\<rparr>) }))"

definition downlinkWire :: "DownlinkWriter \<Rightarrow> byte list" where
  "downlinkWire dl =
     (case dl_dataWriter dl of
        Some (ClassicData d) \<Rightarrow> (case sdw_writer d of None \<Rightarrow> [] | Some w \<Rightarrow> wr_out w)
      | Some (PackedData pc) \<Rightarrow> wr_out (pk_writer pc)
      | None \<Rightarrow> [])"

text \<open>A packed write leaves nothing to flush but padding: after it, Flush sends no data group.\<close>

lemma packed_downlink_flushed:
  assumes "NewTableWithCustom draws fp key mode pattern = Inr lt" "t \<in> {this_table lt, opposite_table lt}"
    and "wr_script w = []" "p \<noteq> []" "NewServerDownlinkWriter r w s t a b False = (dl, fs)"
  shows "\<exists>dl' pc'. downlinkWrite dl p = Some (length p, None, dl') \<and> dl_dataWriter dl' = Some (PackedData pc')
    \<and> pk_bitCount pc' = 0 \<and> length fs = 1"
proof -
  have w: "writable (NewPackedConn r w s t a b)"
    using NewPackedConn_writable [OF built_table [OF assms(1, 2)] assms(3)] by (simp add: NewPackedConn_def)
  from pkWrite_ok [OF w assms(4)] obtain pc' where
    "pkWrite (NewPackedConn r w s t a b) p = Some (length p, None, pc')" "pk_bitCount pc' = 0"
    unfolding writable_def by blast
  then show ?thesis using assms(4, 5)
    by (auto simp: NewServerDownlinkWriter_def NewPackedDownlinkWriter_def newDownlinkWriter_def downlinkWrite_def)
qed

end
