(* ===== verification/Mux_Stream.thy ===== *)
theory Mux_Stream
  imports Byte_Stream
begin

text \<open>
  One logical stream of a multiplex session (multiplex/session.go, the type stream): the
  receive buffer, the half-close flags and the error a reader sees. The operations here are
  those of the stream alone; the ones that also send a frame or touch the session's table
  are in Mux_Session.

  Each operation holds the stream's mutex for its whole body, so it is one atomic function
  on the record. Read waits on the condition variable while nothing is buffered and nothing
  is closed: the value None is that wait, and the call is retried after another operation
  has changed the stream (every one of them broadcasts).
\<close>

section \<open>State\<close>

definition maxQueuedBytesPerStream :: int where "maxQueuedBytesPerStream = 4 * 1024 * 1024"

definition errMuxReceiveQueueFull :: ioerr where
  "errMuxReceiveQueueFull = ErrIO ''mux receive queue full''"

record stream =
  st_id :: u32
  st_closed :: bool
  st_localReadClosed :: bool
  st_localWriteClosed :: bool
  st_remoteWriteClosed :: bool
  st_closeErr :: "ioerr option"
  st_readBuf :: "byte list"
  st_queue :: "byte list list"
  st_queuedBytes :: int

definition newStream :: "u32 \<Rightarrow> stream" where
  "newStream i = \<lparr>st_id = i, st_closed = False, st_localReadClosed = False, st_localWriteClosed = False,
     st_remoteWriteClosed = False, st_closeErr = None, st_readBuf = [], st_queue = [], st_queuedBytes = 0\<rparr>"

section \<open>Operations\<close>

definition closeNoSend :: "stream \<Rightarrow> ioerr option \<Rightarrow> stream" where
  "closeNoSend c err =
     (let err = (case err of None \<Rightarrow> EOF | Some e \<Rightarrow> e) in
      if st_closed c then c
      else c\<lparr>st_closed := True,
             st_closeErr := (case st_closeErr c of None \<Rightarrow> Some err | Some e \<Rightarrow> Some e)\<rparr>)"

text \<open>The result says whether the session has to forget the stream.\<close>

definition closeRemoteWrite :: "stream \<Rightarrow> bool \<times> stream" where
  "closeRemoteWrite c =
     (if st_closed c then (False, c)
      else (st_localWriteClosed c, c\<lparr>st_remoteWriteClosed := True\<rparr>))"

definition closedErrLocked :: "stream \<Rightarrow> ioerr" where
  "closedErrLocked c = (case st_closeErr c of None \<Rightarrow> ErrClosedPipe | Some e \<Rightarrow> e)"

definition enqueue :: "stream \<Rightarrow> byte list \<Rightarrow> ioerr option \<times> stream" where
  "enqueue c payload =
     (if st_closed c \<or> st_localReadClosed c \<or> st_remoteWriteClosed c then (None, c)
      else if st_queuedBytes c + int (length payload) > maxQueuedBytesPerStream then (Some errMuxReceiveQueueFull, c)
      else let c = c\<lparr>st_queuedBytes := st_queuedBytes c + int (length payload)\<rparr> in
        (None, if st_readBuf c = [] \<and> st_queue c = [] then c\<lparr>st_readBuf := payload\<rparr>
               else c\<lparr>st_queue := st_queue c @ [payload]\<rparr>))"

text \<open>The wait loop's condition, the move of the next payload to the read buffer, and Read.\<close>

definition mustWait :: "stream \<Rightarrow> bool" where
  "mustWait c \<longleftrightarrow> st_readBuf c = [] \<and> st_queue c = [] \<and> \<not> st_closed c \<and> \<not> st_localReadClosed c \<and> \<not> st_remoteWriteClosed c"

definition nextPayload :: "stream \<Rightarrow> stream" where
  "nextPayload c =
     (if st_readBuf c = [] then
        (case st_queue c of [] \<Rightarrow> c | p # ps \<Rightarrow> c\<lparr>st_readBuf := p, st_queue := ps\<rparr>)
      else c)"

definition streamRead :: "stream \<Rightarrow> nat \<Rightarrow> ((ioerr + byte list) \<times> stream) option" where
  "streamRead c k =
     (if k = 0 then Some (Inr [], c)
      else if mustWait c then None
      else let c = nextPayload c in
        if st_readBuf c = [] \<and> st_closed c then Some (Inl (closedErrLocked c), c)
        else if st_readBuf c = [] \<and> st_localReadClosed c then Some (Inl ErrClosedPipe, c)
        else if st_readBuf c = [] \<and> st_remoteWriteClosed c then Some (Inl EOF, c)
        else let n = min k (length (st_readBuf c)); left = st_queuedBytes c - int n in
          Some (Inr (take n (st_readBuf c)),
                c\<lparr>st_readBuf := drop n (st_readBuf c), st_queuedBytes := (if left < 0 then 0 else left)\<rparr>))"

text \<open>The part of Close that runs under the mutex; the result says whether the stream was open,
  and whether a Close frame has to be sent.\<close>

definition closeLocal :: "stream \<Rightarrow> bool \<times> bool \<times> stream" where
  "closeLocal c =
     (if st_closed c then (False, False, c)
      else (True, \<not> st_localWriteClosed c,
        c\<lparr>st_closed := True, st_localReadClosed := True, st_localWriteClosed := True,
          st_closeErr := (case st_closeErr c of None \<Rightarrow> Some ErrClosedPipe | Some e \<Rightarrow> Some e),
          st_readBuf := [], st_queue := [], st_queuedBytes := 0\<rparr>))"

text \<open>The same for CloseWrite and CloseRead: whether anything was done, and whether the session
  has to forget the stream.\<close>

definition closeWriteLocal :: "stream \<Rightarrow> bool \<times> bool \<times> stream" where
  "closeWriteLocal c =
     (if st_closed c \<or> st_localWriteClosed c then (False, False, c)
      else (True, st_remoteWriteClosed c \<or> st_localReadClosed c, c\<lparr>st_localWriteClosed := True\<rparr>))"

definition closeReadLocal :: "stream \<Rightarrow> bool \<times> bool \<times> stream" where
  "closeReadLocal c =
     (if st_closed c \<or> st_localReadClosed c then (False, False, c)
      else (True, st_localWriteClosed c,
        c\<lparr>st_localReadClosed := True, st_readBuf := [], st_queue := [], st_queuedBytes := 0\<rparr>))"

lemmas stream_op_defs = closeNoSend_def closeRemoteWrite_def enqueue_def closeLocal_def closeWriteLocal_def closeReadLocal_def

section \<open>The buffer as a bounded queue of bytes\<close>

text \<open>What the buffer holds, as the abstract queue of unread bytes; a stream has ended for its
  reader when one of the three flags is set; the invariant of the record.\<close>

definition buffered :: "stream \<Rightarrow> byte list" where
  "buffered c = st_readBuf c @ concat (st_queue c)"

definition ended :: "stream \<Rightarrow> bool" where
  "ended c \<longleftrightarrow> st_closed c \<or> st_localReadClosed c \<or> st_remoteWriteClosed c"

definition streamInv :: "stream \<Rightarrow> bool" where
  "streamInv c \<longleftrightarrow> st_queuedBytes c = int (length (buffered c)) \<and> st_queuedBytes c \<le> maxQueuedBytesPerStream
     \<and> [] \<notin> set (st_queue c) \<and> (st_localReadClosed c \<longrightarrow> buffered c = [])"

text \<open>The specification: a byte queue with a capacity; put appends a payload or refuses it
  whole, get removes a non-empty prefix of at most k bytes.\<close>

definition fifoPut :: "int \<Rightarrow> byte list \<Rightarrow> byte list \<Rightarrow> byte list option" where
  "fifoPut capacity q p = (if int (length q + length p) > capacity then None else Some (q @ p))"

definition fifoGet :: "byte list \<Rightarrow> nat \<Rightarrow> byte list \<Rightarrow> byte list \<Rightarrow> bool" where
  "fifoGet q k out q' \<longleftrightarrow> q = out @ q' \<and> out \<noteq> [] \<and> length out \<le> k"

definition readEnd :: "stream \<Rightarrow> ioerr" where
  "readEnd c = (if st_closed c then closedErrLocked c else if st_localReadClosed c then ErrClosedPipe else EOF)"

lemma buffered_nextPayload [simp]: "buffered (nextPayload c) = buffered c"
  by (simp add: buffered_def nextPayload_def split: list.split)

lemma nextPayload_flags [simp]:
  "st_closed (nextPayload c) = st_closed c" "st_localReadClosed (nextPayload c) = st_localReadClosed c"
  "st_localWriteClosed (nextPayload c) = st_localWriteClosed c"
  "st_remoteWriteClosed (nextPayload c) = st_remoteWriteClosed c" "st_closeErr (nextPayload c) = st_closeErr c"
  "st_queuedBytes (nextPayload c) = st_queuedBytes c" "st_id (nextPayload c) = st_id c"
  by (simp_all add: nextPayload_def split: list.split)

lemma nextPayload_queue: "[] \<notin> set (st_queue c) \<Longrightarrow> [] \<notin> set (st_queue (nextPayload c))"
  by (auto simp: nextPayload_def split: list.split)

lemma nextPayload_readBuf:
  "[] \<notin> set (st_queue c) \<Longrightarrow> st_readBuf (nextPayload c) = [] \<longleftrightarrow> buffered c = []"
  by (auto simp: nextPayload_def buffered_def split: list.split)

lemma mustWait_iff: "[] \<notin> set (st_queue c) \<Longrightarrow> mustWait c \<longleftrightarrow> buffered c = [] \<and> \<not> ended c"
  by (auto simp: mustWait_def buffered_def ended_def) (metis list.set_intros(1) neq_Nil_conv)

lemma closedErrLocked_next [simp]: "closedErrLocked (nextPayload c) = closedErrLocked c"
  by (simp add: closedErrLocked_def)

text \<open>Read on a stream that holds bytes, and on an empty one.\<close>

lemma streamRead_data:
  assumes inv: "streamInv c" and q: "buffered c \<noteq> []" and k: "0 < k"
  obtains out c' where "streamRead c k = Some (Inr out, c')" "fifoGet (buffered c) k out (buffered c')"
    "streamInv c'" "ended c' = ended c" "readEnd c' = readEnd c" "st_id c' = st_id c"
proof -
  have ne: "[] \<notin> set (st_queue c)" and bytes: "st_queuedBytes c = int (length (buffered c))" using inv by (auto simp: streamInv_def)
  let ?d = "nextPayload c"
  define n where "n = min k (length (st_readBuf ?d))"
  define c' where "c' = ?d\<lparr>st_readBuf := drop n (st_readBuf ?d), st_queuedBytes := st_queuedBytes c - int n\<rparr>"
  have rb: "st_readBuf ?d \<noteq> []" using nextPayload_readBuf [OF ne] q by simp
  have split: "buffered c = take n (st_readBuf ?d) @ buffered c'"
  proof -
    have "buffered c = (take n (st_readBuf ?d) @ drop n (st_readBuf ?d)) @ concat (st_queue ?d)"
      using buffered_nextPayload [of c] by (simp add: buffered_def)
    then show ?thesis by (simp only: append_assoc) (simp add: c'_def buffered_def)
  qed
  have left: "\<not> st_queuedBytes c - int n < 0" using bytes split by (simp add: n_def)
  have "\<not> mustWait c" using mustWait_iff [OF ne] q by simp
  then have run: "streamRead c k = Some (Inr (take n (st_readBuf ?d)), c')"
    using k rb left by (simp add: streamRead_def Let_def c'_def n_def)
  have get: "fifoGet (buffered c) k (take n (st_readBuf ?d)) (buffered c')"
    using split rb k by (auto simp: fifoGet_def n_def)
  have len: "length (buffered c) = n + length (buffered c')" using arg_cong [OF split, of length] by (simp add: n_def)
  have "\<not> st_localReadClosed c" using inv q by (auto simp: streamInv_def)
  moreover have "st_queuedBytes c' = st_queuedBytes c - int n" "st_queue c' = st_queue ?d" "st_localReadClosed c' = st_localReadClosed c"
    by (simp_all add: c'_def)
  ultimately have "streamInv c'" using inv len nextPayload_queue [OF ne] by (simp add: streamInv_def)
  moreover have "ended c' = ended c" "readEnd c' = readEnd c" "st_id c' = st_id c"
    by (simp_all add: c'_def ended_def readEnd_def closedErrLocked_def)
  ultimately show ?thesis using that run get by blast
qed

lemma streamRead_empty:
  assumes "streamInv c" "buffered c = []" "0 < k"
  shows "streamRead c k = (if ended c then Some (Inl (readEnd c), c) else None)"
proof -
  have ne: "[] \<notin> set (st_queue c)" using assms(1) by (simp add: streamInv_def)
  have "st_readBuf c = []" "st_queue c = []" using assms(2) ne by (auto simp: buffered_def) (metis list.set_intros(1) neq_Nil_conv)
  then show ?thesis using assms(3) by (simp add: streamRead_def mustWait_def nextPayload_def ended_def readEnd_def)
qed

lemma streamRead_inv:
  assumes "streamInv c" "streamRead c k = Some (res, c')"
  shows "streamInv c' \<and> ended c' = ended c \<and> st_id c' = st_id c"
proof -
  consider "k = 0" | "0 < k" "buffered c = []" | "0 < k" "buffered c \<noteq> []" by blast
  then show ?thesis
  proof cases
    case 1
    then show ?thesis using assms by (simp add: streamRead_def)
  next
    case 2
    then show ?thesis using assms streamRead_empty [OF assms(1)] by (auto split: if_splits)
  next
    case 3
    from streamRead_data [OF assms(1) 3(2, 1)] assms(2) show ?thesis by (metis option.inject prod.inject)
  qed
qed

lemma newStream_inv [simp]: "streamInv (newStream i)" "\<not> ended (newStream i)" "buffered (newStream i) = []" "st_id (newStream i) = i"
  by (simp_all add: newStream_def streamInv_def buffered_def ended_def maxQueuedBytesPerStream_def)

lemma closeNoSend_inv [simp]:
  "streamInv (closeNoSend c e) = streamInv c" "ended (closeNoSend c e)" "buffered (closeNoSend c e) = buffered c"
  "st_id (closeNoSend c e) = st_id c"
  by (simp_all add: closeNoSend_def streamInv_def buffered_def ended_def Let_def)

lemma closeRemoteWrite_inv [simp]:
  "streamInv (snd (closeRemoteWrite c)) = streamInv c" "ended (snd (closeRemoteWrite c))"
  "st_id (snd (closeRemoteWrite c)) = st_id c"
  by (simp_all add: closeRemoteWrite_def streamInv_def buffered_def ended_def)

lemma closeLocal_inv [simp]:
  "streamInv c \<Longrightarrow> streamInv (snd (snd (closeLocal c)))" "ended (snd (snd (closeLocal c)))"
  "st_id (snd (snd (closeLocal c))) = st_id c"
  by (simp_all add: closeLocal_def streamInv_def buffered_def ended_def maxQueuedBytesPerStream_def)

lemma closeReadLocal_inv [simp]:
  "streamInv c \<Longrightarrow> streamInv (snd (snd (closeReadLocal c)))" "ended (snd (snd (closeReadLocal c)))"
  "st_id (snd (snd (closeReadLocal c))) = st_id c"
  by (auto simp: closeReadLocal_def streamInv_def buffered_def ended_def maxQueuedBytesPerStream_def)

lemma closeWriteLocal_inv [simp]:
  "streamInv (snd (snd (closeWriteLocal c))) = streamInv c" "ended (snd (snd (closeWriteLocal c))) = ended c"
  "st_id (snd (snd (closeWriteLocal c))) = st_id c"
  by (simp_all add: closeWriteLocal_def streamInv_def buffered_def ended_def)

lemma enqueue_open:
  assumes "streamInv c" "\<not> ended c" "p \<noteq> []"
  shows "(case fifoPut maxQueuedBytesPerStream (buffered c) p of
            None \<Rightarrow> enqueue c p = (Some errMuxReceiveQueueFull, c)
          | Some q \<Rightarrow> fst (enqueue c p) = None \<and> buffered (snd (enqueue c p)) = q)
    \<and> streamInv (snd (enqueue c p))"
  using assms by (auto simp: streamInv_def enqueue_def ended_def fifoPut_def buffered_def Let_def)

lemma enqueue_inv:
  assumes "streamInv c" "p \<noteq> []"
  shows "streamInv (snd (enqueue c p)) \<and> ended (snd (enqueue c p)) = ended c \<and> st_id (snd (enqueue c p)) = st_id c"
proof (cases "ended c")
  case True
  then show ?thesis using assms by (simp add: enqueue_def ended_def)
next
  case False
  then show ?thesis using enqueue_open [OF assms(1) False assms(2)] by (simp add: enqueue_def ended_def Let_def)
qed

text \<open>A stream that has ended serves what it holds and then the reason, which is the contract of
  a byte stream: what a sequence of reads delivers follows from it.\<close>

interpretation mux: byte_stream "\<lambda>c q. streamInv c \<and> ended c \<and> buffered c = q" streamRead readEnd
proof
  fix c q and k :: nat
  assume "streamInv c \<and> ended c \<and> buffered c = q" "q \<noteq> []" "0 < k"
  then show "\<exists>o' q' c'. streamRead c k = Some (Inr o', c') \<and> q = o' @ q' \<and> o' \<noteq> [] \<and> length o' \<le> k
      \<and> (streamInv c' \<and> ended c' \<and> buffered c' = q') \<and> readEnd c' = readEnd c"
    using streamRead_data [of c k] by (auto simp: fifoGet_def) (metis append_Nil2)
next
  fix c and k :: nat
  assume "streamInv c \<and> ended c \<and> buffered c = []" "0 < k"
  then show "\<exists>c'. streamRead c k = Some (Inl (readEnd c), c')" using streamRead_empty by auto
qed


section \<open>Properties of a stream\<close>

text \<open>C15: the receive buffer implements a bounded queue of bytes. On a well-formed stream that has
  not ended, enqueue appends the payload or refuses it whole with the queue-full error,
  exactly as the queue with the stream's capacity does; Read takes a non-empty prefix of at
  most the buffer's length while bytes are left, whether they are in the read buffer or the
  queue, then reports why the stream ended, and waits only while it is empty and open.\<close>

theorem stream_refines_fifo:
  assumes "streamInv c"
  shows "(\<not> ended c \<and> p \<noteq> [] \<longrightarrow> (case fifoPut maxQueuedBytesPerStream (buffered c) p of
             None \<Rightarrow> enqueue c p = (Some errMuxReceiveQueueFull, c)
           | Some q \<Rightarrow> fst (enqueue c p) = None \<and> buffered (snd (enqueue c p)) = q \<and> streamInv (snd (enqueue c p))))
    \<and> (0 < k \<longrightarrow> (if buffered c = [] then streamRead c k = (if ended c then Some (Inl (readEnd c), c) else None)
           else \<exists>out c'. streamRead c k = Some (Inr out, c') \<and> fifoGet (buffered c) k out (buffered c') \<and> streamInv c'))"
proof (intro conjI impI)
  assume "\<not> ended c \<and> p \<noteq> []"
  then show "case fifoPut maxQueuedBytesPerStream (buffered c) p of None \<Rightarrow> enqueue c p = (Some errMuxReceiveQueueFull, c)
     | Some q \<Rightarrow> fst (enqueue c p) = None \<and> buffered (snd (enqueue c p)) = q \<and> streamInv (snd (enqueue c p))"
    using enqueue_open [OF assms, of p] by (auto split: option.splits)
next
  assume "0 < k"
  then show "if buffered c = [] then streamRead c k = (if ended c then Some (Inl (readEnd c), c) else None)
     else \<exists>out c'. streamRead c k = Some (Inr out, c') \<and> fifoGet (buffered c) k out (buffered c') \<and> streamInv c'"
    using streamRead_empty [OF assms] streamRead_data [OF assms] by (metis (no_types, lifting))
qed

theorem stream_refines_fifo_witness:
  "let c = snd (enqueue (snd (enqueue (newStream 1) [72])) [105, 33]) in
     streamInv c \<and> buffered c = [72, 105, 33]
     \<and> (\<exists>out c'. streamRead c 2 = Some (Inr out, c') \<and> fifoGet [72, 105, 33] 2 out (buffered c'))"
proof -
  define c where "c = snd (enqueue (snd (enqueue (newStream 1) [72])) [105, 33])"
  have inv: "streamInv c" and q: "buffered c = [72, 105, 33]" unfolding c_def by code_simp+
  from stream_refines_fifo [OF inv, of "[7]" 2] q show ?thesis unfolding Let_def c_def [symmetric] using inv by auto
qed

end
