(* ===== verification/Go_Net.thy ===== *)
theory Go_Net
  imports Prelude
begin

text \<open>
  The part of Go's net, net/netip, strconv and encoding/hex packages the transport uses:
  host and port splitting, decimal and hexadecimal numbers, IP addresses. Strings are byte
  strings; byteOfChar and charOfByte convert between the two views. An IP address is its
  4 or 16 bytes.
\<close>

section \<open>Strings and bytes\<close>

definition byteOfChar :: "char \<Rightarrow> byte" where
  "byteOfChar c = word_of_nat (of_char c)"

definition charOfByte :: "byte \<Rightarrow> char" where
  "charOfByte b = char_of (unat b)"

definition stringBytes :: "string \<Rightarrow> byte list" where
  "stringBytes s = map byteOfChar s"

definition bytesString :: "byte list \<Rightarrow> string" where
  "bytesString bs = map charOfByte bs"

lemma charOfByte_byteOfChar [simp]: "charOfByte (byteOfChar c) = c"
proof -
  have "(of_char c :: nat) < 256" by simp
  then have "unat (word_of_nat (of_char c) :: byte) = of_char c" by (simp add: unat_of_nat)
  then show ?thesis by (simp add: charOfByte_def byteOfChar_def)
qed

lemma bytesString_stringBytes [simp]: "bytesString (stringBytes s) = s"
  by (simp add: bytesString_def stringBytes_def comp_def)

lemma length_stringBytes [simp]: "length (stringBytes s) = length s"
  by (simp add: stringBytes_def)

lemma length_bytesString [simp]: "length (bytesString s) = length s"
  by (simp add: bytesString_def)

text \<open>strings.IndexByte and strings.LastIndexByte.\<close>

fun indexByte :: "string \<Rightarrow> char \<Rightarrow> nat option" where
  "indexByte [] c = None"
| "indexByte (d # s) c = (if d = c then Some 0 else map_option Suc (indexByte s c))"

definition lastIndexByte :: "string \<Rightarrow> char \<Rightarrow> nat option" where
  "lastIndexByte s c = map_option (\<lambda>i. length s - 1 - i) (indexByte (rev s) c)"

section \<open>Decimal and hexadecimal numbers\<close>

definition isDigit :: "char \<Rightarrow> bool" where
  "isDigit c \<longleftrightarrow> 48 \<le> (of_char c :: nat) \<and> (of_char c :: nat) \<le> 57"

definition digitVal :: "char \<Rightarrow> nat" where
  "digitVal c = of_char c - 48"

text \<open>strconv.ParseUint(s, 10, 16): None for a syntax error and for a value out of range.\<close>

definition parseUint16 :: "string \<Rightarrow> u16 option" where
  "parseUint16 s =
     (if s = [] \<or> \<not> list_all isDigit s then None
      else let v = foldl (\<lambda>n c. n * 10 + digitVal c) 0 s
           in if v > 65535 then None else Some (word_of_nat v))"

text \<open>The digits, and fmt.Sprint of a number.\<close>

definition hexDigit :: "nat \<Rightarrow> char" where
  "hexDigit n = ''0123456789abcdef'' ! n"

fun itoa :: "nat \<Rightarrow> string" where
  "itoa n = (if n < 10 then [hexDigit n] else itoa (n div 10) @ [hexDigit (n mod 10)])"

declare itoa.simps [simp del]

definition hexVal :: "char \<Rightarrow> nat option" where
  "hexVal c = (let n = (of_char c :: nat) in
     if 48 \<le> n \<and> n \<le> 57 then Some (n - 48)
     else if 97 \<le> n \<and> n \<le> 102 then Some (n - 87)
     else if 65 \<le> n \<and> n \<le> 70 then Some (n - 55)
     else None)"

text \<open>hex.DecodeString (None is an error: a bad digit or an odd length) and EncodeToString.\<close>

fun hexDecode :: "string \<Rightarrow> byte list option" where
  "hexDecode [] = Some []"
| "hexDecode [c] = None"
| "hexDecode (c # d # s) =
     do { a \<leftarrow> hexVal c; b \<leftarrow> hexVal d; bs \<leftarrow> hexDecode s; Some (word_of_nat (16 * a + b) # bs) }"

definition hexEncode :: "byte list \<Rightarrow> string" where
  "hexEncode bs = concat (map (\<lambda>b. [hexDigit (unat b div 16), hexDigit (unat b mod 16)]) bs)"

lemma hexVal_hexDigit:
  assumes "n < 16"
  shows "hexVal (hexDigit n) = Some n"
proof -
  have "[0..<16] = [0, 1, 2, 3, 4, 5, 6, 7, 8, 9, 10, 11, 12, 13, 14, 15]" by (simp add: upt_rec)
  then have "n \<in> {0, 1, 2, 3, 4, 5, 6, 7, 8, 9, 10, 11, 12, 13, 14, 15}"
    using assms by (metis atLeast0LessThan lessThan_iff list.simps(15) set_upt empty_set)
  then show ?thesis by (elim insertE emptyE) (simp_all add: hexVal_def hexDigit_def Let_def)
qed

lemma hexDecode_hexEncode [simp]: "hexDecode (hexEncode bs) = Some bs"
proof (induction bs)
  case (Cons b bs)
  have "unat b < 256" using unsigned_less [of b] by simp
  then have digits: "hexVal (hexDigit (unat b div 16)) = Some (unat b div 16)"
    "hexVal (hexDigit (unat b mod 16)) = Some (unat b mod 16)"
    by (auto intro!: hexVal_hexDigit simp: less_mult_imp_div_less)
  have "(word_of_nat (16 * (unat b div 16) + unat b mod 16) :: byte) = b"
    unfolding mult_div_mod_eq by simp
  with digits Cons show ?case by (simp add: hexEncode_def del: of_nat_add of_nat_mult)
qed (simp add: hexEncode_def)

section \<open>IP addresses\<close>

text \<open>netip.parseIPv4Fields: prev is the previous character, val and digLen describe the
  current field.\<close>

fun parseIPv4Fields :: "char option \<Rightarrow> nat \<Rightarrow> nat \<Rightarrow> byte list \<Rightarrow> string \<Rightarrow> byte list option" where
  "parseIPv4Fields prev val digLen fields [] =
     (if length fields < 3 then None else Some (fields @ [word_of_nat val]))"
| "parseIPv4Fields prev val digLen fields (c # s) =
     (if isDigit c then
        if digLen = 1 \<and> val = 0 then None
        else let v = val * 10 + digitVal c
             in if v > 255 then None else parseIPv4Fields (Some c) v (digLen + 1) fields s
      else if c = CHR ''.'' then
        if prev = None \<or> s = [] \<or> prev = Some (CHR ''.'') then None
        else if length fields = 3 then None
        else parseIPv4Fields (Some c) 0 0 (fields @ [word_of_nat val]) s
      else None)"

definition parseIPv4 :: "string \<Rightarrow> byte list option" where
  "parseIPv4 s = (if s = [] then None else parseIPv4Fields None 0 0 [] s)"

text \<open>The hexadecimal digits at the start of a field: at most four.\<close>

fun hexField :: "nat \<Rightarrow> nat \<Rightarrow> string \<Rightarrow> (nat \<times> nat \<times> string) option" where
  "hexField n acc [] = Some (n, acc, [])"
| "hexField n acc (c # s) =
     (case hexVal c of
        None \<Rightarrow> Some (n, acc, c # s)
      | Some d \<Rightarrow> if n > 3 then None else hexField (n + 1) (16 * acc + d) s)"

text \<open>netip.parseIPv6 without the zone: the loop over the fields returns the bytes read, the
  position of the ellipsis and the rest of the text. A field takes two bytes, so eight
  passes fill the address.\<close>

fun parseIPv6Loop :: "nat \<Rightarrow> byte list \<Rightarrow> nat option \<Rightarrow> string \<Rightarrow> (byte list \<times> nat option \<times> string) option" where
  "parseIPv6Loop 0 ip ellipsis s = Some (ip, ellipsis, s)"
| "parseIPv6Loop (Suc k) ip ellipsis s =
     (case hexField 0 0 s of
        None \<Rightarrow> None
      | Some (n, acc, rest) \<Rightarrow>
          if n = 0 then None
          else if rest \<noteq> [] \<and> hd rest = CHR ''.'' then
            (if ellipsis = None \<and> length ip \<noteq> 12 then None
             else if length ip + 4 > 16 then None
             else map_option (\<lambda>v4. (ip @ v4, ellipsis, [])) (parseIPv4Fields None 0 0 [] s))
          else
            (let ip = ip @ [word_of_nat (acc div 256), word_of_nat (acc mod 256)] in
             if rest = [] then Some (ip, ellipsis, [])
             else if hd rest \<noteq> CHR '':'' then None
             else let s = tl rest in
               if s = [] then None
               else if hd s = CHR '':'' then
                 (if ellipsis \<noteq> None then None
                  else let s = tl s in
                    if s = [] then Some (ip, Some (length ip), [])
                    else parseIPv6Loop k ip (Some (length ip)) s)
               else parseIPv6Loop k ip ellipsis s))"

definition finishIPv6 :: "byte list \<Rightarrow> nat option \<Rightarrow> string \<Rightarrow> byte list option" where
  "finishIPv6 ip ellipsis rest =
     (if rest \<noteq> [] then None
      else if length ip < 16 then
        (case ellipsis of None \<Rightarrow> None
         | Some e \<Rightarrow> Some (take e ip @ replicate (16 - length ip) 0 @ drop e ip))
      else if ellipsis \<noteq> None then None else Some ip)"

definition parseIPv6 :: "string \<Rightarrow> byte list option" where
  "parseIPv6 s =
     (if take 2 s = ''::'' then
        (if drop 2 s = [] then Some (replicate 16 0)
         else do { (ip, e, rest) \<leftarrow> parseIPv6Loop 8 [] (Some 0) (drop 2 s); finishIPv6 ip e rest })
      else do { (ip, e, rest) \<leftarrow> parseIPv6Loop 8 [] None s; finishIPv6 ip e rest })"

text \<open>netip.ParseAddr: the first of the characters dot, colon and percent decides. The result
  is the address and its zone; a zone must be non-empty and belongs to IPv6.\<close>

fun firstAddrChar :: "string \<Rightarrow> char option" where
  "firstAddrChar [] = None"
| "firstAddrChar (c # s) = (if c \<in> set ''.:%'' then Some c else firstAddrChar s)"

definition parseAddr :: "string \<Rightarrow> (byte list \<times> string) option" where
  "parseAddr s =
     (case firstAddrChar s of
        None \<Rightarrow> None
      | Some c \<Rightarrow>
          if c = CHR ''.'' then map_option (\<lambda>ip. (ip, [])) (parseIPv4 s)
          else if c = CHR '':'' then
            (case indexByte s (CHR ''%'') of
               None \<Rightarrow> map_option (\<lambda>ip. (ip, [])) (parseIPv6 s)
             | Some i \<Rightarrow> let zone = drop (i + 1) s in
                 if zone = [] then None else map_option (\<lambda>ip. (ip, zone)) (parseIPv6 (take i s)))
          else None)"

definition v4mapped :: "byte list" where
  "v4mapped = replicate 10 0 @ [0xff, 0xff]"

text \<open>IP.To4 on 16 bytes, and net.ParseIP: the 16-byte form of an address without a zone.\<close>

definition to4 :: "byte list \<Rightarrow> byte list option" where
  "to4 ip = (if length ip = 4 then Some ip
             else if length ip = 16 \<and> take 12 ip = v4mapped then Some (drop 12 ip) else None)"

definition parseIP :: "string \<Rightarrow> byte list option" where
  "parseIP s =
     (case parseAddr s of
        None \<Rightarrow> None
      | Some (ip, zone) \<Rightarrow>
          if zone \<noteq> [] then None else Some (if length ip = 4 then v4mapped @ ip else ip))"

text \<open>IP.String: dotted decimal, or groups of hexadecimal digits without leading zeros with
  the longest run of at least two zero groups replaced by a double colon.\<close>

definition ipv4String :: "byte list \<Rightarrow> string" where
  "ipv4String ip = itoa (unat (ip ! 0)) @ ''.'' @ itoa (unat (ip ! 1)) @ ''.'' @
     itoa (unat (ip ! 2)) @ ''.'' @ itoa (unat (ip ! 3))"

fun hexDigitsOf :: "nat \<Rightarrow> nat \<Rightarrow> string" where
  "hexDigitsOf 0 n = []"
| "hexDigitsOf (Suc k) n = (if n < 16 then [hexDigit n] else hexDigitsOf k (n div 16) @ [hexDigit (n mod 16)])"

definition ipv6Groups :: "byte list \<Rightarrow> nat list" where
  "ipv6Groups ip = map (\<lambda>i. 256 * unat (ip ! (2 * i)) + unat (ip ! (2 * i + 1))) [0..<8]"

fun zeroRun :: "nat list \<Rightarrow> nat" where
  "zeroRun (0 # gs) = Suc (zeroRun gs)"
| "zeroRun _ = 0"

definition longestZeros :: "nat list \<Rightarrow> nat \<times> nat" where
  "longestZeros gs = fold (\<lambda>i (st, l). let n = zeroRun (drop i gs) in
     if n \<ge> 2 \<and> n > l then (i, n) else (st, l)) [0..<8] (0, 0)"

definition ipv6String :: "byte list \<Rightarrow> string" where
  "ipv6String ip =
     (let gs = ipv6Groups ip; (st, l) = longestZeros gs;
          hexes = (\<lambda>xs. concat (map (\<lambda>(i, g). (if i = 0 then [] else '':'') @ hexDigitsOf 4 g) (List.enumerate 0 xs)))
      in if l = 0 then hexes gs else hexes (take st gs) @ ''::'' @ hexes (drop (st + l) gs))"

definition ipString :: "byte list \<Rightarrow> string" where
  "ipString ip = (case to4 ip of Some ip4 \<Rightarrow> ipv4String ip4 | None \<Rightarrow> ipv6String ip)"

section \<open>Hosts and ports\<close>

datatype addrError = MissingPort | TooManyColons | MissingBracket | UnexpectedBracket
  | BadPort | DomainTooLong | UnknownAddressType byte | AddrIO ioerr

definition SplitHostPort :: "string \<Rightarrow> addrError + (string \<times> string)" where
  "SplitHostPort hostport =
     (case lastIndexByte hostport (CHR '':'') of
        None \<Rightarrow> Inl MissingPort
      | Some i \<Rightarrow>
          let checked = (\<lambda>host j k.
                if indexByte (drop j hostport) (CHR ''['') \<noteq> None then Inl UnexpectedBracket
                else if indexByte (drop k hostport) (CHR '']'') \<noteq> None then Inl UnexpectedBracket
                else Inr (host, drop (i + 1) hostport)) in
          if hd hostport = CHR ''['' then
            (case indexByte hostport (CHR '']'') of
               None \<Rightarrow> Inl MissingBracket
             | Some e \<Rightarrow>
                 if e + 1 = length hostport then Inl MissingPort
                 else if e + 1 = i then checked (take (e - 1) (drop 1 hostport)) 1 (e + 1)
                 else if hostport ! (e + 1) = CHR '':'' then Inl TooManyColons
                 else Inl MissingPort)
          else let host = take i hostport in
            if indexByte host (CHR '':'') \<noteq> None then Inl TooManyColons
            else checked host 0 0)"

definition JoinHostPort :: "string \<Rightarrow> string \<Rightarrow> string" where
  "JoinHostPort host port =
     (if indexByte host (CHR '':'') \<noteq> None then ''['' @ host @ '']:'' @ port else host @ '':'' @ port)"

lemmas go_net_eval [go_simps] = SplitHostPort_def lastIndexByte_def parseUint16_def isDigit_def digitVal_def
  parseIP_def parseAddr_def parseIPv4_def v4mapped_def to4_def JoinHostPort_def ipString_def ipv4String_def
  itoa.simps hexDigit_def stringBytes_def byteOfChar_def

lemma length_parseIPv4Fields:
  "parseIPv4Fields prev v n fs s = Some ip \<Longrightarrow> length fs \<le> 3 \<Longrightarrow> length ip = 4"
  by (induction prev v n fs s rule: parseIPv4Fields.induct) (auto simp: Let_def split: if_splits)

lemma length_finishIPv6:
  "finishIPv6 ip e rest = Some r \<Longrightarrow> length ip \<le> 16 \<Longrightarrow> length r = 16"
  by (auto simp: finishIPv6_def split: if_splits option.splits)

lemma length_parseIPv6Loop:
  "parseIPv6Loop k ip e s = Some (ip', e', s') \<Longrightarrow> length ip + 2 * k \<le> 16 \<Longrightarrow> length ip' \<le> 16"
proof (induction k ip e s rule: parseIPv6Loop.induct)
  case (2 k ip e s)
  then show ?case
    by (auto simp: Let_def dest!: length_parseIPv4Fields split: option.splits prod.splits if_splits)
qed auto

lemma length_parseIPv6: "parseIPv6 s = Some ip \<Longrightarrow> length ip = 16"
  by (auto simp: parseIPv6_def bind_eq_Some_conv split: if_splits
      dest!: length_parseIPv6Loop length_finishIPv6)

lemma length_parseAddr: "parseAddr s = Some (ip, z) \<Longrightarrow> length ip = 4 \<or> length ip = 16"
  by (auto simp: parseAddr_def parseIPv4_def Let_def split: option.splits if_splits
      dest!: length_parseIPv4Fields length_parseIPv6)

lemma length_parseIP: "parseIP s = Some ip \<Longrightarrow> length ip = 16"
  by (auto simp: parseIP_def v4mapped_def split: option.splits if_splits prod.splits dest!: length_parseAddr)

lemma length_to4: "to4 ip = Some ip4 \<Longrightarrow> length ip4 = 4"
  by (auto simp: to4_def split: if_splits)

end
