(* ===== verification/Address.thy ===== *)
theory Address
  imports Go_Net Conn_Util
begin

text \<open>
  Target addresses and UDP-over-TCP datagrams (transport/address.go, uot.go and
  write\_chunks.go). A reader is the list of the bytes still to come; a function that reads
  returns what is left.
\<close>

section \<open>Addresses\<close>

fun writeAllChunks :: "writer \<Rightarrow> byte list list \<Rightarrow> ioerr option \<times> writer" where
  "writeAllChunks w [] = (None, w)"
| "writeAllChunks w (chunk # chunks) =
     (case connWrite w chunk of
        ((n, Some e), w') \<Rightarrow> (Some e, w')
      | ((n, None), w') \<Rightarrow> writeAllChunks w' chunks)"

definition stripZone :: "string \<Rightarrow> string" where
  "stripZone host = (case indexByte host (CHR ''%'') of None \<Rightarrow> host | Some i \<Rightarrow> take i host)"

definition EncodeAddress :: "string \<Rightarrow> addrError + byte list" where
  "EncodeAddress rawAddr =
     bindE (SplitHostPort rawAddr) (\<lambda>(host, portStr).
       case parseUint16 portStr of
         None \<Rightarrow> Inl BadPort
       | Some port \<Rightarrow>
           let host = stripZone host in
           case parseIP host of
             Some ip \<Rightarrow>
               (case to4 ip of
                  Some ip4 \<Rightarrow> Inr (0x01 # ip4 @ putUint16 port)
                | None \<Rightarrow> Inr (0x04 # ip @ putUint16 port))
           | None \<Rightarrow>
               if length host > 255 then Inl DomainTooLong
               else Inr (0x03 # word_of_nat (length host) # stringBytes host @ putUint16 port))"

text \<open>Reading from a stream, with the error wrapped.\<close>

definition readAddr :: "nat \<Rightarrow> byte list \<Rightarrow> addrError + (byte list \<times> byte list)" where
  "readAddr n s = mapErr AddrIO (readFull n s)"

definition portString :: "byte list \<Rightarrow> string" where
  "portString portBuf = itoa (unat (bigEndianUint16 portBuf))"

definition DecodeAddress :: "byte list \<Rightarrow> addrError + (string \<times> byte list)" where
  "DecodeAddress r =
     bindE (readAddr 1 r) (\<lambda>(atyp, r).
       let a = hd atyp in
       if a = 0x01 then
         bindE (readAddr 4 r) (\<lambda>(ipBuf, r).
         bindE (readAddr 2 r) (\<lambda>(portBuf, r).
           Inr (JoinHostPort (ipString ipBuf) (portString portBuf), r)))
       else if a = 0x04 then
         bindE (readAddr 16 r) (\<lambda>(ipBuf, r).
         bindE (readAddr 2 r) (\<lambda>(portBuf, r).
           Inr (JoinHostPort (ipString ipBuf) (portString portBuf), r)))
       else if a = 0x03 then
         bindE (readAddr 1 r) (\<lambda>(lengthBuf, r).
         bindE (readAddr (unat (hd lengthBuf)) r) (\<lambda>(hostBuf, r).
         bindE (readAddr 2 r) (\<lambda>(portBuf, r).
           Inr (JoinHostPort (bytesString hostBuf) (portString portBuf), r))))
       else Inl (UnknownAddressType a))"

section \<open>UDP over TCP\<close>

definition maxUoTPayload :: nat where "maxUoTPayload = 64 * 1024"

datatype uotError = EncodeAddressErr addrError | AddressTooLong nat | PayloadTooLarge nat
  | InvalidAddressLength nat | InvalidPayloadLength nat | DecodeAddressErr addrError
  | UotIO ioerr | ErrShortBuffer | NilAddress

definition WriteDatagram :: "writer \<Rightarrow> string \<Rightarrow> byte list \<Rightarrow> uotError option \<times> writer" where
  "WriteDatagram w addr payload =
     (case EncodeAddress addr of
        Inl e \<Rightarrow> (Some (EncodeAddressErr e), w)
      | Inr addrBuf \<Rightarrow>
          if addrBuf = [] \<or> length addrBuf > maxUoTPayload then (Some (AddressTooLong (length addrBuf)), w)
          else if length payload > maxUoTPayload then (Some (PayloadTooLarge (length payload)), w)
          else
            let header = putUint16 (word_of_nat (length addrBuf)) @ putUint16 (word_of_nat (length payload))
            in case writeAllChunks w [header, addrBuf, payload] of
                (Some e, w') \<Rightarrow> (Some (UotIO e), w')
              | (None, w') \<Rightarrow> (None, w'))"

definition readUot :: "nat \<Rightarrow> byte list \<Rightarrow> uotError + (byte list \<times> byte list)" where
  "readUot n s = mapErr UotIO (readFull n s)"

definition readDatagramHeaderAndAddress :: "byte list \<Rightarrow> uotError + (string \<times> nat \<times> byte list)" where
  "readDatagramHeaderAndAddress r =
     bindE (readUot 4 r) (\<lambda>(header, r).
       let addrLen = unat (bigEndianUint16 header);
           payloadLen = unat (bigEndianUint16 (drop 2 header)) in
       if addrLen = 0 \<or> addrLen > maxUoTPayload then Inl (InvalidAddressLength addrLen)
       else if payloadLen > maxUoTPayload then Inl (InvalidPayloadLength payloadLen)
       else bindE (readUot addrLen r) (\<lambda>(addrBuf, r).
       bindE (mapErr DecodeAddressErr (DecodeAddress addrBuf)) (\<lambda>(addr, _).
         Inr (addr, payloadLen, r))))"

definition ReadDatagram :: "byte list \<Rightarrow> uotError + (string \<times> byte list \<times> byte list)" where
  "ReadDatagram r =
     bindE (readDatagramHeaderAndAddress r) (\<lambda>(addr, payloadLen, r).
     bindE (readUot payloadLen r) (\<lambda>(payload, r).
       Inr (addr, payload, r)))"

text \<open>netip.ParseAddrPort and the unmapped UDP address: bytes, zone and port.\<close>

definition parseDatagramUDPAddr :: "string \<Rightarrow> (byte list \<times> string \<times> u16) option" where
  "parseDatagramUDPAddr addr =
     (case lastIndexByte addr (CHR '':'') of
        None \<Rightarrow> None
      | Some i \<Rightarrow>
          let ip = take i addr; port = drop (i + 1) addr in
          if ip = [] \<or> port = [] then None
          else let v6 = (hd ip = CHR ''['') in
            if v6 \<and> (length ip < 2 \<or> last ip \<noteq> CHR '']'') then None
            else let ip = (if v6 then butlast (tl ip) else ip) in
              case parseUint16 port of
                None \<Rightarrow> None
              | Some p \<Rightarrow>
                  (case parseAddr ip of
                     None \<Rightarrow> None
                   | Some (bs, zone) \<Rightarrow>
                       if v6 \<and> length bs = 4 \<or> \<not> v6 \<and> length bs = 16 then None
                       else Some (case to4 bs of Some b4 \<Rightarrow> (b4, [], p) | None \<Rightarrow> (bs, zone, p))))"

definition discardBytes :: "byte list \<Rightarrow> nat \<Rightarrow> uotError + byte list" where
  "discardBytes r n =
     (if n = 0 then Inr r else if n \<le> length r then Inr (drop n r) else Inl (UotIO EOF))"

lemma readUot_length: "readUot n s = Inr (a, r) \<Longrightarrow> length s = n + length r"
  by (auto simp: readUot_def readFull_def split: if_splits)

lemma readDatagramHeader_shorter:
  "readDatagramHeaderAndAddress s = Inr (addr, n, r) \<Longrightarrow> length r < length s"
  by (auto simp: readDatagramHeaderAndAddress_def bindE_eq_Inr Let_def dest!: readUot_length
      split: if_splits sum.splits)

lemma discardBytes_length: "discardBytes r n = Inr r' \<Longrightarrow> length r' \<le> length r"
  by (auto simp: discardBytes_def split: if_splits)

text \<open>UoTPacketConn.ReadFrom with a buffer of plen bytes: datagrams whose address is not an
  IP address and a port are dropped.\<close>

function ReadFrom :: "nat \<Rightarrow> byte list \<Rightarrow> uotError + (byte list \<times> (byte list \<times> string \<times> u16) \<times> byte list)" where
  "ReadFrom plen r =
     (case readDatagramHeaderAndAddress r of
        Inl e \<Rightarrow> Inl e
      | Inr (addrStr, payloadLen, r1) \<Rightarrow>
          if payloadLen > plen then
            (case discardBytes r1 payloadLen of Inl e \<Rightarrow> Inl e | Inr r2 \<Rightarrow> Inl ErrShortBuffer)
          else
            (case parseDatagramUDPAddr addrStr of
               None \<Rightarrow>
                 (case discardBytes r1 payloadLen of Inl e \<Rightarrow> Inl e | Inr r2 \<Rightarrow> ReadFrom plen r2)
             | Some udp \<Rightarrow> bindE (readUot payloadLen r1) (\<lambda>(p, r2). Inr (p, udp, r2))))"
  by pat_completeness auto
termination
  by (relation "measure (\<lambda>(plen, r). length r)")
    (auto dest!: readDatagramHeader_shorter discardBytes_length)

declare ReadFrom.simps [simp del]

definition WriteTo :: "writer \<Rightarrow> byte list \<Rightarrow> string option \<Rightarrow> (uotError + nat) \<times> writer" where
  "WriteTo w p addr =
     (case addr of
        None \<Rightarrow> (Inl NilAddress, w)
      | Some a \<Rightarrow>
          (case WriteDatagram w a p of
             (Some e, w') \<Rightarrow> (Inl e, w')
           | (None, w') \<Rightarrow> (Inr (length p), w')))"

section \<open>Round trips\<close>

text \<open>The address the peer gets: without its zone, an IP address in canonical form.\<close>

definition canonicalAddr :: "string \<Rightarrow> string" where
  "canonicalAddr rawAddr =
     (case SplitHostPort rawAddr of
        Inl _ \<Rightarrow> []
      | Inr (host, portStr) \<Rightarrow>
          JoinHostPort (case parseIP (stripZone host) of Some ip \<Rightarrow> ipString ip | None \<Rightarrow> stripZone host)
            (case parseUint16 portStr of None \<Rightarrow> [] | Some p \<Rightarrow> itoa (unat p)))"

lemma readAddr_append [simp]: "length xs = n \<Longrightarrow> readAddr n (xs @ ys) = Inr (xs, ys)"
  by (simp add: readAddr_def)

lemma readAddr_Cons [simp]: "readAddr 1 (x # ys) = Inr ([x], ys)" "readAddr (Suc 0) (x # ys) = Inr ([x], ys)"
  using readAddr_append [of "[x]" 1 ys] by simp_all

lemma portString_putUint16 [simp]: "portString (putUint16 p) = itoa (unat p)"
  by (simp add: portString_def)

lemma ipString_to4: "to4 ip = Some ip4 \<Longrightarrow> ipString ip4 = ipString ip"
  using length_to4 [of ip ip4] by (simp add: ipString_def to4_def)

lemma EncodeAddress_cases:
  assumes "EncodeAddress a = Inr buf"
  obtains (v4) host ps p ip ip4 where "SplitHostPort a = Inr (host, ps)" "parseUint16 ps = Some p"
      "parseIP (stripZone host) = Some ip" "to4 ip = Some ip4" "buf = 0x01 # ip4 @ putUint16 p"
    | (v6) host ps p ip where "SplitHostPort a = Inr (host, ps)" "parseUint16 ps = Some p"
      "parseIP (stripZone host) = Some ip" "to4 ip = None" "buf = 0x04 # ip @ putUint16 p"
    | (domain) host ps p where "SplitHostPort a = Inr (host, ps)" "parseUint16 ps = Some p"
      "parseIP (stripZone host) = None" "length (stripZone host) \<le> 255"
      "buf = 0x03 # word_of_nat (length (stripZone host)) # stringBytes (stripZone host) @ putUint16 p"
proof -
  obtain host ps where split: "SplitHostPort a = Inr (host, ps)"
    using assms by (auto simp: EncodeAddress_def bindE_eq_Inr)
  then obtain p where port: "parseUint16 ps = Some p"
    using assms by (cases "parseUint16 ps") (auto simp: EncodeAddress_def)
  show thesis
  proof (cases "parseIP (stripZone host)")
    case None
    then show ?thesis using assms split port domain
      by (auto simp: EncodeAddress_def Let_def split: if_splits)
  next
    case (Some ip)
    then show ?thesis using assms split port v4 v6
      by (cases "to4 ip") (auto simp: EncodeAddress_def Let_def)
  qed
qed

lemma DecodeAddress_Encode:
  assumes "EncodeAddress a = Inr buf"
  shows "DecodeAddress (buf @ rest) = Inr (canonicalAddr a, rest)"
  using assms
proof (cases rule: EncodeAddress_cases)
  case v4
  then show ?thesis using length_to4 [OF v4(4)]
    by (simp add: DecodeAddress_def canonicalAddr_def ipString_to4 [OF v4(4)])
next
  case v6
  then show ?thesis using length_parseIP [OF v6(3)]
    by (simp add: DecodeAddress_def canonicalAddr_def)
next
  case (domain host ps p)
  have "unat (word_of_nat (length (stripZone host)) :: byte) = length (stripZone host)"
    using domain(4) by (simp add: unat_of_nat)
  with domain show ?thesis by (simp add: DecodeAddress_def canonicalAddr_def)
qed

lemma EncodeAddress_length:
  assumes "EncodeAddress a = Inr buf"
  shows "0 < length buf \<and> length buf \<le> 259"
  using assms
  by (cases rule: EncodeAddress_cases) (auto dest: length_to4 length_parseIP)

text \<open>The frame of a datagram.\<close>

definition datagramFrame :: "byte list \<Rightarrow> byte list \<Rightarrow> byte list" where
  "datagramFrame addrBuf payload =
     putUint16 (word_of_nat (length addrBuf)) @ putUint16 (word_of_nat (length payload)) @ addrBuf @ payload"

lemma writeAllChunks_ok:
  "wr_script w = [] \<Longrightarrow> fst (writeAllChunks w cs) = None
     \<and> wr_out (snd (writeAllChunks w cs)) = wr_out w @ concat cs \<and> wr_script (snd (writeAllChunks w cs)) = []"
  by (induction cs arbitrary: w) (simp_all add: connWrite_def)

lemma WriteDatagram_ok:
  assumes "EncodeAddress a = Inr buf" "length p \<le> maxUoTPayload" "wr_script w = []"
  shows "fst (WriteDatagram w a p) = None \<and> wr_out (snd (WriteDatagram w a p)) = wr_out w @ datagramFrame buf p"
proof -
  let ?cs = "[putUint16 (word_of_nat (length buf)) @ putUint16 (word_of_nat (length p)), buf, p]"
  obtain w' where w': "writeAllChunks w ?cs = (None, w')" "wr_out w' = wr_out w @ concat ?cs"
    using writeAllChunks_ok [OF assms(3), of ?cs] by (metis prod.collapse)
  then have "WriteDatagram w a p = (None, w')"
    using assms(1, 2) EncodeAddress_length [OF assms(1)]
    by (simp add: WriteDatagram_def Let_def maxUoTPayload_def del: writeAllChunks.simps)
  then show ?thesis using w'(2) by (simp add: datagramFrame_def)
qed

lemma unat_word16: "n < 65536 \<Longrightarrow> unat (word_of_nat n :: u16) = n"
  by (simp add: unat_of_nat)

lemma header_frame:
  assumes "EncodeAddress a = Inr buf" "length p < 65536"
  shows "readDatagramHeaderAndAddress (datagramFrame buf p @ rest) = Inr (canonicalAddr a, length p, p @ rest)"
proof -
  have len: "0 < length buf" "length buf < 65536" using EncodeAddress_length [OF assms(1)] by auto
  have "readUot 4 (datagramFrame buf p @ rest) =
      Inr (putUint16 (word_of_nat (length buf)) @ putUint16 (word_of_nat (length p)), buf @ p @ rest)"
    unfolding datagramFrame_def readUot_def
    by (simp add: readFull_def)
  moreover have "readUot (length buf) (buf @ p @ rest) = Inr (buf, p @ rest)" by (simp add: readUot_def)
  moreover have "DecodeAddress buf = Inr (canonicalAddr a, [])"
    using DecodeAddress_Encode [OF assms(1), of "[]"] by simp
  ultimately show ?thesis
    using len assms(2)
    by (simp add: readDatagramHeaderAndAddress_def Let_def unat_word16 maxUoTPayload_def)
qed

lemma ReadDatagram_frame:
  assumes "EncodeAddress a = Inr buf" "length p < 65536"
  shows "ReadDatagram (datagramFrame buf p @ rest) = Inr (canonicalAddr a, p, rest)"
  using header_frame [OF assms, of rest] by (simp add: ReadDatagram_def readUot_def)

lemma discard_payload [simp]: "discardBytes (p @ r) (length p) = Inr r"
  by (simp add: discardBytes_def)

lemma ReadFrom_frame:
  assumes "EncodeAddress a = Inr buf" "length p < 65536" "length p \<le> plen"
  shows "ReadFrom plen (datagramFrame buf p @ rest) =
    (case parseDatagramUDPAddr (canonicalAddr a) of
       None \<Rightarrow> ReadFrom plen rest
     | Some udp \<Rightarrow> Inr (p, udp, rest))"
  using assms(3) header_frame [OF assms(1, 2), of rest]
  by (subst ReadFrom.simps) (simp add: readUot_def split: option.splits)

section \<open>Properties\<close>

text \<open>Two addresses used in the witnesses.\<close>

lemma encode_domain: "EncodeAddress ''a.b:80'' = Inr [3, 3, 97, 46, 98, 0, 80]"
  by (simp add: EncodeAddress_def stripZone_def putUint16_def go_simps)

lemma encode_ipv4: "EncodeAddress ''1.2.3.4:80'' = Inr [1, 1, 2, 3, 4, 0, 80]"
  by (simp add: EncodeAddress_def stripZone_def putUint16_def go_simps)

text \<open>C32: an address that EncodeAddress accepts is decoded to its canonical form (the zone
  dropped, an IP address in its standard notation, the port in decimal), consuming exactly
  the encoded bytes; the encoding has at most 259 bytes.\<close>

theorem address_round_trip:
  assumes "EncodeAddress a = Inr buf"
  shows "DecodeAddress (buf @ rest) = Inr (canonicalAddr a, rest) \<and> length buf \<le> 259"
  using DecodeAddress_Encode [OF assms] EncodeAddress_length [OF assms] by simp

theorem address_round_trip_witness:
  "EncodeAddress ''a.b:80'' = Inr [3, 3, 97, 46, 98, 0, 80]
    \<and> DecodeAddress ([3, 3, 97, 46, 98, 0, 80] @ [7]) = Inr (canonicalAddr ''a.b:80'', [7])"
proof -
  from encode_domain address_round_trip [OF encode_domain, of "[7]"] show ?thesis by simp
qed

text \<open>UDP over TCP. A datagram of at most 65535 bytes to an encodable address is written as
  one frame, and reading the frame back gives the canonical address and the payload and
  leaves the rest of the stream.\<close>

lemma datagram_round_trip:
  assumes "EncodeAddress a = Inr buf" "length p < 65536" "wr_script w = []"
  shows "\<exists>w' frame. WriteDatagram w a p = (None, w') \<and> wr_out w' = wr_out w @ frame
    \<and> ReadDatagram (frame @ rest) = Inr (canonicalAddr a, p, rest)"
proof -
  have "length p \<le> maxUoTPayload" using assms(2) by (simp add: maxUoTPayload_def)
  from WriteDatagram_ok [OF assms(1) this assms(3)] show ?thesis
    using ReadDatagram_frame [OF assms(1, 2), of rest]
    by (intro exI [of _ "snd (WriteDatagram w a p)"] exI [of _ "datagramFrame buf p"]) (simp add: prod_eq_iff)
qed

text \<open>ReadFrom terminates and returns the first datagram of the stream whose address is an
  IP address and a port, dropping those before it, as long as the dropped ones fit the
  read buffer.\<close>

lemma ReadFrom_first_valid:
  assumes "\<forall>(a, p)\<in>set ds. \<exists>buf. EncodeAddress a = Inr buf \<and> length p < 65536 \<and> length p \<le> plen
      \<and> parseDatagramUDPAddr (canonicalAddr a) = None"
    and "EncodeAddress a = Inr buf" "length p < 65536" "length p \<le> plen"
    and "parseDatagramUDPAddr (canonicalAddr a) = Some udp"
  shows "ReadFrom plen (concat (map (\<lambda>(a, p). case EncodeAddress a of Inl _ \<Rightarrow> [] | Inr b \<Rightarrow> datagramFrame b p) ds)
      @ datagramFrame buf p @ rest) = Inr (p, udp, rest)"
  using assms(1)
proof (induction ds)
  case Nil
  then show ?case using ReadFrom_frame [OF assms(2, 3, 4)] assms(5) by simp
next
  case (Cons d ds)
  obtain a' p' where d: "d = (a', p')" by (cases d)
  with Cons.prems obtain buf' where "EncodeAddress a' = Inr buf'" "length p' < 65536" "length p' \<le> plen"
    "parseDatagramUDPAddr (canonicalAddr a') = None" by auto
  then show ?case using ReadFrom_frame [of a' buf' p' plen] Cons by (simp add: d)
qed

text \<open>A payload of exactly 65536 bytes passes WriteDatagram's size check, but the 16-bit
  length field holds 0: the receiver reads an empty datagram and takes the payload for
  the next frame.\<close>

lemma datagram_65536_truncated:
  assumes "EncodeAddress a = Inr buf" "length p = 65536" "wr_script w = []"
  shows "\<exists>w' frame. WriteDatagram w a p = (None, w') \<and> wr_out w' = wr_out w @ frame
    \<and> ReadDatagram (frame @ rest) = Inr (canonicalAddr a, [], p @ rest)"
proof -
  have max: "length p \<le> maxUoTPayload" using assms(2) by (simp add: maxUoTPayload_def)
  have "(word_of_nat (length p) :: u16) = 0" using assms(2) by (simp add: word_unat_eq_iff unat_of_nat)
  then have "datagramFrame buf p = datagramFrame buf [] @ p" by (simp add: datagramFrame_def)
  then show ?thesis
    using WriteDatagram_ok [OF assms(1) max assms(3)] ReadDatagram_frame [OF assms(1), of "[]" "p @ rest"]
    by (intro exI [of _ "snd (WriteDatagram w a p)"] exI [of _ "datagramFrame buf p"]) (simp add: prod_eq_iff)
qed

end
