(* ===== verification/Mux_Session.thy ===== *)
theory Mux_Session
  imports Mux_Stream Conn_Util Address "HOL-Library.AList"
begin

text \<open>
  The multiplex session (multiplex/session.go): many logical streams over one connection. A
  frame is a type, a stream identifier, a length and a payload. The read loop demultiplexes
  incoming frames into the streams' buffers; the streams' operations send frames.

  Streams are shared objects: the session's table, the queue of accepted streams and the
  application hold pointers to them, and a stream that has left the table can still be read.
  So the session keeps a store of stream objects, and a pointer is an index into it. The
  session pointer of a stream is the session itself here, so the nil checks on it have no
  counterpart.

  Each operation runs under its locks from start to end and is one function on the state; the
  goroutines of the code (the read loop, the keep-alive ticker, the delayed accepts and
  resets, the application's calls) interleave as steps. A goroutine started by the read loop
  is an entry of a pending list until its step runs.
\<close>

section \<open>State\<close>

definition frameOpen :: byte where "frameOpen = 0x01"
definition frameData :: byte where "frameData = 0x02"
definition frameClose :: byte where "frameClose = 0x03"
definition frameReset :: byte where "frameReset = 0x04"

definition headerSize :: nat where "headerSize = 1 + 4 + 4"
definition maxFrameSize :: nat where "maxFrameSize = 256 * 1024"
definition maxDataPayload :: nat where "maxDataPayload = 128 * 1024"
definition keepaliveInterval :: int where "keepaliveInterval = 15 * 1000000000"
definition acceptBacklog :: nat where "acceptBacklog = 256"

lemmas frame_consts = frameOpen_def frameData_def frameClose_def frameReset_def

text \<open>Comparisons with the frame limit evaluate on binary integers.\<close>

lemma maxFrameSize_less [code_unfold]: "maxFrameSize < n \<longleftrightarrow> 262144 < int n"
  by (auto simp: maxFrameSize_def)

record acceptEvent =
  ev_stream :: nat
  ev_payload :: "byte list"

record Session =
  ss_writer :: writer
  ss_source :: source
  ss_store :: "stream list"
  ss_streams :: "(u32 \<times> nat) list"
  ss_nextID :: u32
  ss_acceptCh :: "acceptEvent list option"
  ss_closed :: bool
  ss_closeErr :: "ioerr option"
  ss_connClosed :: bool
  ss_lastWrite :: int
  ss_now :: int
  ss_accepting :: "acceptEvent list"
  ss_resetting :: "(u32 \<times> string) list"

definition NewClientSession :: "writer \<Rightarrow> source \<Rightarrow> int \<Rightarrow> Session" where
  "NewClientSession w src now =
     \<lparr>ss_writer = w, ss_source = src, ss_store = [], ss_streams = [], ss_nextID = 0, ss_acceptCh = None,
      ss_closed = False, ss_closeErr = None, ss_connClosed = False, ss_lastWrite = now, ss_now = now,
      ss_accepting = [], ss_resetting = []\<rparr>"

definition NewServerSession :: "writer \<Rightarrow> source \<Rightarrow> int \<Rightarrow> Session" where
  "NewServerSession w src now =
     \<lparr>ss_writer = w, ss_source = src, ss_store = [], ss_streams = [], ss_nextID = 0, ss_acceptCh = Some [],
      ss_closed = False, ss_closeErr = None, ss_connClosed = False, ss_lastWrite = now, ss_now = now,
      ss_accepting = [], ss_resetting = []\<rparr>"

section \<open>The stream table and closing\<close>

text \<open>An operation on the stream object at an address.\<close>

definition onStream :: "nat \<Rightarrow> (stream \<Rightarrow> stream) \<Rightarrow> Session \<Rightarrow> Session" where
  "onStream a f s = (if a < length (ss_store s) then s\<lparr>ss_store := (ss_store s)[a := f (ss_store s ! a)]\<rparr> else s)"

definition sessionClosedErr :: "Session \<Rightarrow> ioerr" where
  "sessionClosedErr s = (case ss_closeErr s of None \<Rightarrow> ErrClosedPipe | Some e \<Rightarrow> e)"

definition closeWithError :: "Session \<Rightarrow> ioerr option \<Rightarrow> Session" where
  "closeWithError s err =
     (let err = (case err of None \<Rightarrow> ErrClosedPipe | Some e \<Rightarrow> e) in
      if ss_closed s then s
      else
        let streams = map snd (ss_streams s);
            s = s\<lparr>ss_closeErr := (case ss_closeErr s of None \<Rightarrow> Some err | Some e \<Rightarrow> Some e), ss_streams := []\<rparr>;
            s = fold (\<lambda>a. onStream a (\<lambda>st. closeNoSend st (Some err))) streams s
        in s\<lparr>ss_closed := True, ss_connClosed := True\<rparr>)"

definition sessionClose :: "Session \<Rightarrow> Session" where
  "sessionClose s = closeWithError s (Some ErrClosedPipe)"

definition registerStream :: "u32 \<Rightarrow> nat \<Rightarrow> Session \<Rightarrow> Session" where
  "registerStream i a s = s\<lparr>ss_streams := AList.update i a (ss_streams s)\<rparr>"

definition getStream :: "Session \<Rightarrow> u32 \<Rightarrow> nat option" where
  "getStream s i = map_of (ss_streams s) i"

definition removeStream :: "u32 \<Rightarrow> Session \<Rightarrow> Session" where
  "removeStream i s = s\<lparr>ss_streams := AList.delete i (ss_streams s)\<rparr>"

definition nextStreamID :: "Session \<Rightarrow> u32 \<times> Session" where
  "nextStreamID s =
     (let i = ss_nextID s + 1; i = (if i = 0 then i + 1 else i) in (i, s\<lparr>ss_nextID := i\<rparr>))"

text \<open>newStream allocates the object at the next address of the store.\<close>

definition allocStream :: "u32 \<Rightarrow> Session \<Rightarrow> nat \<times> Session" where
  "allocStream i s = (length (ss_store s), s\<lparr>ss_store := ss_store s @ [newStream i]\<rparr>)"

section \<open>Sending\<close>

definition sendFrame :: "Session \<Rightarrow> byte \<Rightarrow> u32 \<Rightarrow> byte list \<Rightarrow> ioerr option \<times> Session" where
  "sendFrame s frameType streamID payload =
     (if ss_closed s then (Some (sessionClosedErr s), s)
      else if length payload > maxFrameSize then (Some (ErrIO (''mux payload too large: '' @ itoa (length payload))), s)
      else
        let header = frameType # putUint32 streamID @ putUint32 (word_of_nat (length payload)) in
        case writeAllChunks (ss_writer s) [header, payload] of
          (Some e, w) \<Rightarrow> (Some e, closeWithError (s\<lparr>ss_writer := w\<rparr>) (Some e))
        | (None, w) \<Rightarrow> (None, s\<lparr>ss_writer := w, ss_lastWrite := ss_now s\<rparr>))"

definition sendReset :: "Session \<Rightarrow> u32 \<Rightarrow> string \<Rightarrow> Session" where
  "sendReset s streamID msg =
     (let msg = (if msg = '''' then ''reset'' else msg);
          s = snd (sendFrame s frameReset streamID (stringBytes msg))
      in snd (sendFrame s frameClose streamID []))"

text \<open>One tick of the keep-alive goroutine.\<close>

definition keepaliveTick :: "int \<Rightarrow> Session \<Rightarrow> Session" where
  "keepaliveTick interval s =
     (if ss_closed s then s
      else if ss_now s - ss_lastWrite s < interval then s
      else snd (sendFrame s frameData 0 []))"

datatype muxError = MuxIO ioerr | MuxOpenFailed ioerr | AcceptNotSupported

definition OpenStream :: "Session \<Rightarrow> byte list \<Rightarrow> (muxError + nat) \<times> Session" where
  "OpenStream s openPayload =
     (if ss_closed s then (Inl (MuxIO (sessionClosedErr s)), s)
      else
        let (streamID, s) = nextStreamID s;
            (st, s) = allocStream streamID s;
            s = registerStream streamID st s
        in case sendFrame s frameOpen streamID openPayload of
             (Some e, s) \<Rightarrow> (Inl (MuxOpenFailed e), removeStream streamID (onStream st (\<lambda>c. closeNoSend c (Some e)) s))
           | (None, s) \<Rightarrow> (Inr st, s))"

text \<open>AcceptStream selects between a queued event and the session's end: when both are ready
  the run-time picks one, which is the argument preferEvent; None is a blocked call.\<close>

definition AcceptStream :: "bool \<Rightarrow> Session \<Rightarrow> ((muxError + acceptEvent) \<times> Session) option" where
  "AcceptStream preferEvent s =
     (case ss_acceptCh s of
        None \<Rightarrow> Some (Inl AcceptNotSupported, s)
      | Some [] \<Rightarrow> if ss_closed s then Some (Inl (MuxIO (sessionClosedErr s)), s) else None
      | Some (ev # evs) \<Rightarrow>
          if ss_closed s \<and> \<not> preferEvent then Some (Inl (MuxIO (sessionClosedErr s)), s)
          else Some (Inr ev, s\<lparr>ss_acceptCh := Some evs\<rparr>))"

section \<open>The read loop\<close>

definition asciiSpace :: "byte \<Rightarrow> bool" where
  "asciiSpace c \<longleftrightarrow> c = 32 \<or> c = 10 \<or> c = 13 \<or> c = 9"

definition trimASCII :: "byte list \<Rightarrow> string" where
  "trimASCII b = bytesString (rev (dropWhile asciiSpace (rev (dropWhile asciiSpace b))))"

text \<open>Read on the session's connection; after the connection's Close it fails. ReadFull turns
  an EOF inside a header or payload into io.ErrUnexpectedEOF.\<close>

definition sessionRead :: "Session \<Rightarrow> nat \<Rightarrow> ((ioerr + byte list) \<times> Session) option" where
  "sessionRead s k =
     (if ss_connClosed s then Some (Inl NetErrClosed, s)
      else (case connRead (ss_source s) k of
          (b, Some e, src) \<Rightarrow> Some (Inl e, s\<lparr>ss_source := src\<rparr>)
        | (b, None, src) \<Rightarrow> Some (Inr b, s\<lparr>ss_source := src\<rparr>)))"

definition muxShortRead :: "ioerr \<Rightarrow> ioerr" where
  "muxShortRead e = (if e = EOF then ErrUnexpectedEOF else e)"

definition sessionReadFull :: "Session \<Rightarrow> nat \<Rightarrow> ((ioerr + byte list) \<times> Session) option" where
  "sessionReadFull s n = streamReadFull sessionRead muxShortRead s n []"

text \<open>The frame read by one iteration: Inl is the error the session is closed with.\<close>

definition readFrame :: "Session \<Rightarrow> ((ioerr + byte \<times> u32 \<times> byte list) \<times> Session) option" where
  "readFrame s =
     do { (res, s) \<leftarrow> sessionReadFull s headerSize;
          (case res of
             Inl e \<Rightarrow> Some (Inl e, s)
           | Inr header \<Rightarrow>
               let frameType = hd header;
                   streamID = bigEndianUint32 (drop 1 header);
                   n = unat (bigEndianUint32 (drop 5 header)) in
               if n > maxFrameSize then Some (Inl (ErrIO (''invalid mux frame length: '' @ itoa n)), s)
               else if n = 0 then Some (Inr (frameType, streamID, []), s)
               else do { (res, s) \<leftarrow> sessionReadFull s n;
                         (case res of
                            Inl e \<Rightarrow> Some (Inl e, s)
                          | Inr payload \<Rightarrow> Some (Inr (frameType, streamID, payload), s)) }) }"

text \<open>The switch on the frame's type; the result says whether the loop goes on.\<close>

definition handleOpen :: "u32 \<Rightarrow> byte list \<Rightarrow> Session \<Rightarrow> Session" where
  "handleOpen streamID payload s =
     (if ss_acceptCh s = None then sendReset s streamID ''unexpected open''
      else if streamID = 0 then sendReset s streamID ''invalid stream id''
      else if getStream s streamID \<noteq> None then sendReset s streamID ''stream already exists''
      else let (st, s) = allocStream streamID s; s = registerStream streamID st s
           in s\<lparr>ss_accepting := ss_accepting s @ [\<lparr>ev_stream = st, ev_payload = payload\<rparr>]\<rparr>)"

definition handleData :: "u32 \<Rightarrow> byte list \<Rightarrow> Session \<Rightarrow> Session" where
  "handleData streamID payload s =
     (case getStream s streamID of
        None \<Rightarrow> s
      | Some a \<Rightarrow>
          if payload = [] then s
          else (case enqueue (ss_store s ! a) payload of
              (None, c) \<Rightarrow> onStream a (\<lambda>_. c) s
            | (Some e, c) \<Rightarrow>
                let s = removeStream streamID (onStream a (\<lambda>_. closeNoSend c (Some e)) s)
                in s\<lparr>ss_resetting := ss_resetting s @ [(streamID, ''mux receive queue full'')]\<rparr>))"

definition handleClose :: "u32 \<Rightarrow> Session \<Rightarrow> Session" where
  "handleClose streamID s =
     (case getStream s streamID of
        None \<Rightarrow> s
      | Some a \<Rightarrow>
          let (remove, c) = closeRemoteWrite (ss_store s ! a); s = onStream a (\<lambda>_. c) s
          in if remove then removeStream streamID s else s)"

definition handleReset :: "u32 \<Rightarrow> byte list \<Rightarrow> Session \<Rightarrow> Session" where
  "handleReset streamID payload s =
     (case getStream s streamID of
        None \<Rightarrow> s
      | Some a \<Rightarrow>
          let msg = trimASCII payload; msg = (if msg = '''' then ''reset'' else msg)
          in removeStream streamID (onStream a (\<lambda>c. closeNoSend c (Some (ErrIO msg))) s))"

definition handleFrame :: "byte \<times> u32 \<times> byte list \<Rightarrow> Session \<Rightarrow> bool \<times> Session" where
  "handleFrame f s =
     (case f of (frameType, streamID, payload) \<Rightarrow>
       if frameType = frameOpen then (True, handleOpen streamID payload s)
       else if frameType = frameData then (True, handleData streamID payload s)
       else if frameType = frameClose then (True, handleClose streamID s)
       else if frameType = frameReset then (True, handleReset streamID payload s)
       else (False, closeWithError s (Some (ErrIO (''unknown mux frame type: '' @ itoa (unat frameType))))))"

definition readLoopStep :: "Session \<Rightarrow> (bool \<times> Session) option" where
  "readLoopStep s =
     do { (res, s) \<leftarrow> readFrame s;
          (case res of
             Inl e \<Rightarrow> Some (False, closeWithError s (Some e))
           | Inr f \<Rightarrow> Some (handleFrame f s)) }"

partial_function (option) readLoop :: "Session \<Rightarrow> Session option" where
  "readLoop s =
     do { (go, s) \<leftarrow> readLoopStep s; if go then readLoop s else Some s }"

declare readLoop.simps [code]

text \<open>The goroutines the read loop starts: the delayed accept (a send to the channel, which has
  room for 256 events, or the session's end; the argument picks when both are ready) and the
  delayed reset.\<close>

definition runAccept :: "bool \<Rightarrow> nat \<Rightarrow> Session \<Rightarrow> Session option" where
  "runAccept preferSend i s =
     (if i < length (ss_accepting s) then
        let ev = ss_accepting s ! i;
            rest = take i (ss_accepting s) @ drop (Suc i) (ss_accepting s) in
        (case ss_acceptCh s of
           None \<Rightarrow> None
         | Some evs \<Rightarrow>
             if length evs < acceptBacklog \<and> (preferSend \<or> \<not> ss_closed s)
             then Some (s\<lparr>ss_acceptCh := Some (evs @ [ev]), ss_accepting := rest\<rparr>)
             else if ss_closed s
             then Some (removeStream (st_id (ss_store s ! ev_stream ev))
                   (onStream (ev_stream ev) (\<lambda>c. closeNoSend c (Some ErrClosedPipe)) (s\<lparr>ss_accepting := rest\<rparr>)))
             else None)
      else None)"

definition runReset :: "nat \<Rightarrow> Session \<Rightarrow> Session" where
  "runReset i s =
     (if i < length (ss_resetting s) then
        (case ss_resetting s ! i of (streamID, msg) \<Rightarrow>
           sendReset (s\<lparr>ss_resetting := take i (ss_resetting s) @ drop (Suc i) (ss_resetting s)\<rparr>) streamID msg)
      else s)"

section \<open>The operations of a stream that reach the session\<close>

definition muxRead :: "nat \<Rightarrow> nat \<Rightarrow> Session \<Rightarrow> ((ioerr + byte list) \<times> Session) option" where
  "muxRead a k s = do { (res, c) \<leftarrow> streamRead (ss_store s ! a) k; Some (res, onStream a (\<lambda>_. c) s) }"

function writeFrames :: "u32 \<Rightarrow> byte list \<Rightarrow> nat \<Rightarrow> Session \<Rightarrow> nat \<times> ioerr option \<times> Session" where
  "writeFrames i p written s =
     (if p = [] then (written, None, s)
      else let chunk = take maxDataPayload p in
        case sendFrame s frameData i chunk of
          (Some e, s) \<Rightarrow> (written, Some e, s)
        | (None, s) \<Rightarrow> writeFrames i (drop (length chunk) p) (written + length chunk) s)"
  by pat_completeness auto
termination
  by (relation "measure (\<lambda>(i, p, written, s). length p)") (auto simp: maxDataPayload_def)

declare writeFrames.simps [simp del]

definition muxWrite :: "nat \<Rightarrow> byte list \<Rightarrow> Session \<Rightarrow> nat \<times> ioerr option \<times> Session" where
  "muxWrite a p s =
     (let c = ss_store s ! a in
      if p = [] then (0, None, s)
      else if ss_closed s then (0, Some (sessionClosedErr s), s)
      else if st_closed c then (0, Some (closedErrLocked c), s)
      else if st_localWriteClosed c then (0, Some ErrClosedPipe, s)
      else writeFrames (st_id c) p 0 s)"

definition muxClose :: "nat \<Rightarrow> Session \<Rightarrow> Session" where
  "muxClose a s =
     (case closeLocal (ss_store s ! a) of (wasOpen, sendClose, c) \<Rightarrow>
        let s = onStream a (\<lambda>_. c) s in
        if wasOpen then
          removeStream (st_id c) (if sendClose then snd (sendFrame s frameClose (st_id c) []) else s)
        else s)"

definition muxCloseWrite :: "nat \<Rightarrow> Session \<Rightarrow> ioerr option \<times> Session" where
  "muxCloseWrite a s =
     (case closeWriteLocal (ss_store s ! a) of (doIt, remove, c) \<Rightarrow>
        let s = onStream a (\<lambda>_. c) s in
        if doIt then
          (case sendFrame s frameClose (st_id c) [] of
             (err, s) \<Rightarrow> (err, if remove then removeStream (st_id c) s else s))
        else (None, s))"

definition muxCloseRead :: "nat \<Rightarrow> Session \<Rightarrow> Session" where
  "muxCloseRead a s =
     (case closeReadLocal (ss_store s ! a) of (doIt, remove, c) \<Rightarrow>
        let s = onStream a (\<lambda>_. c) s in if remove then removeStream (st_id c) s else s)"

section \<open>Steps\<close>

text \<open>One step of a session: an iteration of the read loop, a goroutine, a call of the
  application on a stream it holds, the clock, or bytes and errors arriving from the peer.\<close>

inductive muxStep :: "Session \<Rightarrow> Session \<Rightarrow> bool" where
  recv: "readLoopStep s = Some (go, s') \<Longrightarrow> muxStep s s'"
| opened: "OpenStream s p = (res, s') \<Longrightarrow> muxStep s s'"
| accepted: "AcceptStream pref s = Some (res, s') \<Longrightarrow> muxStep s s'"
| accept_run: "runAccept pref i s = Some s' \<Longrightarrow> muxStep s s'"
| reset_run: "muxStep s (runReset i s)"
| keepalive: "muxStep s (keepaliveTick keepaliveInterval s)"
| stream_read: "a < length (ss_store s) \<Longrightarrow> muxRead a k s = Some (res, s') \<Longrightarrow> muxStep s s'"
| stream_write: "a < length (ss_store s) \<Longrightarrow> muxWrite a p s = (n, err, s') \<Longrightarrow> muxStep s s'"
| stream_close: "a < length (ss_store s) \<Longrightarrow> muxStep s (muxClose a s)"
| stream_closeWrite: "a < length (ss_store s) \<Longrightarrow> muxCloseWrite a s = (err, s') \<Longrightarrow> muxStep s s'"
| stream_closeRead: "a < length (ss_store s) \<Longrightarrow> muxStep s (muxCloseRead a s)"
| close: "muxStep s (sessionClose s)"
| clock: "muxStep s (s\<lparr>ss_now := t\<rparr>)"
| network: "muxStep s (s\<lparr>ss_source := src\<rparr>)"

text \<open>The states a session reaches, and those it reaches while no two of its streams have had
  the same identifier.\<close>

inductive muxReachable :: "Session \<Rightarrow> bool" where
  client: "muxReachable (NewClientSession w src now)"
| server: "muxReachable (NewServerSession w src now)"
| step: "muxReachable s \<Longrightarrow> muxStep s s' \<Longrightarrow> muxReachable s'"

inductive muxReachableFresh :: "Session \<Rightarrow> bool" where
  client_fresh: "muxReachableFresh (NewClientSession w src now)"
| server_fresh: "muxReachableFresh (NewServerSession w src now)"
| step_fresh: "muxReachableFresh s \<Longrightarrow> muxStep s s' \<Longrightarrow> distinct (map st_id (ss_store s')) \<Longrightarrow> muxReachableFresh s'"


section \<open>The invariant of a session\<close>

text \<open>Every stream object is well-formed; the table maps each identifier to an object with that
  identifier; a closed session has an empty table and a closed connection; the events refer to objects; the backlog
  is bounded.\<close>

definition acceptInv :: "acceptEvent list option \<Rightarrow> acceptEvent list \<Rightarrow> nat \<Rightarrow> bool" where
  "acceptInv ch accepting n \<longleftrightarrow> (\<forall>ev\<in>set accepting. ev_stream ev < n)
     \<and> (case ch of None \<Rightarrow> accepting = [] | Some evs \<Rightarrow> length evs \<le> acceptBacklog \<and> (\<forall>ev\<in>set evs. ev_stream ev < n))"

lemma acceptInv_mono: "acceptInv ch accepting n \<Longrightarrow> n \<le> m \<Longrightarrow> acceptInv ch accepting m"
  by (fastforce simp: acceptInv_def split: option.splits)

definition muxInv :: "Session \<Rightarrow> bool" where
  "muxInv s \<longleftrightarrow> (\<forall>c\<in>set (ss_store s). streamInv c)
     \<and> (\<forall>i a. getStream s i = Some a \<longrightarrow> i \<noteq> 0 \<and> a < length (ss_store s) \<and> st_id (ss_store s ! a) = i)
     \<and> (ss_closed s \<longrightarrow> ss_streams s = []) \<and> ss_connClosed s = ss_closed s
     \<and> acceptInv (ss_acceptCh s) (ss_accepting s) (length (ss_store s))"

text \<open>A stream that has not ended for its reader is in the table.\<close>

definition noOrphan :: "Session \<Rightarrow> bool" where
  "noOrphan s \<longleftrightarrow> (\<forall>a < length (ss_store s). ended (ss_store s ! a) \<or> getStream s (st_id (ss_store s ! a)) = Some a)"

definition grows :: "stream list \<Rightarrow> stream list \<Rightarrow> bool" where
  "grows xs ys \<longleftrightarrow> length xs \<le> length ys
     \<and> (\<forall>a < length xs. st_id (ys ! a) = st_id (xs ! a) \<and> (ended (xs ! a) \<longrightarrow> ended (ys ! a)))"

text \<open>What each operation keeps: the invariant, the objects with their identifiers and ends,
  and, while the identifiers are distinct, that no open stream is outside the table.\<close>

definition keeps :: "Session \<Rightarrow> Session \<Rightarrow> bool" where
  "keeps s s' \<longleftrightarrow> (muxInv s \<longrightarrow> muxInv s' \<and> grows (ss_store s) (ss_store s')
     \<and> (distinct (map st_id (ss_store s')) \<and> noOrphan s \<longrightarrow> noOrphan s'))"

lemma grows_refl [simp]: "grows xs xs"
  by (simp add: grows_def)

lemma grows_trans: "grows xs ys \<Longrightarrow> grows ys zs \<Longrightarrow> grows xs zs"
  by (auto simp: grows_def)

lemma grows_distinct:
  assumes "grows xs ys" "distinct (map st_id ys)"
  shows "distinct (map st_id xs)"
proof -
  have "map st_id xs = map st_id (take (length xs) ys)"
    using assms(1) by (auto simp: grows_def intro: nth_equalityI)
  then show ?thesis using assms(2) by (metis distinct_take take_map)
qed

lemma keeps_refl [simp]: "keeps s s"
  by (simp add: keeps_def)

lemma keeps_trans: "keeps s t \<Longrightarrow> keeps t u \<Longrightarrow> keeps s u"
  unfolding keeps_def using grows_trans grows_distinct by blast

text \<open>Changes outside the store, the table and the queues.\<close>

lemma keeps_same:
  assumes "ss_store s' = ss_store s" "ss_streams s' = ss_streams s" "ss_closed s' = ss_closed s"
    "ss_accepting s' = ss_accepting s" "ss_acceptCh s' = ss_acceptCh s" "ss_connClosed s' = ss_connClosed s"
  shows "keeps s s'"
  using assms by (simp add: keeps_def muxInv_def noOrphan_def getStream_def)

lemma onStream_fields [simp]:
  "ss_streams (onStream a f s) = ss_streams s" "ss_connClosed (onStream a f s) = ss_connClosed s" "ss_closed (onStream a f s) = ss_closed s"
  "ss_accepting (onStream a f s) = ss_accepting s" "ss_acceptCh (onStream a f s) = ss_acceptCh s"
  "length (ss_store (onStream a f s)) = length (ss_store s)" "ss_source (onStream a f s) = ss_source s"
  "getStream (onStream a f s) i = getStream s i" "ss_writer (onStream a f s) = ss_writer s"
  by (simp_all add: onStream_def getStream_def)

lemma onStream_nth:
  "b < length (ss_store s) \<Longrightarrow> ss_store (onStream a f s) ! b = (if b = a then f (ss_store s ! b) else ss_store s ! b)"
  by (simp add: onStream_def)

lemma keeps_onStream:
  assumes "a < length (ss_store s) \<Longrightarrow> streamInv (ss_store s ! a) \<Longrightarrow> streamInv (f (ss_store s ! a))"
    and "a < length (ss_store s) \<Longrightarrow> st_id (f (ss_store s ! a)) = st_id (ss_store s ! a)"
    and "a < length (ss_store s) \<Longrightarrow> ended (ss_store s ! a) \<Longrightarrow> ended (f (ss_store s ! a))"
  shows "keeps s (onStream a f s)"
proof -
  have "muxInv (onStream a f s)" if "muxInv s"
    using that assms unfolding muxInv_def
    by (auto simp: onStream_nth all_set_conv_all_nth)
  moreover have "grows (ss_store s) (ss_store (onStream a f s))"
    using assms by (auto simp: grows_def onStream_nth)
  moreover have "noOrphan (onStream a f s)" if "noOrphan s"
    using that assms by (auto simp: noOrphan_def onStream_nth)
  ultimately show ?thesis by (simp add: keeps_def)
qed

lemma getStream_remove [simp]: "getStream (removeStream i s) j = (if j = i then None else getStream s j)"
  by (simp add: getStream_def removeStream_def AList.delete_conv')

lemma removeStream_fields [simp]:
  "ss_store (removeStream i s) = ss_store s" "ss_connClosed (removeStream i s) = ss_connClosed s" "ss_closed (removeStream i s) = ss_closed s"
  "ss_accepting (removeStream i s) = ss_accepting s" "ss_acceptCh (removeStream i s) = ss_acceptCh s"
  "ss_source (removeStream i s) = ss_source s" "ss_writer (removeStream i s) = ss_writer s"
  by (simp_all add: removeStream_def)

text \<open>Forgetting a stream that has ended.\<close>

lemma keeps_removeStream:
  assumes "a < length (ss_store s)" "st_id (ss_store s ! a) = i" "ended (ss_store s ! a)"
  shows "keeps s (removeStream i s)"
proof -
  have "muxInv (removeStream i s)" if "muxInv s"
    using that by (auto simp: muxInv_def removeStream_def[of i s] getStream_def AList.delete_conv' split: if_splits)
  moreover have "noOrphan (removeStream i s)" if no: "noOrphan s" and d: "distinct (map st_id (ss_store s))"
  proof -
    have "b = a" if "b < length (ss_store s)" "st_id (ss_store s ! b) = i" for b
      using d that assms(1, 2) by (metis length_map nth_eq_iff_index_eq nth_map)
    then show ?thesis using no assms(3) by (auto simp: noOrphan_def)
  qed
  ultimately show ?thesis by (simp add: keeps_def)
qed

lemma keeps_onStream_remove:
  assumes "a < length (ss_store s)" "streamInv (ss_store s ! a) \<Longrightarrow> streamInv (f (ss_store s ! a))"
    "st_id (f (ss_store s ! a)) = st_id (ss_store s ! a)" "ended (f (ss_store s ! a))" "st_id (ss_store s ! a) = i"
  shows "keeps s (removeStream i (onStream a f s))"
proof (rule keeps_trans)
  show "keeps s (onStream a f s)" using assms by (intro keeps_onStream) auto
  show "keeps (onStream a f s) (removeStream i (onStream a f s))"
    using assms by (intro keeps_removeStream [of a]) (auto simp: onStream_nth)
qed

text \<open>A new stream under a new or stale identifier.\<close>

lemma keeps_new:
  assumes "allocStream i s = (a, s1)" "i \<noteq> 0" "\<not> ss_closed s"
  shows "keeps s (registerStream i a s1)"
proof -
  let ?s = "registerStream i a s1"
  have a: "a = length (ss_store s)" and st: "ss_store ?s = ss_store s @ [newStream i]"
    and rest: "ss_closed ?s = ss_closed s" "ss_connClosed ?s = ss_connClosed s" "ss_accepting ?s = ss_accepting s" "ss_acceptCh ?s = ss_acceptCh s"
    using assms(1) by (auto simp: allocStream_def registerStream_def)
  have get: "getStream ?s j = (if j = i then Some a else getStream s j)" for j
    using assms(1) by (auto simp: allocStream_def registerStream_def getStream_def AList.update_conv')
  have "muxInv ?s" if inv: "muxInv s"
  proof -
    have "j \<noteq> 0 \<and> b < length (ss_store ?s) \<and> st_id (ss_store ?s ! b) = j" if "getStream ?s j = Some b" for j b
    proof (cases "j = i")
      case True
      then show ?thesis using that get a st assms(2) by (auto simp: nth_append)
    next
      case False
      then have "getStream s j = Some b" using that get by simp
      then have "j \<noteq> 0 \<and> b < length (ss_store s) \<and> st_id (ss_store s ! b) = j" using inv by (simp add: muxInv_def)
      then show ?thesis using st by (simp add: nth_append)
    qed
    then show ?thesis using inv assms(3) acceptInv_mono [of "ss_acceptCh s" "ss_accepting s" "length (ss_store s)"]
      unfolding muxInv_def rest st by auto
  qed
  moreover have "grows (ss_store s) (ss_store ?s)" unfolding st by (simp add: grows_def nth_append)
  moreover have "noOrphan ?s" if "noOrphan s" and d: "distinct (map st_id (ss_store ?s))"
  proof -
    have ne: "st_id (ss_store s ! b) \<noteq> i" if "b < length (ss_store s)" for b
      using d nth_mem [OF that] unfolding st by auto
    show ?thesis unfolding noOrphan_def st get
    proof (intro allI impI)
      fix b
      assume "b < length (ss_store s @ [newStream i])"
      then consider "b < length (ss_store s)" | "b = a" using a by fastforce
      then show "ended ((ss_store s @ [newStream i]) ! b) \<or>
          (if st_id ((ss_store s @ [newStream i]) ! b) = i then Some a else getStream s (st_id ((ss_store s @ [newStream i]) ! b))) = Some b"
        using ne \<open>noOrphan s\<close> a by cases (auto simp: noOrphan_def nth_append)
    qed
  qed
  ultimately show ?thesis by (simp add: keeps_def)
qed


text \<open>The effect of a fold of onStream on the store.\<close>

fun updAll :: "('a \<Rightarrow> 'a) \<Rightarrow> nat list \<Rightarrow> 'a list \<Rightarrow> 'a list" where
  "updAll f [] xs = xs"
| "updAll f (a # as) xs = updAll f as (if a < length xs then xs[a := f (xs ! a)] else xs)"

lemma length_updAll [simp]: "length (updAll f as xs) = length xs"
  by (induction as arbitrary: xs) auto

lemma fold_onStream: "fold (\<lambda>a. onStream a f) as s = s\<lparr>ss_store := updAll f as (ss_store s)\<rparr>"
proof (induction as arbitrary: s)
  case (Cons a as)
  show ?case by (simp add: Cons) (simp add: onStream_def)
qed simp

lemma updAll_keep: "(\<And>c. P c \<Longrightarrow> P (f c)) \<Longrightarrow> P (xs ! b) \<Longrightarrow> P (updAll f as xs ! b)"
  by (induction as arbitrary: xs) (auto simp: nth_list_update)

lemma updAll_hit:
  assumes "\<And>c. P (f c)" "b < length xs" "b \<in> set as"
  shows "P (updAll f as xs ! b)"
  using assms(2, 3)
proof (induction as arbitrary: xs)
  case (Cons a as)
  show ?case
  proof (cases "b \<in> set as")
    case True
    then show ?thesis using Cons by simp
  next
    case False
    then have "P ((if a < length xs then xs[a := f (xs ! a)] else xs) ! b)" using Cons.prems assms(1) by simp
    then show ?thesis using updAll_keep [of P f] assms(1) by simp
  qed
qed simp

text \<open>Closing the session closes every stream of its table.\<close>

lemma closeWithError_open:
  assumes "\<not> ss_closed s"
  obtains xs e where "closeWithError s err = s\<lparr>ss_store := xs, ss_closeErr := e, ss_streams := [], ss_closed := True, ss_connClosed := True\<rparr>"
    "length xs = length (ss_store s)" "\<And>a. a < length xs \<Longrightarrow> st_id (xs ! a) = st_id (ss_store s ! a)"
    "\<And>a. a < length xs \<Longrightarrow> streamInv (xs ! a) = streamInv (ss_store s ! a)"
    "\<And>a. a < length xs \<Longrightarrow> buffered (xs ! a) = buffered (ss_store s ! a)"
    "\<And>a. a < length xs \<Longrightarrow> ended (ss_store s ! a) \<or> a \<in> snd ` set (ss_streams s) \<Longrightarrow> ended (xs ! a)"
proof -
  define er where "er = (case err of None \<Rightarrow> ErrClosedPipe | Some e \<Rightarrow> e)"
  define ce where "ce = (case ss_closeErr s of None \<Rightarrow> Some er | Some e \<Rightarrow> Some e)"
  let ?f = "\<lambda>st. closeNoSend st (Some er)" and ?xs = "updAll (\<lambda>st. closeNoSend st (Some er)) (map snd (ss_streams s)) (ss_store s)"
  have "closeWithError s err = s\<lparr>ss_store := ?xs, ss_closeErr := ce, ss_streams := [], ss_closed := True, ss_connClosed := True\<rparr>"
    using assms unfolding closeWithError_def Let_def er_def [symmetric] ce_def [symmetric] by (simp add: fold_onStream)
  moreover have "st_id (?xs ! a) = st_id (ss_store s ! a)" for a
    by (rule updAll_keep [where P = "\<lambda>c. st_id c = st_id (ss_store s ! a)"]) simp_all
  moreover have "streamInv (?xs ! a) = streamInv (ss_store s ! a)" for a
    by (rule updAll_keep [where P = "\<lambda>c. streamInv c = streamInv (ss_store s ! a)"]) simp_all
  moreover have "buffered (?xs ! a) = buffered (ss_store s ! a)" for a
    by (rule updAll_keep [where P = "\<lambda>c. buffered c = buffered (ss_store s ! a)"]) simp_all
  moreover have "ended (?xs ! a)" if "a < length ?xs" "ended (ss_store s ! a) \<or> a \<in> snd ` set (ss_streams s)" for a
    using updAll_keep [of ended ?f "ss_store s" a "map snd (ss_streams s)"]
      updAll_hit [of ended ?f a "ss_store s" "map snd (ss_streams s)"] that by auto
  ultimately show ?thesis using that [of ce ?xs] by simp
qed

lemma closeWithError_closed [simp]: "ss_closed (closeWithError s err)"
  by (simp add: closeWithError_def Let_def)

lemma keeps_closeWithError [simp]: "keeps s (closeWithError s err)"
proof (cases "ss_closed s")
  case True
  then show ?thesis by (simp add: closeWithError_def)
next
  case False
  show ?thesis
  proof (rule closeWithError_open [OF False, of err])
    fix xs e
    assume s': "closeWithError s err = s\<lparr>ss_store := xs, ss_closeErr := e, ss_streams := [], ss_closed := True, ss_connClosed := True\<rparr>"
      and len: "length xs = length (ss_store s)" and ids: "\<And>a. a < length xs \<Longrightarrow> st_id (xs ! a) = st_id (ss_store s ! a)"
      and inv: "\<And>a. a < length xs \<Longrightarrow> streamInv (xs ! a) = streamInv (ss_store s ! a)"
      and fin: "\<And>a. a < length xs \<Longrightarrow> ended (ss_store s ! a) \<or> a \<in> snd ` set (ss_streams s) \<Longrightarrow> ended (xs ! a)"
    have "muxInv (closeWithError s err)" if "muxInv s"
      using that len inv unfolding s' by (auto simp: muxInv_def getStream_def all_set_conv_all_nth)
    moreover have "grows (ss_store s) (ss_store (closeWithError s err))"
      using len ids fin unfolding s' by (auto simp: grows_def)
    moreover have "noOrphan (closeWithError s err)" if "noOrphan s"
    proof -
      have "a \<in> snd ` set (ss_streams s)" if "getStream s i = Some a" for i a
        using map_of_SomeD [of "ss_streams s" i a] that by (force simp: getStream_def)
      then show ?thesis using that len ids fin unfolding s' noOrphan_def by auto
    qed
    ultimately show ?thesis by (simp add: keeps_def)
  qed
qed

lemma keeps_sendFrame [simp]: "keeps s (snd (sendFrame s t i p))"
proof -
  have "keeps s (closeWithError (s\<lparr>ss_writer := w\<rparr>) e)" for w e
    by (rule keeps_trans [OF keeps_same keeps_closeWithError]) simp_all
  moreover have "keeps s (s\<lparr>ss_writer := w, ss_lastWrite := t\<rparr>)" for w t by (rule keeps_same) simp_all
  ultimately show ?thesis by (simp add: sendFrame_def Let_def case_prod_beta split: option.split)
qed

lemma keeps_sendFrame_eq: "sendFrame s t i p = (err, s') \<Longrightarrow> keeps s s'"
  using keeps_sendFrame [of s t i p] by simp

lemma keeps_sendReset [simp]: "keeps s (sendReset s i msg)"
  by (auto simp: sendReset_def Let_def intro: keeps_trans [OF keeps_sendFrame keeps_sendFrame])

lemma keeps_writeFrames: "writeFrames i p n s = (m, err, s') \<Longrightarrow> keeps s s'"
proof (induction i p n s rule: writeFrames.induct)
  case (1 i p n s)
  show ?case
  proof (cases "p = []")
    case True
    then show ?thesis using 1(2) by (simp add: writeFrames.simps)
  next
    case False
    obtain e s1 where send: "sendFrame s frameData i (take maxDataPayload p) = (e, s1)" by (metis prod.exhaust)
    note first = keeps_sendFrame_eq [OF send]
    show ?thesis
    proof (cases e)
      case None
      then have "writeFrames i (drop (length (take maxDataPayload p)) p) (n + length (take maxDataPayload p)) s1 = (m, err, s')"
        using 1(2) False send by (simp add: writeFrames.simps [of i p])
      from 1(1) [OF False refl send [symmetric] None this] show ?thesis using first keeps_trans by blast
    next
      case (Some x)
      then show ?thesis using 1(2) False send first by (simp add: writeFrames.simps [of i p])
    qed
  qed
qed


lemma sessionRead_source: "sessionRead s k = Some (res, s') \<Longrightarrow> \<exists>src. s' = s\<lparr>ss_source := src\<rparr>"
  by (auto simp: sessionRead_def split: if_splits prod.splits option.splits intro: exI [of _ "ss_source s"])

lemma sessionReadFull_source:
  assumes "sessionReadFull s n = Some (res, s')"
  shows "\<exists>src. s' = s\<lparr>ss_source := src\<rparr>"
proof -
  fix x
  let ?f = "\<lambda>s. s\<lparr>ss_source := x\<rparr>"
  have "\<forall>c k res c'. sessionRead c k = Some (res, c') \<longrightarrow> ?f c' = ?f c" using sessionRead_source by fastforce
  then have "?f s' = ?f s"
    using mp [OF streamReadFull_frame [OF assms [unfolded sessionReadFull_def], of ?f]] by simp
  then have "s' = (?f s)\<lparr>ss_source := ss_source s'\<rparr>" by (metis (no_types, lifting) Session.surjective Session.update_convs(2))
  then show ?thesis by auto
qed

lemma readFrame_source:
  assumes "readFrame s = Some (res, s')"
  shows "\<exists>src. s' = s\<lparr>ss_source := src\<rparr>"
proof -
  from assms obtain r1 s1 where r1: "sessionReadFull s headerSize = Some (r1, s1)"
    by (auto simp: readFrame_def split: Option.bind_splits)
  from sessionReadFull_source [OF this] obtain src where s1: "s1 = s\<lparr>ss_source := src\<rparr>" by blast
  show ?thesis
  proof (cases "s' = s1")
    case True
    then show ?thesis using s1 by blast
  next
    case False
    then obtain n r2 where "sessionReadFull s1 n = Some (r2, s')"
      using assms r1 by (auto simp: readFrame_def Let_def split: sum.splits if_splits Option.bind_splits)
    from sessionReadFull_source [OF this] s1 show ?thesis by auto
  qed
qed

text \<open>The arms of the read loop.\<close>

lemma keeps_handleOpen: "\<not> ss_closed s \<Longrightarrow> keeps s (handleOpen i p s)"
proof -
  assume "\<not> ss_closed s"
  obtain a s1 where alloc: "allocStream i s = (a, s1)" by (metis prod.exhaust)
  let ?s = "registerStream i a s1"
  have "keeps s (?s\<lparr>ss_accepting := ss_accepting ?s @ [\<lparr>ev_stream = a, ev_payload = p\<rparr>]\<rparr>)"
    if "i \<noteq> 0" "ss_acceptCh s \<noteq> None"
  proof (rule keeps_trans [OF keeps_new [OF alloc that(1) \<open>\<not> ss_closed s\<close>]])
    have "a < length (ss_store ?s)" "ss_acceptCh ?s \<noteq> None"
      using alloc that(2) by (auto simp: allocStream_def registerStream_def)
    then show "keeps ?s (?s\<lparr>ss_accepting := ss_accepting ?s @ [\<lparr>ev_stream = a, ev_payload = p\<rparr>]\<rparr>)"
      by (auto simp: keeps_def muxInv_def acceptInv_def noOrphan_def getStream_def)
  qed
  then show ?thesis using alloc by (auto simp: handleOpen_def Let_def)
qed

lemma muxInv_stream:
  assumes "muxInv s" "getStream s i = Some a"
  shows "a < length (ss_store s)" "st_id (ss_store s ! a) = i" "streamInv (ss_store s ! a)"
  using assms by (auto simp: muxInv_def)

lemma keeps_if_inv: "(muxInv s \<Longrightarrow> keeps s s') \<Longrightarrow> keeps s s'"
  by (auto simp: keeps_def)

lemma keeps_handleData: "keeps s (handleData i p s)"
proof (rule keeps_if_inv, cases "getStream s i")
  case (Some a)
  assume inv: "muxInv s"
  note st = muxInv_stream [OF inv Some]
  obtain e c where enq: "enqueue (ss_store s ! a) p = (e, c)" by (metis prod.exhaust)
  show "keeps s (handleData i p s)"
  proof (cases "p = []")
    case False
    have c: "streamInv c" "ended c = ended (ss_store s ! a)" "st_id c = i" using enqueue_inv [OF st(3) False] enq st(2) by auto
    show ?thesis
    proof (cases e)
      case None
      have "keeps s (onStream a (\<lambda>_. c) s)" using c st by (intro keeps_onStream) auto
      then show ?thesis using Some False enq None by (simp add: handleData_def)
    next
      case (Some e)
      let ?s = "removeStream i (onStream a (\<lambda>_. closeNoSend c (Some e)) s)"
      have "keeps s ?s" using c st by (intro keeps_onStream_remove) auto
      moreover have "keeps ?s (?s\<lparr>ss_resetting := r\<rparr>)" for r by (rule keeps_same) simp_all
      ultimately show ?thesis using \<open>getStream s i = Some a\<close> False enq Some keeps_trans
        by (simp add: handleData_def Let_def)
    qed
  qed (simp add: handleData_def Some)
qed (simp add: handleData_def)

lemma keeps_handleClose: "keeps s (handleClose i s)"
proof (rule keeps_if_inv, cases "getStream s i")
  case (Some a)
  assume inv: "muxInv s"
  note st = muxInv_stream [OF inv Some]
  let ?c = "snd (closeRemoteWrite (ss_store s ! a))"
  have "keeps s (onStream a (\<lambda>_. ?c) s)" "keeps s (removeStream i (onStream a (\<lambda>_. ?c) s))"
    using st by (auto intro!: keeps_onStream keeps_onStream_remove)
  then show "keeps s (handleClose i s)" using Some by (simp add: handleClose_def Let_def case_prod_beta)
qed (simp add: handleClose_def)

lemma keeps_handleReset: "keeps s (handleReset i p s)"
proof (rule keeps_if_inv, cases "getStream s i")
  case (Some a)
  assume inv: "muxInv s"
  note st = muxInv_stream [OF inv Some]
  have "keeps s (removeStream i (onStream a (\<lambda>c. closeNoSend c e) s))" for e
    using st by (auto intro!: keeps_onStream_remove)
  then show "keeps s (handleReset i p s)" using Some by (simp add: handleReset_def Let_def)
qed (simp add: handleReset_def)


lemma readFrame_closed:
  assumes "ss_connClosed s"
  shows "readFrame s = Some (Inl NetErrClosed, s)"
  using assms by (simp add: readFrame_def sessionReadFull_def streamReadFull.simps sessionRead_def headerSize_def)

lemma keeps_readLoopStep:
  assumes "readLoopStep s = Some (go, s')"
  shows "keeps s s'"
proof (rule keeps_if_inv)
  assume inv: "muxInv s"
  from assms obtain res s1 where fr: "readFrame s = Some (res, s1)" by (auto simp: readLoopStep_def split: Option.bind_splits)
  from readFrame_source [OF this] obtain src where s1: "s1 = s\<lparr>ss_source := src\<rparr>" by blast
  then have first: "keeps s s1" by (auto intro: keeps_same)
  have "keeps s1 s'"
  proof (cases res)
    case (Inl e)
    then show ?thesis using assms fr by (auto simp: readLoopStep_def)
  next
    case (Inr f)
    then have "\<not> ss_closed s" using readFrame_closed [of s] fr inv by (auto simp: muxInv_def)
    then have "\<not> ss_closed s1" using s1 by simp
    then have "keeps s1 (snd (handleFrame f s1))"
      using keeps_handleOpen keeps_handleData keeps_handleClose keeps_handleReset
      by (cases f) (simp add: handleFrame_def)
    then show ?thesis using assms fr Inr by (simp add: readLoopStep_def)
  qed
  with first show "keeps s s'" by (rule keeps_trans)
qed

section \<open>Every step keeps the invariant\<close>

lemma keeps_OpenStream:
  assumes "OpenStream s p = (res, s')"
  shows "keeps s s'"
proof (cases "ss_closed s")
  case True
  then show ?thesis using assms by (simp add: OpenStream_def)
next
  case False
  obtain i s1 where id: "nextStreamID s = (i, s1)" by (metis prod.exhaust)
  obtain a s2 where alloc: "allocStream i s1 = (a, s2)" by (metis prod.exhaust)
  let ?s = "registerStream i a s2"
  obtain e s3 where send: "sendFrame ?s frameOpen i p = (e, s3)" by (metis prod.exhaust)
  have "keeps s s1" "i \<noteq> 0" "\<not> ss_closed s1" using id False
    by (auto simp: nextStreamID_def Let_def intro: keeps_same split: if_splits)
  then have new: "keeps s ?s" using keeps_new [OF alloc] keeps_trans by blast
  then have sent: "keeps s s3" using keeps_sendFrame_eq [OF send] keeps_trans by blast
  show ?thesis
  proof (cases e)
    case None
    then show ?thesis using assms False id alloc send sent by (simp add: OpenStream_def)
  next
    case (Some e)
    have a: "a < length (ss_store ?s)" "st_id (ss_store ?s ! a) = i"
      using alloc by (auto simp: allocStream_def registerStream_def)
    have "keeps s (removeStream i (onStream a (\<lambda>c. closeNoSend c (Some e)) s3))"
    proof (rule keeps_if_inv)
      assume "muxInv s"
      then have "grows (ss_store ?s) (ss_store s3)" using new keeps_sendFrame_eq [OF send] by (auto simp: keeps_def)
      then have "a < length (ss_store s3)" "st_id (ss_store s3 ! a) = i" using a by (auto simp: grows_def)
      then have "keeps s3 (removeStream i (onStream a (\<lambda>c. closeNoSend c (Some e)) s3))"
        by (intro keeps_onStream_remove) auto
      with sent show "keeps s (removeStream i (onStream a (\<lambda>c. closeNoSend c (Some e)) s3))" by (rule keeps_trans)
    qed
    then show ?thesis using assms False id alloc send Some by (simp add: OpenStream_def)
  qed
qed

text \<open>Frames sent after a stream has ended leave it ended.\<close>

lemma keeps_send_remove:
  assumes "a < length (ss_store s)" "st_id (ss_store s ! a) = i" "ended (ss_store s ! a)" "keeps s s'"
  shows "keeps s (removeStream i s')"
proof (rule keeps_if_inv)
  assume "muxInv s"
  then have "grows (ss_store s) (ss_store s')" using assms(4) by (simp add: keeps_def)
  then have "a < length (ss_store s')" "st_id (ss_store s' ! a) = i" "ended (ss_store s' ! a)"
    using assms(1-3) by (auto simp: grows_def)
  then have "keeps s' (removeStream i s')" by (rule keeps_removeStream)
  with assms(4) show "keeps s (removeStream i s')" by (rule keeps_trans)
qed

lemma keeps_muxClose:
  assumes a: "a < length (ss_store s)"
  shows "keeps s (muxClose a s)"
proof -
  obtain o' d c where cl: "closeLocal (ss_store s ! a) = (o', d, c)" by (metis prod_cases3)
  then have c: "streamInv (ss_store s ! a) \<Longrightarrow> streamInv c" "ended c" "st_id c = st_id (ss_store s ! a)"
    using closeLocal_inv [of "ss_store s ! a"] by auto
  let ?s = "onStream a (\<lambda>_. c) s"
  have first: "keeps s ?s" using c by (intro keeps_onStream) auto
  have "keeps ?s (removeStream (st_id c) s')" if "keeps ?s s'" for s'
    using a c that by (intro keeps_send_remove [of a]) (auto simp: onStream_nth)
  then have "keeps ?s (muxClose a s)" using cl by (simp add: muxClose_def Let_def)
  with first show ?thesis by (rule keeps_trans)
qed

lemma keeps_muxCloseWrite:
  assumes a: "a < length (ss_store s)" and run: "muxCloseWrite a s = (err, s')"
  shows "keeps s s'"
proof -
  obtain d r c where cl: "closeWriteLocal (ss_store s ! a) = (d, r, c)" by (metis prod_cases3)
  then have c: "streamInv c = streamInv (ss_store s ! a)" "ended c = ended (ss_store s ! a)" "st_id c = st_id (ss_store s ! a)"
    using closeWriteLocal_inv [of "ss_store s ! a"] by auto
  have rem: "r \<Longrightarrow> ended (ss_store s ! a)" using cl by (auto simp: closeWriteLocal_def ended_def split: if_splits)
  let ?s = "onStream a (\<lambda>_. c) s"
  have first: "keeps s ?s" using c by (intro keeps_onStream) auto
  obtain e s1 where send: "sendFrame ?s frameClose (st_id c) [] = (e, s1)" by (metis prod.exhaust)
  note sent = keeps_sendFrame_eq [OF send]
  have "keeps ?s (removeStream (st_id c) s1)" if r
    using a c rem [OF that] sent by (intro keeps_send_remove [of a]) (auto simp: onStream_nth)
  then have "keeps ?s s'" using run cl send sent by (auto simp: muxCloseWrite_def Let_def split: if_splits)
  with first show ?thesis by (rule keeps_trans)
qed

lemma keeps_muxCloseRead:
  assumes a: "a < length (ss_store s)"
  shows "keeps s (muxCloseRead a s)"
proof -
  obtain d r c where cl: "closeReadLocal (ss_store s ! a) = (d, r, c)" by (metis prod_cases3)
  then have c: "streamInv (ss_store s ! a) \<Longrightarrow> streamInv c" "ended c" "st_id c = st_id (ss_store s ! a)"
    using closeReadLocal_inv [of "ss_store s ! a"] by auto
  have "keeps s (onStream a (\<lambda>_. c) s)" "keeps s (removeStream (st_id c) (onStream a (\<lambda>_. c) s))"
    using a c by (auto intro!: keeps_onStream keeps_onStream_remove)
  then show ?thesis using cl by (simp add: muxCloseRead_def Let_def)
qed

lemma keeps_muxRead:
  assumes a: "a < length (ss_store s)" and run: "muxRead a k s = Some (res, s')"
  shows "keeps s s'"
proof (rule keeps_if_inv)
  assume "muxInv s"
  then have inv: "streamInv (ss_store s ! a)" using a by (simp add: muxInv_def)
  from run obtain c where rd: "streamRead (ss_store s ! a) k = Some (res, c)" and s': "s' = onStream a (\<lambda>_. c) s"
    by (auto simp: muxRead_def split: Option.bind_splits)
  show "keeps s s'" unfolding s' using streamRead_inv [OF inv rd] by (intro keeps_onStream) auto
qed

lemma keeps_muxWrite: "muxWrite a p s = (n, err, s') \<Longrightarrow> keeps s s'"
  using keeps_writeFrames by (auto simp: muxWrite_def Let_def split: if_splits)

lemma acceptInv_take:
  assumes "acceptInv (Some evs) acc n" "i < length acc" "length evs < acceptBacklog"
  shows "acceptInv (Some (evs @ [acc ! i])) (take i acc @ drop (Suc i) acc) n"
  using assms nth_mem [OF assms(2)] by (auto simp: acceptInv_def dest: in_set_takeD in_set_dropD)

lemma acceptInv_drop:
  assumes "acceptInv ch acc n" "i < length acc"
  shows "acceptInv ch (take i acc @ drop (Suc i) acc) n"
  using assms by (auto simp: acceptInv_def split: option.splits dest: in_set_takeD in_set_dropD)

lemma keeps_queues:
  assumes "ss_store s' = ss_store s" "ss_streams s' = ss_streams s" "ss_closed s' = ss_closed s" "ss_connClosed s' = ss_connClosed s"
    "acceptInv (ss_acceptCh s) (ss_accepting s) (length (ss_store s)) \<Longrightarrow> acceptInv (ss_acceptCh s') (ss_accepting s') (length (ss_store s))"
  shows "keeps s s'"
  using assms by (simp add: keeps_def muxInv_def noOrphan_def getStream_def)

lemma keeps_runAccept:
  assumes "runAccept pref i s = Some s'"
  shows "keeps s s'"
proof (rule keeps_if_inv)
  assume inv: "muxInv s"
  define ev where "ev = ss_accepting s ! i"
  define rest where "rest = take i (ss_accepting s) @ drop (Suc i) (ss_accepting s)"
  have i: "i < length (ss_accepting s)" using assms by (auto simp: runAccept_def split: if_splits)
  obtain evs where ch: "ss_acceptCh s = Some evs" using assms by (auto simp: runAccept_def Let_def split: if_splits option.splits)
  have ok: "acceptInv (Some evs) (ss_accepting s) (length (ss_store s))" using inv ch by (simp add: muxInv_def)
  let ?s = "s\<lparr>ss_accepting := rest\<rparr>"
  have "keeps s (s\<lparr>ss_acceptCh := Some (evs @ [ev]), ss_accepting := rest\<rparr>)" if "length evs < acceptBacklog"
    using acceptInv_take [OF ok i that] by (intro keeps_queues) (simp_all add: ev_def rest_def)
  moreover have "keeps s (removeStream (st_id (ss_store s ! ev_stream ev)) (onStream (ev_stream ev) (\<lambda>c. closeNoSend c (Some ErrClosedPipe)) ?s))"
  proof (rule keeps_trans)
    show "keeps s ?s" using acceptInv_drop [OF _ i] by (intro keeps_queues) (simp_all add: rest_def)
    have "ev_stream ev < length (ss_store s)" using ok nth_mem [OF i] by (auto simp: acceptInv_def ev_def)
    then show "keeps ?s (removeStream (st_id (ss_store s ! ev_stream ev)) (onStream (ev_stream ev) (\<lambda>c. closeNoSend c (Some ErrClosedPipe)) ?s))"
      by (intro keeps_onStream_remove) simp_all
  qed
  ultimately show "keeps s s'" using assms i ch unfolding runAccept_def Let_def ev_def [symmetric] rest_def [symmetric]
    by (auto split: if_splits)
qed

lemma keeps_AcceptStream:
  assumes "AcceptStream pref s = Some (res, s')"
  shows "keeps s s'"
proof -
  have "keeps s (s\<lparr>ss_acceptCh := Some evs\<rparr>)" if "ss_acceptCh s = Some (ev # evs)" for ev evs
    using that by (intro keeps_queues) (auto simp: acceptInv_def)
  then show ?thesis using assms by (auto simp: AcceptStream_def split: option.splits list.splits if_splits)
qed

lemma keeps_runReset: "keeps s (runReset i s)"
proof -
  have "keeps s (s\<lparr>ss_resetting := r\<rparr>)" for r by (rule keeps_same) simp_all
  then show ?thesis using keeps_trans [OF _ keeps_sendReset] by (auto simp: runReset_def split: prod.split)
qed

lemma keeps_step: "muxStep s s' \<Longrightarrow> keeps s s'"
proof (induction rule: muxStep.induct)
  case (keepalive s)
  then show ?case by (simp add: keepaliveTick_def)
next
  case (close s)
  then show ?case by (simp add: sessionClose_def)
next
  case (clock s t)
  then show ?case by (intro keeps_same) simp_all
next
  case (network s src)
  then show ?case by (intro keeps_same) simp_all
qed (auto intro: keeps_readLoopStep keeps_OpenStream keeps_AcceptStream keeps_runAccept keeps_runReset
    keeps_muxRead keeps_muxWrite keeps_muxClose keeps_muxCloseWrite keeps_muxCloseRead)

lemma newSession_inv [simp]:
  "muxInv (NewClientSession w src now)" "muxInv (NewServerSession w src now)"
  "noOrphan (NewClientSession w src now)" "noOrphan (NewServerSession w src now)"
  by (simp_all add: NewClientSession_def NewServerSession_def muxInv_def noOrphan_def acceptInv_def getStream_def)

lemma muxReachable_inv: "muxReachable s \<Longrightarrow> muxInv s"
  by (induction rule: muxReachable.induct) (use keeps_step in \<open>auto simp: keeps_def\<close>)

lemma muxReachableFresh_inv: "muxReachableFresh s \<Longrightarrow> muxInv s \<and> noOrphan s"
  by (induction rule: muxReachableFresh.induct) (use keeps_step in \<open>auto simp: keeps_def\<close>)

end
