(* ===== verification/Mux_Delivery.thy ===== *)
theory Mux_Delivery
  imports Mux_Session
begin

text \<open>
  What a multiplex session delivers: the read loop ends on every finite input, the frames one
  session sends are the frames the other handles, and every stream delivers exactly the bytes
  written to it, in order, however the streams interleave. The last section has the
  properties of the session and its streams.
\<close>

section \<open>The read loop ends\<close>

definition srcSize :: "source \<Rightarrow> nat" where
  "srcSize s = length (src_chunks s) + length (concat (src_chunks s))"

lemma connRead_shrinks:
  assumes "connRead s k = (b, None, s')" "0 < k"
  shows "srcSize s' < srcSize s"
  using assms by (auto simp: connRead_def srcSize_def split: list.splits if_splits)

lemma connRead_final: "connRead s k = (b, Some e, s') \<Longrightarrow> s' = s"
  by (auto simp: connRead_def split: list.splits if_splits)

lemma readFull_total:
  "\<exists>res s'. streamReadFull sessionRead muxShortRead s n acc = Some (res, s') \<and> srcSize (ss_source s') \<le> srcSize (ss_source s)
     \<and> (0 < n \<and> (\<exists>b. res = Inr b) \<longrightarrow> srcSize (ss_source s') < srcSize (ss_source s))"
proof (induction "srcSize (ss_source s)" arbitrary: s n acc rule: less_induct)
  case less
  show ?case
  proof (cases "n = 0 \<or> ss_connClosed s")
    case True
    then show ?thesis by (auto simp: streamReadFull.simps [of _ _ s] sessionRead_def)
  next
    case False
    obtain b e src where rd: "connRead (ss_source s) n = (b, e, src)" by (metis prod_cases3)
    show ?thesis
    proof (cases e)
      case None
      then have "srcSize src < srcSize (ss_source s)" using rd False connRead_shrinks by blast
      with less [of "s\<lparr>ss_source := src\<rparr>" "n - length b" "acc @ b"] show ?thesis
        using rd None False by (subst streamReadFull.simps) (auto simp: sessionRead_def)
    next
      case (Some e)
      then show ?thesis using rd False connRead_final [of "ss_source s" n b e src]
        by (subst streamReadFull.simps) (auto simp: sessionRead_def)
    qed
  qed
qed

lemma readFrame_total:
  "\<exists>res s'. readFrame s = Some (res, s') \<and> ((\<exists>f. res = Inr f) \<longrightarrow> srcSize (ss_source s') < srcSize (ss_source s))"
proof -
  obtain res s1 where r1: "sessionReadFull s headerSize = Some (res, s1)"
    "(\<exists>b. res = Inr b) \<longrightarrow> srcSize (ss_source s1) < srcSize (ss_source s)"
    using readFull_total [of s headerSize "[]"] by (auto simp: sessionReadFull_def headerSize_def)
  show ?thesis
  proof (cases res)
    case (Inl e)
    then show ?thesis using r1 by (simp add: readFrame_def)
  next
    case (Inr h)
    let ?n = "unat (bigEndianUint32 (drop 5 h))"
    obtain res2 s2 where r2: "sessionReadFull s1 ?n = Some (res2, s2)" "srcSize (ss_source s2) \<le> srcSize (ss_source s1)"
      using readFull_total [of s1 ?n "[]"] by (auto simp: sessionReadFull_def)
    show ?thesis
    proof (cases "?n > maxFrameSize \<or> ?n = 0")
      case True
      then show ?thesis using r1 Inr by (auto simp: readFrame_def)
    next
      case False
      then show ?thesis using r1 r2 Inr by (cases res2) (auto simp: readFrame_def Let_def)
    qed
  qed
qed

lemma closeWithError_source [simp]: "ss_source (closeWithError s e) = ss_source s"
  by (simp add: closeWithError_def Let_def fold_onStream)

lemma sendFrame_source [simp]: "ss_source (snd (sendFrame s t i p)) = ss_source s"
  by (simp add: sendFrame_def Let_def case_prod_beta split: option.split)

lemma sendReset_source [simp]: "ss_source (sendReset s i m) = ss_source s"
  by (simp add: sendReset_def Let_def)

lemma handleFrame_source [simp]: "ss_source (snd (handleFrame f s)) = ss_source s"
  by (simp add: handleFrame_def handleOpen_def handleData_def handleClose_def handleReset_def Let_def
      allocStream_def registerStream_def case_prod_beta split: option.split)

lemma readLoopStep_total:
  obtains go s' where "readLoopStep s = Some (go, s')" "go \<longrightarrow> srcSize (ss_source s') < srcSize (ss_source s)"
    "\<not> go \<longrightarrow> ss_closed s'"
proof -
  obtain res s1 where fr: "readFrame s = Some (res, s1)" "(\<exists>f. res = Inr f) \<longrightarrow> srcSize (ss_source s1) < srcSize (ss_source s)"
    using readFrame_total by blast
  show ?thesis
  proof (cases res)
    case (Inl e)
    then show ?thesis using that [of False "closeWithError s1 (Some e)"] fr by (simp add: readLoopStep_def)
  next
    case (Inr f)
    obtain go s' where h: "handleFrame f s1 = (go, s')" by (metis prod.exhaust)
    then have "ss_source s' = ss_source s1" using handleFrame_source [of f s1] by simp
    moreover have "ss_closed s'" if "\<not> go" using h that by (auto simp: handleFrame_def split: prod.splits if_splits)
    moreover have "srcSize (ss_source s1) < srcSize (ss_source s)" using fr(2) Inr by blast
    ultimately show ?thesis using that [of go s'] fr(1) Inr h by (simp add: readLoopStep_def)
  qed
qed

lemma readLoop_returns: "\<exists>s'. readLoop s = Some s' \<and> ss_closed s'"
proof (induction "srcSize (ss_source s)" arbitrary: s rule: less_induct)
  case less
  obtain go s' where st: "readLoopStep s = Some (go, s')" "go \<longrightarrow> srcSize (ss_source s') < srcSize (ss_source s)"
    "\<not> go \<longrightarrow> ss_closed s'" by (rule readLoopStep_total [of s])
  show ?case
  proof (cases go)
    case True
    with less [of s'] st(1, 2) show ?thesis by (subst readLoop.simps) simp
  next
    case False
    then show ?thesis using st by (subst readLoop.simps) simp
  qed
qed

section \<open>Frames on the wire\<close>

definition encodeFrame :: "byte \<times> u32 \<times> byte list \<Rightarrow> byte list" where
  "encodeFrame f = (case f of (t, i, p) \<Rightarrow> t # putUint32 i @ putUint32 (word_of_nat (length p)) @ p)"

lemma sendFrame_ok:
  assumes "\<not> ss_closed s" "wr_script (ss_writer s) = []" "length p \<le> maxFrameSize"
  obtains w where "sendFrame s t i p = (None, s\<lparr>ss_writer := w, ss_lastWrite := ss_now s\<rparr>)"
    "wr_out w = wr_out (ss_writer s) @ encodeFrame (t, i, p)" "wr_script w = []"
proof -
  let ?cs = "[t # putUint32 i @ putUint32 (word_of_nat (length p)), p]"
  obtain w where "writeAllChunks (ss_writer s) ?cs = (None, w)" "wr_out w = wr_out (ss_writer s) @ concat ?cs" "wr_script w = []"
    using writeAllChunks_ok [OF assms(2), of ?cs] by (metis prod.collapse)
  then show ?thesis using that [of w] assms by (simp add: sendFrame_def Let_def encodeFrame_def del: writeAllChunks.simps)
qed

text \<open>The connection of a session as a byte stream.\<close>

definition sessHolds :: "Session \<Rightarrow> byte list \<Rightarrow> bool" where
  "sessHolds s q \<longleftrightarrow> \<not> ss_connClosed s \<and> concat (src_chunks (ss_source s)) = q \<and> [] \<notin> set (src_chunks (ss_source s))"

interpretation sess: byte_stream sessHolds sessionRead "\<lambda>s. src_final (ss_source s)"
proof
  fix s q and k :: nat
  assume "sessHolds s q" "q \<noteq> []" "0 < k"
  then obtain c cs where c: "src_chunks (ss_source s) = c # cs" "c \<noteq> []" by (cases "src_chunks (ss_source s)") (auto simp: sessHolds_def)
  let ?src = "(ss_source s)\<lparr>src_chunks := (if length c \<le> k then cs else drop k c # cs)\<rparr>"
  have "sessionRead s k = Some (Inr (take k c), s\<lparr>ss_source := ?src\<rparr>)"
    using \<open>sessHolds s q\<close> c by (simp add: sessionRead_def connRead_def sessHolds_def)
  moreover have "q = take k c @ concat (src_chunks ?src)" "sessHolds (s\<lparr>ss_source := ?src\<rparr>) (concat (src_chunks ?src))"
    using \<open>sessHolds s q\<close> c by (auto simp: sessHolds_def simp flip: append_assoc)
  ultimately show "\<exists>o' q' s'. sessionRead s k = Some (Inr o', s') \<and> q = o' @ q' \<and> o' \<noteq> [] \<and> length o' \<le> k
      \<and> sessHolds s' q' \<and> src_final (ss_source s') = src_final (ss_source s)"
    using c(2) \<open>0 < k\<close> by (intro exI [of _ "take k c"] exI [of _ "concat (src_chunks ?src)"] exI [of _ "s\<lparr>ss_source := ?src\<rparr>"]) auto
next
  fix s and k :: nat
  assume "sessHolds s []" "0 < k"
  then have "src_chunks (ss_source s) = []" by (cases "src_chunks (ss_source s)") (auto simp: sessHolds_def)
  then show "\<exists>s'. sessionRead s k = Some (Inl (src_final (ss_source s)), s')"
    using \<open>sessHolds s []\<close> by (simp add: sessionRead_def connRead_def sessHolds_def)
qed

lemma unat_length_frame: "length p \<le> maxFrameSize \<Longrightarrow> unat (word_of_nat (length p) :: u32) = length p"
  by (simp add: unat_of_nat maxFrameSize_def)

lemma sessionReadFull_holds:
  assumes "sessHolds s (b @ rest)"
  obtains src where "sessionReadFull s (length b) = Some (Inr b, s\<lparr>ss_source := src\<rparr>)" "sessHolds (s\<lparr>ss_source := src\<rparr>) rest"
    "src_final src = src_final (ss_source s)"
proof -
  from sess.readFull_holds [OF assms, of "length b" muxShortRead "[]"] obtain s' where
    s': "sessionReadFull s (length b) = Some (Inr b, s')" "sessHolds s' rest" "src_final (ss_source s') = src_final (ss_source s)"
    by (auto simp: sessionReadFull_def)
  from sessionReadFull_source [OF s'(1)] obtain src where "s' = s\<lparr>ss_source := src\<rparr>" by blast
  then show ?thesis using that s' by simp
qed

lemma readFrame_encode:
  assumes "sessHolds s (encodeFrame (t, i, p) @ rest)" "length p \<le> maxFrameSize"
  obtains src where "readFrame s = Some (Inr (t, i, p), s\<lparr>ss_source := src\<rparr>)" "sessHolds (s\<lparr>ss_source := src\<rparr>) rest"
    "src_final src = src_final (ss_source s)"
proof -
  let ?h = "t # putUint32 i @ putUint32 (word_of_nat (length p))"
  have len: "length ?h = headerSize" by (simp add: headerSize_def)
  have "sessHolds s (?h @ (p @ rest))" using assms(1) by (simp add: encodeFrame_def)
  then obtain src1 where r1: "sessionReadFull s headerSize = Some (Inr ?h, s\<lparr>ss_source := src1\<rparr>)"
    "sessHolds (s\<lparr>ss_source := src1\<rparr>) (p @ rest)" "src_final src1 = src_final (ss_source s)"
    using sessionReadFull_holds [of s ?h "p @ rest"] len by metis
  have fields: "hd ?h = t" "bigEndianUint32 (drop 1 ?h) = i" "unat (bigEndianUint32 (drop 5 ?h)) = length p"
    using unat_length_frame [OF assms(2)] by (simp_all add: drop_Cons')
  show ?thesis
  proof (cases "p = []")
    case True
    then show ?thesis using that [of src1] r1 fields assms(2) by (simp add: readFrame_def Let_def)
  next
    case False
    from sessionReadFull_holds [OF r1(2)] obtain src2 where
      r2: "sessionReadFull (s\<lparr>ss_source := src1\<rparr>) (length p) = Some (Inr p, s\<lparr>ss_source := src2\<rparr>)"
      "sessHolds (s\<lparr>ss_source := src2\<rparr>) rest" "src_final src2 = src_final src1" by auto
    then show ?thesis using that [of src2] r1 fields assms(2) False by (simp add: readFrame_def Let_def)
  qed
qed

lemma readLoop_frame:
  assumes "sessHolds s (encodeFrame (t, i, p) @ rest)" "length p \<le> maxFrameSize"
    and "\<And>src. fst (handleFrame (t, i, p) (s\<lparr>ss_source := src\<rparr>))"
  obtains src where "readLoop s = readLoop (snd (handleFrame (t, i, p) (s\<lparr>ss_source := src\<rparr>)))"
    "sessHolds (s\<lparr>ss_source := src\<rparr>) rest" "src_final src = src_final (ss_source s)"
proof -
  from readFrame_encode [OF assms(1, 2)] obtain src where
    fr: "readFrame s = Some (Inr (t, i, p), s\<lparr>ss_source := src\<rparr>)" "sessHolds (s\<lparr>ss_source := src\<rparr>) rest"
      "src_final src = src_final (ss_source s)" .
  let ?h = "handleFrame (t, i, p) (s\<lparr>ss_source := src\<rparr>)"
  have "readLoopStep s = Some (True, snd ?h)"
    using fr(1) assms(3) [of src] by (simp add: readLoopStep_def) (metis prod.collapse)
  then have "readLoop s = readLoop (snd ?h)" by (subst readLoop.simps) simp
  then show ?thesis using that fr by blast
qed


section \<open>Interleaved writes\<close>

text \<open>What an application does on the client: it opens streams and writes to the ones it has
  opened, in any order. The run stops with None when a call fails.\<close>

datatype muxOp = DoOpen "byte list" | DoWrite nat "byte list"

fun runOps :: "muxOp list \<Rightarrow> Session \<Rightarrow> Session option" where
  "runOps [] s = Some s"
| "runOps (DoOpen p # ops) s = (case OpenStream s p of (Inr a, s) \<Rightarrow> runOps ops s | (Inl e, s) \<Rightarrow> None)"
| "runOps (DoWrite a p # ops) s = (case muxWrite a p s of (n, None, s) \<Rightarrow> runOps ops s | (n, Some e, s) \<Rightarrow> None)"

text \<open>The writes go to open streams and the open payloads fit a frame; the payloads the server
  accepts; what a stream is written.\<close>

fun opsOk :: "nat \<Rightarrow> muxOp list \<Rightarrow> bool" where
  "opsOk n [] \<longleftrightarrow> n < 2 ^ 32"
| "opsOk n (DoOpen p # ops) \<longleftrightarrow> length p \<le> maxFrameSize \<and> opsOk (n + 1) ops"
| "opsOk n (DoWrite a p # ops) \<longleftrightarrow> a < n \<and> opsOk n ops"

fun openPayloads :: "muxOp list \<Rightarrow> byte list list" where
  "openPayloads [] = []"
| "openPayloads (DoOpen p # ops) = p # openPayloads ops"
| "openPayloads (DoWrite a p # ops) = openPayloads ops"

fun writtenTo :: "nat \<Rightarrow> muxOp list \<Rightarrow> byte list" where
  "writtenTo a [] = []"
| "writtenTo a (DoOpen p # ops) = writtenTo a ops"
| "writtenTo a (DoWrite b p # ops) = (if b = a then p else []) @ writtenTo a ops"

function chunksOf :: "byte list \<Rightarrow> byte list list" where
  "chunksOf p = (if p = [] then [] else take maxDataPayload p # chunksOf (drop maxDataPayload p))"
  by pat_completeness auto
termination
  by (relation "measure length") (auto simp: maxDataPayload_def)

declare chunksOf.simps [simp del]

definition streamIDOf :: "nat \<Rightarrow> u32" where
  "streamIDOf a = word_of_nat (a + 1)"

lemma streamIDOf_unat: "a + 1 < 2 ^ 32 \<Longrightarrow> unat (streamIDOf a) = a + 1"
  unfolding streamIDOf_def by (simp only: unat_of_nat) simp

fun framesOf :: "nat \<Rightarrow> muxOp list \<Rightarrow> (byte \<times> u32 \<times> byte list) list" where
  "framesOf n [] = []"
| "framesOf n (DoOpen p # ops) = (frameOpen, streamIDOf n, p) # framesOf (n + 1) ops"
| "framesOf n (DoWrite a p # ops) = map (\<lambda>c. (frameData, streamIDOf a, c)) (chunksOf p) @ framesOf n ops"

lemma opsOk_lt: "opsOk n ops \<Longrightarrow> n < 2 ^ 32"
  by (induction n ops rule: opsOk.induct) auto

lemma concat_chunksOf [simp]: "concat (chunksOf p) = p"
proof (induction p rule: chunksOf.induct)
  case (1 p)
  show ?case
  proof (cases "p = []")
    case False
    then show ?thesis using 1 by (subst chunksOf.simps) simp
  qed (simp add: chunksOf.simps)
qed

lemma chunksOf_sizes: "c \<in> set (chunksOf p) \<Longrightarrow> c \<noteq> [] \<and> length c \<le> maxFrameSize"
proof (induction p rule: chunksOf.induct)
  case (1 p)
  show ?case
  proof (cases "p = []")
    case False
    then have "c = take maxDataPayload p \<or> c \<in> set (chunksOf (drop maxDataPayload p))"
      using 1(2) by (subst (asm) chunksOf.simps) auto
    then show ?thesis using 1(1) [OF False] False by (auto simp: maxDataPayload_def maxFrameSize_def)
  qed (use 1(2) in \<open>simp add: chunksOf.simps\<close>)
qed

text \<open>The client's side: what it sends.\<close>

definition clientAt :: "nat \<Rightarrow> Session \<Rightarrow> bool" where
  "clientAt n s \<longleftrightarrow> \<not> ss_closed s \<and> wr_script (ss_writer s) = [] \<and> length (ss_store s) = n \<and> ss_nextID s = word_of_nat n
     \<and> (\<forall>a<n. st_id (ss_store s ! a) = streamIDOf a \<and> \<not> st_closed (ss_store s ! a) \<and> \<not> st_localWriteClosed (ss_store s ! a))"

lemma writeFrames_ok:
  "\<not> ss_closed s \<Longrightarrow> wr_script (ss_writer s) = [] \<Longrightarrow>
   \<exists>w t. writeFrames i p n s = (n + length p, None, s\<lparr>ss_writer := w, ss_lastWrite := t\<rparr>) \<and> wr_script w = []
     \<and> wr_out w = wr_out (ss_writer s) @ concat (map (\<lambda>c. encodeFrame (frameData, i, c)) (chunksOf p))"
proof (induction p arbitrary: s n rule: chunksOf.induct)
  case (1 p)
  show ?case
  proof (cases "p = []")
    case True
    then show ?thesis using 1(3) by (intro exI [of _ "ss_writer s"] exI [of _ "ss_lastWrite s"]) (simp add: writeFrames.simps chunksOf.simps)
  next
    case False
    let ?c = "take maxDataPayload p"
    have "length ?c \<le> maxFrameSize" by (simp add: maxDataPayload_def maxFrameSize_def)
    from sendFrame_ok [OF 1(2, 3) this, of frameData i] obtain w where
      w: "sendFrame s frameData i ?c = (None, s\<lparr>ss_writer := w, ss_lastWrite := ss_now s\<rparr>)"
        "wr_out w = wr_out (ss_writer s) @ encodeFrame (frameData, i, ?c)" "wr_script w = []" .
    from 1(1) [OF False, of "s\<lparr>ss_writer := w, ss_lastWrite := ss_now s\<rparr>" "n + length ?c"] 1(2) w(3) obtain w' t where
      w': "writeFrames i (drop maxDataPayload p) (n + length ?c) (s\<lparr>ss_writer := w, ss_lastWrite := ss_now s\<rparr>)
            = (n + length ?c + length (drop maxDataPayload p), None, s\<lparr>ss_writer := w', ss_lastWrite := t\<rparr>)" "wr_script w' = []"
        "wr_out w' = wr_out w @ concat (map (\<lambda>c. encodeFrame (frameData, i, c)) (chunksOf (drop maxDataPayload p)))" by auto
    have "drop (length ?c) p = drop maxDataPayload p" by (cases "length p \<le> maxDataPayload") auto
    moreover have "n + length ?c + length (drop maxDataPayload p) = n + length p" by simp
    ultimately have "writeFrames i p n s = (n + length p, None, s\<lparr>ss_writer := w', ss_lastWrite := t\<rparr>)"
      using w(1) w'(1) False by (subst writeFrames.simps) (simp add: Let_def)
    moreover have "chunksOf p = ?c # chunksOf (drop maxDataPayload p)" using False by (simp add: chunksOf.simps [of p])
    ultimately show ?thesis using w w' by auto
  qed
qed

lemma clientAt_open:
  assumes "clientAt n s" "n + 1 < 2 ^ 32" "length p \<le> maxFrameSize"
  obtains s' where "OpenStream s p = (Inr n, s')" "clientAt (n + 1) s'"
    "wr_out (ss_writer s') = wr_out (ss_writer s) @ encodeFrame (frameOpen, streamIDOf n, p)"
proof -
  have id: "ss_nextID s + 1 = streamIDOf n" using assms(1) by (simp add: clientAt_def streamIDOf_def)
  have "streamIDOf n \<noteq> 0" using streamIDOf_unat [OF assms(2)] by auto
  then have nid: "nextStreamID s = (streamIDOf n, s\<lparr>ss_nextID := streamIDOf n\<rparr>)" using id by (simp add: nextStreamID_def Let_def)
  define s1 where "s1 = registerStream (streamIDOf n) n (s\<lparr>ss_nextID := streamIDOf n, ss_store := ss_store s @ [newStream (streamIDOf n)]\<rparr>)"
  have s1: "\<not> ss_closed s1" "wr_script (ss_writer s1) = []" "ss_writer s1 = ss_writer s" "ss_nextID s1 = streamIDOf n"
    "ss_store s1 = ss_store s @ [newStream (streamIDOf n)]"
    using assms(1) by (simp_all add: s1_def registerStream_def clientAt_def)
  from sendFrame_ok [OF s1(1, 2) assms(3), of frameOpen "streamIDOf n"] obtain w where
    w: "sendFrame s1 frameOpen (streamIDOf n) p = (None, s1\<lparr>ss_writer := w, ss_lastWrite := ss_now s1\<rparr>)"
      "wr_out w = wr_out (ss_writer s1) @ encodeFrame (frameOpen, streamIDOf n, p)" "wr_script w = []" .
  have "OpenStream s p = (Inr n, s1\<lparr>ss_writer := w, ss_lastWrite := ss_now s1\<rparr>)"
    using assms(1) nid w(1) by (simp add: OpenStream_def allocStream_def clientAt_def flip: s1_def)
  moreover have "clientAt (n + 1) (s1\<lparr>ss_writer := w, ss_lastWrite := ss_now s1\<rparr>)"
    using assms(1) s1 w(3) by (auto simp: clientAt_def nth_append less_Suc_eq streamIDOf_def newStream_def)
  ultimately show ?thesis using that w(2) s1(3) by simp
qed

lemma runOps_frames:
  "clientAt n s \<Longrightarrow> opsOk n ops \<Longrightarrow> \<exists>s'. runOps ops s = Some s'
     \<and> wr_out (ss_writer s') = wr_out (ss_writer s) @ concat (map encodeFrame (framesOf n ops))"
proof (induction n ops arbitrary: s rule: framesOf.induct)
  case (2 n p ops)
  then have "n + 1 < 2 ^ 32" "length p \<le> maxFrameSize" using opsOk_lt [of "n + 1" ops] by auto
  from clientAt_open [OF 2(2) this] obtain s' where "OpenStream s p = (Inr n, s')" "clientAt (n + 1) s'"
    "wr_out (ss_writer s') = wr_out (ss_writer s) @ encodeFrame (frameOpen, streamIDOf n, p)" .
  then show ?case using 2(1) [of s'] 2(3) by auto
next
  case (3 n a p ops)
  then have c: "\<not> ss_closed s" "wr_script (ss_writer s) = []" "st_id (ss_store s ! a) = streamIDOf a"
    "\<not> st_closed (ss_store s ! a)" "\<not> st_localWriteClosed (ss_store s ! a)" by (auto simp: clientAt_def)
  from writeFrames_ok [OF c(1, 2), of "streamIDOf a" p 0] obtain w t where
    w: "writeFrames (streamIDOf a) p 0 s = (length p, None, s\<lparr>ss_writer := w, ss_lastWrite := t\<rparr>)" "wr_script w = []"
      "wr_out w = wr_out (ss_writer s) @ concat (map (\<lambda>c. encodeFrame (frameData, streamIDOf a, c)) (chunksOf p))" by auto
  have at: "clientAt n (s\<lparr>ss_writer := w, ss_lastWrite := t\<rparr>)" using 3(2) w(2) by (simp add: clientAt_def)
  show ?case
  proof (cases "p = []")
    case True
    then show ?thesis using 3 by (simp add: muxWrite_def Let_def chunksOf.simps)
  next
    case False
    then have "muxWrite a p s = (length p, None, s\<lparr>ss_writer := w, ss_lastWrite := t\<rparr>)"
      using c w(1) by (simp add: muxWrite_def Let_def)
    then show ?thesis using 3(1) [OF at] 3(3) w(3) by (auto simp: o_def)
  qed
qed simp


text \<open>The server's side: the streams opened with the payloads ps, still open, hold bufs.\<close>

definition openIdle :: "stream \<Rightarrow> bool" where
  "openIdle c \<longleftrightarrow> streamInv c \<and> \<not> ended c \<and> st_closeErr c = None"

definition serveAt :: "byte list list \<Rightarrow> (nat \<Rightarrow> byte list) \<Rightarrow> Session \<Rightarrow> bool" where
  "serveAt ps bufs s \<longleftrightarrow> \<not> ss_closed s \<and> \<not> ss_connClosed s \<and> ss_acceptCh s \<noteq> None \<and> length (ss_store s) = length ps
     \<and> (\<forall>i. getStream s i = (if i \<noteq> 0 \<and> unat i \<le> length ps then Some (unat i - 1) else None))
     \<and> (\<forall>a<length ps. openIdle (ss_store s ! a) \<and> buffered (ss_store s ! a) = bufs a)
     \<and> ss_accepting s = map (\<lambda>a. \<lparr>ev_stream = a, ev_payload = ps ! a\<rparr>) [0..<length ps]"

lemma serveAt_source [simp]: "serveAt ps bufs (s\<lparr>ss_source := src\<rparr>) = serveAt ps bufs s"
  by (simp add: serveAt_def getStream_def)

lemma serve_open:
  assumes "serveAt ps bufs s" "length ps + 1 < 2 ^ 32" "bufs (length ps) = []"
  obtains s' where "handleFrame (frameOpen, streamIDOf (length ps), p) s = (True, s')" "serveAt (ps @ [p]) bufs s'"
proof -
  let ?i = "streamIDOf (length ps)"
  have u: "unat ?i = length ps + 1" using streamIDOf_unat [OF assms(2)] .
  then have "?i \<noteq> 0" by auto
  have none: "getStream s ?i = None" using assms(1) u by (simp add: serveAt_def)
  have len: "length (ss_store s) = length ps" using assms(1) by (simp add: serveAt_def)
  define s1 where "s1 = registerStream ?i (length ps) (s\<lparr>ss_store := ss_store s @ [newStream ?i]\<rparr>)"
  define s' where "s' = s1\<lparr>ss_accepting := ss_accepting s1 @ [\<lparr>ev_stream = length ps, ev_payload = p\<rparr>]\<rparr>"
  have run: "handleFrame (frameOpen, ?i, p) s = (True, s')"
    using assms(1) none len \<open>?i \<noteq> 0\<close> by (auto simp: handleFrame_def handleOpen_def allocStream_def serveAt_def Let_def s'_def s1_def)
  have get: "getStream s' j = (if j = ?i then Some (length ps) else getStream s j)" for j
    by (simp add: s'_def s1_def getStream_def registerStream_def AList.update_conv')
  have get': "getStream s' j = (if j \<noteq> 0 \<and> unat j \<le> length (ps @ [p]) then Some (unat j - 1) else None)" for j
  proof -
    have "j = ?i \<longleftrightarrow> unat j = length ps + 1" using u word_unat_eq_iff [of j ?i] by simp
    then show ?thesis using assms(1) u \<open>?i \<noteq> 0\<close> unfolding get serveAt_def by auto
  qed
  have st: "ss_store s' = ss_store s @ [newStream ?i]" "ss_closed s' = ss_closed s" "ss_acceptCh s' = ss_acceptCh s"
    "ss_connClosed s' = ss_connClosed s"
    "ss_accepting s' = ss_accepting s @ [\<lparr>ev_stream = length ps, ev_payload = p\<rparr>]"
    by (simp_all add: s'_def s1_def registerStream_def)
  have "openIdle (newStream ?i)" "buffered (newStream ?i) = []" by (simp_all add: openIdle_def) (simp add: newStream_def)
  then have "serveAt (ps @ [p]) bufs s'"
    using assms(1, 3) get' len unfolding serveAt_def st by (auto simp: nth_append less_Suc_eq)
  with run show ?thesis by (rule that)
qed

lemma serve_data:
  assumes "serveAt ps bufs s" "a < length ps" "length ps < 2 ^ 32" "c \<noteq> []"
    and "int (length (bufs a) + length c) \<le> maxQueuedBytesPerStream"
  obtains s' where "handleFrame (frameData, streamIDOf a, c) s = (True, s')" "serveAt ps (bufs(a := bufs a @ c)) s'"
proof -
  have u: "unat (streamIDOf a) = a + 1" using streamIDOf_unat [of a] assms(2, 3) by simp
  then have "streamIDOf a \<noteq> 0" by auto
  then have get: "getStream s (streamIDOf a) = Some a" using assms(1, 2) u by (simp add: serveAt_def)
  have st: "openIdle (ss_store s ! a)" "buffered (ss_store s ! a) = bufs a" "length (ss_store s) = length ps"
    using assms(1, 2) by (auto simp: serveAt_def)
  let ?d = "snd (enqueue (ss_store s ! a) c)"
  have "fst (enqueue (ss_store s ! a) c) = None \<and> buffered ?d = bufs a @ c" "streamInv ?d"
    using enqueue_open [of "ss_store s ! a" c] st(1, 2) assms(4, 5) by (auto simp: openIdle_def fifoPut_def)
  moreover have "ended ?d = ended (ss_store s ! a)" "st_closeErr ?d = st_closeErr (ss_store s ! a)"
    by (simp_all add: enqueue_def ended_def Let_def)
  ultimately have d: "fst (enqueue (ss_store s ! a) c) = None" "openIdle ?d" "buffered ?d = bufs a @ c"
    using st(1) by (auto simp: openIdle_def)
  have "handleFrame (frameData, streamIDOf a, c) s = (True, onStream a (\<lambda>_. ?d) s)"
    using get d(1) assms(4) by (simp add: handleFrame_def handleData_def frame_consts case_prod_beta)
  moreover have "serveAt ps (bufs(a := bufs a @ c)) (onStream a (\<lambda>_. ?d) s)"
    using assms(1) d(2, 3) st(3) by (auto simp: serveAt_def onStream_nth)
  ultimately show ?thesis by (rule that)
qed

text \<open>The server after the next frames: the loop goes on from a state that holds their effect.\<close>

definition continues :: "Session \<Rightarrow> byte list \<Rightarrow> byte list list \<Rightarrow> (nat \<Rightarrow> byte list) \<Rightarrow> bool" where
  "continues s rest ps bufs \<longleftrightarrow> (\<exists>s'. readLoop s = readLoop s' \<and> serveAt ps bufs s' \<and> sessHolds s' rest
     \<and> src_final (ss_source s') = src_final (ss_source s))"

lemma continues_step:
  assumes "serveAt ps bufs s" "sessHolds s (encodeFrame (t, i, p) @ rest)" "length p \<le> maxFrameSize"
    and "\<And>s. serveAt ps bufs s \<Longrightarrow> \<exists>s'. handleFrame (t, i, p) s = (True, s') \<and> serveAt ps' bufs' s'"
    and "\<And>s'. serveAt ps' bufs' s' \<Longrightarrow> sessHolds s' rest \<Longrightarrow> continues s' rest'' ps'' bufs''"
  shows "continues s rest'' ps'' bufs''"
proof -
  have "fst (handleFrame (t, i, p) (s\<lparr>ss_source := src\<rparr>))" for src
    using assms(4) [of "s\<lparr>ss_source := src\<rparr>"] assms(1) by auto
  from readLoop_frame [OF assms(2, 3) this] obtain src where
    src: "readLoop s = readLoop (snd (handleFrame (t, i, p) (s\<lparr>ss_source := src\<rparr>)))"
      "sessHolds (s\<lparr>ss_source := src\<rparr>) rest" "src_final src = src_final (ss_source s)" .
  let ?s' = "snd (handleFrame (t, i, p) (s\<lparr>ss_source := src\<rparr>))"
  have s': "serveAt ps' bufs' ?s'" "ss_source ?s' = src"
    using assms(4) [of "s\<lparr>ss_source := src\<rparr>"] assms(1) handleFrame_source [of "(t, i, p)" "s\<lparr>ss_source := src\<rparr>"] by auto
  then have "sessHolds ?s' rest" using src(2) s' by (simp add: sessHolds_def serveAt_def)
  from assms(5) [OF s'(1) this] src s'(2) show ?thesis by (auto simp: continues_def)
qed


lemma continues_refl: "serveAt ps bufs s \<Longrightarrow> sessHolds s rest \<Longrightarrow> continues s rest ps bufs"
  by (auto simp: continues_def)

lemma continues_trans:
  assumes "continues s rest ps bufs"
    and "\<And>s'. serveAt ps bufs s' \<Longrightarrow> sessHolds s' rest \<Longrightarrow> continues s' rest' ps' bufs'"
  shows "continues s rest' ps' bufs'"
  using assms unfolding continues_def by (metis (no_types, lifting))

lemma serve_chunks:
  assumes "a < length ps" "length ps < 2 ^ 32"
  shows "\<lbrakk>serveAt ps bufs s; sessHolds s (concat (map (\<lambda>c. encodeFrame (frameData, streamIDOf a, c)) cs) @ rest);
     \<forall>c\<in>set cs. c \<noteq> [] \<and> length c \<le> maxFrameSize; int (length (bufs a) + length (concat cs)) \<le> maxQueuedBytesPerStream\<rbrakk>
    \<Longrightarrow> continues s rest ps (bufs(a := bufs a @ concat cs))"
proof (induction cs arbitrary: s bufs)
  case Nil
  then show ?case by (simp add: continues_refl)
next
  case (Cons c cs)
  let ?rest = "concat (map (\<lambda>c. encodeFrame (frameData, streamIDOf a, c)) cs) @ rest"
  show ?case
  proof (rule continues_step [OF Cons.prems(1)])
    show "sessHolds s (encodeFrame (frameData, streamIDOf a, c) @ ?rest)" "length c \<le> maxFrameSize" using Cons.prems by simp_all
    fix s
    assume "serveAt ps bufs s"
    from serve_data [OF this assms, of c] Cons.prems(3, 4)
    show "\<exists>s'. handleFrame (frameData, streamIDOf a, c) s = (True, s') \<and> serveAt ps (bufs(a := bufs a @ c)) s'" by auto
  next
    fix s'
    define b where "b = bufs(a := bufs a @ c)"
    have b: "b a = bufs a @ c" "b(a := b a @ concat cs) = bufs(a := bufs a @ concat (c # cs))"
      by (simp_all add: b_def fun_eq_iff)
    assume "serveAt ps (bufs(a := bufs a @ c)) s'" "sessHolds s' ?rest"
    then have at: "serveAt ps b s'" and wire: "sessHolds s' ?rest" unfolding b_def .
    have "continues s' rest ps (b(a := b a @ concat cs))"
      by (rule Cons.IH [OF at wire]) (use Cons.prems(3, 4) b(1) in simp_all)
    then show "continues s' rest ps (bufs(a := bufs a @ concat (c # cs)))" unfolding b(2) .
  qed
qed

lemma serve_ops:
  "\<lbrakk>serveAt ps bufs s; sessHolds s (concat (map encodeFrame (framesOf (length ps) ops)) @ rest); opsOk (length ps) ops;
    \<forall>a. int (length (bufs a @ writtenTo a ops)) \<le> maxQueuedBytesPerStream; \<forall>a\<ge>length ps. bufs a = []\<rbrakk>
   \<Longrightarrow> continues s rest (ps @ openPayloads ops) (\<lambda>a. bufs a @ writtenTo a ops)"
proof (induction "length ps" ops arbitrary: s ps bufs rule: framesOf.induct)
  case 1
  then show ?case by (simp add: continues_refl)
next
  case (2 p ops)
  have len: "length ps + 1 < 2 ^ 32" "length p \<le> maxFrameSize" using 2(4) opsOk_lt [of "length ps + 1" ops] by auto
  show ?case
  proof (rule continues_step [OF 2(2)])
    show "sessHolds s (encodeFrame (frameOpen, streamIDOf (length ps), p) @ concat (map encodeFrame (framesOf (length ps + 1) ops)) @ rest)"
      using 2(3) by simp
    show "length p \<le> maxFrameSize" by fact
    fix s
    assume "serveAt ps bufs s"
    then show "\<exists>s'. handleFrame (frameOpen, streamIDOf (length ps), p) s = (True, s') \<and> serveAt (ps @ [p]) bufs s'"
      using serve_open [of ps bufs s p] len 2(6) by auto
  next
    fix s'
    assume "serveAt (ps @ [p]) bufs s'" "sessHolds s' (concat (map encodeFrame (framesOf (length ps + 1) ops)) @ rest)"
    then show "continues s' rest (ps @ openPayloads (DoOpen p # ops)) (\<lambda>a. bufs a @ writtenTo a (DoOpen p # ops))"
      using 2(1) [of "ps @ [p]" bufs s'] 2(4-6) by simp
  qed
next
  case (3 a p ops)
  let ?bufs = "bufs(a := bufs a @ p)"
  have a: "a < length ps" "length ps < 2 ^ 32" using 3(4) opsOk_lt [of "length ps" ops] by auto
  have "int (length (bufs a @ writtenTo a (DoWrite a p # ops))) \<le> maxQueuedBytesPerStream" using 3(5) by blast
  then have fits: "int (length (bufs a) + length (concat (chunksOf p))) \<le> maxQueuedBytesPerStream" by simp
  have "continues s (concat (map encodeFrame (framesOf (length ps) ops)) @ rest) ps (bufs(a := bufs a @ concat (chunksOf p)))"
    using 3(3) chunksOf_sizes [of _ p] fits by (intro serve_chunks [OF a 3(2)]) (auto simp: o_def)
  then show ?case
  proof (rule continues_trans)
    fix s'
    assume "serveAt ps (bufs(a := bufs a @ concat (chunksOf p))) s'" "sessHolds s' (concat (map encodeFrame (framesOf (length ps) ops)) @ rest)"
    moreover have "\<forall>b. int (length (?bufs b @ writtenTo b ops)) \<le> maxQueuedBytesPerStream" "\<forall>b\<ge>length ps. ?bufs b = []"
      "(\<lambda>b. ?bufs b @ writtenTo b ops) = (\<lambda>b. bufs b @ writtenTo b (DoWrite a p # ops))"
      using 3(5, 6) a(1) by (auto simp: fun_eq_iff split: if_splits)
    ultimately show "continues s' rest (ps @ openPayloads (DoWrite a p # ops)) (\<lambda>b. bufs b @ writtenTo b (DoWrite a p # ops))"
      using 3(1) [of ps ?bufs s'] 3(4) by simp
  qed
qed


text \<open>The end of the input closes the session; the streams keep what they hold.\<close>

lemma closeWithError_store:
  "\<not> ss_closed s \<Longrightarrow> ss_store (closeWithError s (Some e)) =
     updAll (\<lambda>c. closeNoSend c (Some e)) (map snd (ss_streams s)) (ss_store s)"
  by (simp add: closeWithError_def Let_def fold_onStream)

definition finishedWith :: "ioerr \<Rightarrow> byte list \<Rightarrow> stream \<Rightarrow> bool" where
  "finishedWith e q c \<longleftrightarrow> streamInv c \<and> buffered c = q \<and> \<not> st_localReadClosed c \<and> \<not> st_remoteWriteClosed c
     \<and> st_closeErr c = (if st_closed c then Some e else None)"

lemma finishedWith_close: "finishedWith e q c \<Longrightarrow> finishedWith e q (closeNoSend c (Some e))"
  unfolding finishedWith_def closeNoSend_inv by (simp add: closeNoSend_def Let_def)

lemma serve_end:
  assumes "serveAt ps bufs s" "sessHolds s []" "length ps < 2 ^ 32"
  obtains s' where "readLoop s = Some s'" "length (ss_store s') = length ps" "ss_accepting s' = ss_accepting s"
    "\<forall>a<length ps. finishedWith (src_final (ss_source s)) (bufs a) (ss_store s' ! a) \<and> st_closed (ss_store s' ! a)"
proof -
  let ?e = "src_final (ss_source s)"
  have "0 < headerSize" by (simp add: headerSize_def)
  from sess.read_end [OF assms(2) this] obtain s1 where "sessionRead s headerSize = Some (Inl ?e, s1)" by blast
  then have fr: "readFrame s = Some (Inl ?e, s1)"
    by (simp add: readFrame_def sessionReadFull_def streamReadFull.simps headerSize_def)
  from readFrame_source [OF this] obtain src where s1: "s1 = s\<lparr>ss_source := src\<rparr>" by blast
  have run: "readLoop s = Some (closeWithError s1 (Some ?e))" using fr by (subst readLoop.simps) (simp add: readLoopStep_def)
  have at: "serveAt ps bufs s1" using assms(1) s1 by simp
  then have op: "\<not> ss_closed s1" "length (ss_store s1) = length ps" by (simp_all add: serveAt_def)
  let ?f = "\<lambda>c. closeNoSend c (Some ?e)" and ?as = "map snd (ss_streams s1)"
  have "finishedWith ?e (bufs a) (updAll ?f ?as (ss_store s1) ! a) \<and> st_closed (updAll ?f ?as (ss_store s1) ! a)"
    if a: "a < length ps" for a
  proof
    have "finishedWith ?e (bufs a) (ss_store s1 ! a)" using at a by (auto simp: serveAt_def openIdle_def ended_def finishedWith_def)
    then show "finishedWith ?e (bufs a) (updAll ?f ?as (ss_store s1) ! a)" 
      using updAll_keep [of "finishedWith ?e (bufs a)" ?f "ss_store s1" a ?as] finishedWith_close by blast
    have u: "unat (streamIDOf a) = a + 1" using streamIDOf_unat [of a] a assms(3) by simp
    then have "streamIDOf a \<noteq> 0" by auto
    then have "map_of (ss_streams s1) (streamIDOf a) = Some a" using at a u by (simp add: serveAt_def getStream_def)
    from map_of_SomeD [OF this] have "a \<in> set ?as" by force
    moreover have "st_closed (?f c)" for c by (simp add: closeNoSend_def Let_def)
    ultimately show "st_closed (updAll ?f ?as (ss_store s1) ! a)" using a op(2) by (intro updAll_hit [where P = st_closed and f = ?f]) simp_all
  qed
  moreover have "ss_accepting (closeWithError s1 (Some ?e)) = ss_accepting s" using s1
    by (simp add: closeWithError_def Let_def fold_onStream)
  ultimately show ?thesis using op(2) unfolding closeWithError_store [OF op(1), of ?e, symmetric]
    by (intro that [OF run]) (simp_all add: closeWithError_store [OF op(1), of ?e])
qed

lemma finishedWith_reads:
  assumes "finishedWith e q c" "st_closed c" "\<forall>k\<in>set ks. 0 < k" "length q < length ks"
  shows "\<exists>c'. readAll streamRead c ks = Some (q, Some e, c')"
proof -
  have "streamInv c \<and> ended c \<and> buffered c = q" "readEnd c = e"
    using assms(1, 2) by (auto simp: finishedWith_def ended_def readEnd_def closedErrLocked_def)
  with mux.readAll_holds [of c q ks] assms(3, 4) show ?thesis by auto
qed

lemma new_clientAt: "wr_script w = [] \<Longrightarrow> clientAt 0 (NewClientSession w src now)"
  by (simp add: clientAt_def NewClientSession_def)

lemma new_serveAt: "serveAt [] (\<lambda>a. []) (NewServerSession w src now)"
  by (simp add: serveAt_def NewServerSession_def getStream_def unat_gt_0)

lemma opsOk_openPayloads: "opsOk n ops \<Longrightarrow> n + length (openPayloads ops) < 2 ^ 32"
  by (induction n ops rule: opsOk.induct) auto

section \<open>Properties of the multiplex session\<close>

text \<open>C6: streams are delivered independently. A client opens streams and writes to them in any
  order; every call succeeds. Whatever pieces the network cuts the client's bytes into, the
  server's read loop accepts the streams with their open payloads in order, and reading
  stream a to its end gives exactly the bytes written to it, in order, and then EOF, as long
  as no stream is sent more than its receive limit while nobody reads.\<close>

theorem mux_delivery:
  assumes "opsOk 0 ops" "wr_script w = []" "wr_out w = []"
    and "\<forall>a. int (length (writtenTo a ops)) \<le> maxQueuedBytesPerStream"
  shows "\<exists>c. runOps ops (NewClientSession w src now) = Some c
    \<and> (\<forall>chunks. concat chunks = wr_out (ss_writer c) \<and> [] \<notin> set chunks \<longrightarrow>
        (\<exists>v. readLoop (NewServerSession w' \<lparr>src_chunks = chunks, src_final = EOF\<rparr> now') = Some v
          \<and> map ev_payload (ss_accepting v) = openPayloads ops \<and> length (ss_store v) = length (openPayloads ops)
          \<and> (\<forall>a ks. a < length (openPayloads ops) \<and> (\<forall>k\<in>set ks. 0 < k) \<and> length (writtenTo a ops) < length ks \<longrightarrow>
               (\<exists>c'. readAll streamRead (ss_store v ! a) ks = Some (writtenTo a ops, Some EOF, c')))))"
proof -
  from runOps_frames [OF new_clientAt [OF assms(2)] assms(1), of src now] obtain c where
    c: "runOps ops (NewClientSession w src now) = Some c" "wr_out (ss_writer c) = concat (map encodeFrame (framesOf 0 ops))"
    using assms(3) by (auto simp: NewClientSession_def)
  show ?thesis
  proof (rule exI [of _ c], intro conjI allI impI c(1))
    fix chunks
    assume ch: "concat chunks = wr_out (ss_writer c) \<and> [] \<notin> set chunks"
    let ?v = "NewServerSession w' \<lparr>src_chunks = chunks, src_final = EOF\<rparr> now'"
    have "sessHolds ?v (concat (map encodeFrame (framesOf (length ([] :: byte list list)) ops)) @ [])"
      using ch c(2) by (simp add: sessHolds_def NewServerSession_def)
    from serve_ops [OF new_serveAt this] assms(1, 4) obtain s where
      s: "readLoop ?v = readLoop s" "serveAt (openPayloads ops) (\<lambda>a. writtenTo a ops) s" "sessHolds s []" "src_final (ss_source s) = EOF"
      by (auto simp: continues_def NewServerSession_def)
    from serve_end [OF s(2, 3)] opsOk_openPayloads [OF assms(1)] obtain v where
      v: "readLoop s = Some v" "length (ss_store v) = length (openPayloads ops)" "ss_accepting v = ss_accepting s"
        "\<forall>a<length (openPayloads ops). finishedWith EOF (writtenTo a ops) (ss_store v ! a) \<and> st_closed (ss_store v ! a)"
      using s(4) by auto
    have "map ev_payload (ss_accepting s) = openPayloads ops" using s(2) by (simp add: serveAt_def o_def map_nth)
    then show "\<exists>v. readLoop ?v = Some v
        \<and> map ev_payload (ss_accepting v) = openPayloads ops \<and> length (ss_store v) = length (openPayloads ops)
        \<and> (\<forall>a ks. a < length (openPayloads ops) \<and> (\<forall>k\<in>set ks. 0 < k) \<and> length (writtenTo a ops) < length ks \<longrightarrow>
             (\<exists>c'. readAll streamRead (ss_store v ! a) ks = Some (writtenTo a ops, Some EOF, c')))"
      using s(1) v finishedWith_reads by (intro exI [of _ v]) auto
  qed
qed


theorem mux_delivery_witness:
  "let ops = [DoOpen [1], DoOpen [2], DoWrite 0 [72], DoWrite 1 [33, 34], DoWrite 0 [105]];
       w = \<lparr>wr_out = [], wr_calls = [], wr_script = []\<rparr>; src = \<lparr>src_chunks = [], src_final = EOF\<rparr> in
   \<exists>c v c'. runOps ops (NewClientSession w src 0) = Some c
     \<and> readLoop (NewServerSession w \<lparr>src_chunks = [wr_out (ss_writer c)], src_final = EOF\<rparr> 0) = Some v
     \<and> readAll streamRead (ss_store v ! 0) [2, 2, 2] = Some ([72, 105], Some EOF, c')"
proof -
  define ops where "ops = [DoOpen [1], DoOpen [2], DoWrite 0 [72], DoWrite 1 [33, 34], DoWrite 0 [105]]"
  define w where "w = \<lparr>wr_out = [], wr_calls = [], wr_script = []\<rparr>"
  define src where "src = \<lparr>src_chunks = [], src_final = EOF\<rparr>"
  have h: "opsOk 0 ops" "wr_script w = []" "wr_out w = []" "\<forall>a. int (length (writtenTo a ops)) \<le> maxQueuedBytesPerStream"
    by (simp_all add: ops_def w_def maxFrameSize_def maxQueuedBytesPerStream_def)
  have o': "openPayloads ops = [[1], [2]]" "writtenTo 0 ops = [72, 105]" by (simp_all add: ops_def)
  from mux_delivery [OF h, of src 0 w 0] obtain c where c: "runOps ops (NewClientSession w src 0) = Some c"
    and del: "\<And>chunks. concat chunks = wr_out (ss_writer c) \<and> [] \<notin> set chunks \<Longrightarrow>
        \<exists>v. readLoop (NewServerSession w \<lparr>src_chunks = chunks, src_final = EOF\<rparr> 0) = Some v
          \<and> (\<forall>a ks. a < length (openPayloads ops) \<and> (\<forall>k\<in>set ks. 0 < k) \<and> length (writtenTo a ops) < length ks \<longrightarrow>
               (\<exists>c'. readAll streamRead (ss_store v ! a) ks = Some (writtenTo a ops, Some EOF, c')))" by blast
  have "wr_out (ss_writer c) \<noteq> []"
    using runOps_frames [OF new_clientAt [OF h(2)] h(1), of src 0] c by (simp add: ops_def encodeFrame_def)
  from del [of "[wr_out (ss_writer c)]"] this obtain v where
    v: "readLoop (NewServerSession w \<lparr>src_chunks = [wr_out (ss_writer c)], src_final = EOF\<rparr> 0) = Some v"
      "\<And>a ks. a < length (openPayloads ops) \<and> (\<forall>k\<in>set ks. 0 < k) \<and> length (writtenTo a ops) < length ks \<Longrightarrow>
         \<exists>c'. readAll streamRead (ss_store v ! a) ks = Some (writtenTo a ops, Some EOF, c')" by auto
  from v(2) [of 0 "[2, 2, 2]"] o' obtain c' where "readAll streamRead (ss_store v ! 0) [2, 2, 2] = Some ([72, 105], Some EOF, c')" by auto
  with c v(1) show ?thesis unfolding Let_def ops_def [symmetric] w_def [symmetric] src_def [symmetric] by blast
qed

text \<open>C18: the read loop ends. From every state and on every finite input, with whatever frames,
  valid or not, it returns, and leaves the session closed.\<close>

theorem mux_readLoop_terminates: "\<exists>s'. readLoop s = Some s' \<and> ss_closed s'"
  by (rule readLoop_returns)





text \<open>One iteration of the read loop, as the next state.\<close>

definition loopNext :: "Session \<Rightarrow> Session" where
  "loopNext s = (case readLoopStep s of Some (go, s') \<Rightarrow> s' | None \<Rightarrow> s)"

lemma loopNext_step: "muxReachable s \<Longrightarrow> muxReachable (loopNext s)"
  unfolding loopNext_def by (rule readLoopStep_total [of s]) (auto intro: muxReachable.step muxStep.recv)

lemma closeWrite_step: "muxReachable s \<Longrightarrow> a < length (ss_store s) \<Longrightarrow> muxReachable (snd (muxCloseWrite a s))"
  by (erule muxReachable.step, rule muxStep.stream_closeWrite [of a s "fst (muxCloseWrite a s)"]) simp_all

text \<open>A reused identifier strands a reader. A stream that both ends have half-closed leaves the
  table without being closed; when the peer then opens a new stream under the same
  identifier, closing the old one removes the new one from the table. A Read on the new
  stream waits, and closing the session does not wake it: there is a reachable closed session
  in which a Read waits on a stream that has left the table.\<close>

lemma mux_reused_id_strands_reader:
  "\<exists>s. muxReachable s \<and> ss_closed s \<and> 1 < length (ss_store s) \<and> muxRead 1 5 s = None
     \<and> getStream s (st_id (ss_store s ! 1)) = None"
proof -
  define wire where "wire = map encodeFrame [(frameOpen, 5, []), (frameClose, 5, []), (frameOpen, 5, [])]"
  define s0 where "s0 = NewServerSession \<lparr>wr_out = [], wr_calls = [], wr_script = []\<rparr> \<lparr>src_chunks = wire, src_final = EOF\<rparr> 0"
  define s2 where "s2 = loopNext (loopNext s0)"
  define s4 where "s4 = loopNext (snd (muxCloseWrite 0 s2))"
  define s6 where "s6 = sessionClose (muxClose 0 s4)"
  have "muxReachable s2" unfolding s2_def s0_def by (intro loopNext_step muxReachable.server)
  moreover have "0 < length (ss_store s2)" unfolding s2_def s0_def wire_def by code_simp
  ultimately have "muxReachable s4" unfolding s4_def by (intro loopNext_step closeWrite_step)
  moreover have "0 < length (ss_store s4)" unfolding s4_def s2_def s0_def wire_def by code_simp
  ultimately have "muxReachable s6" unfolding s6_def by (metis muxReachable.step muxStep.close muxStep.stream_close)
  moreover have "ss_closed s6 \<and> 1 < length (ss_store s6) \<and> muxRead 1 5 s6 = None \<and> getStream s6 (st_id (ss_store s6 ! 1)) = None"
    unfolding s6_def s4_def s2_def s0_def wire_def by code_simp
  ultimately show ?thesis by blast
qed

end
