(* ===== verification/Kip.thy ===== *)
theory Kip
  imports Address Sudoku_Table
begin

text \<open>
  The KIP control messages (transport/kip.go) and the first message of a session
  (ReadServerSession in handshake.go): framing, the client and server hello, the choice of
  the table a hello asks for. SHA-256 is the parameter sha256.
\<close>

section \<open>Frames\<close>

definition kipMagic :: string where "kipMagic = ''kip''"

definition KIPTypeClientHello :: byte where "KIPTypeClientHello = 0x01"
definition KIPTypeServerHello :: byte where "KIPTypeServerHello = 0x02"
definition KIPTypeOpenTCP :: byte where "KIPTypeOpenTCP = 0x10"
definition KIPTypeStartMux :: byte where "KIPTypeStartMux = 0x11"
definition KIPTypeStartUoT :: byte where "KIPTypeStartUoT = 0x12"
definition KIPTypeKeepAlive :: byte where "KIPTypeKeepAlive = 0x14"

definition KIPFeatAll :: u32 where
  "KIPFeatAll = push_bit 0 1 OR push_bit 1 1 OR push_bit 2 1 OR push_bit 4 1"

definition kipHelloUserHashSize :: nat where "kipHelloUserHashSize = 8"
definition kipHelloNonceSize :: nat where "kipHelloNonceSize = 16"
definition kipHelloPubSize :: nat where "kipHelloPubSize = 32"
definition kipMaxPayload :: nat where "kipMaxPayload = 64 * 1024"
definition kipClientHelloTableHintSize :: nat where "kipClientHelloTableHintSize = 4"

datatype kipError = NilWriter | NilReader | KipPayloadTooLarge nat | BadMagic | KipInvalidLength nat
  | ClientHelloTooShort | ServerHelloBadLen nat | KipIO ioerr
  | NilSelectedTable | NoTableCandidates | UnknownTableHint u32
  | DecodeTargetErr addrError | UnknownKipMessage byte

record KIPMessage =
  msg_Type :: byte
  msg_Payload :: "byte list"

definition kipHeader :: "byte \<Rightarrow> nat \<Rightarrow> byte list" where
  "kipHeader typ len = stringBytes kipMagic @ [typ] @ putUint16 (word_of_nat len)"

definition WriteKIPMessage :: "writer option \<Rightarrow> byte \<Rightarrow> byte list \<Rightarrow> kipError option \<times> writer option" where
  "WriteKIPMessage w typ payload =
     (case w of
        None \<Rightarrow> (Some NilWriter, None)
      | Some w \<Rightarrow>
          if length payload > kipMaxPayload then (Some (KipPayloadTooLarge (length payload)), Some w)
          else (case writeAllChunks w [kipHeader typ (length payload), payload] of
              (Some e, w') \<Rightarrow> (Some (KipIO e), Some w')
            | (None, w') \<Rightarrow> (None, Some w')))"

definition readKip :: "nat \<Rightarrow> byte list \<Rightarrow> kipError + (byte list \<times> byte list)" where
  "readKip n s = mapErr KipIO (readFull n s)"

definition ReadKIPMessage :: "byte list option \<Rightarrow> kipError + (KIPMessage \<times> byte list)" where
  "ReadKIPMessage r =
     (case r of
        None \<Rightarrow> Inl NilReader
      | Some s \<Rightarrow>
          bindE (readKip 6 s) (\<lambda>(hdr, s).
            if bytesString (take 3 hdr) \<noteq> kipMagic then Inl BadMagic
            else
              let typ = hdr ! 3; n = unat (bigEndianUint16 (drop 4 hdr)) in
              if n > kipMaxPayload then Inl (KipInvalidLength n)
              else if n > 0 then
                bindE (readKip n s) (\<lambda>(payload, s). Inr (\<lparr>msg_Type = typ, msg_Payload = payload\<rparr>, s))
              else Inr (\<lparr>msg_Type = typ, msg_Payload = []\<rparr>, s)))"

section \<open>Hellos\<close>

text \<open>The time stamp is in seconds since 1970.\<close>

record KIPClientHello =
  ch_Timestamp :: int
  ch_UserHash :: "byte list"
  ch_Nonce :: "byte list"
  ch_ClientPub :: "byte list"
  ch_Features :: u32
  ch_TableHint :: u32
  ch_HasTableHint :: bool

record KIPServerHello =
  sh_Nonce :: "byte list"
  sh_ServerPub :: "byte list"
  sh_SelectedFeats :: u32

definition newKIPClientHello :: "int \<Rightarrow> byte list \<Rightarrow> byte list \<Rightarrow> byte list \<Rightarrow> u32 \<Rightarrow> u32 \<Rightarrow> bool \<Rightarrow> KIPClientHello" where
  "newKIPClientHello now userHash nonce clientPub feats hint hasTableHint =
     \<lparr>ch_Timestamp = now, ch_UserHash = userHash, ch_Nonce = nonce, ch_ClientPub = clientPub,
      ch_Features = feats, ch_TableHint = hint, ch_HasTableHint = hasTableHint\<rparr>"

definition kipUserHashFromKey :: "(byte list \<Rightarrow> byte list) \<Rightarrow> string \<Rightarrow> byte list" where
  "kipUserHashFromKey sha256 psk =
     (let psk = trimSpace psk in
      if psk = [] then replicate kipHelloUserHashSize 0
      else case hexDecode psk of
          Some keyBytes \<Rightarrow>
            if keyBytes \<noteq> [] then take kipHelloUserHashSize (sha256 keyBytes)
            else take kipHelloUserHashSize (sha256 (stringBytes psk))
        | None \<Rightarrow> take kipHelloUserHashSize (sha256 (stringBytes psk)))"

definition KIPUserHashHexFromKey :: "(byte list \<Rightarrow> byte list) \<Rightarrow> string \<Rightarrow> string" where
  "KIPUserHashHexFromKey sha256 psk = hexEncode (kipUserHashFromKey sha256 psk)"

definition encodeClientHello :: "KIPClientHello \<Rightarrow> byte list" where
  "encodeClientHello m =
     putUint64 (word_of_int (ch_Timestamp m)) @ ch_UserHash m @ ch_Nonce m @ ch_ClientPub m
     @ putUint32 (ch_Features m) @ (if ch_HasTableHint m then putUint32 (ch_TableHint m) else [])"

text \<open>The sub-slices of the payload, at the offsets the code counts.\<close>

definition slice :: "nat \<Rightarrow> nat \<Rightarrow> byte list \<Rightarrow> byte list" where
  "slice off n bs = take n (drop off bs)"

definition DecodeKIPClientHelloPayload :: "byte list \<Rightarrow> kipError + KIPClientHello" where
  "DecodeKIPClientHelloPayload payload =
     (let minLen = 8 + kipHelloUserHashSize + kipHelloNonceSize + kipHelloPubSize + 4 in
      if length payload < minLen then Inl ClientHelloTooShort
      else
        let ts = sint (bigEndianUint64 (slice 0 8 payload));
            off0 = 8; off1 = off0 + kipHelloUserHashSize; off2 = off1 + kipHelloNonceSize;
            off3 = off2 + kipHelloPubSize; off4 = off3 + 4;
            hasHint = (length payload \<ge> off4 + kipClientHelloTableHintSize)
        in Inr \<lparr>ch_Timestamp = ts,
                ch_UserHash = slice off0 kipHelloUserHashSize payload,
                ch_Nonce = slice off1 kipHelloNonceSize payload,
                ch_ClientPub = slice off2 kipHelloPubSize payload,
                ch_Features = bigEndianUint32 (slice off3 4 payload),
                ch_TableHint = (if hasHint then bigEndianUint32 (slice off4 4 payload) else 0),
                ch_HasTableHint = hasHint\<rparr>)"

definition encodeServerHello :: "KIPServerHello \<Rightarrow> byte list" where
  "encodeServerHello m = sh_Nonce m @ sh_ServerPub m @ putUint32 (sh_SelectedFeats m)"

definition DecodeKIPServerHelloPayload :: "byte list \<Rightarrow> kipError + KIPServerHello" where
  "DecodeKIPServerHelloPayload payload =
     (let want = kipHelloNonceSize + kipHelloPubSize + 4 in
      if length payload \<noteq> want then Inl (ServerHelloBadLen (length payload))
      else Inr \<lparr>sh_Nonce = slice 0 kipHelloNonceSize payload,
                sh_ServerPub = slice kipHelloNonceSize kipHelloPubSize payload,
                sh_SelectedFeats = bigEndianUint32 (slice (kipHelloNonceSize + kipHelloPubSize) 4 payload)\<rparr>)"

text \<open>Tables are given by their hints: the choice looks at nothing else.\<close>

definition ResolveClientHelloTable ::
    "LinkedTable option \<Rightarrow> LinkedTable option list \<Rightarrow> KIPClientHello option \<Rightarrow> kipError + LinkedTable" where
  "ResolveClientHelloTable selected candidates hello =
     (case selected of
        None \<Rightarrow> Inl NilSelectedTable
      | Some t \<Rightarrow>
          (case hello of
             None \<Rightarrow> Inr t
           | Some h \<Rightarrow>
               if \<not> ch_HasTableHint h then Inr t
               else if tableHint selected = ch_TableHint h then Inr t
               else if candidates = [] then Inl NoTableCandidates
               else case find (\<lambda>c. c \<noteq> None \<and> tableHint c = ch_TableHint h) candidates of
                   Some (Some c) \<Rightarrow> Inr c
                 | _ \<Rightarrow> Inl (UnknownTableHint (ch_TableHint h))))"

section \<open>The first message of a session\<close>

lemma readKip_length: "readKip n s = Inr (a, r) \<Longrightarrow> length s = n + length r"
  by (auto simp: readKip_def readFull_def split: if_splits)

lemma ReadKIPMessage_shorter: "ReadKIPMessage (Some s) = Inr (m, r) \<Longrightarrow> length r < length s"
  by (auto simp: ReadKIPMessage_def bindE_eq_Inr Let_def dest!: readKip_length split: if_splits)

text \<open>Keep-alives are skipped; every message takes at least six bytes of the stream.\<close>

function readFirstSessionMessage :: "byte list \<Rightarrow> kipError + (KIPMessage \<times> byte list)" where
  "readFirstSessionMessage s =
     (case ReadKIPMessage (Some s) of
        Inl e \<Rightarrow> Inl e
      | Inr (msg, r) \<Rightarrow>
          if msg_Type msg = KIPTypeKeepAlive then readFirstSessionMessage r else Inr (msg, r))"
  by pat_completeness auto
termination
  by (relation "measure length") (auto dest: ReadKIPMessage_shorter)

declare readFirstSessionMessage.simps [simp del]

datatype SessionType = SessionTypeTCP | SessionTypeUoT | SessionTypeMultiplex

record ServerSession =
  ses_Type :: SessionType
  ses_Target :: string
  ses_UserHash :: string

definition ReadServerSession :: "byte list \<Rightarrow> string option \<Rightarrow> kipError + (ServerSession \<times> byte list)" where
  "ReadServerSession s meta =
     (let userHash = (case meta of None \<Rightarrow> [] | Some u \<Rightarrow> u) in
      bindE (readFirstSessionMessage s) (\<lambda>(first, r).
        if msg_Type first = KIPTypeStartUoT then
          Inr (\<lparr>ses_Type = SessionTypeUoT, ses_Target = [], ses_UserHash = userHash\<rparr>, r)
        else if msg_Type first = KIPTypeStartMux then
          Inr (\<lparr>ses_Type = SessionTypeMultiplex, ses_Target = [], ses_UserHash = userHash\<rparr>, r)
        else if msg_Type first = KIPTypeOpenTCP then
          bindE (mapErr DecodeTargetErr (DecodeAddress (msg_Payload first))) (\<lambda>(target, _).
            Inr (\<lparr>ses_Type = SessionTypeTCP, ses_Target = target, ses_UserHash = userHash\<rparr>, r))
        else Inl (UnknownKipMessage (msg_Type first))))"

section \<open>Lemmas\<close>

lemmas kip_sizes = kipHelloUserHashSize_def kipHelloNonceSize_def kipHelloPubSize_def
  kipClientHelloTableHintSize_def kipMaxPayload_def

lemma length_kipHeader [simp]: "length (kipHeader typ n) = 6"
  by (simp add: kipHeader_def kipMagic_def)

lemma bytesString_magic: "bytesString (take 3 (kipHeader typ n)) = kipMagic"
  by (simp add: kipHeader_def kipMagic_def stringBytes_def bytesString_def)

lemma kipHeader_fields:
  "kipHeader typ n ! 3 = typ" "bigEndianUint16 (drop 4 (kipHeader typ n)) = word_of_nat n"
  by (simp_all add: kipHeader_def kipMagic_def stringBytes_def)

lemma ReadKIPMessage_header:
  "ReadKIPMessage (Some (kipHeader typ n @ s)) =
     (let k = unat (word_of_nat n :: u16) in
      if k > kipMaxPayload then Inl (KipInvalidLength k)
      else if k > 0 then bindE (readKip k s) (\<lambda>(p, s). Inr (\<lparr>msg_Type = typ, msg_Payload = p\<rparr>, s))
      else Inr (\<lparr>msg_Type = typ, msg_Payload = []\<rparr>, s))"
  by (simp add: ReadKIPMessage_def readKip_def bytesString_magic kipHeader_fields)

lemma ReadKIPMessage_frame:
  assumes "length p < 65536"
  shows "ReadKIPMessage (Some (kipHeader typ (length p) @ p @ rest)) = Inr (\<lparr>msg_Type = typ, msg_Payload = p\<rparr>, rest)"
  using assms by (auto simp: ReadKIPMessage_header unat_word16 Let_def kip_sizes readKip_def)

lemma WriteKIPMessage_ok:
  assumes "length p \<le> kipMaxPayload" "wr_script w = []"
  shows "\<exists>w'. WriteKIPMessage (Some w) typ p = (None, Some w')
    \<and> wr_out w' = wr_out w @ kipHeader typ (length p) @ p \<and> wr_script w' = []"
proof -
  let ?cs = "[kipHeader typ (length p), p]"
  obtain w' where "writeAllChunks w ?cs = (None, w')" "wr_out w' = wr_out w @ concat ?cs" "wr_script w' = []"
    using writeAllChunks_ok [OF assms(2), of ?cs] by (metis prod.collapse)
  then show ?thesis using assms(1) by (simp add: WriteKIPMessage_def del: writeAllChunks.simps)
qed

lemma readFirst_skip:
  assumes "\<forall>p\<in>set ps. length p < 65536"
  shows "readFirstSessionMessage (concat (map (\<lambda>p. kipHeader KIPTypeKeepAlive (length p) @ p) ps) @ s)
    = readFirstSessionMessage s"
  using assms
proof (induction ps)
  case (Cons p ps)
  then have "ReadKIPMessage (Some (kipHeader KIPTypeKeepAlive (length p) @ p @ r)) =
      Inr (\<lparr>msg_Type = KIPTypeKeepAlive, msg_Payload = p\<rparr>, r)" for r
    by (simp add: ReadKIPMessage_frame)
  with Cons show ?case by (subst readFirstSessionMessage.simps) simp
qed simp

lemma readFirst_frame:
  assumes "length p < 65536" "typ \<noteq> KIPTypeKeepAlive"
  shows "readFirstSessionMessage (kipHeader typ (length p) @ p @ r) = Inr (\<lparr>msg_Type = typ, msg_Payload = p\<rparr>, r)"
  using assms by (subst readFirstSessionMessage.simps) (simp add: ReadKIPMessage_frame)

lemma DecodeClientHello_encode:
  assumes "- (2 ^ 63) \<le> ch_Timestamp h" "ch_Timestamp h < 2 ^ 63"
    and "length (ch_UserHash h) = kipHelloUserHashSize" "length (ch_Nonce h) = kipHelloNonceSize"
    and "length (ch_ClientPub h) = kipHelloPubSize" "ch_HasTableHint h \<or> ch_TableHint h = 0"
  shows "DecodeKIPClientHelloPayload (encodeClientHello h) = Inr h"
proof -
  have ts: "sint (word_of_int (ch_Timestamp h) :: u64) = ch_Timestamp h"
    using assms(1, 2) by (simp add: signed_of_int signed_take_bit_int_eq_self)
  show ?thesis
    using assms(3-6) ts
    by (cases "ch_HasTableHint h")
      (simp_all add: DecodeKIPClientHelloPayload_def encodeClientHello_def slice_def kip_sizes Let_def)
qed

lemma DecodeServerHello_encode:
  assumes "length (sh_Nonce h) = kipHelloNonceSize" "length (sh_ServerPub h) = kipHelloPubSize"
  shows "DecodeKIPServerHelloPayload (encodeServerHello h) = Inr h"
  using assms by (simp add: DecodeKIPServerHelloPayload_def encodeServerHello_def slice_def kip_sizes)

section \<open>Properties\<close>

text \<open>A KIP message of at most 65535 bytes of payload is read back as it was written, and
  the reader is left at the byte after it.\<close>

lemma kip_message_round_trip:
  assumes "length p < 65536" "wr_script w = []"
  shows "\<exists>w' frame. WriteKIPMessage (Some w) typ p = (None, Some w') \<and> wr_out w' = wr_out w @ frame
    \<and> ReadKIPMessage (Some (frame @ rest)) = Inr (\<lparr>msg_Type = typ, msg_Payload = p\<rparr>, rest)"
proof -
  have "length p \<le> kipMaxPayload" using assms(1) by (simp add: kip_sizes)
  with WriteKIPMessage_ok [OF _ assms(2)] ReadKIPMessage_frame [OF assms(1)] show ?thesis by fastforce
qed

text \<open>The client hello survives encoding and decoding, with and without a table hint (a
  hello without one decodes with the hint 0).\<close>

lemma client_hello_round_trip:
  assumes "- (2 ^ 63) \<le> ch_Timestamp h" "ch_Timestamp h < 2 ^ 63"
    and "length (ch_UserHash h) = kipHelloUserHashSize" "length (ch_Nonce h) = kipHelloNonceSize"
    and "length (ch_ClientPub h) = kipHelloPubSize" "ch_HasTableHint h \<or> ch_TableHint h = 0"
  shows "DecodeKIPClientHelloPayload (encodeClientHello h) = Inr h"
  using assms by (rule DecodeClientHello_encode)

text \<open>The server hello survives encoding and decoding.\<close>

lemma server_hello_round_trip:
  assumes "length (sh_Nonce h) = kipHelloNonceSize" "length (sh_ServerPub h) = kipHelloPubSize"
  shows "DecodeKIPServerHelloPayload (encodeServerHello h) = Inr h"
  using assms by (rule DecodeServerHello_encode)

text \<open>The session intent a client writes after any number of keep-alives is the one the
  server reads: the canonical target of an OpenTCP message, and the stream after it.\<close>

lemma session_intent_open_tcp:
  assumes "\<forall>p\<in>set keepAlives. length p < 65536" "EncodeAddress a = Inr buf"
  shows "ReadServerSession (concat (map (\<lambda>p. kipHeader KIPTypeKeepAlive (length p) @ p) keepAlives)
      @ kipHeader KIPTypeOpenTCP (length buf) @ buf @ rest) (Some user)
    = Inr (\<lparr>ses_Type = SessionTypeTCP, ses_Target = canonicalAddr a, ses_UserHash = user\<rparr>, rest)"
proof -
  have "length buf < 65536" using EncodeAddress_length [OF assms(2)] by simp
  moreover have "DecodeAddress buf = Inr (canonicalAddr a, [])"
    using DecodeAddress_Encode [OF assms(2), of "[]"] by simp
  ultimately show ?thesis
    using readFirst_skip [OF assms(1)] readFirst_frame [of buf KIPTypeOpenTCP rest]
    by (simp add: ReadServerSession_def KIPTypeOpenTCP_def KIPTypeKeepAlive_def KIPTypeStartUoT_def KIPTypeStartMux_def)
qed

text \<open>The table a hello resolves to has the hint the hello carries, unless it carries none,
  in which case it is the table selected by probing; a hint that neither the selected table
  nor a candidate has is an error.\<close>

lemma ResolveClientHelloTable_hint:
  "case ResolveClientHelloTable (Some t) candidates (Some h) of
     Inr r \<Rightarrow> (if ch_HasTableHint h then tableHint (Some r) = ch_TableHint h \<and> (r = t \<or> Some r \<in> set candidates)
              else r = t)
   | Inl e \<Rightarrow> ch_HasTableHint h \<and> tableHint (Some t) \<noteq> ch_TableHint h
              \<and> \<not> list_ex (\<lambda>c. c \<noteq> None \<and> tableHint c = ch_TableHint h) candidates"
proof -
  let ?P = "\<lambda>c. c \<noteq> None \<and> tableHint c = ch_TableHint h"
  have found: "?P c \<and> c \<in> set candidates" if "find ?P candidates = Some c" for c
    using that unfolding find_Some_iff by (metis nth_mem)
  have missing: "\<not> list_ex ?P candidates" if "find ?P candidates = None"
    using that by (auto simp: find_None_iff list_ex_iff)
  show ?thesis
  proof (cases "find ?P candidates")
    case None
    then show ?thesis using missing [OF None] by (simp add: ResolveClientHelloTable_def)
  next
    case (Some c)
    then obtain t' where "c = Some t'" using found [OF Some] by auto
    with found [OF Some] Some show ?thesis by (auto simp: ResolveClientHelloTable_def)
  qed
qed

text \<open>A payload of exactly 65536 bytes passes WriteKIPMessage's size check, but the 16-bit
  length field holds 0: the reader gets an empty message and finds the payload where the
  next frame should start.\<close>

lemma kip_65536_truncated:
  assumes "length p = 65536" "wr_script w = []"
  shows "\<exists>w' frame. WriteKIPMessage (Some w) typ p = (None, Some w') \<and> wr_out w' = wr_out w @ frame
    \<and> ReadKIPMessage (Some (frame @ rest)) = Inr (\<lparr>msg_Type = typ, msg_Payload = []\<rparr>, p @ rest)"
proof -
  have "(word_of_nat 65536 :: u16) = 0" by (simp add: word_unat_eq_iff unat_of_nat)
  then have "ReadKIPMessage (Some ((kipHeader typ (length p) @ p) @ rest)) = Inr (\<lparr>msg_Type = typ, msg_Payload = []\<rparr>, p @ rest)"
    using assms(1) by (simp add: ReadKIPMessage_header)
  moreover have "length p \<le> kipMaxPayload" using assms(1) by (simp add: kip_sizes)
  ultimately show ?thesis using WriteKIPMessage_ok [OF _ assms(2)] by metis
qed

end
