(* ===== verification/Replay.thy ===== *)
theory Replay
  imports Prelude
begin

text \<open>
  The handshake replay cache (transport/replay.go). Times are nanoseconds. The map of a
  nonce set is an association list with distinct keys; when the code deletes whatever key
  its iteration yields first, the parameter evict picks the position, so that the lemmas
  hold for every iteration order. The zero time of a new set is None.
\<close>

section \<open>Nonce sets\<close>

type_synonym nonce = "byte list"

record nonceSet =
  ns_m :: "(nonce \<times> int) list"
  ns_maxEntries :: nat
  ns_lastPrune :: "int option"

definition handshakeReplayTTL :: int where "handshakeReplayTTL = 60 * 10 ^ 9"

definition newNonceSet :: "int \<Rightarrow> nonceSet" where
  "newNonceSet maxEntries =
     \<lparr>ns_m = [], ns_maxEntries = (if maxEntries \<le> 0 then 4096 else nat maxEntries), ns_lastPrune = None\<rparr>"

fun removeAt :: "nat \<Rightarrow> 'a list \<Rightarrow> 'a list" where
  "removeAt i [] = []"
| "removeAt 0 (x # xs) = xs"
| "removeAt (Suc i) (x # xs) = x # removeAt i xs"

lemma length_removeAt: "i < length xs \<Longrightarrow> length (removeAt i xs) = length xs - 1"
  by (induction i xs rule: removeAt.induct) auto

lemma set_removeAt: "set (removeAt i xs) \<subseteq> set xs"
  by (induction i xs rule: removeAt.induct) auto

lemma distinct_removeAt: "distinct (map fst m) \<Longrightarrow> distinct (map fst (removeAt i m))"
  by (induction i m rule: removeAt.induct) (use set_removeAt in fastforce)+

function evictDown :: "((nonce \<times> int) list \<Rightarrow> nat) \<Rightarrow> nat \<Rightarrow> (nonce \<times> int) list \<Rightarrow> (nonce \<times> int) list" where
  "evictDown evict maxEntries m =
     (if length m > maxEntries then evictDown evict maxEntries (removeAt (evict m mod length m) m) else m)"
  by pat_completeness auto
termination
proof (relation "measure (\<lambda>(e, k, m). length m)")
  fix evict :: "(nonce \<times> int) list \<Rightarrow> nat" and k and m :: "(nonce \<times> int) list"
  assume "k < length m"
  then have "0 < length m" by linarith
  then have "evict m mod length m < length m" by (rule mod_less_divisor)
  with \<open>0 < length m\<close> show "((evict, k, removeAt (evict m mod length m) m), (evict, k, m)) \<in> measure (\<lambda>(e, k, m). length m)"
    by (simp add: length_removeAt)
qed simp

declare evictDown.simps [simp del]

definition prune :: "((nonce \<times> int) list \<Rightarrow> nat) \<Rightarrow> int \<Rightarrow> nonceSet \<Rightarrow> nonceSet" where
  "prune evict now s =
     s\<lparr>ns_m := evictDown evict (ns_maxEntries s) (filter (\<lambda>(k, exp). now < exp) (ns_m s)),
       ns_lastPrune := Some now\<rparr>"

definition allowNonce :: "((nonce \<times> int) list \<Rightarrow> nat) \<Rightarrow> nonceSet \<Rightarrow> nonce \<Rightarrow> int \<Rightarrow> int \<Rightarrow> bool \<times> nonceSet" where
  "allowNonce evict s nonce now ttl =
     (let ttl = (if ttl \<le> 0 then 60 * 10 ^ 9 else ttl);
          due = (case ns_lastPrune s of None \<Rightarrow> True | Some t \<Rightarrow> now - t > ttl div 2);
          s = (if due \<or> length (ns_m s) > ns_maxEntries s then prune evict now s else s);
          seen = (case map_of (ns_m s) nonce of None \<Rightarrow> False | Some exp \<Rightarrow> now < exp)
      in if seen then (False, s)
         else (True, s\<lparr>ns_m := (nonce, now + ttl) # filter (\<lambda>(k, _). k \<noteq> nonce) (ns_m s)\<rparr>))"

section \<open>The per-user cache\<close>

type_synonym replayProtector = "string \<Rightarrow> nonceSet option"

definition protectorAllow ::
    "((nonce \<times> int) list \<Rightarrow> nat) \<Rightarrow> replayProtector \<Rightarrow> string \<Rightarrow> nonce \<Rightarrow> int \<Rightarrow> bool \<times> replayProtector" where
  "protectorAllow evict p userHash nonce now =
     (let userHash = (if userHash = [] then ''_'' else userHash);
          set0 = (case p userHash of None \<Rightarrow> newNonceSet 4096 | Some s \<Rightarrow> s);
          (ok, s) = allowNonce evict set0 nonce now handshakeReplayTTL
      in (ok, p(userHash \<mapsto> s)))"

section \<open>Lemmas\<close>

lemma evictDown_id: "length m \<le> k \<Longrightarrow> evictDown evict k m = m"
  by (subst evictDown.simps) simp

lemma evictDown_sub:
  "set (evictDown evict k m) \<subseteq> set m \<and> length (evictDown evict k m) \<le> min k (length m)
     \<and> (distinct (map fst m) \<longrightarrow> distinct (map fst (evictDown evict k m)))"
proof (induction evict k m rule: evictDown.induct)
  case (1 evict k m)
  show ?case
  proof (cases "k < length m")
    case True
    define m' where "m' = removeAt (evict m mod length m) m"
    have eq: "evictDown evict k m = evictDown evict k m'"
      using True by (subst evictDown.simps) (simp add: m'_def)
    have "0 < length m" using True by linarith
    then have "evict m mod length m < length m" by (rule mod_less_divisor)
    then have m': "set m' \<subseteq> set m" "length m' \<le> length m" "distinct (map fst m) \<longrightarrow> distinct (map fst m')"
      using set_removeAt [of "evict m mod length m" m] distinct_removeAt [of m]
      by (simp_all add: m'_def length_removeAt)
    from 1 [OF True] have "set (evictDown evict k m') \<subseteq> set m'" "length (evictDown evict k m') \<le> min k (length m')"
      "distinct (map fst m') \<longrightarrow> distinct (map fst (evictDown evict k m'))"
      by (simp_all add: m'_def)
    with m' show ?thesis unfolding eq by auto
  next
    case False
    then show ?thesis by (simp add: evictDown_id)
  qed
qed

text \<open>The invariant of a set: distinct nonces, at most one more than the bound.\<close>

definition nonceSetInv :: "nonceSet \<Rightarrow> bool" where
  "nonceSetInv s \<longleftrightarrow> distinct (map fst (ns_m s)) \<and> length (ns_m s) \<le> Suc (ns_maxEntries s) \<and> 0 < ns_maxEntries s"

lemma distinct_fst_filter: "distinct (map fst m) \<Longrightarrow> distinct (map fst (filter P m))"
  by (induction m) auto

lemma prune_inv:
  "distinct (map fst (ns_m s)) \<Longrightarrow> distinct (map fst (ns_m (prune evict now s)))
     \<and> length (ns_m (prune evict now s)) \<le> ns_maxEntries s \<and> ns_maxEntries (prune evict now s) = ns_maxEntries s
     \<and> set (ns_m (prune evict now s)) \<subseteq> set (ns_m s) \<and> length (ns_m (prune evict now s)) \<le> length (ns_m s)"
  using length_filter_le [of "\<lambda>(k, exp). now < exp" "ns_m s"] evictDown_sub [of evict "ns_maxEntries s" "filter (\<lambda>(k, exp). now < exp) (ns_m s)"]
    distinct_fst_filter [of "ns_m s" "\<lambda>(k, exp). now < exp"]
  by (auto simp: prune_def intro: order_trans [OF _ length_filter_le])

text \<open>The set the nonce is looked up in.\<close>

definition prunedSet :: "((nonce \<times> int) list \<Rightarrow> nat) \<Rightarrow> nonceSet \<Rightarrow> int \<Rightarrow> int \<Rightarrow> nonceSet" where
  "prunedSet evict s now ttl =
     (if (case ns_lastPrune s of None \<Rightarrow> True | Some t \<Rightarrow> now - t > ttl div 2) \<or> length (ns_m s) > ns_maxEntries s
      then prune evict now s else s)"

lemma allowNonce_eq:
  "0 < ttl \<Longrightarrow> allowNonce evict s nonce now ttl =
     (let s = prunedSet evict s now ttl in
      if (case map_of (ns_m s) nonce of None \<Rightarrow> False | Some exp \<Rightarrow> now < exp) then (False, s)
      else (True, s\<lparr>ns_m := (nonce, now + ttl) # filter (\<lambda>(k, _). k \<noteq> nonce) (ns_m s)\<rparr>))"
  by (simp add: allowNonce_def prunedSet_def Let_def)

lemma prunedSet_inv:
  assumes "nonceSetInv s"
  shows "distinct (map fst (ns_m (prunedSet evict s now ttl)))
    \<and> length (ns_m (prunedSet evict s now ttl)) \<le> ns_maxEntries s
    \<and> ns_maxEntries (prunedSet evict s now ttl) = ns_maxEntries s
    \<and> set (ns_m (prunedSet evict s now ttl)) \<subseteq> set (ns_m s)
    \<and> length (ns_m (prunedSet evict s now ttl)) \<le> length (ns_m s)"
  using assms prune_inv [of s evict now] by (auto simp: prunedSet_def nonceSetInv_def)

lemma distinct_insert_fresh:
  "distinct (map fst m) \<Longrightarrow> distinct (map fst ((k, v) # filter (\<lambda>(k', _). k' \<noteq> k) m))"
  using distinct_fst_filter [of m "\<lambda>(k', _). k' \<noteq> k"] by auto

lemma allowNonce_inv:
  assumes "nonceSetInv s" "0 < ttl"
  shows "nonceSetInv (snd (allowNonce evict s nonce now ttl))
    \<and> ns_maxEntries (snd (allowNonce evict s nonce now ttl)) = ns_maxEntries s
    \<and> length (ns_m (snd (allowNonce evict s nonce now ttl))) \<le> Suc (length (ns_m s))"
proof -
  let ?s = "prunedSet evict s now ttl"
  note p = prunedSet_inv [OF assms(1), of evict now ttl]
  have "length (filter (\<lambda>(k, _). k \<noteq> nonce) (ns_m ?s)) \<le> length (ns_m ?s)" by simp
  moreover have "length (ns_m ?s) \<le> length (ns_m s)"
    using p by blast
  ultimately show ?thesis
    using p assms(1) distinct_insert_fresh [of "ns_m ?s" nonce "now + ttl"]
    by (auto simp: allowNonce_eq [OF assms(2)] Let_def nonceSetInv_def split: if_splits
        intro: order_trans [OF length_filter_le])
qed

text \<open>A recorded nonce stays until it expires, as long as the set is not over its bound.\<close>

lemma prunedSet_keeps:
  assumes "map_of (ns_m s) n = Some exp" "now < exp" "length (ns_m s) \<le> ns_maxEntries s" "distinct (map fst (ns_m s))"
  shows "map_of (ns_m (prunedSet evict s now ttl)) n = Some exp"
proof -
  let ?f = "filter (\<lambda>(k, exp). now < exp) (ns_m s)"
  have "length ?f \<le> ns_maxEntries s" using assms(3) length_filter_le order_trans by blast
  then have "ns_m (prune evict now s) = ?f" by (simp add: prune_def evictDown_id)
  moreover have "map_of ?f n = Some exp"
    using assms(1, 2, 4) distinct_fst_filter [OF assms(4), of "\<lambda>(k, exp). now < exp"]
    by (intro map_of_is_SomeI) (auto dest: map_of_SomeD)
  ultimately show ?thesis using assms(1) by (simp add: prunedSet_def)
qed

lemma map_of_filter_ne: "n \<noteq> k \<Longrightarrow> map_of (filter (\<lambda>(k', _). k' \<noteq> k) m) n = map_of m n"
  by (induction m) auto

lemma allowNonce_keeps:
  assumes "map_of (ns_m s) n = Some exp" "now < exp" "length (ns_m s) \<le> ns_maxEntries s"
    "distinct (map fst (ns_m s))" "0 < ttl"
  shows "map_of (ns_m (snd (allowNonce evict s k now ttl))) n = Some exp
    \<and> (k = n \<longrightarrow> \<not> fst (allowNonce evict s k now ttl))"
  using prunedSet_keeps [OF assms(1-4), of evict ttl] assms(2)
  by (cases "k = n") (auto simp: allowNonce_eq [OF assms(5)] Let_def map_of_filter_ne split: option.splits)

section \<open>Runs\<close>

fun allowAll :: "((nonce \<times> int) list \<Rightarrow> nat) \<Rightarrow> nonceSet \<Rightarrow> int \<Rightarrow> (nonce \<times> int) list \<Rightarrow> nonceSet" where
  "allowAll evict s ttl [] = s"
| "allowAll evict s ttl ((n, now) # calls) = allowAll evict (snd (allowNonce evict s n now ttl)) ttl calls"

lemma allowAll_inv:
  "nonceSetInv s \<Longrightarrow> 0 < ttl \<Longrightarrow> nonceSetInv (allowAll evict s ttl calls)
     \<and> ns_maxEntries (allowAll evict s ttl calls) = ns_maxEntries s"
proof (induction calls arbitrary: s)
  case (Cons c calls)
  obtain n now where "c = (n, now)" by (cases c)
  with Cons allowNonce_inv [OF Cons.prems] show ?case by simp
qed simp

lemma allowAll_keeps:
  "nonceSetInv s \<Longrightarrow> 0 < ttl \<Longrightarrow> map_of (ns_m s) n = Some exp \<Longrightarrow> \<forall>(k, now)\<in>set calls. now < exp \<Longrightarrow>
     length (ns_m s) + length calls \<le> ns_maxEntries s \<Longrightarrow>
     map_of (ns_m (allowAll evict s ttl calls)) n = Some exp
     \<and> length (ns_m (allowAll evict s ttl calls)) \<le> ns_maxEntries s"
proof (induction calls arbitrary: s)
  case (Cons c calls)
  obtain k now where c: "c = (k, now)" by (cases c)
  let ?s = "snd (allowNonce evict s k now ttl)"
  have inv: "nonceSetInv ?s" "ns_maxEntries ?s = ns_maxEntries s" "length (ns_m ?s) \<le> Suc (length (ns_m s))"
    using allowNonce_inv [OF Cons.prems(1, 2)] by blast+
  have "map_of (ns_m ?s) n = Some exp"
    using allowNonce_keeps [OF Cons.prems(3), of now ttl evict k] Cons.prems c by (auto simp: nonceSetInv_def)
  with Cons.IH [of ?s] inv Cons.prems show ?case by (auto simp: c)
qed simp

section \<open>Properties\<close>

text \<open>C33: within its lifetime a nonce is accepted once. Once allow has accepted a nonce at
  time t0, every later call with it before t0 + ttl is refused, whatever calls with other
  nonces come between and in whatever order the map is iterated, as long as the set does
  not exceed its bound.\<close>

theorem replay_refused:
  assumes "nonceSetInv s" "0 < ttl" "allowNonce evict s n t0 ttl = (True, s1)"
    and "\<forall>(k, now)\<in>set calls. now < t0 + ttl" "length (ns_m s1) + length calls \<le> ns_maxEntries s"
    and "t1 < t0 + ttl"
  shows "fst (allowNonce evict (allowAll evict s1 ttl calls) n t1 ttl) = False"
proof -
  have s1: "nonceSetInv s1" "ns_maxEntries s1 = ns_maxEntries s" "map_of (ns_m s1) n = Some (t0 + ttl)"
    using allowNonce_inv [OF assms(1, 2), of evict n t0] assms(3)
    by (auto simp: allowNonce_eq [OF assms(2)] Let_def split: if_splits)
  let ?s = "allowAll evict s1 ttl calls"
  have "map_of (ns_m ?s) n = Some (t0 + ttl)" "length (ns_m ?s) \<le> ns_maxEntries s1"
    using allowAll_keeps [OF s1(1) assms(2) s1(3) assms(4)] assms(5) s1(2) by auto
  moreover have "nonceSetInv ?s" "ns_maxEntries ?s = ns_maxEntries s1" using allowAll_inv [OF s1(1) assms(2)] by blast+
  ultimately show ?thesis
    using allowNonce_keeps [of ?s n "t0 + ttl" t1 ttl evict n] assms(2, 6) by (simp add: nonceSetInv_def)
qed

theorem replay_refused_witness:
  "let s = newNonceSet 8; e = (\<lambda>_. 0); s1 = snd (allowNonce e s [1] 100 50) in
   fst (allowNonce e s [1] 100 50) \<and> \<not> fst (allowNonce e (allowAll e s1 50 [([2], 110), ([3], 140)]) [1] 149 50)"
proof -
  let ?s = "newNonceSet 8" and ?e = "\<lambda>_ :: (nonce \<times> int) list. 0 :: nat"
  let ?s1 = "\<lparr>ns_m = [([1], 150)], ns_maxEntries = 8, ns_lastPrune = Some 100\<rparr>"
  have a: "allowNonce ?e ?s [1] 100 50 = (True, ?s1)" by code_simp
  have inv: "nonceSetInv ?s" by (simp add: nonceSetInv_def newNonceSet_def)
  from replay_refused [OF inv _ a, of "[([2], 110), ([3], 140)]" 149] a show ?thesis
    by (simp add: newNonceSet_def Let_def)
qed

text \<open>The cache never refuses a fresh nonce: a refused nonce is recorded with an expiry
  that lies after the call, and an accepted one is recorded with the full lifetime.\<close>

lemma allow_exact:
  assumes "nonceSetInv s" "0 < ttl"
  shows "if fst (allowNonce evict s n now ttl)
    then map_of (ns_m (snd (allowNonce evict s n now ttl))) n = Some (now + ttl)
    else (\<exists>exp. (n, exp) \<in> set (ns_m s) \<and> now < exp)"
  using prunedSet_inv [OF assms(1), of evict now ttl]
  by (auto simp: allowNonce_eq [OF assms(2)] Let_def split: option.splits dest!: map_of_SomeD)

text \<open>The memory of the cache is bounded: after any sequence of calls a set holds at most
  one nonce more than its bound, whatever order the evictions take.\<close>

lemma nonce_set_bounded:
  assumes "0 < ttl"
  shows "length (ns_m (allowAll evict (newNonceSet k) ttl calls)) \<le> Suc (if k \<le> 0 then 4096 else nat k)"
proof -
  have "nonceSetInv (newNonceSet k)" by (simp add: nonceSetInv_def newNonceSet_def)
  from allowAll_inv [OF this assms, of evict calls] show ?thesis
    by (auto simp: nonceSetInv_def newNonceSet_def split: if_splits)
qed

end
