(* ===== verification/Record_Conn.thy ===== *)
theory Record_Conn
  imports Conn_Util Byte_Stream
begin

text \<open>
  The framed AEAD connection (transport/crypto/record\_conn.go): records with a
  deterministic nonce of epoch and sequence number, per-direction key rotation, strict
  ordering on receive.

  The ciphers and HMAC are the parameter record cryptoLib; a cipher is a pair of functions
  with its overhead. The system's random source is the list of the bytes it still delivers
  (its end is a read error); KeyUpdateAfterBytes is the parameter ku. The reusable buffers
  readFrame and writeFrame only hold what is modelled by the values computed in them.
\<close>

section \<open>State\<close>

record aead =
  seal :: "byte list \<Rightarrow> byte list \<Rightarrow> byte list \<Rightarrow> byte list"
  unseal :: "byte list \<Rightarrow> byte list \<Rightarrow> byte list \<Rightarrow> byte list option"
  overhead :: nat

record cryptoLib =
  hmacSha256 :: "byte list \<Rightarrow> byte list \<Rightarrow> byte list"
  newGCM :: "byte list \<Rightarrow> (aead \<times> nat) option"
  newChaCha :: "byte list \<Rightarrow> (aead \<times> nat) option"

datatype recordError = RecNilConn | InvalidBaseKey nat | RandFailed | CipherError
  | UnexpectedNonceSize nat | UnsupportedCipher string | FrameSizeTooSmall | RecFrameTooLarge
  | RecFrameTooShort | ReplayedEpoch u32 u32 | OutOfOrder u32 u64 u64 | EpochJumpTooLarge u32
  | DecryptionFailed u32 u64 | RecIO ioerr

definition recordHeaderSize :: nat where "recordHeaderSize = 12"
definition maxFrameBodySize :: nat where "maxFrameBodySize = 65535"

record RecordConn =
  rc_writer :: writer
  rc_source :: source
  rc_method :: string
  rc_baseSend :: "byte list"
  rc_baseRecv :: "byte list"
  rc_sendAEAD :: "aead option"
  rc_sendAEADEpoch :: u32
  rc_recvAEAD :: "aead option"
  rc_recvAEADEpoch :: u32
  rc_sendEpoch :: u32
  rc_sendSeq :: u64
  rc_sendBytes :: int
  rc_sendEpochUpdates :: u32
  rc_recvEpoch :: u32
  rc_recvSeq :: u64
  rc_recvInitialized :: bool
  rc_readPlain :: "byte list"
  rc_readOff :: nat
  rc_rand :: "byte list"

section \<open>Construction and keys\<close>

definition normalizeAEADMethod :: "string \<Rightarrow> string" where
  "normalizeAEADMethod method =
     (if method = [] \<or> method = ''chacha20-poly1305'' then ''chacha20-poly1305''
      else if method = ''aes-128-gcm'' \<or> method = ''none'' then method
      else method)"

definition validateBaseKey :: "byte list \<Rightarrow> recordError option" where
  "validateBaseKey b = (if length b < 32 then Some (InvalidBaseKey (length b)) else None)"

text \<open>Rejection sampling from the random source: 0 and the largest value are drawn again.\<close>

function randomNonZeroUint32 :: "byte list \<Rightarrow> recordError + (u32 \<times> byte list)" where
  "randomNonZeroUint32 r =
     (case readFull 4 r of
        Inl _ \<Rightarrow> Inl RandFailed
      | Inr (b, r') \<Rightarrow>
          let v = bigEndianUint32 b in
          if v \<noteq> 0 \<and> v \<noteq> - 1 then Inr (v, r') else randomNonZeroUint32 r')"
  by pat_completeness auto
termination
  by (relation "measure length") (auto simp: readFull_def split: if_splits)

function randomNonZeroUint64 :: "byte list \<Rightarrow> recordError + (u64 \<times> byte list)" where
  "randomNonZeroUint64 r =
     (case readFull 8 r of
        Inl _ \<Rightarrow> Inl RandFailed
      | Inr (b, r') \<Rightarrow>
          let v = bigEndianUint64 b in
          if v \<noteq> 0 \<and> v \<noteq> - 1 then Inr (v, r') else randomNonZeroUint64 r')"
  by pat_completeness auto
termination
  by (relation "measure length") (auto simp: readFull_def split: if_splits)

declare randomNonZeroUint32.simps [simp del] randomNonZeroUint64.simps [simp del]

definition randomRecordCounters :: "byte list \<Rightarrow> recordError + (u32 \<times> u64 \<times> byte list)" where
  "randomRecordCounters r =
     bindE (randomNonZeroUint32 r) (\<lambda>(epoch, r).
     bindE (randomNonZeroUint64 r) (\<lambda>(sq, r). Inr (epoch, sq, r)))"

definition resetTrafficState :: "RecordConn \<Rightarrow> recordError + RecordConn" where
  "resetTrafficState c =
     bindE (randomRecordCounters (rc_rand c)) (\<lambda>(epoch, sq, r).
       Inr (c\<lparr>rc_sendEpoch := epoch, rc_sendSeq := sq, rc_sendBytes := 0, rc_sendEpochUpdates := 0,
              rc_recvEpoch := 0, rc_recvSeq := 0, rc_recvInitialized := False, rc_rand := r\<rparr>))"

definition validateBaseKeys :: "string \<Rightarrow> byte list \<Rightarrow> byte list \<Rightarrow> recordError option" where
  "validateBaseKeys method baseSend baseRecv =
     (if method \<noteq> ''none'' then
        (case validateBaseKey baseSend of Some e \<Rightarrow> Some e | None \<Rightarrow> validateBaseKey baseRecv)
      else None)"

definition NewRecordConn ::
    "(writer \<times> source) option \<Rightarrow> byte list \<Rightarrow> string \<Rightarrow> byte list \<Rightarrow> byte list \<Rightarrow> recordError + RecordConn" where
  "NewRecordConn conn rand method baseSend baseRecv =
     (case conn of
        None \<Rightarrow> Inl RecNilConn
      | Some (w, s) \<Rightarrow>
          let method = normalizeAEADMethod method in
          (case validateBaseKeys method baseSend baseRecv of
             Some e \<Rightarrow> Inl e
           | None \<Rightarrow> resetTrafficState
               \<lparr>rc_writer = w, rc_source = s, rc_method = method, rc_baseSend = baseSend, rc_baseRecv = baseRecv,
                rc_sendAEAD = None, rc_sendAEADEpoch = 0, rc_recvAEAD = None, rc_recvAEADEpoch = 0,
                rc_sendEpoch = 0, rc_sendSeq = 0, rc_sendBytes = 0, rc_sendEpochUpdates = 0,
                rc_recvEpoch = 0, rc_recvSeq = 0, rc_recvInitialized = False,
                rc_readPlain = [], rc_readOff = 0, rc_rand = rand\<rparr>))"

definition Rekey :: "RecordConn \<Rightarrow> byte list \<Rightarrow> byte list \<Rightarrow> recordError option \<times> RecordConn" where
  "Rekey c baseSend baseRecv =
     (case validateBaseKeys (rc_method c) baseSend baseRecv of
        Some e \<Rightarrow> (Some e, c)
      | None \<Rightarrow>
          let c1 = c\<lparr>rc_baseSend := baseSend, rc_baseRecv := baseRecv\<rparr> in
          (case resetTrafficState c1 of
             Inl e \<Rightarrow> (Some e, c1)
           | Inr c2 \<Rightarrow> (None, c2\<lparr>rc_readPlain := [], rc_readOff := 0, rc_sendAEAD := None, rc_recvAEAD := None,
                             rc_sendAEADEpoch := 0, rc_recvAEADEpoch := 0\<rparr>)))"

definition deriveEpochKey :: "cryptoLib \<Rightarrow> byte list \<Rightarrow> u32 \<Rightarrow> string \<Rightarrow> byte list" where
  "deriveEpochKey cl base epoch method =
     hmacSha256 cl base (map (\<lambda>c. word_of_nat (of_char c)) (''sudoku-record:'' @ method) @ putUint32 epoch)"

definition newAEADFor :: "cryptoLib \<Rightarrow> string \<Rightarrow> byte list \<Rightarrow> u32 \<Rightarrow> recordError + aead option" where
  "newAEADFor cl method base epoch =
     (if method = ''none'' then Inr None
      else let key = deriveEpochKey cl base epoch method in
        if method = ''aes-128-gcm'' then
          (case newGCM cl (take 16 key) of
             None \<Rightarrow> Inl CipherError
           | Some (a, ns) \<Rightarrow> if ns \<noteq> recordHeaderSize then Inl (UnexpectedNonceSize ns) else Inr (Some a))
        else if method = ''chacha20-poly1305'' then
          (case newChaCha cl (take 32 key) of
             None \<Rightarrow> Inl CipherError
           | Some (a, ns) \<Rightarrow> if ns \<noteq> recordHeaderSize then Inl (UnexpectedNonceSize ns) else Inr (Some a))
        else Inl (UnsupportedCipher method))"

section \<open>Sending\<close>

definition maybeBumpSendEpoch :: "int \<Rightarrow> RecordConn \<Rightarrow> nat \<Rightarrow> recordError option \<times> RecordConn" where
  "maybeBumpSendEpoch ku c addedPlain =
     (if ku \<le> 0 \<or> rc_method c = ''none'' then (None, c)
      else
        let c = c\<lparr>rc_sendBytes := i64 (rc_sendBytes c + int addedPlain)\<rparr>;
            threshold = i64 (ku * uint (rc_sendEpochUpdates c + 1)) in
        if rc_sendBytes c < threshold then (None, c)
        else
          let c = c\<lparr>rc_sendEpoch := rc_sendEpoch c + 1, rc_sendEpochUpdates := rc_sendEpochUpdates c + 1\<rparr> in
          (case randomNonZeroUint64 (rc_rand c) of
             Inl e \<Rightarrow> (Some e, c\<lparr>rc_rand := []\<rparr>)
           | Inr (nextSeq, r) \<Rightarrow> (None, c\<lparr>rc_sendSeq := nextSeq, rc_rand := r\<rparr>)))"

text \<open>The cipher of the current send epoch, from the cache or new.\<close>

definition sendCipher :: "cryptoLib \<Rightarrow> RecordConn \<Rightarrow> recordError + (aead option \<times> RecordConn)" where
  "sendCipher cl c =
     (if rc_sendAEAD c = None \<or> rc_sendAEADEpoch c \<noteq> rc_sendEpoch c then
        bindE (newAEADFor cl (rc_method c) (rc_baseSend c) (rc_sendEpoch c)) (\<lambda>a.
          Inr (a, c\<lparr>rc_sendAEAD := a, rc_sendAEADEpoch := rc_sendEpoch c\<rparr>))
      else Inr (rc_sendAEAD c, c))"

definition recordSize :: "nat \<Rightarrow> byte list list \<Rightarrow> nat \<Rightarrow> nat" where
  "recordSize maxPlain buffers offset =
     foldl (\<lambda>n b. if n < maxPlain then n + min (length b) (maxPlain - n) else n)
       (min (length (hd buffers) - offset) maxPlain) (tl buffers)"

text \<open>Copying n bytes that cross slice boundaries; a finished slice is left behind.\<close>

fun gather :: "nat \<Rightarrow> byte list list \<Rightarrow> nat \<Rightarrow> byte list \<times> byte list list \<times> nat" where
  "gather 0 buffers offset = ([], buffers, offset)"
| "gather (Suc n) [] offset = ([], [], offset)"
| "gather (Suc n) (b # bs) offset =
     (let used = min (Suc n) (length b - offset); piece = take used (drop offset b); offset = offset + used in
      if offset = length b then
        let (rest, bs', o') = gather (Suc n - used) bs 0 in (piece @ rest, bs', o')
      else (piece, b # bs, offset))"

text \<open>The plaintext of the next record: a part of the first slice, or gathered from several.\<close>

definition cutChunk :: "nat \<Rightarrow> byte list list \<Rightarrow> nat \<Rightarrow> byte list \<times> byte list list \<times> nat" where
  "cutChunk n buffers offset =
     (let chunk = drop offset (hd buffers) in
      if length chunk \<ge> n then (take n chunk, buffers, offset + n) else gather n buffers offset)"

definition recordHeader :: "u32 \<Rightarrow> u64 \<Rightarrow> byte list" where
  "recordHeader epoch sq = putUint32 epoch @ putUint64 sq"

definition recordFrame :: "aead \<Rightarrow> u32 \<Rightarrow> u64 \<Rightarrow> byte list \<Rightarrow> byte list" where
  "recordFrame a epoch sq plain =
     (let header = recordHeader epoch sq
      in putUint16 (word_of_nat (recordHeaderSize + length plain + overhead a)) @ header @ seal a header plain header)"

partial_function (option) writeRecords ::
    "cryptoLib \<Rightarrow> int \<Rightarrow> RecordConn \<Rightarrow> byte list list \<Rightarrow> nat \<Rightarrow> nat \<Rightarrow> (nat \<times> recordError option \<times> RecordConn) option" where
  "writeRecords cl ku c buffers offset tot =
     (case buffers of
        [] \<Rightarrow> Some (tot, None, c)
      | b # bs \<Rightarrow>
          if offset = length b then writeRecords cl ku c bs 0 tot
          else (case sendCipher cl c of
              Inl e \<Rightarrow> Some (tot, Some e, c)
            | Inr (cipher, c) \<Rightarrow>
                (case cipher of
                   None \<Rightarrow> None
                 | Some a \<Rightarrow>
                     let maxPlain = maxFrameBodySize - recordHeaderSize - overhead a in
                     if maxPlain = 0 then Some (tot, Some FrameSizeTooSmall, c)
                     else
                       let n = recordSize maxPlain buffers offset in
                       if recordHeaderSize + (n + overhead a) > maxFrameBodySize then Some (tot, Some RecFrameTooLarge, c)
                       else
                         let epoch = rc_sendEpoch c; sq = rc_sendSeq c;
                             c = c\<lparr>rc_sendSeq := sq + 1\<rparr>;
                             (chunk, buffers, offset) = cutChunk n buffers offset in
                         (case WriteFull (rc_writer c) (recordFrame a epoch sq chunk) of
                            (Some e, w) \<Rightarrow> Some (tot, Some (RecIO e), c\<lparr>rc_writer := w\<rparr>)
                          | (None, w) \<Rightarrow>
                              (case maybeBumpSendEpoch ku (c\<lparr>rc_writer := w\<rparr>) n of
                                 (Some e, c) \<Rightarrow> Some (tot + n, Some e, c)
                               | (None, c) \<Rightarrow> writeRecords cl ku c buffers offset (tot + n))))))"

declare writeRecords.simps [code]

definition recWriteBuffers ::
    "cryptoLib \<Rightarrow> int \<Rightarrow> RecordConn \<Rightarrow> byte list list \<Rightarrow> (nat \<times> recordError option \<times> RecordConn) option" where
  "recWriteBuffers cl ku c buffers =
     (if rc_method c = ''none'' then
        (case WriteBuffers (rc_writer c) buffers of
           (n, err, w) \<Rightarrow> Some (n, map_option RecIO err, c\<lparr>rc_writer := w\<rparr>))
      else writeRecords cl ku c buffers 0 0)"

definition recWrite ::
    "cryptoLib \<Rightarrow> int \<Rightarrow> RecordConn \<Rightarrow> byte list \<Rightarrow> (int \<times> recordError option \<times> RecordConn) option" where
  "recWrite cl ku c p =
     (if rc_method c = ''none'' then
        (case connWrite (rc_writer c) p of
           ((n, err), w) \<Rightarrow> Some (n, map_option RecIO err, c\<lparr>rc_writer := w\<rparr>))
      else map_option (\<lambda>(n, err, c). (int n, err, c)) (writeRecords cl ku c [p] 0 0))"

section \<open>Receiving\<close>

text \<open>io.ReadFull on a network source: the bytes, or the error after a short read.\<close>

fun takeChunks :: "nat \<Rightarrow> byte list list \<Rightarrow> byte list \<times> byte list list" where
  "takeChunks n [] = ([], [])"
| "takeChunks n (c # cs) =
     (if n = 0 then ([], c # cs)
      else if length c \<le> n then let (b, cs') = takeChunks (n - length c) cs in (c @ b, cs')
      else (take n c, drop n c # cs))"

definition readFullSource :: "nat \<Rightarrow> source \<Rightarrow> (ioerr + byte list) \<times> source" where
  "readFullSource n s =
     (let (b, cs) = takeChunks n (src_chunks s); s' = s\<lparr>src_chunks := cs\<rparr> in
      if length b = n then (Inr b, s')
      else (Inl (if src_final s = EOF \<and> b \<noteq> [] then ErrUnexpectedEOF else src_final s), s'))"

definition hasPendingPlain :: "RecordConn \<Rightarrow> bool" where
  "hasPendingPlain c \<longleftrightarrow> rc_readOff c < length (rc_readPlain c)"

definition drainPlain :: "RecordConn \<Rightarrow> nat \<Rightarrow> byte list \<times> RecordConn" where
  "drainPlain c plen =
     (let out = take plen (drop (rc_readOff c) (rc_readPlain c)); off = rc_readOff c + length out in
      if off \<ge> length (rc_readPlain c) then (out, c\<lparr>rc_readPlain := [], rc_readOff := 0\<rparr>)
      else (out, c\<lparr>rc_readOff := off\<rparr>))"

definition checkOrder :: "RecordConn \<Rightarrow> u32 \<Rightarrow> u64 \<Rightarrow> recordError option" where
  "checkOrder c epoch sq =
     (if rc_recvInitialized c then
        if epoch < rc_recvEpoch c then Some (ReplayedEpoch epoch (rc_recvEpoch c))
        else if epoch = rc_recvEpoch c \<and> sq \<noteq> rc_recvSeq c then Some (OutOfOrder epoch sq (rc_recvSeq c))
        else if epoch > rc_recvEpoch c \<and> epoch - rc_recvEpoch c > 8 then Some (EpochJumpTooLarge (epoch - rc_recvEpoch c))
        else None
      else None)"

definition recvCipher :: "cryptoLib \<Rightarrow> RecordConn \<Rightarrow> u32 \<Rightarrow> recordError + (aead option \<times> RecordConn)" where
  "recvCipher cl c epoch =
     (if rc_recvAEAD c = None \<or> rc_recvAEADEpoch c \<noteq> epoch then
        bindE (newAEADFor cl (rc_method c) (rc_baseRecv c) epoch) (\<lambda>a.
          Inr (a, c\<lparr>rc_recvAEAD := a, rc_recvAEADEpoch := epoch\<rparr>))
      else Inr (rc_recvAEAD c, c))"

text \<open>A record whose body has been read: the checks, the decryption and the delivery. A nil
  cipher would be dereferenced (None).\<close>

definition acceptRecord :: "cryptoLib \<Rightarrow> RecordConn \<Rightarrow> byte list \<Rightarrow> nat \<Rightarrow> ((recordError + byte list) \<times> RecordConn) option" where
  "acceptRecord cl c body plen =
     (let header = take recordHeaderSize body; ciphertext = drop recordHeaderSize body;
          epoch = bigEndianUint32 (take 4 header); sq = bigEndianUint64 (drop 4 header) in
      case checkOrder c epoch sq of
        Some e \<Rightarrow> Some (Inl e, c)
      | None \<Rightarrow>
          (case recvCipher cl c epoch of
             Inl e \<Rightarrow> Some (Inl e, c)
           | Inr (None, c) \<Rightarrow> None
           | Inr (Some a, c) \<Rightarrow>
               (case unseal a header ciphertext header of
                  None \<Rightarrow> Some (Inl (DecryptionFailed epoch sq), c)
                | Some plaintext \<Rightarrow>
                    let c = c\<lparr>rc_recvEpoch := epoch, rc_recvSeq := sq + 1, rc_recvInitialized := True\<rparr> in
                    if overhead a \<le> length ciphertext \<and> plen \<ge> length ciphertext - overhead a
                    then Some (Inr plaintext, c)
                    else let (out, c) = drainPlain (c\<lparr>rc_readPlain := plaintext, rc_readOff := 0\<rparr>) plen
                         in Some (Inr out, c))))"

definition readLocked :: "cryptoLib \<Rightarrow> RecordConn \<Rightarrow> nat \<Rightarrow> ((recordError + byte list) \<times> RecordConn) option" where
  "readLocked cl c plen =
     (if hasPendingPlain c then let (out, c) = drainPlain c plen in Some (Inr out, c)
      else
        (case readFullSource 2 (rc_source c) of
           (Inl e, s) \<Rightarrow> Some (Inl (RecIO e), c\<lparr>rc_source := s\<rparr>)
         | (Inr len, s) \<Rightarrow>
             let c = c\<lparr>rc_source := s\<rparr>; bodyLen = unat (bigEndianUint16 len) in
             if bodyLen < recordHeaderSize then Some (Inl RecFrameTooShort, c)
             else if bodyLen > maxFrameBodySize then Some (Inl RecFrameTooLarge, c)
             else
               (case readFullSource bodyLen (rc_source c) of
                  (Inl e, s) \<Rightarrow> Some (Inl (RecIO e), c\<lparr>rc_source := s\<rparr>)
                | (Inr body, s) \<Rightarrow> acceptRecord cl (c\<lparr>rc_source := s\<rparr>) body plen)))"

definition recRead :: "cryptoLib \<Rightarrow> RecordConn \<Rightarrow> nat \<Rightarrow> ((recordError + byte list) \<times> RecordConn) option" where
  "recRead cl c plen =
     (if plen = 0 then Some (Inr [], c)
      else if rc_method c = ''none'' then
        (case connRead (rc_source c) plen of
           (b, None, s) \<Rightarrow> Some (Inr b, c\<lparr>rc_source := s\<rparr>)
         | (b, Some e, s) \<Rightarrow> Some (Inl (RecIO e), c\<lparr>rc_source := s\<rparr>))
      else readLocked cl c plen)"


section \<open>Copying to a writer\<close>

text \<open>WriteTo forwards the plaintext of each record from the record buffer; io.EOF is its
  normal end. A destination that reports an impossible count is treated as having written
  nothing.\<close>

definition forwardPending :: "RecordConn \<Rightarrow> writer \<Rightarrow> nat \<times> ioerr option \<times> RecordConn \<times> writer" where
  "forwardPending c w =
     (let p = drop (rc_readOff c) (rc_readPlain c);
          ((n, err), w) = connWrite w p;
          (n, err) = (if n < 0 \<or> n > int (length p) then (0, Some ErrShortWrite) else (nat n, err));
          err = (if n < length p \<and> err = None then Some ErrShortWrite else err);
          c = c\<lparr>rc_readOff := rc_readOff c + n\<rparr>;
          c = (if \<not> hasPendingPlain c then c\<lparr>rc_readPlain := [], rc_readOff := 0\<rparr> else c)
      in (n, err, c, w))"

partial_function (option) recWriteTo ::
    "cryptoLib \<Rightarrow> RecordConn \<Rightarrow> writer \<Rightarrow> nat \<Rightarrow> (nat \<times> recordError option \<times> RecordConn \<times> writer) option" where
  "recWriteTo cl c w tot =
     (if \<not> hasPendingPlain c then
        (case readLocked cl c 0 of
           None \<Rightarrow> None
         | Some (Inl e, c) \<Rightarrow> Some (tot, if e = RecIO EOF then None else Some e, c, w)
         | Some (Inr _, c) \<Rightarrow>
             if \<not> hasPendingPlain c then recWriteTo cl c w tot
             else (case forwardPending c w of
                 (n, Some e, c, w) \<Rightarrow> Some (tot + n, Some (RecIO e), c, w)
               | (n, None, c, w) \<Rightarrow> recWriteTo cl c w (tot + n)))
      else (case forwardPending c w of
          (n, Some e, c, w) \<Rightarrow> Some (tot + n, Some (RecIO e), c, w)
        | (n, None, c, w) \<Rightarrow> recWriteTo cl c w (tot + n)))"

declare recWriteTo.simps [code]

section \<open>Cutting the plaintext into records\<close>

text \<open>The bytes the slices still hold from an offset into the first one.\<close>

definition remaining :: "byte list list \<Rightarrow> nat \<Rightarrow> byte list" where
  "remaining buffers offset = drop offset (concat buffers)"

definition validPos :: "byte list list \<Rightarrow> nat \<Rightarrow> bool" where
  "validPos buffers offset \<longleftrightarrow> offset \<le> (case buffers of [] \<Rightarrow> 0 | b # _ \<Rightarrow> length b)"

lemma recordSize_rest:
  "n \<le> m \<Longrightarrow> foldl (\<lambda>n b. if n < m then n + min (length b) (m - n) else n) n bs = min m (n + length (concat bs))"
  by (induction bs arbitrary: n) (auto simp: min_def)

lemma recordSize_eq:
  assumes "validPos (b # bs) offset"
  shows "recordSize m (b # bs) offset = min m (length (remaining (b # bs) offset))"
  using assms recordSize_rest [of "min (length b - offset) m" m bs]
  by (auto simp: recordSize_def remaining_def validPos_def min_def)

lemma gather_eq:
  "validPos buffers offset \<Longrightarrow> n \<le> length (remaining buffers offset) \<Longrightarrow>
     \<exists>bs o'. gather n buffers offset = (take n (remaining buffers offset), bs, o') \<and> validPos bs o'
       \<and> remaining bs o' = drop n (remaining buffers offset) \<and> length bs \<le> length buffers"
proof (induction n buffers offset rule: gather.induct)
  case (3 n b bs offset)
  define used where "used = min (Suc n) (length b - offset)"
  show ?case
  proof (cases "offset + used = length b")
    case True
    have "validPos bs 0" "Suc n - used \<le> length (remaining bs 0)"
      using 3 True by (auto simp: validPos_def remaining_def used_def)
    with 3(1) [OF used_def refl refl] True obtain bs' o' where
      "gather (Suc n - used) bs 0 = (take (Suc n - used) (remaining bs 0), bs', o')" "validPos bs' o'"
      "remaining bs' o' = drop (Suc n - used) (remaining bs 0)" "length bs' \<le> length bs" by auto
    moreover have "take (Suc n) (remaining (b # bs) offset)
        = take used (drop offset b) @ take (Suc n - used) (remaining bs 0)"
      "drop (Suc n) (remaining (b # bs) offset) = drop (Suc n - used) (remaining bs 0)"
      using 3(2) True by (auto simp: remaining_def used_def validPos_def)
    ultimately show ?thesis using True by (auto simp: Let_def used_def [symmetric] simp del: drop_append)
  next
    case False
    then have "used = Suc n" "offset + Suc n < length b" using 3(2) by (auto simp: used_def validPos_def min_def split: if_splits)
    then show ?thesis using False by (auto simp: Let_def used_def [symmetric] remaining_def validPos_def add.commute)
  qed
qed (auto simp: remaining_def)


lemma cutChunk_eq:
  assumes "validPos buffers offset" "buffers \<noteq> []" "n \<le> length (remaining buffers offset)"
  shows "\<exists>bs o'. cutChunk n buffers offset = (take n (remaining buffers offset), bs, o') \<and> validPos bs o'
    \<and> remaining bs o' = drop n (remaining buffers offset) \<and> length bs \<le> length buffers"
proof (cases "length (drop offset (hd buffers)) \<ge> n")
  case True
  then show ?thesis using assms
    by (cases buffers) (auto simp: cutChunk_def remaining_def validPos_def add.commute Let_def)
next
  case False
  then show ?thesis using gather_eq [OF assms(1, 3)] by (auto simp: cutChunk_def Let_def)
qed

section \<open>Sequences of records\<close>

text \<open>Documented behaviour of the ciphers: every epoch has one, its overhead leaves room for a
  plaintext, the ciphertext is the overhead longer than the plaintext, and opening inverts
  sealing.\<close>

definition soundCipher :: "cryptoLib \<Rightarrow> string \<Rightarrow> byte list \<Rightarrow> bool" where
  "soundCipher cl method base \<longleftrightarrow>
     (\<forall>epoch. \<exists>a. newAEADFor cl method base epoch = Inr (Some a) \<and> overhead a < maxFrameBodySize - recordHeaderSize
        \<and> (\<forall>n p ad. length (seal a n p ad) = length p + overhead a \<and> unseal a n (seal a n p ad) ad = Some p))"

type_synonym plainRecord = "u32 \<times> u64 \<times> byte list"

text \<open>The position (epoch, sequence number) of a record may follow the position expected next:
  the same, or a later epoch that is not too far.\<close>

definition follows :: "u32 \<times> u64 \<Rightarrow> u32 \<times> u64 \<Rightarrow> bool" where
  "follows pos nxt \<longleftrightarrow> fst nxt = fst pos \<and> snd nxt = snd pos \<or> fst pos < fst nxt \<and> fst nxt - fst pos \<le> 8"

fun orderly :: "u32 \<times> u64 \<Rightarrow> plainRecord list \<Rightarrow> u32 \<times> u64 \<Rightarrow> bool" where
  "orderly pos [] pos' \<longleftrightarrow> pos' = pos"
| "orderly pos ((e, s, p) # rs) pos' \<longleftrightarrow> follows pos (e, s) \<and> orderly (e, s + 1) rs pos'"

definition recordsPlain :: "plainRecord list \<Rightarrow> byte list" where
  "recordsPlain rs = concat (map (snd \<circ> snd) rs)"

definition cipherOf :: "cryptoLib \<Rightarrow> string \<Rightarrow> byte list \<Rightarrow> u32 \<Rightarrow> aead" where
  "cipherOf cl method base epoch =
     (case newAEADFor cl method base epoch of
        Inr (Some a) \<Rightarrow> a
      | _ \<Rightarrow> \<lparr>seal = \<lambda>n p ad. [], unseal = \<lambda>n p ad. None, overhead = 0\<rparr>)"

definition frameOf :: "cryptoLib \<Rightarrow> string \<Rightarrow> byte list \<Rightarrow> plainRecord \<Rightarrow> byte list" where
  "frameOf cl method base r =
     recordFrame (cipherOf cl method base (fst r)) (fst r) (fst (snd r)) (snd (snd r))"

definition wireOf :: "cryptoLib \<Rightarrow> string \<Rightarrow> byte list \<Rightarrow> plainRecord list \<Rightarrow> byte list" where
  "wireOf cl method base rs = concat (map (frameOf cl method base) rs)"

definition fits :: "cryptoLib \<Rightarrow> string \<Rightarrow> byte list \<Rightarrow> plainRecord \<Rightarrow> bool" where
  "fits cl method base r \<longleftrightarrow> snd (snd r) \<noteq> []
     \<and> recordHeaderSize + length (snd (snd r)) + overhead (cipherOf cl method base (fst r)) \<le> maxFrameBodySize"

lemma wireOf_simps [simp]:
  "wireOf cl m b [] = []" "wireOf cl m b (r # rs) = frameOf cl m b r @ wireOf cl m b rs"
  "wireOf cl m b (rs @ rs') = wireOf cl m b rs @ wireOf cl m b rs'"
  by (simp_all add: wireOf_def)

lemma recordsPlain_simps [simp]:
  "recordsPlain [] = []" "recordsPlain (r # rs) = snd (snd r) @ recordsPlain rs" "recordsPlain (rs @ rs') = recordsPlain rs @ recordsPlain rs'"
  by (simp_all add: recordsPlain_def)

lemma orderly_append:
  "orderly pos (rs @ rs') pos'' \<longleftrightarrow> (\<exists>pos'. orderly pos rs pos' \<and> orderly pos' rs' pos'')"
  by (induction pos rs "undefined :: u32 \<times> u64" rule: orderly.induct) auto

lemma soundCipherD:
  assumes "soundCipher cl method base"
  shows "newAEADFor cl method base epoch = Inr (Some (cipherOf cl method base epoch))"
    and "overhead (cipherOf cl method base epoch) < maxFrameBodySize - recordHeaderSize"
    and "length (seal (cipherOf cl method base epoch) n p ad) = length p + overhead (cipherOf cl method base epoch)"
    and "unseal (cipherOf cl method base epoch) n (seal (cipherOf cl method base epoch) n p ad) ad = Some p"
  using assms [unfolded soundCipher_def, rule_format, of epoch] by (auto simp: cipherOf_def)

section \<open>The sender\<close>

definition sendReady :: "cryptoLib \<Rightarrow> RecordConn \<Rightarrow> bool" where
  "sendReady cl c \<longleftrightarrow> soundCipher cl (rc_method c) (rc_baseSend c) \<and> rc_method c \<noteq> ''none'' \<and> wr_script (rc_writer c) = []
     \<and> (\<forall>a. rc_sendAEAD c = Some a \<longrightarrow> a = cipherOf cl (rc_method c) (rc_baseSend c) (rc_sendAEADEpoch c))"

text \<open>The parts of a connection that only reading, and only writing, touch.\<close>

definition recvSide :: "RecordConn \<Rightarrow> source \<times> byte list \<times> aead option \<times> u32 \<times> u32 \<times> u64 \<times> bool \<times> byte list \<times> nat" where
  "recvSide c = (rc_source c, rc_baseRecv c, rc_recvAEAD c, rc_recvAEADEpoch c, rc_recvEpoch c, rc_recvSeq c,
     rc_recvInitialized c, rc_readPlain c, rc_readOff c)"

definition sendSide :: "RecordConn \<Rightarrow> writer \<times> string \<times> byte list \<times> aead option \<times> u32 \<times> u32 \<times> u64 \<times> int \<times> u32 \<times> byte list" where
  "sendSide c = (rc_writer c, rc_method c, rc_baseSend c, rc_sendAEAD c, rc_sendAEADEpoch c, rc_sendEpoch c, rc_sendSeq c,
     rc_sendBytes c, rc_sendEpochUpdates c, rc_rand c)"

text \<open>Sending n bytes does not reach the first key update.\<close>

definition quiet :: "int \<Rightarrow> RecordConn \<Rightarrow> nat \<Rightarrow> bool" where
  "quiet ku c n \<longleftrightarrow> rc_sendEpochUpdates c = 0 \<and> 0 \<le> rc_sendBytes c \<and> rc_sendBytes c + int n < ku \<and> ku < 2 ^ 62"

definition counted :: "RecordConn \<Rightarrow> nat \<Rightarrow> RecordConn \<Rightarrow> bool" where
  "counted c n c' \<longleftrightarrow> rc_sendEpochUpdates c' = rc_sendEpochUpdates c \<and> rc_sendBytes c' = rc_sendBytes c + int n \<and> rc_rand c' = rc_rand c"

lemma maybeBump_quiet:
  assumes "quiet ku c n" "rc_method c \<noteq> ''none''" "maybeBumpSendEpoch ku c n = (err, c')"
  shows "err = None \<and> counted c n c'"
  using assms by (auto simp: maybeBumpSendEpoch_def quiet_def counted_def Let_def split: if_splits)

lemma counted_trans: "counted c n c' \<Longrightarrow> counted c' m c'' \<Longrightarrow> counted c (n + m) c''"
  by (simp add: counted_def)

lemma quiet_counted: "quiet ku c (n + m) \<Longrightarrow> counted c n c' \<Longrightarrow> quiet ku c' m"
  by (simp add: quiet_def counted_def)

text \<open>A stretch of sending from c to c': the records rs, carrying the bytes q.\<close>

definition sentAs :: "cryptoLib \<Rightarrow> RecordConn \<Rightarrow> plainRecord list \<Rightarrow> byte list \<Rightarrow> RecordConn \<Rightarrow> bool" where
  "sentAs cl c rs q c' \<longleftrightarrow> sendReady cl c' \<and> recvSide c' = recvSide c \<and> rc_method c' = rc_method c \<and> rc_baseSend c' = rc_baseSend c
     \<and> wr_out (rc_writer c') = wr_out (rc_writer c) @ wireOf cl (rc_method c) (rc_baseSend c) rs
     \<and> recordsPlain rs = q \<and> (\<forall>r\<in>set rs. fits cl (rc_method c) (rc_baseSend c) r)
     \<and> unat (rc_sendEpoch c') \<le> unat (rc_sendEpoch c) + length q
     \<and> (\<forall>pos. follows pos (rc_sendEpoch c, rc_sendSeq c) \<longrightarrow>
          (\<exists>pos'. orderly pos rs pos' \<and> follows pos' (rc_sendEpoch c', rc_sendSeq c')))"

lemma sentAs_Nil: "sendReady cl c \<Longrightarrow> sentAs cl c [] [] c"
  by (auto simp: sentAs_def)

lemma sentAs_trans:
  assumes "sentAs cl c rs q c'" "sentAs cl c' rs' q' c''"
  shows "sentAs cl c (rs @ rs') (q @ q') c''"
proof -
  have "\<exists>pos'. orderly pos (rs @ rs') pos' \<and> follows pos' (rc_sendEpoch c'', rc_sendSeq c'')"
    if "follows pos (rc_sendEpoch c, rc_sendSeq c)" for pos
    using assms that unfolding sentAs_def orderly_append by meson
  with assms show ?thesis unfolding sentAs_def by auto
qed

lemma sendCipher_ok:
  assumes "sendReady cl c"
  shows "\<exists>c'. sendCipher cl c = Inr (Some (cipherOf cl (rc_method c) (rc_baseSend c) (rc_sendEpoch c)), c')
    \<and> sentAs cl c [] [] c' \<and> rc_sendEpoch c' = rc_sendEpoch c \<and> rc_sendSeq c' = rc_sendSeq c \<and> counted c 0 c'"
  using assms soundCipherD(1) [of cl "rc_method c" "rc_baseSend c" "rc_sendEpoch c"]
  by (cases "rc_sendAEAD c") (auto simp: sendReady_def sendCipher_def sentAs_def recvSide_def counted_def)

lemma maybeBump_ok:
  assumes "maybeBumpSendEpoch ku c n = (err, c')"
  shows "rc_method c' = rc_method c" "rc_baseSend c' = rc_baseSend c" "rc_writer c' = rc_writer c"
    "rc_sendAEAD c' = rc_sendAEAD c" "rc_sendAEADEpoch c' = rc_sendAEADEpoch c"
    "rc_sendEpoch c' = rc_sendEpoch c \<and> rc_sendSeq c' = rc_sendSeq c \<or> rc_sendEpoch c' = rc_sendEpoch c + 1"
    "recvSide c' = recvSide c"
  using assms by (auto simp: recvSide_def maybeBumpSendEpoch_def Let_def split: if_splits sum.splits)

lemma epoch_succ:
  assumes "unat (e :: u32) + n < 2 ^ 32" "0 < n"
  shows "unat (e + 1) = unat e + 1" "e < e + 1" "e + 1 - e \<le> 8"
proof -
  show "unat (e + 1) = unat e + 1" using assms by (simp add: unat_word_ariths)
  then show "e < e + 1" by (simp add: word_less_nat_alt)
  show "e + 1 - e \<le> 8" by simp
qed

text \<open>One record on a connection that accepts it, with the key update that may follow.\<close>

lemma sentAs_record:
  assumes "sendReady cl c" "fits cl (rc_method c) (rc_baseSend c) (rc_sendEpoch c, rc_sendSeq c, p)"
    and "maybeBumpSendEpoch ku (c\<lparr>rc_sendSeq := rc_sendSeq c + 1, rc_writer :=
       (rc_writer c)\<lparr>wr_out := wr_out (rc_writer c) @ frameOf cl (rc_method c) (rc_baseSend c) (rc_sendEpoch c, rc_sendSeq c, p),
         wr_calls := k\<rparr>\<rparr>) n = (err, c')"
    and "unat (rc_sendEpoch c) + length p < 2 ^ 32"
  shows "sentAs cl c [(rc_sendEpoch c, rc_sendSeq c, p)] p c'"
proof -
  note bump = maybeBump_ok [OF assms(3), simplified]
  have "p \<noteq> []" using assms(2) by (simp add: fits_def)
  then have len: "0 < length p" by simp
  note succ = epoch_succ [OF assms(4) len]
  have "unat (rc_sendEpoch c') \<le> unat (rc_sendEpoch c) + length p"
    using bump(6) succ(1) len by (elim disjE conjE) (simp_all add: Suc_leI)
  moreover have "follows (rc_sendEpoch c, rc_sendSeq c + 1) (rc_sendEpoch c', rc_sendSeq c')"
    using bump(6) succ(2, 3) by (auto simp: follows_def)
  ultimately show ?thesis using assms(1, 2) bump(1 - 5, 7)
    by (auto simp: sentAs_def sendReady_def recvSide_def)
qed

lemma frame_nonempty [simp]: "recordFrame a e s p \<noteq> []"
  by (simp add: recordFrame_def Let_def putUint16_def)

lemma writeRecords_ok:
  assumes "sendReady cl c" "validPos buffers offset"
    and "unat (rc_sendEpoch c) + length (remaining buffers offset) < 2 ^ 32"
  shows "\<exists>m err c' rs. writeRecords cl ku c buffers offset tot = Some (tot + m, err, c')
    \<and> m \<le> length (remaining buffers offset) \<and> (err = None \<longrightarrow> m = length (remaining buffers offset))
    \<and> sentAs cl c rs (take m (remaining buffers offset)) c'
    \<and> (quiet ku c (length (remaining buffers offset)) \<longrightarrow> err = None \<and> counted c m c')"
  using assms
proof (induction "length (remaining buffers offset) + length buffers" arbitrary: c buffers offset tot rule: less_induct)
  case less
  show ?case
  proof (cases buffers)
    case Nil
    then show ?thesis using less.prems sentAs_Nil
      by (intro exI [of _ 0] exI [of _ None] exI [of _ c] exI [of _ "[]"])
        (simp add: writeRecords.simps remaining_def counted_def)
  next
    case buf: (Cons b bs)
    show ?thesis
    proof (cases "offset = length b")
      case True
      then have rem: "remaining buffers offset = remaining bs 0" and "validPos bs 0"
        using buf by (simp_all add: remaining_def validPos_def)
      moreover have "writeRecords cl ku c buffers offset tot = writeRecords cl ku c bs 0 tot"
        using True buf by (subst writeRecords.simps) simp
      ultimately show ?thesis using less.hyps [of bs 0 c tot] less.prems buf by simp
    next
      case False
      then have off: "offset < length b" using less.prems(2) buf by (simp add: validPos_def)
      obtain c1 where c1: "sendCipher cl c = Inr (Some (cipherOf cl (rc_method c) (rc_baseSend c) (rc_sendEpoch c)), c1)"
        "sentAs cl c [] [] c1" "rc_sendEpoch c1 = rc_sendEpoch c" "rc_sendSeq c1 = rc_sendSeq c" "counted c 0 c1"
        using sendCipher_ok [OF less.prems(1)] by blast
      then have c1': "rc_method c1 = rc_method c" "rc_baseSend c1 = rc_baseSend c" "sendReady cl c1"
        by (simp_all add: sentAs_def)
      let ?a = "cipherOf cl (rc_method c) (rc_baseSend c) (rc_sendEpoch c)"
      define maxPlain where "maxPlain = maxFrameBodySize - recordHeaderSize - overhead ?a"
      have ov: "overhead ?a < maxFrameBodySize - recordHeaderSize"
        using soundCipherD(2) less.prems(1) by (simp add: sendReady_def)
      define q where "q = remaining buffers offset"
      define n where "n = min maxPlain (length q)"
      have "0 < length q" using off buf by (simp add: q_def remaining_def)
      then have n: "0 < n" "n \<le> length q" "0 < maxPlain" "recordHeaderSize + (n + overhead ?a) \<le> maxFrameBodySize"
        using ov by (auto simp: n_def maxPlain_def)
      have size: "recordSize maxPlain buffers offset = n"
        using recordSize_eq less.prems(2) buf by (simp add: n_def q_def)
      obtain bs' o' where cut: "cutChunk n buffers offset = (take n q, bs', o')" "validPos bs' o'"
        "remaining bs' o' = drop n q" "length bs' \<le> length buffers"
        using cutChunk_eq [OF less.prems(2)] buf n(2) unfolding q_def by blast
      let ?p = "take n q"
      let ?c2 = "c1\<lparr>rc_sendSeq := rc_sendSeq c1 + 1, rc_writer :=
        (rc_writer c1)\<lparr>wr_out := wr_out (rc_writer c1) @ frameOf cl (rc_method c1) (rc_baseSend c1) (rc_sendEpoch c1, rc_sendSeq c1, ?p),
          wr_calls := wr_calls (rc_writer c1) @ [length (frameOf cl (rc_method c1) (rc_baseSend c1) (rc_sendEpoch c1, rc_sendSeq c1, ?p))]\<rparr>\<rparr>"
      obtain err2 c3 where bump: "maybeBumpSendEpoch ku ?c2 n = (err2, c3)" by (metis prod.exhaust)
      have "fits cl (rc_method c1) (rc_baseSend c1) (rc_sendEpoch c1, rc_sendSeq c1, ?p)"
        using n c1 c1' by (auto simp: fits_def)
      moreover have "unat (rc_sendEpoch c1) + length ?p < 2 ^ 32"
        using less.prems(3) n(2) c1(3) by (simp add: q_def)
      ultimately have "sentAs cl c1 [(rc_sendEpoch c1, rc_sendSeq c1, ?p)] ?p c3"
        by (rule sentAs_record [OF c1'(3) _ bump])
      from sentAs_trans [OF c1(2) this] have sent: "sentAs cl c [(rc_sendEpoch c1, rc_sendSeq c1, ?p)] ?p c3" by simp
      have still: "err2 = None \<and> counted c n c3" if "quiet ku c n"
      proof -
        have "quiet ku ?c2 n" using that c1(5) by (simp add: quiet_def counted_def)
        moreover have "rc_method ?c2 \<noteq> ''none''" using c1'(3) by (simp add: sendReady_def)
        ultimately show ?thesis using maybeBump_quiet [OF _ _ bump] c1(5) by (simp add: counted_def)
      qed
      have quiet_n: "quiet ku c n" if "quiet ku c (length q)" using that n(2) by (simp add: quiet_def)
      have step: "writeRecords cl ku c buffers offset tot =
          (case err2 of Some e \<Rightarrow> Some (tot + n, Some e, c3) | None \<Rightarrow> writeRecords cl ku c3 bs' o' (tot + n))"
        using False buf c1(1) c1' n(4) size [unfolded maxPlain_def buf] n(3) [unfolded maxPlain_def]
          cut(1) [unfolded buf] bump [unfolded frameOf_def] c1(3, 4)
        by (subst writeRecords.simps) (simp add: sendReady_def Let_def not_less split: option.split)
      show ?thesis
      proof (cases err2)
        case (Some e)
        then show ?thesis unfolding step
          by (intro exI [of _ n] exI [of _ "Some e"] exI [of _ c3] exI)
            (use sent n(2) still quiet_n in \<open>auto simp: q_def\<close>)
      next
        case None
        have "length (remaining bs' o') + length bs' < length (remaining buffers offset) + length buffers"
          using cut n(1, 2) by (simp add: q_def [symmetric])
        moreover have "sendReady cl c3" "unat (rc_sendEpoch c3) + length (remaining bs' o') < 2 ^ 32"
          using sent less.prems(3) n(2) cut(3) by (auto simp: sentAs_def q_def)
        ultimately obtain m err c' rs where IH: "writeRecords cl ku c3 bs' o' (tot + n) = Some (tot + n + m, err, c')"
          "m \<le> length (drop n q)" "err = None \<longrightarrow> m = length (drop n q)" "sentAs cl c3 rs (take m (drop n q)) c'"
          "quiet ku c3 (length (drop n q)) \<longrightarrow> err = None \<and> counted c3 m c'"
          using less.hyps [of bs' o' c3 "tot + n"] cut(2, 3) by auto
        have "take n q @ take m (drop n q) = take (n + m) q" by (simp add: take_add)
        moreover have "err = None \<and> counted c (n + m) c'" if "quiet ku c (length q)"
        proof -
          note cnt = still [OF quiet_n [OF that]]
          have "quiet ku c3 (length (drop n q))" using quiet_counted [of ku c n "length q - n" c3] that cnt n(2) by simp
          with IH(5) cnt show ?thesis using counted_trans by blast
        qed
        ultimately show ?thesis using sentAs_trans [OF sent IH(4)] IH n(2) None unfolding step q_def [symmetric]
          by (intro exI [of _ "n + m"] exI [of _ err] exI [of _ c'] exI) (auto simp: add.assoc)
      qed
    qed
  qed
qed


section \<open>The receiver\<close>

lemma takeChunks_eq:
  "takeChunks n cs = (b, cs') \<Longrightarrow> b = take n (concat cs) \<and> concat cs' = drop n (concat cs)"
  by (induction n cs arbitrary: b cs' rule: takeChunks.induct) (auto split: if_splits prod.splits)

lemma readFullSource_ok:
  assumes "concat (src_chunks s) = b @ rest" "length b = n"
  shows "\<exists>s'. readFullSource n s = (Inr b, s') \<and> concat (src_chunks s') = rest \<and> src_final s' = src_final s"
proof -
  obtain x cs where "takeChunks n (src_chunks s) = (x, cs)" by (metis prod.exhaust)
  with takeChunks_eq [OF this] assms show ?thesis by (simp add: readFullSource_def)
qed

lemma readFullSource_end:
  assumes "concat (src_chunks s) = []" "0 < n"
  shows "\<exists>s'. readFullSource n s = (Inl (src_final s), s')"
proof -
  obtain x cs where "takeChunks n (src_chunks s) = (x, cs)" by (metis prod.exhaust)
  with takeChunks_eq [OF this] assms show ?thesis by (auto simp: readFullSource_def)
qed

definition recvReady :: "cryptoLib \<Rightarrow> RecordConn \<Rightarrow> bool" where
  "recvReady cl c \<longleftrightarrow> soundCipher cl (rc_method c) (rc_baseRecv c) \<and> rc_method c \<noteq> ''none''
     \<and> (\<forall>a. rc_recvAEAD c = Some a \<longrightarrow> a = cipherOf cl (rc_method c) (rc_baseRecv c) (rc_recvAEADEpoch c))"

definition accepts :: "RecordConn \<Rightarrow> u32 \<times> u64 \<Rightarrow> bool" where
  "accepts c nxt \<longleftrightarrow> (rc_recvInitialized c \<longrightarrow> follows (rc_recvEpoch c, rc_recvSeq c) nxt)"

lemma checkOrder_accepts: "checkOrder c epoch sq = None \<longleftrightarrow> accepts c (epoch, sq)"
  by (auto simp: checkOrder_def accepts_def follows_def)

lemma recvCipher_ok:
  assumes "recvReady cl c"
  shows "\<exists>c'. recvCipher cl c epoch = Inr (Some (cipherOf cl (rc_method c) (rc_baseRecv c) epoch), c') \<and> recvReady cl c'
    \<and> rc_method c' = rc_method c \<and> rc_baseRecv c' = rc_baseRecv c
    \<and> rc_source c' = rc_source c \<and> rc_readPlain c' = rc_readPlain c \<and> rc_readOff c' = rc_readOff c"
  using assms soundCipherD(1) [of cl "rc_method c" "rc_baseRecv c" epoch]
  by (cases "rc_recvAEAD c") (auto simp: recvReady_def recvCipher_def)

text \<open>The plaintext a connection has decrypted and not delivered.\<close>

definition pendingPlain :: "RecordConn \<Rightarrow> byte list" where
  "pendingPlain c = drop (rc_readOff c) (rc_readPlain c)"

lemma hasPendingPlain_iff: "hasPendingPlain c \<longleftrightarrow> pendingPlain c \<noteq> []"
  by (simp add: hasPendingPlain_def pendingPlain_def not_le)

lemma drainPlain_eq:
  "\<exists>pl off. drainPlain c k = (take k (pendingPlain c), c\<lparr>rc_readPlain := pl, rc_readOff := off\<rparr>)
     \<and> drop off pl = drop k (pendingPlain c)"
proof (cases "rc_readOff c + length (take k (pendingPlain c)) \<ge> length (rc_readPlain c)")
  case True
  then show ?thesis
    by (intro exI [of _ "[]"] exI [of _ 0]) (auto simp: drainPlain_def Let_def pendingPlain_def)
next
  case False
  then show ?thesis
    by (intro exI [of _ "rc_readPlain c"] exI [of _ "rc_readOff c + length (take k (pendingPlain c))"])
      (auto simp: drainPlain_def Let_def pendingPlain_def min_def add.commute)
qed

lemma recvReady_update [simp]:
  "recvReady cl (c\<lparr>rc_readPlain := pl\<rparr>) = recvReady cl c"
  "recvReady cl (c\<lparr>rc_readOff := off\<rparr>) = recvReady cl c"
  "recvReady cl (c\<lparr>rc_source := s\<rparr>) = recvReady cl c"
  "recvReady cl (c\<lparr>rc_recvEpoch := e\<rparr>) = recvReady cl c"
  "recvReady cl (c\<lparr>rc_recvSeq := sq\<rparr>) = recvReady cl c"
  "recvReady cl (c\<lparr>rc_recvInitialized := i\<rparr>) = recvReady cl c"
  by (simp_all add: recvReady_def)

lemma unat_u16: "n \<le> 65535 \<Longrightarrow> unat (word_of_nat n :: u16) = n"
  by (simp add: unat_of_nat)

lemma header_fields [simp]:
  "length (recordHeader e sq) = recordHeaderSize"
  "bigEndianUint32 (take 4 (recordHeader e sq)) = e" "bigEndianUint64 (drop 4 (recordHeader e sq)) = sq"
  by (simp_all add: recordHeader_def recordHeaderSize_def)

text \<open>After a read that took k of the bytes of a record p from c.\<close>

definition delivered :: "cryptoLib \<Rightarrow> RecordConn \<Rightarrow> u32 \<times> u64 \<Rightarrow> byte list \<Rightarrow> RecordConn \<Rightarrow> bool" where
  "delivered cl c pos rest c' \<longleftrightarrow> recvReady cl c' \<and> rc_recvInitialized c' \<and> (rc_recvEpoch c', rc_recvSeq c') = pos
     \<and> pendingPlain c' = rest \<and> rc_source c' = rc_source c \<and> rc_method c' = rc_method c \<and> rc_baseRecv c' = rc_baseRecv c"

lemma acceptRecord_ok:
  assumes "recvReady cl c" "accepts c (e, sq)" "pendingPlain c = []"
  defines "a \<equiv> cipherOf cl (rc_method c) (rc_baseRecv c) e"
  shows "\<exists>c'. acceptRecord cl c (recordHeader e sq @ seal a (recordHeader e sq) p (recordHeader e sq)) plen
      = Some (Inr (take plen p), c') \<and> delivered cl c (e, sq + 1) (drop plen p) c'"
proof -
  have snd: "soundCipher cl (rc_method c) (rc_baseRecv c)" using assms(1) by (simp add: recvReady_def)
  have check: "checkOrder c e sq = None" using assms(2) by (simp add: checkOrder_accepts)
  obtain c1 where c1: "recvCipher cl c e = Inr (Some a, c1)" "recvReady cl c1" "rc_method c1 = rc_method c"
     "rc_baseRecv c1 = rc_baseRecv c" "rc_source c1 = rc_source c" "rc_readPlain c1 = rc_readPlain c" "rc_readOff c1 = rc_readOff c"
    using recvCipher_ok [OF assms(1), of e] unfolding a_def by blast
  let ?c2 = "c1\<lparr>rc_recvEpoch := e, rc_recvSeq := sq + 1, rc_recvInitialized := True\<rparr>"
  obtain pl off where drain: "drainPlain (?c2\<lparr>rc_readPlain := p, rc_readOff := 0\<rparr>) plen
      = (take plen p, ?c2\<lparr>rc_readPlain := pl, rc_readOff := off\<rparr>)" "drop off pl = drop plen p"
    using drainPlain_eq [of "?c2\<lparr>rc_readPlain := p, rc_readOff := 0\<rparr>" plen] by (auto simp: pendingPlain_def)
  show ?thesis
  proof (cases "plen \<ge> length p")
    case True
    then show ?thesis using soundCipherD(3, 4) [OF snd, of e, folded a_def] c1 assms(3) check
      by (intro exI [of _ ?c2]) (simp add: acceptRecord_def Let_def delivered_def pendingPlain_def)
  next
    case False
    then show ?thesis using soundCipherD(3, 4) [OF snd, of e, folded a_def] c1 drain check
      by (intro exI [of _ "?c2\<lparr>rc_readPlain := pl, rc_readOff := off\<rparr>"])
        (simp add: acceptRecord_def Let_def delivered_def pendingPlain_def)
  qed
qed

lemma readLocked_ok:
  assumes "recvReady cl c" "accepts c (e, sq)" "pendingPlain c = []" "fits cl (rc_method c) (rc_baseRecv c) (e, sq, p)"
    and "concat (src_chunks (rc_source c)) = frameOf cl (rc_method c) (rc_baseRecv c) (e, sq, p) @ rest"
  shows "\<exists>s c'. readLocked cl c plen = Some (Inr (take plen p), c') \<and> concat (src_chunks s) = rest
    \<and> src_final s = src_final (rc_source c) \<and> delivered cl (c\<lparr>rc_source := s\<rparr>) (e, sq + 1) (drop plen p) c'"
proof -
  let ?a = "cipherOf cl (rc_method c) (rc_baseRecv c) e"
  let ?body = "recordHeader e sq @ seal ?a (recordHeader e sq) p (recordHeader e sq)"
  let ?n = "recordHeaderSize + length p + overhead ?a"
  have snd: "soundCipher cl (rc_method c) (rc_baseRecv c)" using assms(1) by (simp add: recvReady_def)
  have n: "?n \<le> maxFrameBodySize" "length ?body = ?n"
    using assms(4) soundCipherD(3) [OF snd] by (simp_all add: fits_def recordHeader_def recordHeaderSize_def)
  then have len: "unat (word_of_nat ?n :: u16) = ?n" unfolding maxFrameBodySize_def by (intro unat_u16)
  obtain s1 where s1: "readFullSource 2 (rc_source c) = (Inr (putUint16 (word_of_nat ?n)), s1)"
    "concat (src_chunks s1) = ?body @ rest" "src_final s1 = src_final (rc_source c)"
    using readFullSource_ok [of "rc_source c" "putUint16 (word_of_nat ?n)" "?body @ rest" 2] assms(5)
    by (auto simp: frameOf_def recordFrame_def Let_def)
  obtain s2 where s2: "readFullSource ?n s1 = (Inr ?body, s2)" "concat (src_chunks s2) = rest" "src_final s2 = src_final s1"
    using readFullSource_ok [OF s1(2) n(2)] by blast
  have "\<not> hasPendingPlain c" using assms(3) by (simp add: hasPendingPlain_iff)
  then have "readLocked cl c plen = acceptRecord cl (c\<lparr>rc_source := s2\<rparr>) ?body plen"
    using s1 s2(1) n(1) len by (simp add: readLocked_def)
  moreover have "accepts (c\<lparr>rc_source := s2\<rparr>) (e, sq)" "pendingPlain (c\<lparr>rc_source := s2\<rparr>) = []"
    using assms(2, 3) by (simp_all add: accepts_def pendingPlain_def)
  ultimately show ?thesis
    using acceptRecord_ok [of cl "c\<lparr>rc_source := s2\<rparr>" e sq p plen] assms(1) s1(3) s2(2, 3) by auto
qed


text \<open>Reading leaves the sending half alone.\<close>

lemma sendSide_update [simp]:
  "sendSide (c\<lparr>rc_readPlain := pl\<rparr>) = sendSide c" "sendSide (c\<lparr>rc_readOff := off\<rparr>) = sendSide c"
  "sendSide (c\<lparr>rc_source := s\<rparr>) = sendSide c" "sendSide (c\<lparr>rc_recvEpoch := e\<rparr>) = sendSide c"
  "sendSide (c\<lparr>rc_recvSeq := sq\<rparr>) = sendSide c" "sendSide (c\<lparr>rc_recvInitialized := i\<rparr>) = sendSide c"
  "sendSide (c\<lparr>rc_recvAEAD := a\<rparr>) = sendSide c" "sendSide (c\<lparr>rc_recvAEADEpoch := e\<rparr>) = sendSide c"
  by (simp_all add: sendSide_def)

lemma drainPlain_sendSide: "drainPlain c k = (out, c') \<Longrightarrow> sendSide c' = sendSide c \<and> rc_baseRecv c' = rc_baseRecv c"
  by (auto simp: drainPlain_def Let_def split: if_splits)

lemma acceptRecord_sendSide:
  assumes "acceptRecord cl c body plen = Some (res, c')"
  shows "sendSide c' = sendSide c \<and> rc_baseRecv c' = rc_baseRecv c"
proof -
  have cipher: "sendSide c1 = sendSide c \<and> rc_baseRecv c1 = rc_baseRecv c" if "recvCipher cl c e = Inr (a, c1)" for a c1 e
    using that by (auto simp: recvCipher_def bindE_eq_Inr split: if_splits)
  show ?thesis using assms
    by (auto simp: acceptRecord_def Let_def split: option.splits sum.splits if_splits prod.splits
        dest!: cipher drainPlain_sendSide)
qed

lemma recRead_sendSide:
  assumes "recRead cl c k = Some (res, c')"
  shows "sendSide c' = sendSide c \<and> rc_baseRecv c' = rc_baseRecv c"
proof -
  have "sendSide c' = sendSide c \<and> rc_baseRecv c' = rc_baseRecv c" if "readLocked cl c k = Some (res, c')"
    using that by (auto simp: readLocked_def Let_def split: if_splits sum.splits prod.splits
        dest!: acceptRecord_sendSide drainPlain_sendSide)
  with assms show ?thesis by (auto simp: recRead_def split: if_splits prod.splits option.splits)
qed

text \<open>A connection from which q can be read: decrypted and undelivered bytes, then records in
  order on the wire.\<close>

definition recHolds :: "cryptoLib \<Rightarrow> RecordConn \<Rightarrow> byte list \<Rightarrow> bool" where
  "recHolds cl c q \<longleftrightarrow> recvReady cl c \<and>
     (\<exists>rs pos pos'. (rc_recvInitialized c \<longrightarrow> pos = (rc_recvEpoch c, rc_recvSeq c)) \<and> orderly pos rs pos'
        \<and> (\<forall>r\<in>set rs. fits cl (rc_method c) (rc_baseRecv c) r)
        \<and> concat (src_chunks (rc_source c)) = wireOf cl (rc_method c) (rc_baseRecv c) rs
        \<and> q = pendingPlain c @ recordsPlain rs)"

lemma recHoldsE:
  assumes "recHolds cl c q"
  obtains rs pos pos' where "rc_recvInitialized c \<longrightarrow> pos = (rc_recvEpoch c, rc_recvSeq c)" "orderly pos rs pos'"
    "\<forall>r\<in>set rs. fits cl (rc_method c) (rc_baseRecv c) r" "recvReady cl c"
    "concat (src_chunks (rc_source c)) = wireOf cl (rc_method c) (rc_baseRecv c) rs" "q = pendingPlain c @ recordsPlain rs"
  using assms unfolding recHolds_def by blast

lemma recHolds_drain:
  assumes "recHolds cl c q" "pendingPlain c = x @ y" "drop off pl = y"
  shows "\<exists>q'. q = x @ q' \<and> recHolds cl (c\<lparr>rc_readPlain := pl, rc_readOff := off\<rparr>) q'"
proof -
  from assms(1) obtain rs pos pos' where rs: "rc_recvInitialized c \<longrightarrow> pos = (rc_recvEpoch c, rc_recvSeq c)" "orderly pos rs pos'"
    "\<forall>r\<in>set rs. fits cl (rc_method c) (rc_baseRecv c) r" "recvReady cl c"
    "concat (src_chunks (rc_source c)) = wireOf cl (rc_method c) (rc_baseRecv c) rs" "q = pendingPlain c @ recordsPlain rs"
    by (rule recHoldsE)
  then have "recHolds cl (c\<lparr>rc_readPlain := pl, rc_readOff := off\<rparr>) (y @ recordsPlain rs)"
    unfolding recHolds_def using assms(3)
    by (intro conjI exI [of _ rs] exI [of _ pos] exI [of _ pos']) (simp_all add: pendingPlain_def)
  with rs(6) assms(2) show ?thesis by auto
qed

lemma readLocked_holds:
  assumes "recHolds cl c q" "pendingPlain c = []" "q \<noteq> []"
  shows "\<exists>p q' c'. readLocked cl c plen = Some (Inr (take plen p), c') \<and> p \<noteq> [] \<and> q = p @ q'
    \<and> recHolds cl c' (drop plen p @ q') \<and> pendingPlain c' = drop plen p \<and> src_final (rc_source c') = src_final (rc_source c)
    \<and> length (concat (src_chunks (rc_source c'))) < length (concat (src_chunks (rc_source c))) \<and> rc_method c' = rc_method c"
proof -
  from assms(1) obtain rs pos pos' where rs: "rc_recvInitialized c \<longrightarrow> pos = (rc_recvEpoch c, rc_recvSeq c)" "orderly pos rs pos'"
    "\<forall>r\<in>set rs. fits cl (rc_method c) (rc_baseRecv c) r" "recvReady cl c"
    "concat (src_chunks (rc_source c)) = wireOf cl (rc_method c) (rc_baseRecv c) rs" "q = pendingPlain c @ recordsPlain rs"
    by (rule recHoldsE)
  with assms(2, 3) obtain e sq p rs' where Cons: "rs = (e, sq, p) # rs'" by (cases rs) auto
  have acc: "accepts c (e, sq)" using rs(1, 2) Cons by (auto simp: accepts_def)
  have wire: "fits cl (rc_method c) (rc_baseRecv c) (e, sq, p)"
    "concat (src_chunks (rc_source c)) = frameOf cl (rc_method c) (rc_baseRecv c) (e, sq, p) @ wireOf cl (rc_method c) (rc_baseRecv c) rs'"
    using rs(3, 5) Cons by simp_all
  from readLocked_ok [OF rs(4) acc assms(2) wire, of plen] obtain s c' where
    c': "readLocked cl c plen = Some (Inr (take plen p), c')" "concat (src_chunks s) = wireOf cl (rc_method c) (rc_baseRecv c) rs'"
    "src_final s = src_final (rc_source c)" "delivered cl (c\<lparr>rc_source := s\<rparr>) (e, sq + 1) (drop plen p) c'" by blast
  have "recHolds cl c' (drop plen p @ recordsPlain rs')"
    unfolding recHolds_def using c'(2, 4) rs(2, 3) Cons
    by (intro conjI exI [of _ rs'] exI [of _ "(e, sq + 1)"] exI [of _ pos']) (auto simp: delivered_def)
  moreover have "length (concat (src_chunks (rc_source c'))) < length (concat (src_chunks (rc_source c)))"
    using c'(2, 4) rs(5) Cons by (simp add: delivered_def frameOf_def)
  moreover have "p \<noteq> []" using rs(3) Cons by (simp add: fits_def)
  ultimately show ?thesis using c' rs(6) assms(2) Cons
    by (intro exI [of _ p] exI [of _ "recordsPlain rs'"] exI [of _ c']) (simp add: delivered_def)
qed

lemma recHolds_Nil:
  assumes "recHolds cl c []"
  shows "pendingPlain c = []" "concat (src_chunks (rc_source c)) = []"
proof -
  from assms obtain rs where rs: "\<forall>r\<in>set rs. fits cl (rc_method c) (rc_baseRecv c) r" "pendingPlain c = []"
    "concat (src_chunks (rc_source c)) = wireOf cl (rc_method c) (rc_baseRecv c) rs" "recordsPlain rs = []"
    unfolding recHolds_def by auto
  then have "rs = []" by (cases rs) (auto simp: fits_def)
  with rs show "pendingPlain c = []" "concat (src_chunks (rc_source c)) = []" by simp_all
qed

lemma readLocked_end:
  assumes "recHolds cl c []"
  shows "\<exists>c'. readLocked cl c plen = Some (Inl (RecIO (src_final (rc_source c))), c')"
  using recHolds_Nil [OF assms] readFullSource_end [of "rc_source c" 2]
  by (auto simp: readLocked_def hasPendingPlain_iff)

lemma recRead_pos: "0 < k \<Longrightarrow> recHolds cl c q \<Longrightarrow> recRead cl c k = readLocked cl c k"
  by (simp add: recRead_def recHolds_def recvReady_def)

interpretation rec: byte_stream "recHolds cl" "recRead cl" "\<lambda>c. RecIO (src_final (rc_source c))" for cl
proof
  fix c q and k :: nat
  assume holds: "recHolds cl c q" and "q \<noteq> []" "0 < k"
  show "\<exists>o' q' c'. recRead cl c k = Some (Inr o', c') \<and> q = o' @ q' \<and> o' \<noteq> [] \<and> length o' \<le> k
      \<and> recHolds cl c' q' \<and> RecIO (src_final (rc_source c')) = RecIO (src_final (rc_source c))"
  proof (cases "pendingPlain c = []")
    case True
    from readLocked_holds [OF holds True \<open>q \<noteq> []\<close>, of k] obtain p q' c' where
      "readLocked cl c k = Some (Inr (take k p), c')" "p \<noteq> []" "q = p @ q'" "recHolds cl c' (drop k p @ q')"
      "src_final (rc_source c') = src_final (rc_source c)" by blast
    with \<open>0 < k\<close> show ?thesis using recRead_pos [OF \<open>0 < k\<close> holds]
      by (intro exI [of _ "take k p"] exI [of _ "drop k p @ q'"] exI [of _ c']) simp
  next
    case False
    obtain pl off where drain: "drainPlain c k = (take k (pendingPlain c), c\<lparr>rc_readPlain := pl, rc_readOff := off\<rparr>)"
       "drop off pl = drop k (pendingPlain c)" using drainPlain_eq by blast
    from recHolds_drain [OF holds _ drain(2), of "take k (pendingPlain c)"] obtain q' where
      "q = take k (pendingPlain c) @ q'" "recHolds cl (c\<lparr>rc_readPlain := pl, rc_readOff := off\<rparr>) q'" by auto
    then show ?thesis using recRead_pos [OF \<open>0 < k\<close> holds] drain(1) False \<open>0 < k\<close>
      by (intro exI [of _ "take k (pendingPlain c)"] exI [of _ q'] exI [of _ "c\<lparr>rc_readPlain := pl, rc_readOff := off\<rparr>"])
        (simp add: readLocked_def hasPendingPlain_iff)
  qed
next
  fix c and k :: nat
  assume "recHolds cl c []" "0 < k"
  then show "\<exists>c'. recRead cl c k = Some (Inl (RecIO (src_final (rc_source c))), c')"
    using readLocked_end recRead_pos by metis
qed

text \<open>WriteTo drains the stream into a writer that accepts everything.\<close>

lemma forwardPending_ok:
  assumes "wr_script w = []" "hasPendingPlain c"
  shows "\<exists>w'. forwardPending c w = (length (pendingPlain c), None, c\<lparr>rc_readPlain := [], rc_readOff := 0\<rparr>, w')
    \<and> wr_out w' = wr_out w @ pendingPlain c \<and> wr_script w' = []"
  using assms by (auto simp: forwardPending_def connWrite_def pendingPlain_def hasPendingPlain_def Let_def)

lemma recWriteTo_pending:
  assumes "wr_script w = []" "hasPendingPlain c" "recHolds cl c q"
  shows "\<exists>w' q'. recWriteTo cl c w tot = recWriteTo cl (c\<lparr>rc_readPlain := [], rc_readOff := 0\<rparr>) w' (tot + length (pendingPlain c))
    \<and> q = pendingPlain c @ q' \<and> wr_out w' = wr_out w @ pendingPlain c \<and> wr_script w' = []
    \<and> recHolds cl (c\<lparr>rc_readPlain := [], rc_readOff := 0\<rparr>) q'"
proof -
  let ?c = "c\<lparr>rc_readPlain := [], rc_readOff := 0\<rparr>"
  obtain w' where w': "forwardPending c w = (length (pendingPlain c), None, ?c, w')"
    "wr_out w' = wr_out w @ pendingPlain c" "wr_script w' = []" using forwardPending_ok [OF assms(1, 2)] by blast
  obtain q' where "q = pendingPlain c @ q'" "recHolds cl ?c q'"
    using recHolds_drain [OF assms(3), of "pendingPlain c" "[]" 0 "[]"] by auto
  moreover have "recWriteTo cl c w tot = recWriteTo cl ?c w' (tot + length (pendingPlain c))"
    using assms(2) w'(1) by (subst recWriteTo.simps) simp
  ultimately show ?thesis using w'(2, 3) by blast
qed

lemma recWriteTo_ok:
  assumes "recHolds cl c q" "wr_script w = []" "pendingPlain c = []"
  shows "\<exists>c' w'. recWriteTo cl c w tot =
      Some (tot + length q, if src_final (rc_source c) = EOF then None else Some (RecIO (src_final (rc_source c))), c', w')
    \<and> wr_out w' = wr_out w @ q"
  using assms
proof (induction "length q" arbitrary: c q w tot rule: less_induct)
  case less
  have pend: "\<not> hasPendingPlain c" using less.prems(3) by (simp add: hasPendingPlain_iff)
  show ?case
  proof (cases "q = []")
    case True
    then obtain c' where "readLocked cl c 0 = Some (Inl (RecIO (src_final (rc_source c))), c')"
      using readLocked_end less.prems(1) by blast
    then show ?thesis using True pend by (subst recWriteTo.simps) simp
  next
    case False
    from readLocked_holds [OF less.prems(1, 3) False, of 0] obtain p q' c' where
      rd: "readLocked cl c 0 = Some (Inr [], c')" "p \<noteq> []" "q = p @ q'" "recHolds cl c' (p @ q')" "pendingPlain c' = p"
      "src_final (rc_source c') = src_final (rc_source c)" by auto
    then have pend': "hasPendingPlain c'" by (simp add: hasPendingPlain_iff)
    from recWriteTo_pending [OF less.prems(2) pend' rd(4), of tot] rd(5) obtain w' where
      w': "recWriteTo cl c' w tot = recWriteTo cl (c'\<lparr>rc_readPlain := [], rc_readOff := 0\<rparr>) w' (tot + length p)"
      "wr_out w' = wr_out w @ p" "wr_script w' = []" "recHolds cl (c'\<lparr>rc_readPlain := [], rc_readOff := 0\<rparr>) q'" by auto
    have "recWriteTo cl c w tot = recWriteTo cl c' w tot"
      using pend pend' rd(1) by (subst (1 2) recWriteTo.simps) simp
    moreover have "length q' < length q" using rd(2, 3) by simp
    from less.hyps [OF this w'(4, 3), of "tot + length p"] obtain c'' w'' where
      "recWriteTo cl (c'\<lparr>rc_readPlain := [], rc_readOff := 0\<rparr>) w' (tot + length p) = Some (tot + length q,
         if src_final (rc_source c) = EOF then None else Some (RecIO (src_final (rc_source c))), c'', w'')"
      "wr_out w'' = wr_out w @ q"
      using w'(2) rd(3, 6) by (auto simp: pendingPlain_def add.assoc)
    ultimately show ?thesis using w'(1) by auto
  qed
qed


section \<open>Whole conversations\<close>

text \<open>A sequence of WriteBuffers calls, up to the first error; the count is their sum.\<close>

fun recWriteAll ::
    "cryptoLib \<Rightarrow> int \<Rightarrow> RecordConn \<Rightarrow> byte list list list \<Rightarrow> (nat \<times> recordError option \<times> RecordConn) option" where
  "recWriteAll cl ku c [] = Some (0, None, c)"
| "recWriteAll cl ku c (bs # bss) =
     do { (n, err, c) \<leftarrow> recWriteBuffers cl ku c bs;
          (case err of
             Some e \<Rightarrow> Some (n, Some e, c)
           | None \<Rightarrow> do { (m, err, c) \<leftarrow> recWriteAll cl ku c bss; Some (n + m, err, c) }) }"

lemma recWriteAll_ok:
  "sendReady cl c \<Longrightarrow> unat (rc_sendEpoch c) + length (concat (concat bss)) < 2 ^ 32 \<Longrightarrow>
     \<exists>m err c' rs. recWriteAll cl ku c bss = Some (m, err, c') \<and> m \<le> length (concat (concat bss))
       \<and> (err = None \<longrightarrow> m = length (concat (concat bss))) \<and> sentAs cl c rs (take m (concat (concat bss))) c'"
proof (induction bss arbitrary: c)
  case Nil
  then show ?case using sentAs_Nil by auto
next
  case (Cons bs bss)
  have "rc_method c \<noteq> ''none''" using Cons.prems(1) by (simp add: sendReady_def)
  with writeRecords_ok [OF Cons.prems(1), of bs 0 ku 0] Cons.prems(2) obtain n err1 c1 rs1 where
    one: "recWriteBuffers cl ku c bs = Some (n, err1, c1)" "n \<le> length (concat bs)" "err1 = None \<longrightarrow> n = length (concat bs)"
    "sentAs cl c rs1 (take n (concat bs)) c1"
    by (auto simp: recWriteBuffers_def remaining_def validPos_def)
  show ?case
  proof (cases err1)
    case (Some e)
    then show ?thesis using one
      by (intro exI [of _ n] exI [of _ err1] exI [of _ c1] exI [of _ rs1]) simp
  next
    case None
    then have n: "n = length (concat bs)" using one(3) by simp
    have "sendReady cl c1" "unat (rc_sendEpoch c1) + length (concat (concat bss)) < 2 ^ 32"
      using one(4) Cons.prems(2) by (auto simp: sentAs_def n)
    with Cons.IH obtain m err c' rs where rest: "recWriteAll cl ku c1 bss = Some (m, err, c')" "m \<le> length (concat (concat bss))"
       "err = None \<longrightarrow> m = length (concat (concat bss))" "sentAs cl c1 rs (take m (concat (concat bss))) c'" by blast
    from sentAs_trans [OF one(4) rest(4)] show ?thesis using one(1) None rest(1 - 3) n
      by (intro exI [of _ "n + m"] exI [of _ err] exI [of _ c'] exI [of _ "rs1 @ rs"]) auto
  qed
qed

lemma NewRecordConn_fields:
  assumes "NewRecordConn (Some (w, s)) rand method baseSend baseRecv = Inr c"
  shows "rc_writer c = w" "rc_source c = s" "rc_method c = normalizeAEADMethod method" "rc_baseSend c = baseSend"
    "rc_baseRecv c = baseRecv" "rc_sendAEAD c = None" "rc_recvAEAD c = None" "\<not> rc_recvInitialized c" "pendingPlain c = []"
  using assms
  by (auto simp: NewRecordConn_def Let_def resetTrafficState_def pendingPlain_def bindE_eq_Inr split: option.splits)

lemma NewRecordConn_sendReady:
  assumes "NewRecordConn (Some (w, s)) rand method baseSend baseRecv = Inr c" "wr_script w = []" "method \<noteq> ''none''"
    and "soundCipher cl (normalizeAEADMethod method) baseSend"
  shows "sendReady cl c"
  using NewRecordConn_fields [OF assms(1)] assms(2 - 4) by (auto simp: sendReady_def normalizeAEADMethod_def)

lemma NewRecordConn_recHolds:
  assumes "NewRecordConn (Some (w, s)) rand method baseSend baseRecv = Inr c" "method \<noteq> ''none''"
    and "soundCipher cl (normalizeAEADMethod method) baseRecv" "orderly pos rs pos'"
    and "\<forall>r\<in>set rs. fits cl (normalizeAEADMethod method) baseRecv r"
    and "concat (src_chunks s) = wireOf cl (normalizeAEADMethod method) baseRecv rs"
  shows "recHolds cl c (recordsPlain rs)"
  unfolding recHolds_def using NewRecordConn_fields [OF assms(1)] assms(2 - 6)
  by (intro conjI exI [of _ rs] exI [of _ pos] exI [of _ pos']) (auto simp: recvReady_def normalizeAEADMethod_def)

text \<open>What a fresh connection has sent, and what the other end can read of it.\<close>

lemma sent_received:
  assumes "NewRecordConn (Some (w, s)) rand method k kr = Inr c" "wr_script w = []" "wr_out w = []" "method \<noteq> ''none''"
    and "soundCipher cl (normalizeAEADMethod method) k"
    and "unat (rc_sendEpoch c) + length (concat (concat bss)) < 2 ^ 32"
  shows "\<exists>n err c'. recWriteAll cl ku c bss = Some (n, err, c') \<and> n \<le> length (concat (concat bss))
    \<and> (err = None \<longrightarrow> n = length (concat (concat bss)))
    \<and> (\<forall>w' s' rand' ks d. NewRecordConn (Some (w', s')) rand' method ks k = Inr d \<longrightarrow>
         concat (src_chunks s') = wr_out (rc_writer c') \<longrightarrow> recHolds cl d (take n (concat (concat bss))))"
proof -
  note f = NewRecordConn_fields [OF assms(1)]
  note ready = NewRecordConn_sendReady [OF assms(1, 2, 4, 5)]
  from recWriteAll_ok [OF ready assms(6), of ku] obtain n err c' rs where
    run: "recWriteAll cl ku c bss = Some (n, err, c')" "n \<le> length (concat (concat bss))"
    "err = None \<longrightarrow> n = length (concat (concat bss))" "sentAs cl c rs (take n (concat (concat bss))) c'" by blast
  have "follows (rc_sendEpoch c, rc_sendSeq c) (rc_sendEpoch c, rc_sendSeq c)" by (simp add: follows_def)
  with run(4) obtain pos' where pos': "orderly (rc_sendEpoch c, rc_sendSeq c) rs pos'"
    unfolding sentAs_def by blast
  have rs: "recordsPlain rs = take n (concat (concat bss))" "\<forall>r\<in>set rs. fits cl (normalizeAEADMethod method) k r"
    "wr_out (rc_writer c') = wireOf cl (normalizeAEADMethod method) k rs"
    using run(4) f(1, 3, 4) assms(3) by (simp_all add: sentAs_def)
  have "recHolds cl d (take n (concat (concat bss)))"
    if "NewRecordConn (Some (w', s')) rand' method ks k = Inr d" "concat (src_chunks s') = wr_out (rc_writer c')" for w' s' rand' ks d
    using NewRecordConn_recHolds [OF that(1) assms(4, 5) pos' rs(2)] that(2) rs(1, 3) by simp
  with run(1 - 3) show ?thesis by blast
qed

section \<open>Nonces\<close>

definition headerOf :: "plainRecord \<Rightarrow> u32 \<times> u64" where
  "headerOf r = (fst r, fst (snd r))"

lemma orderly_nth:
  "orderly pos rs pos' \<Longrightarrow> i < length rs \<Longrightarrow>
     fst pos < fst (headerOf (rs ! i)) \<or> headerOf (rs ! i) = (fst pos, snd pos + of_nat i)"
proof (induction pos rs pos' arbitrary: i rule: orderly.induct)
  case (2 pos e s p rs pos')
  show ?case
  proof (cases i)
    case 0
    then show ?thesis using 2(2) by (auto simp: headerOf_def follows_def)
  next
    case (Suc j)
    then have "e < fst (headerOf (rs ! j)) \<or> headerOf (rs ! j) = (e, s + 1 + of_nat j)"
      using 2 by auto
    moreover have "fst pos < e \<or> e = fst pos \<and> s = snd pos" using 2(2) by (auto simp: follows_def)
    ultimately show ?thesis using Suc by (auto simp: algebra_simps)
  qed
qed simp

lemma orderly_distinct:
  "orderly pos rs pos' \<Longrightarrow> length rs \<le> 2 ^ 64 \<Longrightarrow> distinct (map headerOf rs)"
proof (induction pos rs pos' rule: orderly.induct)
  case (2 pos e s p rs pos')
  have "headerOf (rs ! i) \<noteq> (e, s)" if "i < length rs" for i
  proof
    assume eq: "headerOf (rs ! i) = (e, s)"
    with orderly_nth [of "(e, s + 1)" rs pos' i] 2(2) that have "(of_nat (Suc i) :: u64) = 0" by (auto simp: algebra_simps)
    moreover have "Suc i < 2 ^ 64" using that 2(3) by simp
    then have "unat (of_nat (Suc i) :: u64) = Suc i" unfolding unat_of_nat by simp
    ultimately show False by simp
  qed
  then have "\<forall>r\<in>set rs. headerOf r \<noteq> (e, s)" by (simp add: all_set_conv_all_nth)
  moreover have "headerOf (e, s, p) = (e, s)" by (simp add: headerOf_def)
  ultimately have "headerOf (e, s, p) \<notin> headerOf ` set rs" by force
  then show ?case using 2 by simp
qed simp


text \<open>The position a record body claims in its header.\<close>

definition bodyPos :: "byte list \<Rightarrow> u32 \<times> u64" where
  "bodyPos body = (let header = take recordHeaderSize body
                   in (bigEndianUint32 (take 4 header), bigEndianUint64 (drop 4 header)))"

definition recvPos :: "RecordConn \<Rightarrow> bool \<times> u32 \<times> u64" where
  "recvPos c = (rc_recvInitialized c, rc_recvEpoch c, rc_recvSeq c)"

lemma recvPos_drainPlain [simp]: "recvPos (snd (drainPlain c k)) = recvPos c"
  by (simp add: drainPlain_def Let_def recvPos_def)

lemma recvPos_recvCipher: "recvCipher cl c e = Inr (a, c') \<Longrightarrow> recvPos c' = recvPos c"
  by (auto simp: recvCipher_def bindE_eq_Inr recvPos_def split: if_splits)

lemma acceptRecord_pos:
  assumes "acceptRecord cl c body plen = Some (res, c')"
  shows "case res of Inl _ \<Rightarrow> recvPos c' = recvPos c
    | Inr _ \<Rightarrow> accepts c (bodyPos body) \<and> recvPos c' = (True, fst (bodyPos body), snd (bodyPos body) + 1)"
proof -
  obtain e sq where pos: "bodyPos body = (e, sq)" by fastforce
  then have hdr: "bigEndianUint32 (take 4 (take recordHeaderSize body)) = e" "bigEndianUint64 (drop 4 (take recordHeaderSize body)) = sq"
    unfolding bodyPos_def Let_def by simp_all
  have eq: "acceptRecord cl c body plen =
      (case checkOrder c e sq of
        Some e \<Rightarrow> Some (Inl e, c)
      | None \<Rightarrow>
          (case recvCipher cl c e of
             Inl e \<Rightarrow> Some (Inl e, c)
           | Inr (None, c) \<Rightarrow> None
           | Inr (Some a, c) \<Rightarrow>
               (case unseal a (take recordHeaderSize body) (drop recordHeaderSize body) (take recordHeaderSize body) of
                  None \<Rightarrow> Some (Inl (DecryptionFailed e sq), c)
                | Some plaintext \<Rightarrow>
                    let c = c\<lparr>rc_recvEpoch := e, rc_recvSeq := sq + 1, rc_recvInitialized := True\<rparr> in
                    if overhead a \<le> length (drop recordHeaderSize body) \<and> plen \<ge> length (drop recordHeaderSize body) - overhead a
                    then Some (Inr plaintext, c)
                    else let r = drainPlain (c\<lparr>rc_readPlain := plaintext, rc_readOff := 0\<rparr>) plen
                         in Some (Inr (fst r), snd r))))"
    unfolding acceptRecord_def Let_def hdr case_prod_beta [of _ "drainPlain _ _"] by (rule refl)
  show ?thesis
  proof (cases "checkOrder c e sq")
    case None
    then have acc: "accepts c (bodyPos body)" by (simp add: checkOrder_accepts pos)
    show ?thesis
    proof (cases "recvCipher cl c e")
      case (Inr r)
      then obtain a c1 where r: "recvCipher cl c e = Inr (a, c1)" by (cases r) auto
      then show ?thesis using assms None acc pos recvPos_recvCipher [OF r]
        by (auto simp: eq Let_def recvPos_def [of "_\<lparr>rc_recvEpoch := _, rc_recvSeq := _, rc_recvInitialized := _\<rparr>"]
            recvPos_def [of "_\<lparr>rc_recvEpoch := _, rc_recvSeq := _, rc_recvInitialized := _, rc_readPlain := _, rc_readOff := _\<rparr>"]
            split: option.splits if_splits)
    qed (use assms None in \<open>auto simp: eq\<close>)
  qed (use assms in \<open>auto simp: eq\<close>)
qed

text \<open>A receiver facing arbitrary record bodies, with the read size for each: the headers of the
  records it accepts.\<close>

fun acceptAll :: "cryptoLib \<Rightarrow> RecordConn \<Rightarrow> (byte list \<times> nat) list \<Rightarrow> (u32 \<times> u64) list" where
  "acceptAll cl c [] = []"
| "acceptAll cl c ((body, plen) # bodies) =
     (case acceptRecord cl c body plen of
        None \<Rightarrow> []
      | Some (Inl _, c) \<Rightarrow> acceptAll cl c bodies
      | Some (Inr _, c) \<Rightarrow>
          bodyPos body # acceptAll cl c bodies)"

lemma acceptAll_orderly:
  "\<exists>pos pos'. (rc_recvInitialized c \<longrightarrow> pos = (rc_recvEpoch c, rc_recvSeq c))
     \<and> orderly pos (map (\<lambda>(e, s). (e, s, [])) (acceptAll cl c bodies)) pos'"
proof (induction bodies arbitrary: c)
  case (Cons b bodies)
  obtain body plen where b: "b = (body, plen)" by (cases b)
  show ?case
  proof (cases "acceptRecord cl c body plen")
    case None
    then show ?thesis using b by auto
  next
    case (Some r)
    obtain res c1 where r: "acceptRecord cl c body plen = Some (res, c1)" using Some by (cases r) auto
    note pos = acceptRecord_pos [OF r]
    from Cons.IH [of c1] obtain p p' where IH: "rc_recvInitialized c1 \<longrightarrow> p = (rc_recvEpoch c1, rc_recvSeq c1)"
      "orderly p (map (\<lambda>(e, s). (e, s, [])) (acceptAll cl c1 bodies)) p'" by blast
    show ?thesis
    proof (cases res)
      case (Inl e)
      then show ?thesis using pos IH r b by (intro exI [of _ p] exI [of _ p']) (auto simp: recvPos_def)
    next
      case (Inr out)
      let ?pos = "if rc_recvInitialized c then (rc_recvEpoch c, rc_recvSeq c) else bodyPos body"
      have "follows ?pos (bodyPos body)" using pos Inr by (auto simp: accepts_def follows_def)
      then show ?thesis using pos Inr IH r b
        by (intro exI [of _ ?pos] exI [of _ p']) (auto simp: recvPos_def split: prod.splits)
    qed
  qed
qed auto

section \<open>Properties\<close>

text \<open>C2: what one end of a record connection writes, the other end reads. Whatever the cuts into
  WriteBuffers calls and slices, the key updates between records, the chunks the network
  delivers and the sizes of the reads, writing returns, its count is exact even when a key
  update fails, and reading returns the counted bytes and then the end of the stream. The
  ciphers behave as documented and the 32-bit epoch does not run out.\<close>

theorem record_round_trip:
  assumes "NewRecordConn (Some (w, s)) rand method k kr = Inr c" "wr_script w = []" "wr_out w = []" "method \<noteq> ''none''"
    and "soundCipher cl (normalizeAEADMethod method) k"
    and "unat (rc_sendEpoch c) + length (concat (concat bss)) < 2 ^ 32"
  shows "\<exists>n err c'. recWriteAll cl ku c bss = Some (n, err, c') \<and> n \<le> length (concat (concat bss))
    \<and> (err = None \<longrightarrow> n = length (concat (concat bss)))
    \<and> (\<forall>w' s' rand' k' d ns. NewRecordConn (Some (w', s')) rand' method k' k = Inr d \<longrightarrow>
         concat (src_chunks s') = wr_out (rc_writer c') \<longrightarrow> (\<forall>n\<in>set ns. 0 < n) \<longrightarrow> n < length ns \<longrightarrow>
         (\<exists>d'. readAll (recRead cl) d ns = Some (take n (concat (concat bss)), Some (RecIO (src_final s')), d')))"
proof -
  from sent_received [OF assms, of ku] obtain n err c' where
    run: "recWriteAll cl ku c bss = Some (n, err, c')" "n \<le> length (concat (concat bss))" "err = None \<longrightarrow> n = length (concat (concat bss))"
    and holds: "\<And>w' s' rand' k' d. NewRecordConn (Some (w', s')) rand' method k' k = Inr d \<Longrightarrow>
         concat (src_chunks s') = wr_out (rc_writer c') \<Longrightarrow> recHolds cl d (take n (concat (concat bss)))" by blast
  have "\<exists>d'. readAll (recRead cl) d ns = Some (take n (concat (concat bss)), Some (RecIO (src_final s')), d')"
    if new: "NewRecordConn (Some (w', s')) rand' method k' k = Inr d" and wire: "concat (src_chunks s') = wr_out (rc_writer c')"
      and ns: "\<forall>n\<in>set ns. 0 < n" "n < length ns" for w' s' rand' k' d ns
  proof -
    have "length (take n (concat (concat bss))) < length ns" using ns(2) by simp
    from rec.readAll_holds [OF holds [OF new wire] ns(1) this] show ?thesis
      unfolding NewRecordConn_fields(2) [OF new] .
  qed
  with run show ?thesis by blast
qed


text \<open>A cipher that appends sixteen zero bytes, for the examples.\<close>

definition plainAEAD :: aead where
  "plainAEAD = \<lparr>seal = \<lambda>n p ad. p @ replicate 16 0,
     unseal = \<lambda>n p ad. if length p < 16 then None else Some (take (length p - 16) p), overhead = 16\<rparr>"

definition plainCrypto :: cryptoLib where
  "plainCrypto = \<lparr>hmacSha256 = \<lambda>k m. k, newGCM = \<lambda>k. Some (plainAEAD, 12), newChaCha = \<lambda>k. Some (plainAEAD, 12)\<rparr>"

lemma plainCrypto_sound: "soundCipher plainCrypto ''aes-128-gcm'' k"
  by (simp add: soundCipher_def newAEADFor_def plainCrypto_def plainAEAD_def recordHeaderSize_def maxFrameBodySize_def)

definition exampleRand :: "byte list" where
  "exampleRand = [0, 0, 0, 7, 0, 0, 0, 0, 0, 0, 0, 9, 0, 0, 0, 0, 0, 0, 0, 5]"

lemma example_conn:
  "\<exists>c. NewRecordConn (Some (w, s)) exampleRand ''aes-128-gcm'' (replicate 32 1) (replicate 32 2) = Inr c \<and> rc_sendEpoch c = 7"
  "\<exists>c. NewRecordConn (Some (w, s)) exampleRand ''aes-128-gcm'' (replicate 32 2) (replicate 32 1) = Inr c"
  by (simp_all add: NewRecordConn_def normalizeAEADMethod_def validateBaseKeys_def validateBaseKey_def resetTrafficState_def
      randomRecordCounters_def exampleRand_def randomNonZeroUint32.simps randomNonZeroUint64.simps readFull_def Let_def)

theorem record_round_trip_witness:
  "\<exists>c n err c' d. NewRecordConn (Some (\<lparr>wr_out = [], wr_calls = [], wr_script = []\<rparr>, \<lparr>src_chunks = [], src_final = EOF\<rparr>))
       exampleRand ''aes-128-gcm'' (replicate 32 1) (replicate 32 2) = Inr c
     \<and> recWriteAll plainCrypto 2 c [[[1, 2], [3]], [[4]]] = Some (n, err, c')
     \<and> (\<exists>d'. readAll (recRead plainCrypto) d [1, 1, 1, 1, 1] = Some (take n [1, 2, 3, 4], Some (RecIO EOF), d'))"
proof -
  let ?w = "\<lparr>wr_out = [], wr_calls = [], wr_script = []\<rparr>" and ?s = "\<lparr>src_chunks = [], src_final = EOF\<rparr>"
  obtain c where c: "NewRecordConn (Some (?w, ?s)) exampleRand ''aes-128-gcm'' (replicate 32 1) (replicate 32 2) = Inr c"
    "rc_sendEpoch c = 7" using example_conn(1) by blast
  have snd: "soundCipher plainCrypto (normalizeAEADMethod ''aes-128-gcm'') (replicate 32 1)"
    using plainCrypto_sound by (simp add: normalizeAEADMethod_def)
  have "unat (rc_sendEpoch c) + length (concat (concat [[[1, 2], [3]], [[4 :: byte]]])) < 2 ^ 32" by (simp add: c(2))
  from record_round_trip [OF c(1) _ _ _ snd this, of 2] obtain n err c' where
    run: "recWriteAll plainCrypto 2 c [[[1, 2], [3]], [[4]]] = Some (n, err, c')" "n \<le> 4"
    and rd: "\<And>w' s' rand' k' d ns. NewRecordConn (Some (w', s')) rand' ''aes-128-gcm'' k' (replicate 32 1) = Inr d \<Longrightarrow>
         concat (src_chunks s') = wr_out (rc_writer c') \<Longrightarrow> \<forall>n\<in>set ns. 0 < n \<Longrightarrow> n < length ns \<Longrightarrow>
         \<exists>d'. readAll (recRead plainCrypto) d ns = Some (take n [1, 2, 3, 4], Some (RecIO (src_final s')), d')"
    by auto
  obtain d where d: "NewRecordConn (Some (?w, \<lparr>src_chunks = [wr_out (rc_writer c')], src_final = EOF\<rparr>)) exampleRand
      ''aes-128-gcm'' (replicate 32 2) (replicate 32 1) = Inr d" using example_conn(2) by blast
  from rd [OF d, of "[1, 1, 1, 1, 1]"] run(2)
  have "\<exists>d'. readAll (recRead plainCrypto) d [1, 1, 1, 1, 1] = Some (take n [1, 2, 3, 4], Some (RecIO EOF), d')" by simp
  with c(1) run(1) show ?thesis by blast
qed

text \<open>C4: a nonce is never used twice under one key. The headers of the records a fresh connection
  writes, which are their nonces, are pairwise different, whatever is written and however
  often the keys are updated, as long as the epoch does not run out.\<close>

theorem record_nonces_distinct:
  assumes "NewRecordConn (Some (w, s)) rand method k kr = Inr c" "wr_script w = []" "method \<noteq> ''none''"
    and "soundCipher cl (normalizeAEADMethod method) k"
    and "unat (rc_sendEpoch c) + length (concat (concat bss)) < 2 ^ 32"
  shows "\<exists>n err c' rs. recWriteAll cl ku c bss = Some (n, err, c')
    \<and> wr_out (rc_writer c') = wr_out w @ wireOf cl (normalizeAEADMethod method) k rs
    \<and> recordsPlain rs = take n (concat (concat bss)) \<and> distinct (map headerOf rs)"
proof -
  note f = NewRecordConn_fields [OF assms(1)]
  from recWriteAll_ok [OF NewRecordConn_sendReady [OF assms(1 - 4)] assms(5), of ku] obtain n err c' rs where
    run: "recWriteAll cl ku c bss = Some (n, err, c')" "sentAs cl c rs (take n (concat (concat bss))) c'" by blast
  have "follows (rc_sendEpoch c, rc_sendSeq c) (rc_sendEpoch c, rc_sendSeq c)" by (simp add: follows_def)
  with run(2) obtain pos' where ord: "orderly (rc_sendEpoch c, rc_sendSeq c) rs pos'" unfolding sentAs_def by blast
  have "\<forall>r\<in>set rs. snd (snd r) \<noteq> []" using run(2) by (auto simp: sentAs_def fits_def)
  then have "length rs \<le> length (recordsPlain rs)"
  proof (induction rs)
    case (Cons r rs)
    then have "0 < length (snd (snd r))" by simp
    then have "Suc (length rs) \<le> length (snd (snd r)) + length (recordsPlain rs)" using Cons by (simp del: length_greater_0_conv)
    then show ?case by simp
  qed simp
  also have "\<dots> \<le> length (concat (concat bss))" using run(2) by (simp add: sentAs_def)
  finally have "length rs \<le> 2 ^ 64" using assms(5) by simp
  from orderly_distinct [OF ord this] run f show ?thesis
    by (intro exI [of _ n] exI [of _ err] exI [of _ c'] exI [of _ rs]) (simp add: sentAs_def)
qed

theorem record_nonces_distinct_witness:
  "\<exists>c n err c' rs. NewRecordConn (Some (\<lparr>wr_out = [], wr_calls = [], wr_script = []\<rparr>, \<lparr>src_chunks = [], src_final = EOF\<rparr>))
       exampleRand ''aes-128-gcm'' (replicate 32 1) (replicate 32 2) = Inr c
     \<and> recWriteAll plainCrypto 1 c [[[1]], [[2]]] = Some (n, err, c')
     \<and> recordsPlain rs = take n [1, 2] \<and> distinct (map headerOf rs)"
proof -
  let ?w = "\<lparr>wr_out = [], wr_calls = [], wr_script = []\<rparr>" and ?s = "\<lparr>src_chunks = [], src_final = EOF\<rparr>"
  obtain c where c: "NewRecordConn (Some (?w, ?s)) exampleRand ''aes-128-gcm'' (replicate 32 1) (replicate 32 2) = Inr c"
    "rc_sendEpoch c = 7" using example_conn(1) by blast
  have "soundCipher plainCrypto (normalizeAEADMethod ''aes-128-gcm'') (replicate 32 1)"
    using plainCrypto_sound by (simp add: normalizeAEADMethod_def)
  from record_nonces_distinct [OF c(1) _ _ this, of "[[[1]], [[2]]]" 1] obtain n err c' rs where
    "recWriteAll plainCrypto 1 c [[[1]], [[2]]] = Some (n, err, c')" "recordsPlain rs = take n [1, 2]" "distinct (map headerOf rs)"
    by (auto simp: c(2))
  with c(1) show ?thesis by blast
qed

text \<open>C5: a receiver accepts a header at most once. Facing arbitrary record bodies, including
  replayed and reordered ones and ones that do not decrypt, a connection never accepts two
  records with the same epoch and sequence number (in fewer than 2^64 records).\<close>

theorem record_replay_refused:
  assumes "length (acceptAll cl c bodies) \<le> 2 ^ 64"
  shows "distinct (acceptAll cl c bodies)"
proof -
  obtain pos pos' where "orderly pos (map (\<lambda>(e, s). (e, s, [])) (acceptAll cl c bodies)) pos'"
    using acceptAll_orderly by blast
  moreover have "map headerOf (map (\<lambda>(e, s). (e, s, [])) (acceptAll cl c bodies)) = acceptAll cl c bodies"
    by (simp add: headerOf_def comp_def case_prod_beta)
  ultimately show ?thesis using orderly_distinct assms by (metis length_map)
qed

theorem record_replay_refused_witness:
  "\<exists>c. let body = (recordHeader 3 4 @ replicate 16 0, 0 :: nat) in
     NewRecordConn (Some (\<lparr>wr_out = [], wr_calls = [], wr_script = []\<rparr>, \<lparr>src_chunks = [], src_final = EOF\<rparr>))
       exampleRand ''aes-128-gcm'' (replicate 32 1) (replicate 32 2) = Inr c
     \<and> distinct (acceptAll plainCrypto c [body, body])"
proof -
  obtain c where c: "NewRecordConn (Some (\<lparr>wr_out = [], wr_calls = [], wr_script = []\<rparr>, \<lparr>src_chunks = [], src_final = EOF\<rparr>))
      exampleRand ''aes-128-gcm'' (replicate 32 1) (replicate 32 2) = Inr c" using example_conn(1) by blast
  have "length (acceptAll cl c bodies) \<le> length bodies" for cl c bodies
    by (induction cl c bodies rule: acceptAll.induct) (auto split: option.split sum.split intro: le_SucI)
  then have "length (acceptAll plainCrypto c [body, body]) \<le> 2 ^ 64" for body by (rule order_trans) simp
  from record_replay_refused [OF this] have "distinct (acceptAll plainCrypto c [body, body])" for body .
  with c show ?thesis unfolding Let_def by blast
qed

text \<open>WriteTo forwards what the connection holds: the bytes go to the destination in order,
  the count is exact, and the end of the stream is not an error.\<close>

lemma WriteTo_forwards:
  assumes "recHolds cl c q" "wr_script w = []" "pendingPlain c = []"
  shows "\<exists>c' w'. recWriteTo cl c w 0 =
      Some (length q, if src_final (rc_source c) = EOF then None else Some (RecIO (src_final (rc_source c))), c', w')
    \<and> wr_out w' = wr_out w @ q"
  using recWriteTo_ok [OF assms, of 0] by simp

text \<open>The epoch counter wraps. A sender in the last epoch goes on with epoch 0 after a key
  update, and a receiver that has seen the last epoch refuses every record of epoch 0 as
  replayed.\<close>

lemma epoch_wrap_refused:
  assumes "rc_sendEpoch c = - 1" "0 < ku" "rc_method c \<noteq> ''none''"
    and "i64 (ku * uint (rc_sendEpochUpdates c + 1)) \<le> i64 (rc_sendBytes c + int n)"
    and "rc_recvInitialized d" "rc_recvEpoch d = - 1"
  shows "rc_sendEpoch (snd (maybeBumpSendEpoch ku c n)) = 0 \<and> checkOrder d 0 sq = Some (ReplayedEpoch 0 (- 1))"
proof -
  have "(0 :: u32) < - 1" by code_simp
  with assms show ?thesis
    by (auto simp: maybeBumpSendEpoch_def Let_def checkOrder_def split: sum.splits)
qed

end
