(* ===== verification/Handshake.thy ===== *)
theory Handshake
  imports Kip Replay Record_Conn
begin

text \<open>
  The KIP handshake over a record connection (transport/handshake.go, handshake\_kip.go and
  session\_keys.go): hello exchange, time skew and replay checks, table resolution, session
  keys.

  X25519, HKDF and SHA-256 are the parameter record dhLib; the clock is an argument (seconds
  since 1970 for the time stamps, nanoseconds for the replay cache); key pairs and nonces
  come from the random bytes of the connection. A connection's source holds what the network
  will deliver, so a handshake is one function of the connection. None stands for a panic.
\<close>

section \<open>Key derivation\<close>

record dhLib =
  generateKey :: "byte list \<Rightarrow> (byte list \<times> byte list) option"
  publicKey :: "byte list \<Rightarrow> byte list"
  validPublicKey :: "byte list \<Rightarrow> bool"
  ecdh :: "byte list \<Rightarrow> byte list \<Rightarrow> byte list option"
  sha256 :: "byte list \<Rightarrow> byte list"
  hkdfExtract :: "byte list \<Rightarrow> byte list \<Rightarrow> byte list"
  hkdfExpand :: "byte list \<Rightarrow> byte list \<Rightarrow> byte list option"

datatype hsError = HsNilConn | EcdhGenerateFailed | NonceGenerateFailed | WriteHelloFailed hsError
  | ReadHelloFailed hsError | HsKip kipError | HsRecord recordError | UnexpectedHandshakeMessage byte
  | DecodeHelloFailed kipError | HsNonceMismatch | ParsePeerPub | EcdhFailed | HkdfExpandFailed string
  | RekeyFailed recordError | TimeSkew | HsReplay | ResolveTableFailed kipError

definition derivePSKDirectionalBases :: "dhLib \<Rightarrow> string \<Rightarrow> (byte list \<times> byte list) option" where
  "derivePSKDirectionalBases dh psk =
     (let sm = sha256 dh (stringBytes psk) in
      case hkdfExpand dh sm (stringBytes ''sudoku-psk-c2s'') of
        None \<Rightarrow> None
      | Some c2sKey \<Rightarrow>
          (case hkdfExpand dh sm (stringBytes ''sudoku-psk-s2c'') of
             None \<Rightarrow> None
           | Some s2cKey \<Rightarrow> Some (c2sKey, s2cKey)))"

definition deriveSessionDirectionalBases :: "dhLib \<Rightarrow> string \<Rightarrow> byte list \<Rightarrow> byte list \<Rightarrow> hsError + (byte list \<times> byte list)" where
  "deriveSessionDirectionalBases dh psk shared nonce =
     (let sm = sha256 dh (stringBytes psk); ikm = shared @ nonce; prk = hkdfExtract dh ikm sm in
      case hkdfExpand dh prk (stringBytes ''sudoku-session-c2s'') of
        None \<Rightarrow> Inl (HkdfExpandFailed ''c2s'')
      | Some c2sKey \<Rightarrow>
          (case hkdfExpand dh prk (stringBytes ''sudoku-session-s2c'') of
             None \<Rightarrow> Inl (HkdfExpandFailed ''s2c'')
           | Some s2cKey \<Rightarrow> Inr (c2sKey, s2cKey)))"

definition x25519SharedSecret :: "dhLib \<Rightarrow> byte list \<Rightarrow> byte list \<Rightarrow> hsError + byte list" where
  "x25519SharedSecret dh priv peerPub =
     (if \<not> validPublicKey dh peerPub then Inl ParsePeerPub
      else case ecdh dh priv peerPub of None \<Rightarrow> Inl EcdhFailed | Some secret \<Rightarrow> Inr secret)"

section \<open>Messages over a record connection\<close>

text \<open>io.ReadFull reports io.EOF only when no byte was read.\<close>

definition shortRead :: "recordError \<Rightarrow> recordError" where
  "shortRead e = (if e = RecIO EOF then RecIO ErrUnexpectedEOF else e)"

definition readFullRC :: "cryptoLib \<Rightarrow> RecordConn \<Rightarrow> nat \<Rightarrow> ((recordError + byte list) \<times> RecordConn) option" where
  "readFullRC cl c n = streamReadFull (recRead cl) shortRead c n []"

definition ReadKIPMessageRC :: "cryptoLib \<Rightarrow> RecordConn \<Rightarrow> ((hsError + KIPMessage) \<times> RecordConn) option" where
  "ReadKIPMessageRC cl c =
     do { (r, c) \<leftarrow> readFullRC cl c 6;
          (case r of
             Inl e \<Rightarrow> Some (Inl (HsRecord e), c)
           | Inr hdr \<Rightarrow>
               if bytesString (take 3 hdr) \<noteq> kipMagic then Some (Inl (HsKip BadMagic), c)
               else
                 let typ = hdr ! 3; n = unat (bigEndianUint16 (drop 4 hdr)) in
                 if n > kipMaxPayload then Some (Inl (HsKip (KipInvalidLength n)), c)
                 else if n > 0 then
                   do { (r, c) \<leftarrow> readFullRC cl c n;
                        (case r of
                           Inl e \<Rightarrow> Some (Inl (HsRecord e), c)
                         | Inr payload \<Rightarrow> Some (Inr \<lparr>msg_Type = typ, msg_Payload = payload\<rparr>, c)) }
                 else Some (Inr \<lparr>msg_Type = typ, msg_Payload = []\<rparr>, c)) }"

fun writeAllChunksRC :: "cryptoLib \<Rightarrow> int \<Rightarrow> RecordConn \<Rightarrow> byte list list \<Rightarrow> (recordError option \<times> RecordConn) option" where
  "writeAllChunksRC cl ku c [] = Some (None, c)"
| "writeAllChunksRC cl ku c (chunk # chunks) =
     do { (n, err, c) \<leftarrow> recWrite cl ku c chunk;
          (case err of Some e \<Rightarrow> Some (Some e, c) | None \<Rightarrow> writeAllChunksRC cl ku c chunks) }"

definition WriteKIPMessageRC ::
    "cryptoLib \<Rightarrow> int \<Rightarrow> RecordConn \<Rightarrow> byte \<Rightarrow> byte list \<Rightarrow> (hsError option \<times> RecordConn) option" where
  "WriteKIPMessageRC cl ku c typ payload =
     (if length payload > kipMaxPayload then Some (Some (HsKip (KipPayloadTooLarge (length payload))), c)
      else do { (err, c) \<leftarrow> writeAllChunksRC cl ku c [kipHeader typ (length payload), payload];
                Some (map_option HsRecord err, c) })"

section \<open>The client\<close>

definition KeyUpdateAfterBytes :: int where "KeyUpdateAfterBytes = 32 * 2 ^ 20"

definition kipHandshakeSkew :: int where "kipHandshakeSkew = 60"

definition absInt64 :: "int \<Rightarrow> int" where
  "absInt64 v = (if v < 0 then i64 (- v) else v)"

text \<open>The first half of kipHandshakeClient, up to the hello on the wire: the private key and the
  nonce are kept for the second half.\<close>

definition kipClientHello ::
    "cryptoLib \<Rightarrow> int \<Rightarrow> dhLib \<Rightarrow> int \<Rightarrow> RecordConn \<Rightarrow> byte list \<Rightarrow> u32 \<Rightarrow> u32 \<Rightarrow> bool
      \<Rightarrow> ((hsError + (byte list \<times> byte list)) \<times> RecordConn) option" where
  "kipClientHello cl ku dh now c userHash feats hint hasTableHint =
     (case generateKey dh (rc_rand c) of
        None \<Rightarrow> Some (Inl EcdhGenerateFailed, c\<lparr>rc_rand := []\<rparr>)
      | Some (ephemeral, r) \<Rightarrow>
          (case readFull kipHelloNonceSize r of
             Inl _ \<Rightarrow> Some (Inl NonceGenerateFailed, c\<lparr>rc_rand := []\<rparr>)
           | Inr (nonce, r) \<Rightarrow>
               let ch = newKIPClientHello now userHash nonce (take kipHelloPubSize (publicKey dh ephemeral)) feats hint hasTableHint
               in do { (err, c) \<leftarrow> WriteKIPMessageRC cl ku (c\<lparr>rc_rand := r\<rparr>) KIPTypeClientHello (encodeClientHello ch);
                       (case err of
                          Some e \<Rightarrow> Some (Inl (WriteHelloFailed e), c)
                        | None \<Rightarrow> Some (Inr (ephemeral, nonce), c)) }))"

definition kipClientFinish ::
    "cryptoLib \<Rightarrow> dhLib \<Rightarrow> RecordConn \<Rightarrow> string \<Rightarrow> byte list \<Rightarrow> byte list \<Rightarrow> ((hsError + u32) \<times> RecordConn) option" where
  "kipClientFinish cl dh c seed ephemeral nonce =
     do { (r, c) \<leftarrow> ReadKIPMessageRC cl c;
          (case r of
             Inl e \<Rightarrow> Some (Inl (ReadHelloFailed e), c)
           | Inr msg \<Rightarrow>
               if msg_Type msg \<noteq> KIPTypeServerHello then Some (Inl (UnexpectedHandshakeMessage (msg_Type msg)), c)
               else (case DecodeKIPServerHelloPayload (msg_Payload msg) of
                   Inl e \<Rightarrow> Some (Inl (DecodeHelloFailed e), c)
                 | Inr sh \<Rightarrow>
                     if sh_Nonce sh \<noteq> nonce then Some (Inl HsNonceMismatch, c)
                     else (case bindE (x25519SharedSecret dh ephemeral (sh_ServerPub sh)) (\<lambda>shared.
                                  deriveSessionDirectionalBases dh seed shared nonce) of
                         Inl e \<Rightarrow> Some (Inl e, c)
                       | Inr (sessC2S, sessS2C) \<Rightarrow>
                           (case Rekey c sessC2S sessS2C of
                              (Some e, c) \<Rightarrow> Some (Inl (RekeyFailed e), c)
                            | (None, c) \<Rightarrow> Some (Inr (sh_SelectedFeats sh), c))))) }"

definition kipHandshakeClient ::
    "cryptoLib \<Rightarrow> int \<Rightarrow> dhLib \<Rightarrow> int \<Rightarrow> RecordConn option \<Rightarrow> string \<Rightarrow> byte list \<Rightarrow> u32 \<Rightarrow> u32 \<Rightarrow> bool
      \<Rightarrow> ((hsError + u32) \<times> RecordConn option) option" where
  "kipHandshakeClient cl ku dh now rc seed userHash feats hint hasTableHint =
     (case rc of
        None \<Rightarrow> Some (Inl HsNilConn, None)
      | Some c \<Rightarrow>
          do { (r, c) \<leftarrow> kipClientHello cl ku dh now c userHash feats hint hasTableHint;
               (case r of
                  Inl e \<Rightarrow> Some (Inl e, Some c)
                | Inr (ephemeral, nonce) \<Rightarrow>
                    do { (r, c) \<leftarrow> kipClientFinish cl dh c seed ephemeral nonce; Some (r, Some c) }) })"

section \<open>The server\<close>

text \<open>ServerHandshake from the first KIP message on. The result carries the table for the
  downlink when the hint of the hello makes the server switch to another one.\<close>

record handshakeClock =
  clk_unix :: int
  clk_nano :: int

record serverAccept =
  sa_userHash :: string
  sa_table :: LinkedTable

definition checkClientHello ::
    "((nonce \<times> int) list \<Rightarrow> nat) \<Rightarrow> handshakeClock \<Rightarrow> LinkedTable option list \<Rightarrow> LinkedTable
      \<Rightarrow> replayProtector \<Rightarrow> KIPMessage \<Rightarrow> (hsError + (KIPClientHello \<times> string \<times> LinkedTable)) \<times> replayProtector" where
  "checkClientHello evict clk candidates selected protector msg =
     (if msg_Type msg \<noteq> KIPTypeClientHello then (Inl (UnexpectedHandshakeMessage (msg_Type msg)), protector)
      else (case DecodeKIPClientHelloPayload (msg_Payload msg) of
          Inl e \<Rightarrow> (Inl (DecodeHelloFailed e), protector)
        | Inr ch \<Rightarrow>
            if absInt64 (i64 (clk_unix clk - ch_Timestamp ch)) > kipHandshakeSkew then (Inl TimeSkew, protector)
            else
              let userHashHex = hexEncode (ch_UserHash ch);
                  (ok, protector) = protectorAllow evict protector userHashHex (ch_Nonce ch) (clk_nano clk) in
              if \<not> ok then (Inl HsReplay, protector)
              else (case ResolveClientHelloTable (Some selected) candidates (Some ch) of
                  Inl e \<Rightarrow> (Inl (ResolveTableFailed e), protector)
                | Inr resolved \<Rightarrow> (Inr (ch, userHashHex, resolved), protector))))"

definition serverReply ::
    "cryptoLib \<Rightarrow> int \<Rightarrow> dhLib \<Rightarrow> RecordConn \<Rightarrow> string \<Rightarrow> KIPClientHello \<Rightarrow> (hsError option \<times> RecordConn) option" where
  "serverReply cl ku dh c seed ch =
     (case generateKey dh (rc_rand c) of
        None \<Rightarrow> Some (Some EcdhGenerateFailed, c\<lparr>rc_rand := []\<rparr>)
      | Some (serverEphemeral, r) \<Rightarrow>
          let c = c\<lparr>rc_rand := r\<rparr> in
          (case bindE (x25519SharedSecret dh serverEphemeral (ch_ClientPub ch)) (\<lambda>shared.
                  deriveSessionDirectionalBases dh seed shared (ch_Nonce ch)) of
             Inl e \<Rightarrow> Some (Some e, c)
           | Inr (sessC2S, sessS2C) \<Rightarrow>
               let sh = \<lparr>sh_Nonce = ch_Nonce ch, sh_ServerPub = take kipHelloPubSize (publicKey dh serverEphemeral),
                         sh_SelectedFeats = and (ch_Features ch) KIPFeatAll\<rparr> in
               do { (err, c) \<leftarrow> WriteKIPMessageRC cl ku c KIPTypeServerHello (encodeServerHello sh);
                    (case err of
                       Some e \<Rightarrow> Some (Some (WriteHelloFailed e), c)
                     | None \<Rightarrow>
                         (case Rekey c sessS2C sessC2S of
                            (Some e, c) \<Rightarrow> Some (Some (RekeyFailed e), c)
                          | (None, c) \<Rightarrow> Some (None, c))) }))"

definition kipHandshakeServer ::
    "cryptoLib \<Rightarrow> int \<Rightarrow> dhLib \<Rightarrow> ((nonce \<times> int) list \<Rightarrow> nat) \<Rightarrow> handshakeClock \<Rightarrow> LinkedTable option list \<Rightarrow> LinkedTable
      \<Rightarrow> string \<Rightarrow> replayProtector \<Rightarrow> RecordConn \<Rightarrow> ((hsError + serverAccept) \<times> replayProtector \<times> RecordConn) option" where
  "kipHandshakeServer cl ku dh evict clk candidates selected seed protector c =
     do { (r, c) \<leftarrow> ReadKIPMessageRC cl c;
          (case r of
             Inl e \<Rightarrow> Some (Inl (ReadHelloFailed e), protector, c)
           | Inr msg \<Rightarrow>
               (case checkClientHello evict clk candidates selected protector msg of
                  (Inl e, protector) \<Rightarrow> Some (Inl e, protector, c)
                | (Inr (ch, userHashHex, resolved), protector) \<Rightarrow>
                    do { (err, c) \<leftarrow> serverReply cl ku dh c seed ch;
                         Some (case err of
                             Some e \<Rightarrow> (Inl e, protector, c)
                           | None \<Rightarrow> (Inr \<lparr>sa_userHash = userHashHex, sa_table = resolved\<rparr>, protector, c)) })) }"


section \<open>Lemmas\<close>

lemma readFullRC_ok:
  assumes "recHolds cl c q" "n \<le> length q"
  shows "\<exists>c'. readFullRC cl c n = Some (Inr (take n q), c') \<and> recHolds cl c' (drop n q)
    \<and> sendSide c' = sendSide c \<and> rc_baseRecv c' = rc_baseRecv c"
proof -
  obtain c' where c': "readFullRC cl c n = Some (Inr (take n q), c')" "recHolds cl c' (drop n q)"
    using rec.readFull_holds [OF assms, of shortRead "[]"] by (auto simp: readFullRC_def)
  have "(sendSide c', rc_baseRecv c') = (sendSide c, rc_baseRecv c)"
    using streamReadFull_frame [OF c'(1) [unfolded readFullRC_def], of "\<lambda>c. (sendSide c, rc_baseRecv c)"] recRead_sendSide
    by auto
  with c' show ?thesis by simp
qed

lemma ReadKIPMessageRC_ok:
  assumes "recHolds cl c (kipHeader typ (length p) @ p @ rest)" "length p < 65536"
  shows "\<exists>c'. ReadKIPMessageRC cl c = Some (Inr \<lparr>msg_Type = typ, msg_Payload = p\<rparr>, c') \<and> recHolds cl c' rest
    \<and> sendSide c' = sendSide c \<and> rc_baseRecv c' = rc_baseRecv c"
proof -
  obtain c1 where c1: "readFullRC cl c 6 = Some (Inr (kipHeader typ (length p)), c1)" "recHolds cl c1 (p @ rest)"
    "sendSide c1 = sendSide c" "rc_baseRecv c1 = rc_baseRecv c"
    using readFullRC_ok [OF assms(1), of 6] by auto
  obtain c2 where c2: "readFullRC cl c1 (length p) = Some (Inr p, c2)" "recHolds cl c2 rest"
    "sendSide c2 = sendSide c1" "rc_baseRecv c2 = rc_baseRecv c1"
    using readFullRC_ok [OF c1(2), of "length p"] by auto
  show ?thesis
  proof (cases "p = []")
    case True
    then show ?thesis using c1 by (simp add: ReadKIPMessageRC_def bytesString_magic kipHeader_fields)
  next
    case False
    then show ?thesis using c1 c2 assms(2)
      by (simp add: ReadKIPMessageRC_def bytesString_magic kipHeader_fields unat_word16 kip_sizes)
  qed
qed

lemma recWrite_ok:
  assumes "sendReady cl c" "unat (rc_sendEpoch c) + length p < 2 ^ 32" "quiet ku c (length p)"
  shows "\<exists>c' rs. recWrite cl ku c p = Some (int (length p), None, c') \<and> sentAs cl c rs p c' \<and> counted c (length p) c'"
proof -
  have pos: "validPos [p] 0" "remaining [p] 0 = p" by (simp_all add: validPos_def remaining_def)
  from writeRecords_ok [OF assms(1) pos(1), of ku 0] assms(2, 3) pos(2) obtain m err c' rs where
    "writeRecords cl ku c [p] 0 0 = Some (m, err, c')" "err = None" "m = length p" "sentAs cl c rs (take m p) c'" "counted c m c'"
    by auto
  moreover have "rc_method c \<noteq> ''none''" using assms(1) by (simp add: sendReady_def)
  ultimately show ?thesis by (auto simp: recWrite_def)
qed

lemma WriteKIPMessageRC_ok:
  assumes "sendReady cl c" "length p \<le> kipMaxPayload" "unat (rc_sendEpoch c) + (6 + length p) < 2 ^ 32" "quiet ku c (6 + length p)"
  shows "\<exists>c' rs. WriteKIPMessageRC cl ku c typ p = Some (None, c') \<and> sentAs cl c rs (kipHeader typ (length p) @ p) c'
    \<and> counted c (6 + length p) c'"
proof -
  have "quiet ku c 6" using assms(4) by (simp add: quiet_def)
  then obtain c1 rs1 where c1: "recWrite cl ku c (kipHeader typ (length p)) = Some (6, None, c1)"
    "sentAs cl c rs1 (kipHeader typ (length p)) c1" "counted c 6 c1"
    using recWrite_ok [OF assms(1), of "kipHeader typ (length p)" ku] assms(3) by auto
  have "sendReady cl c1" "unat (rc_sendEpoch c1) + length p < 2 ^ 32"
    using c1(2) assms(3) by (auto simp: sentAs_def)
  moreover have "quiet ku c1 (length p)" using quiet_counted [OF assms(4) c1(3)] .
  ultimately obtain c2 rs2 where c2: "recWrite cl ku c1 p = Some (int (length p), None, c2)" "sentAs cl c1 rs2 p c2" "counted c1 (length p) c2"
    using recWrite_ok by blast
  show ?thesis using c1(1) c2(1) sentAs_trans [OF c1(2) c2(2)] counted_trans [OF c1(3) c2(3)] assms(2)
    by (intro exI [of _ c2] exI [of _ "rs1 @ rs2"]) (simp add: WriteKIPMessageRC_def)
qed

lemma sendReady_sendSide: "sendSide c' = sendSide c \<Longrightarrow> sendReady cl c' = sendReady cl c"
  by (simp add: sendReady_def sendSide_def)

lemma recHolds_recvSide:
  "recvSide c' = recvSide c \<Longrightarrow> rc_method c' = rc_method c \<Longrightarrow> recHolds cl c' q = recHolds cl c q"
  by (simp add: recHolds_def recvReady_def recvSide_def pendingPlain_def)

text \<open>What a connection sent, at the other end.\<close>

lemma sentAs_recHolds:
  assumes "sentAs cl c rs q c'" "NewRecordConn (Some (w, s)) rand method ks (rc_baseSend c) = Inr d" "method \<noteq> ''none''"
    and "rc_method c = normalizeAEADMethod method" "sendReady cl c" "wr_out (rc_writer c) = []"
    and "concat (src_chunks s) = wr_out (rc_writer c')"
  shows "recHolds cl d q"
proof -
  have "follows (rc_sendEpoch c, rc_sendSeq c) (rc_sendEpoch c, rc_sendSeq c)" by (simp add: follows_def)
  with assms(1) obtain pos' where "orderly (rc_sendEpoch c, rc_sendSeq c) rs pos'" unfolding sentAs_def by blast
  moreover have "soundCipher cl (normalizeAEADMethod method) (rc_baseSend c)" using assms(4, 5) by (simp add: sendReady_def)
  moreover have "\<forall>r\<in>set rs. fits cl (normalizeAEADMethod method) (rc_baseSend c) r" "q = recordsPlain rs"
    "concat (src_chunks s) = wireOf cl (normalizeAEADMethod method) (rc_baseSend c) rs"
    using assms(1, 4, 6, 7) by (auto simp: sentAs_def)
  ultimately show ?thesis using NewRecordConn_recHolds [OF assms(2, 3)] by blast
qed

lemma Rekey_ok:
  assumes "length k1 = 32" "length k2 = 32" "randomRecordCounters (rc_rand c) = Inr x"
  shows "\<exists>c'. Rekey c k1 k2 = (None, c') \<and> rc_baseSend c' = k1 \<and> rc_baseRecv c' = k2 \<and> rc_writer c' = rc_writer c
    \<and> rc_source c' = rc_source c"
  using assms by (cases x)
    (auto simp: Rekey_def validateBaseKeys_def validateBaseKey_def resetTrafficState_def Let_def)

text \<open>Documented behaviour of the key agreement: public keys have 32 bytes and are valid, both
  sides compute the same secret, and HKDF delivers the 32 bytes asked for.\<close>

definition honestDH :: "dhLib \<Rightarrow> bool" where
  "honestDH dh \<longleftrightarrow> (\<forall>k. length (publicKey dh k) = kipHelloPubSize \<and> validPublicKey dh (publicKey dh k))
     \<and> (\<forall>a b. \<exists>z. ecdh dh a (publicKey dh b) = Some z \<and> ecdh dh b (publicKey dh a) = Some z)
     \<and> (\<forall>k i. \<exists>x. hkdfExpand dh k i = Some x \<and> length x = 32)"

lemma shared_keys:
  assumes "honestDH dh"
  shows "\<exists>kc ks. length kc = 32 \<and> length ks = 32
    \<and> bindE (x25519SharedSecret dh a (publicKey dh b)) (\<lambda>z. deriveSessionDirectionalBases dh seed z nonce) = Inr (kc, ks)
    \<and> bindE (x25519SharedSecret dh b (publicKey dh a)) (\<lambda>z. deriveSessionDirectionalBases dh seed z nonce) = Inr (kc, ks)"
proof -
  obtain z where z: "ecdh dh a (publicKey dh b) = Some z" "ecdh dh b (publicKey dh a) = Some z"
    using assms unfolding honestDH_def by blast
  let ?prk = "hkdfExtract dh (z @ nonce) (sha256 dh (stringBytes seed))"
  obtain x where "hkdfExpand dh ?prk (stringBytes ''sudoku-session-c2s'') = Some x" "length x = 32"
    using assms unfolding honestDH_def by blast
  moreover obtain y where "hkdfExpand dh ?prk (stringBytes ''sudoku-session-s2c'') = Some y" "length y = 32"
    using assms unfolding honestDH_def by blast
  moreover have "validPublicKey dh (publicKey dh k)" for k using assms unfolding honestDH_def by blast
  ultimately show ?thesis using z
    by (intro exI [of _ x] exI [of _ y]) (simp add: x25519SharedSecret_def deriveSessionDirectionalBases_def Let_def)
qed


lemma NewRecordConn_quiet:
  assumes "NewRecordConn conn rand method baseSend baseRecv = Inr c" "n \<le> 1000"
  shows "quiet KeyUpdateAfterBytes c n"
  using assms
  by (auto simp: NewRecordConn_def Let_def resetTrafficState_def bindE_eq_Inr quiet_def KeyUpdateAfterBytes_def split: option.splits)

lemma length_hello:
  assumes "length userHash = kipHelloUserHashSize" "length nonce = kipHelloNonceSize" "length pub = kipHelloPubSize"
  shows "length (encodeClientHello (newKIPClientHello now userHash nonce pub feats hint True)) = 72"
  using assms by (simp add: encodeClientHello_def newKIPClientHello_def kip_sizes)

lemma kipClientHello_ok:
  assumes "sendReady cl c" "quiet ku c 78" "unat (rc_sendEpoch c) + 78 < 2 ^ 32" "honestDH dh"
    and "generateKey dh (rc_rand c) = Some (eph, nonce @ r)" "length nonce = kipHelloNonceSize"
    and "length userHash = kipHelloUserHashSize"
  shows "\<exists>c' rs. kipClientHello cl ku dh now c userHash feats hint True = Some (Inr (eph, nonce), c')
    \<and> (let ch = newKIPClientHello now userHash nonce (publicKey dh eph) feats hint True in
       sentAs cl c rs (kipHeader KIPTypeClientHello 72 @ encodeClientHello ch) c') \<and> rc_rand c' = r"
proof -
  have pub: "length (publicKey dh eph) = kipHelloPubSize" using assms(4) by (simp add: honestDH_def)
  let ?ch = "newKIPClientHello now userHash nonce (publicKey dh eph) feats hint True"
  let ?c = "c\<lparr>rc_rand := r\<rparr>"
  have len: "length (encodeClientHello ?ch) = 72" using length_hello assms(6, 7) pub by simp
  have "sendReady cl ?c" "quiet ku ?c (6 + 72)" "unat (rc_sendEpoch ?c) + (6 + 72) < 2 ^ 32"
    using assms(1 - 3) by (simp_all add: sendReady_def quiet_def)
  from WriteKIPMessageRC_ok [of cl ?c "encodeClientHello ?ch" ku KIPTypeClientHello, unfolded len, OF this(1) _ this(3, 2)]
  obtain c' rs where c': "WriteKIPMessageRC cl ku ?c KIPTypeClientHello (encodeClientHello ?ch) = Some (None, c')"
    "sentAs cl ?c rs (kipHeader KIPTypeClientHello 72 @ encodeClientHello ?ch) c'" "counted ?c 78 c'"
    by (auto simp: kip_sizes)
  have "sentAs cl c rs (kipHeader KIPTypeClientHello 72 @ encodeClientHello ?ch) c'"
    using c'(2) by (simp add: sentAs_def recvSide_def)
  with c' assms(5, 6) pub show ?thesis
    by (intro exI [of _ c'] exI [of _ rs]) (simp add: kipClientHello_def counted_def Let_def)
qed

lemma serverReply_ok:
  assumes "sendReady cl c" "quiet ku c 58" "unat (rc_sendEpoch c) + 58 < 2 ^ 32" "honestDH dh"
    and "generateKey dh (rc_rand c) = Some (eph', r)" "randomRecordCounters r = Inr x"
    and "ch_ClientPub ch = publicKey dh eph" "length (ch_Nonce ch) = kipHelloNonceSize"
    and "bindE (x25519SharedSecret dh eph' (publicKey dh eph)) (\<lambda>z. deriveSessionDirectionalBases dh seed z (ch_Nonce ch)) = Inr (kc, ks)"
    and "length kc = 32" "length ks = 32"
  shows "\<exists>c1 c' rs. serverReply cl ku dh c seed ch = Some (None, c')
    \<and> sentAs cl c rs (kipHeader KIPTypeServerHello 52 @ encodeServerHello
        \<lparr>sh_Nonce = ch_Nonce ch, sh_ServerPub = publicKey dh eph', sh_SelectedFeats = and (ch_Features ch) KIPFeatAll\<rparr>) c1
    \<and> rc_writer c' = rc_writer c1 \<and> rc_baseSend c' = ks \<and> rc_baseRecv c' = kc"
proof -
  let ?sh = "\<lparr>sh_Nonce = ch_Nonce ch, sh_ServerPub = publicKey dh eph', sh_SelectedFeats = and (ch_Features ch) KIPFeatAll\<rparr>"
  let ?c = "c\<lparr>rc_rand := r\<rparr>"
  have pub: "length (publicKey dh eph') = kipHelloPubSize" using assms(4) by (simp add: honestDH_def)
  have len: "length (encodeServerHello ?sh) = 52" using assms(8) pub by (simp add: encodeServerHello_def kip_sizes)
  have "sendReady cl ?c" "quiet ku ?c (6 + 52)" "unat (rc_sendEpoch ?c) + (6 + 52) < 2 ^ 32"
    using assms(1 - 3) by (simp_all add: sendReady_def quiet_def)
  from WriteKIPMessageRC_ok [of cl ?c "encodeServerHello ?sh" ku KIPTypeServerHello, unfolded len, OF this(1) _ this(3, 2)]
  obtain c1 rs where c1: "WriteKIPMessageRC cl ku ?c KIPTypeServerHello (encodeServerHello ?sh) = Some (None, c1)"
    "sentAs cl ?c rs (kipHeader KIPTypeServerHello 52 @ encodeServerHello ?sh) c1" "counted ?c 58 c1"
    by (auto simp: kip_sizes)
  then have "randomRecordCounters (rc_rand c1) = Inr x" using assms(6) by (simp add: counted_def)
  from Rekey_ok [OF assms(11, 10) this] obtain c' where c': "Rekey c1 ks kc = (None, c')" "rc_baseSend c' = ks" "rc_baseRecv c' = kc"
    "rc_writer c' = rc_writer c1" by blast
  have "sentAs cl c rs (kipHeader KIPTypeServerHello 52 @ encodeServerHello ?sh) c1"
    using c1(2) by (simp add: sentAs_def recvSide_def)
  with c1(1) c' assms(5, 7, 9) pub show ?thesis
    by (intro exI [of _ c1] exI [of _ c'] exI [of _ rs]) (simp add: serverReply_def Let_def)
qed

lemma kipClientFinish_ok:
  assumes "recHolds cl c (kipHeader KIPTypeServerHello 52 @ encodeServerHello
        \<lparr>sh_Nonce = nonce, sh_ServerPub = publicKey dh eph', sh_SelectedFeats = feats\<rparr>)" "honestDH dh"
    and "randomRecordCounters (rc_rand c) = Inr x" "length nonce = kipHelloNonceSize"
    and "bindE (x25519SharedSecret dh eph (publicKey dh eph')) (\<lambda>z. deriveSessionDirectionalBases dh seed z nonce) = Inr (kc, ks)"
    and "length kc = 32" "length ks = 32"
  shows "\<exists>c'. kipClientFinish cl dh c seed eph nonce = Some (Inr feats, c') \<and> rc_baseSend c' = kc \<and> rc_baseRecv c' = ks"
proof -
  let ?sh = "\<lparr>sh_Nonce = nonce, sh_ServerPub = publicKey dh eph', sh_SelectedFeats = feats\<rparr>"
  have pub: "length (publicKey dh eph') = kipHelloPubSize" using assms(2) by (simp add: honestDH_def)
  have len: "length (encodeServerHello ?sh) = 52" using assms(4) pub by (simp add: encodeServerHello_def kip_sizes)
  obtain c1 where c1: "ReadKIPMessageRC cl c = Some (Inr \<lparr>msg_Type = KIPTypeServerHello, msg_Payload = encodeServerHello ?sh\<rparr>, c1)"
    "sendSide c1 = sendSide c"
    using ReadKIPMessageRC_ok [of cl c KIPTypeServerHello "encodeServerHello ?sh" "[]"] assms(1) len by auto
  have dec: "DecodeKIPServerHelloPayload (encodeServerHello ?sh) = Inr ?sh"
    using DecodeServerHello_encode [of ?sh] assms(4) pub by simp
  have "randomRecordCounters (rc_rand c1) = Inr x" using c1(2) assms(3) by (simp add: sendSide_def)
  from Rekey_ok [OF assms(6, 7) this] c1(1) dec assms(5) show ?thesis by (auto simp: kipClientFinish_def)
qed

lemma checkClientHello_ok:
  assumes "length userHash = kipHelloUserHashSize" "length nonce = kipHelloNonceSize" "length pub = kipHelloPubSize"
    and "0 \<le> now" "now < 2 ^ 62" "0 \<le> clk_unix clk" "clk_unix clk < 2 ^ 62" "\<bar>clk_unix clk - now\<bar> \<le> kipHandshakeSkew"
    and "protectorAllow evict prot (hexEncode userHash) nonce (clk_nano clk) = (True, prot')"
    and "hint = tableHint (Some selected)"
  shows "checkClientHello evict clk candidates selected prot
      \<lparr>msg_Type = KIPTypeClientHello, msg_Payload = encodeClientHello (newKIPClientHello now userHash nonce pub feats hint True)\<rparr>
    = (Inr (newKIPClientHello now userHash nonce pub feats hint True, hexEncode userHash, selected), prot')"
proof -
  have "DecodeKIPClientHelloPayload (encodeClientHello (newKIPClientHello now userHash nonce pub feats hint True))
      = Inr (newKIPClientHello now userHash nonce pub feats hint True)"
    using assms(1 - 5) by (intro DecodeClientHello_encode) (simp_all add: newKIPClientHello_def)
  moreover have "absInt64 (i64 (clk_unix clk - now)) \<le> kipHandshakeSkew"
    using assms(4 - 8) by (simp add: absInt64_def) linarith
  ultimately show ?thesis using assms(9, 10)
    by (simp add: checkClientHello_def newKIPClientHello_def ResolveClientHelloTable_def)
qed


section \<open>Properties\<close>

text \<open>C3: an honest handshake succeeds and both ends have the same session keys. A client and a
  server with the same pre-shared seed, clocks at most a minute apart, a nonce the replay
  cache accepts and enough random bytes: the client's hello is written; a server that is
  given it, in whatever chunks, accepts it, reports the user's hash and the probed table and
  replies; a client that is given the reply finishes with the features both support, and the
  key each end sends with is the one the other receives with.\<close>

theorem handshake_agreement:
  assumes "honestDH dh" "derivePSKDirectionalBases dh seed = Some (k1, k2)" "method \<noteq> ''none''"
    and "soundCipher cl (normalizeAEADMethod method) k1" "soundCipher cl (normalizeAEADMethod method) k2"
    and client: "NewRecordConn (Some (w, s)) rand method k1 k2 = Inr c" "wr_script w = []" "wr_out w = []"
      "unat (rc_sendEpoch c) + 78 < 2 ^ 32"
      "generateKey dh (rc_rand c) = Some (eph, nonce @ r)" "length nonce = kipHelloNonceSize" "randomRecordCounters r = Inr x"
    and server: "NewRecordConn (Some (w', s')) rand' method k2 k1 = Inr d" "wr_script w' = []" "wr_out w' = []"
      "unat (rc_sendEpoch d) + 58 < 2 ^ 32" "generateKey dh (rc_rand d) = Some (eph', r')" "randomRecordCounters r' = Inr x'"
    and clocks: "0 \<le> now" "now < 2 ^ 62" "0 \<le> clk_unix clk" "clk_unix clk < 2 ^ 62" "\<bar>clk_unix clk - now\<bar> \<le> kipHandshakeSkew"
    and hello: "length userHash = kipHelloUserHashSize" "hint = tableHint (Some selected)"
    and fresh: "protectorAllow evict prot (hexEncode userHash) nonce (clk_nano clk) = (True, prot')"
  shows "\<exists>c1. kipClientHello cl KeyUpdateAfterBytes dh now c userHash feats hint True = Some (Inr (eph, nonce), c1)
    \<and> (concat (src_chunks s') = wr_out (rc_writer c1) \<longrightarrow>
       (\<exists>d1. kipHandshakeServer cl KeyUpdateAfterBytes dh evict clk candidates selected seed prot d
            = Some (Inr \<lparr>sa_userHash = hexEncode userHash, sa_table = selected\<rparr>, prot', d1)
        \<and> (concat (src_chunks s) = wr_out (rc_writer d1) \<longrightarrow>
           (\<exists>c2. kipHandshakeClient cl KeyUpdateAfterBytes dh now (Some c) seed userHash feats hint True
                = Some (Inr (and feats KIPFeatAll), Some c2)
             \<and> rc_baseSend c2 = rc_baseRecv d1 \<and> rc_baseRecv c2 = rc_baseSend d1))))"
proof -
  let ?ku = KeyUpdateAfterBytes and ?ch = "newKIPClientHello now userHash nonce (publicKey dh eph) feats hint True"
  note cf = NewRecordConn_fields [OF client(1)] and df = NewRecordConn_fields [OF server(1)]
  have cr: "sendReady cl c" using NewRecordConn_sendReady client(1, 2) assms(3, 4) by blast
  have dr: "sendReady cl d" using NewRecordConn_sendReady server(1, 2) assms(3, 5) by blast
  have pub: "length (publicKey dh eph) = kipHelloPubSize" using assms(1) by (simp add: honestDH_def)
  obtain kc ks where keys: "length kc = 32" "length ks = 32"
    "bindE (x25519SharedSecret dh eph (publicKey dh eph')) (\<lambda>z. deriveSessionDirectionalBases dh seed z nonce) = Inr (kc, ks)"
    "bindE (x25519SharedSecret dh eph' (publicKey dh eph)) (\<lambda>z. deriveSessionDirectionalBases dh seed z nonce) = Inr (kc, ks)"
    using shared_keys [OF assms(1), of eph eph' seed nonce] by blast
  have "quiet ?ku c 78" using NewRecordConn_quiet [OF client(1)] by simp
  from kipClientHello_ok [OF cr this client(4) assms(1) client(5, 6) hello(1), of now feats hint] obtain c1 rs1 where
    c1: "kipClientHello cl ?ku dh now c userHash feats hint True = Some (Inr (eph, nonce), c1)"
      "sentAs cl c rs1 (kipHeader KIPTypeClientHello 72 @ encodeClientHello ?ch) c1" "rc_rand c1 = r" by (auto simp: Let_def)
  have "\<exists>d1. kipHandshakeServer cl ?ku dh evict clk candidates selected seed prot d
            = Some (Inr \<lparr>sa_userHash = hexEncode userHash, sa_table = selected\<rparr>, prot', d1)
        \<and> (concat (src_chunks s) = wr_out (rc_writer d1) \<longrightarrow>
           (\<exists>c2. kipHandshakeClient cl ?ku dh now (Some c) seed userHash feats hint True = Some (Inr (and feats KIPFeatAll), Some c2)
             \<and> rc_baseSend c2 = rc_baseRecv d1 \<and> rc_baseRecv c2 = rc_baseSend d1))"
    if up: "concat (src_chunks s') = wr_out (rc_writer c1)"
  proof -
    let ?sh = "\<lparr>sh_Nonce = nonce, sh_ServerPub = publicKey dh eph', sh_SelectedFeats = and feats KIPFeatAll\<rparr>"
    have "recHolds cl d (kipHeader KIPTypeClientHello 72 @ encodeClientHello ?ch)"
      using sentAs_recHolds [OF c1(2) _ assms(3) _ cr, of w' s' rand' k2 d] server(1) cf client(3) up by simp
    then obtain d0 where d0: "ReadKIPMessageRC cl d = Some (Inr \<lparr>msg_Type = KIPTypeClientHello, msg_Payload = encodeClientHello ?ch\<rparr>, d0)"
      "sendSide d0 = sendSide d"
      using ReadKIPMessageRC_ok [of cl d KIPTypeClientHello "encodeClientHello ?ch" "[]"] length_hello [OF hello(1) client(6) pub] by auto
    have "sendReady cl d0" "quiet ?ku d0 58" "unat (rc_sendEpoch d0) + 58 < 2 ^ 32" "generateKey dh (rc_rand d0) = Some (eph', r')"
      using d0(2) dr sendReady_sendSide [OF d0(2)] NewRecordConn_quiet [OF server(1), of 58] server(4, 5)
      by (simp_all add: quiet_def sendSide_def)
    from serverReply_ok [OF this(1 - 3) assms(1) this(4) server(6), of ?ch eph seed kc ks] client(6) keys obtain d' d1 rs2 where
      d1: "serverReply cl ?ku dh d0 seed ?ch = Some (None, d1)"
        "sentAs cl d0 rs2 (kipHeader KIPTypeServerHello 52 @ encodeServerHello ?sh) d'"
        "rc_writer d1 = rc_writer d'" "rc_baseSend d1 = ks" "rc_baseRecv d1 = kc"
      by (auto simp: newKIPClientHello_def)
    have run: "kipHandshakeServer cl ?ku dh evict clk candidates selected seed prot d
        = Some (Inr \<lparr>sa_userHash = hexEncode userHash, sa_table = selected\<rparr>, prot', d1)"
      using d0(1) d1(1) checkClientHello_ok [OF hello(1) client(6) pub clocks fresh hello(2)] by (simp add: kipHandshakeServer_def)
    have "\<exists>c2. kipHandshakeClient cl ?ku dh now (Some c) seed userHash feats hint True = Some (Inr (and feats KIPFeatAll), Some c2)
         \<and> rc_baseSend c2 = kc \<and> rc_baseRecv c2 = ks" if down: "concat (src_chunks s) = wr_out (rc_writer d1)"
    proof -
      have "rc_baseSend d0 = k2" "rc_method d0 = normalizeAEADMethod method" "wr_out (rc_writer d0) = []" "sendReady cl d0"
        using d0(2) df server(3) dr sendReady_sendSide [OF d0(2)] by (simp_all add: sendSide_def)
      then have "recHolds cl c (kipHeader KIPTypeServerHello 52 @ encodeServerHello ?sh)"
        using sentAs_recHolds [OF d1(2) _ assms(3), of w s rand k1 c] client(1) down d1(3) by simp
      moreover have "recvSide c1 = recvSide c" "rc_method c1 = rc_method c" using c1(2) by (simp_all add: sentAs_def)
      ultimately have "recHolds cl c1 (kipHeader KIPTypeServerHello 52 @ encodeServerHello ?sh)"
        using recHolds_recvSide by blast
      from kipClientFinish_ok [OF this assms(1) _ client(6) keys(3, 1, 2), of x] c1(3) client(7) obtain c2 where
        "kipClientFinish cl dh c1 seed eph nonce = Some (Inr (and feats KIPFeatAll), c2)" "rc_baseSend c2 = kc" "rc_baseRecv c2 = ks" by blast
      then show ?thesis using c1(1) by (simp add: kipHandshakeClient_def)
    qed
    with run show ?thesis unfolding d1(4) [symmetric] d1(5) [symmetric] by (intro exI [of _ d1]) simp
  qed
  with c1(1) show ?thesis by blast
qed

text \<open>The replay cache forgets a nonce before its hello expires. A hello stamped sixty seconds
  ahead of the server's clock, which the skew check admits, is accepted when it arrives and
  accepted again when it is replayed sixty seconds later: the cache keeps a nonce for sixty
  seconds, the time stamp is good for two minutes.\<close>

lemma hello_replayed_after_ttl:
  assumes "DecodeKIPClientHelloPayload p = Inr ch" "ch_Timestamp ch = t + 60" "0 \<le> t" "t < 2 ^ 62"
    and "\<not> ch_HasTableHint ch \<or> ch_TableHint ch = tableHint (Some selected)"
  shows "let msg = \<lparr>msg_Type = KIPTypeClientHello, msg_Payload = p\<rparr>;
      first = checkClientHello evict \<lparr>clk_unix = t, clk_nano = u\<rparr> candidates selected Map.empty msg;
      second = checkClientHello evict \<lparr>clk_unix = t + 60, clk_nano = u + 60 * 10 ^ 9\<rparr> candidates selected (snd first) msg
    in fst first = Inr (ch, hexEncode (ch_UserHash ch), selected) \<and> fst second = fst first"
proof -
  let ?key = "if hexEncode (ch_UserHash ch) = [] then ''_'' else hexEncode (ch_UserHash ch)"
  let ?set = "\<lparr>ns_m = [(ch_Nonce ch, u + 60 * 10 ^ 9)], ns_maxEntries = 4096, ns_lastPrune = Some u\<rparr>"
  have resolve: "ResolveClientHelloTable (Some selected) candidates (Some ch) = Inr selected"
    using assms(5) by (auto simp: ResolveClientHelloTable_def)
  have one: "protectorAllow evict Map.empty (hexEncode (ch_UserHash ch)) (ch_Nonce ch) u = (True, [?key \<mapsto> ?set])"
    by (simp add: protectorAllow_def newNonceSet_def allowNonce_def prune_def evictDown_id handshakeReplayTTL_def Let_def)
  have two: "fst (protectorAllow evict [?key \<mapsto> ?set] (hexEncode (ch_UserHash ch)) (ch_Nonce ch) (u + 60 * 10 ^ 9)) = True"
    by (simp add: protectorAllow_def allowNonce_def prune_def evictDown_id handshakeReplayTTL_def Let_def split: prod.split)
  obtain prot where two': "protectorAllow evict [?key \<mapsto> ?set] (hexEncode (ch_UserHash ch)) (ch_Nonce ch) (u + 60 * 10 ^ 9) = (True, prot)"
    using two by (cases "protectorAllow evict [?key \<mapsto> ?set] (hexEncode (ch_UserHash ch)) (ch_Nonce ch) (u + 60 * 10 ^ 9)") simp
  have skew: "absInt64 (i64 (t - ch_Timestamp ch)) \<le> kipHandshakeSkew" "absInt64 (i64 (t + 60 - ch_Timestamp ch)) \<le> kipHandshakeSkew"
    using assms(2) by (simp_all add: absInt64_def kipHandshakeSkew_def)
  have "checkClientHello evict \<lparr>clk_unix = t, clk_nano = u\<rparr> candidates selected Map.empty \<lparr>msg_Type = KIPTypeClientHello, msg_Payload = p\<rparr>
      = (Inr (ch, hexEncode (ch_UserHash ch), selected), [?key \<mapsto> ?set])"
    using assms(1) skew(1) one resolve by (simp add: checkClientHello_def Let_def)
  moreover have "checkClientHello evict \<lparr>clk_unix = t + 60, clk_nano = u + 60 * 10 ^ 9\<rparr> candidates selected [?key \<mapsto> ?set]
      \<lparr>msg_Type = KIPTypeClientHello, msg_Payload = p\<rparr> = (Inr (ch, hexEncode (ch_UserHash ch), selected), prot)"
    using assms(1) skew(2) two' resolve by (simp add: checkClientHello_def Let_def)
  ultimately show ?thesis by (simp add: Let_def)
qed


text \<open>A concrete key agreement, for the example.\<close>

definition exampleDH :: dhLib where
  "exampleDH = \<lparr>generateKey = \<lambda>r. if length r < 32 then None else Some (take 32 r, drop 32 r),
     publicKey = \<lambda>k. take 32 (k @ replicate 32 0), validPublicKey = \<lambda>_. True, ecdh = \<lambda>a b. Some [],
     sha256 = \<lambda>x. x, hkdfExtract = \<lambda>a b. a, hkdfExpand = \<lambda>k i. Some (replicate 32 7)\<rparr>"

definition exampleSeed :: "byte list" where
  "exampleSeed = [0, 0, 0, 7, 0, 0, 0, 0, 0, 0, 0, 9] @ replicate 48 1 @ [0, 0, 0, 7, 0, 0, 0, 0, 0, 0, 0, 9]"

lemma exampleDH_honest: "honestDH exampleDH"
  by (auto simp: honestDH_def exampleDH_def kip_sizes)

lemma exampleSeed_conn:
  "\<exists>c. NewRecordConn (Some (w, s)) exampleSeed ''aes-128-gcm'' (replicate 32 7) (replicate 32 7) = Inr c \<and> rc_sendEpoch c = 7
     \<and> rc_rand c = replicate 48 1 @ [0, 0, 0, 7, 0, 0, 0, 0, 0, 0, 0, 9]"
  by (simp add: NewRecordConn_def normalizeAEADMethod_def validateBaseKeys_def validateBaseKey_def resetTrafficState_def
      randomRecordCounters_def exampleSeed_def randomNonZeroUint32.simps randomNonZeroUint64.simps readFull_def Let_def)

lemma example_counters:
  "randomRecordCounters [0, 0, 0, 7, 0, 0, 0, 0, 0, 0, 0, 9] = Inr (7, 9, [])"
  "\<exists>x. randomRecordCounters (replicate 16 1 @ [0, 0, 0, 7, 0, 0, 0, 0, 0, 0, 0, 9]) = Inr x"
proof -
  have "replicate 16 (1 :: byte) = [1, 1, 1, 1, 1, 1, 1, 1, 1, 1, 1, 1, 1, 1, 1, 1]" by code_simp
  then show "\<exists>x. randomRecordCounters (replicate 16 1 @ [0, 0, 0, 7, 0, 0, 0, 0, 0, 0, 0, 9]) = Inr x"
    by (simp add: randomRecordCounters_def randomNonZeroUint32.simps randomNonZeroUint64.simps readFull_def Let_def)
qed (simp add: randomRecordCounters_def randomNonZeroUint32.simps randomNonZeroUint64.simps readFull_def Let_def)

theorem handshake_agreement_witness:
  "\<exists>c c1 d d1 prot. let w = \<lparr>wr_out = [], wr_calls = [], wr_script = []\<rparr>; k = replicate 32 7;
       tbl = \<lparr>EncodeTable = \<lambda>_. [], DecodeMap = Map.empty, PaddingPool = [], IsASCII = True,
              tbl_layout = newASCIILayout, tbl_hint = 7\<rparr>;
       sel = \<lparr>this_table = tbl, opposite_table = tbl\<rparr> in
     NewRecordConn (Some (w, \<lparr>src_chunks = [], src_final = EOF\<rparr>)) exampleSeed ''aes-128-gcm'' k k = Inr c
     \<and> kipClientHello plainCrypto KeyUpdateAfterBytes exampleDH 100 c (replicate 8 5) KIPFeatAll 7 True
         = Some (Inr (replicate 32 1, replicate 16 1), c1)
     \<and> NewRecordConn (Some (w, \<lparr>src_chunks = [wr_out (rc_writer c1)], src_final = EOF\<rparr>)) exampleSeed ''aes-128-gcm'' k k = Inr d
     \<and> kipHandshakeServer plainCrypto KeyUpdateAfterBytes exampleDH (\<lambda>_. 0) \<lparr>clk_unix = 130, clk_nano = 0\<rparr> [] sel ''seed'' Map.empty d
         = Some (Inr \<lparr>sa_userHash = hexEncode (replicate 8 5), sa_table = sel\<rparr>, prot, d1)"
proof -
  let ?w = "\<lparr>wr_out = [], wr_calls = [], wr_script = []\<rparr>" and ?k = "replicate 32 (7 :: byte)"
  let ?s = "\<lparr>src_chunks = [], src_final = EOF\<rparr>" and ?clk = "\<lparr>clk_unix = 130, clk_nano = 0\<rparr>"
  let ?rest = "[0, 0, 0, 7, 0, 0, 0, 0, 0, 0, 0, 9] :: byte list"
  define sel where "sel = (let tbl = \<lparr>EncodeTable = \<lambda>_. [], DecodeMap = Map.empty, PaddingPool = [], IsASCII = True,
      tbl_layout = newASCIILayout, tbl_hint = 7\<rparr> in \<lparr>this_table = tbl, opposite_table = tbl\<rparr>)"
  obtain c where c: "NewRecordConn (Some (?w, ?s)) exampleSeed ''aes-128-gcm'' ?k ?k = Inr c" "rc_sendEpoch c = 7"
    "rc_rand c = replicate 48 1 @ ?rest" using exampleSeed_conn by blast
  have psk: "derivePSKDirectionalBases exampleDH ''seed'' = Some (?k, ?k)"
    by (simp add: derivePSKDirectionalBases_def exampleDH_def)
  have snd: "soundCipher plainCrypto (normalizeAEADMethod ''aes-128-gcm'') ?k"
    using plainCrypto_sound by (simp add: normalizeAEADMethod_def)
  have gen: "generateKey exampleDH (replicate 48 1 @ r) = Some (replicate 32 1, replicate 16 1 @ r)" for r
    by (simp add: exampleDH_def)
  obtain x where x: "randomRecordCounters (replicate 16 1 @ ?rest) = Inr x" using example_counters(2) by blast
  obtain prot where prot: "protectorAllow (\<lambda>_. 0) Map.empty (hexEncode (replicate 8 5)) (replicate 16 1) 0 = (True, prot)"
    by (simp add: protectorAllow_def newNonceSet_def allowNonce_def prune_def evictDown_id Let_def)
  have hint: "7 = tableHint (Some sel)" by (simp add: sel_def tableHint_def Let_def)
  have run: "\<exists>c1. kipClientHello plainCrypto KeyUpdateAfterBytes exampleDH 100 c (replicate 8 5) KIPFeatAll 7 True
         = Some (Inr (replicate 32 1, replicate 16 1), c1)
     \<and> (concat (src_chunks s') = wr_out (rc_writer c1) \<longrightarrow> (\<exists>d1. kipHandshakeServer plainCrypto KeyUpdateAfterBytes exampleDH (\<lambda>_. 0)
           ?clk [] sel ''seed'' Map.empty d = Some (Inr \<lparr>sa_userHash = hexEncode (replicate 8 5), sa_table = sel\<rparr>, prot, d1)))"
    if "NewRecordConn (Some (?w, s')) exampleSeed ''aes-128-gcm'' ?k ?k = Inr d" "rc_sendEpoch d = 7"
      "rc_rand d = replicate 48 1 @ ?rest" for s' d
    using handshake_agreement [OF exampleDH_honest psk _ snd snd c(1) _ _ _ _ _ example_counters(1) that(1) _ _ _ _ x,
        where now = 100 and clk = ?clk and userHash = "replicate 8 5" and hint = 7 and selected = sel and evict = "\<lambda>_. 0"
          and prot = Map.empty and prot' = prot and nonce = "replicate 16 1" and eph = "replicate 32 1" and eph' = "replicate 32 1"
          and feats = KIPFeatAll and candidates = "[]"]
      c(2, 3) that(2, 3) gen prot hint by (auto simp: kip_sizes kipHandshakeSkew_def)
  obtain d0 where "NewRecordConn (Some (?w, ?s)) exampleSeed ''aes-128-gcm'' ?k ?k = Inr d0" "rc_sendEpoch d0 = 7"
    "rc_rand d0 = replicate 48 1 @ ?rest" using exampleSeed_conn by blast
  from run [OF this] obtain c1 where c1: "kipClientHello plainCrypto KeyUpdateAfterBytes exampleDH 100 c (replicate 8 5) KIPFeatAll 7 True
         = Some (Inr (replicate 32 1, replicate 16 1), c1)" by blast
  obtain d where d: "NewRecordConn (Some (?w, \<lparr>src_chunks = [wr_out (rc_writer c1)], src_final = EOF\<rparr>)) exampleSeed ''aes-128-gcm'' ?k ?k = Inr d"
    "rc_sendEpoch d = 7" "rc_rand d = replicate 48 1 @ ?rest" using exampleSeed_conn by blast
  from run [OF d] c1 obtain d1 where "kipHandshakeServer plainCrypto KeyUpdateAfterBytes exampleDH (\<lambda>_. 0) ?clk [] sel ''seed'' Map.empty d
      = Some (Inr \<lparr>sa_userHash = hexEncode (replicate 8 5), sa_table = sel\<rparr>, prot, d1)" by auto
  with c(1) c1 d(1) show ?thesis unfolding sel_def Let_def by blast
qed

end
