(* ===== verification/Limiter.thy ===== *)
theory Limiter
  imports Prelude "HOL-Library.AList" "HOL-Library.Multiset"
begin

text \<open>
  The node's limiter (limiter/limiter.go, common/format/user.go): per-user speed and device
  limits, the devices that are online with the number of connections of each, and what the
  panel has been told about them.

  A Go map is an association list kept without duplicate keys; ranging over it visits the
  entries in list order, one of the orders Go may take. A set is a list. A speed bucket is
  its rate in bytes per second: the bucket itself belongs to a third-party package and is
  only handed on. Each operation takes the locks it needs one after the other; the model
  runs an operation as one step.
\<close>

section \<open>State\<close>

record UserInfo =
  ui_Id :: int
  ui_Uuid :: string
  ui_SpeedLimit :: int
  ui_DeviceLimit :: int

record OnlineUser =
  ou_UID :: int
  ou_IP :: string

record onlineUserState =
  os_uid :: int
  os_ips :: "(string \<times> int) list"

record UserLimitInfo =
  ul_UID :: int
  ul_DeviceLimit :: int
  ul_SpeedLimit :: int
  ul_UserSpeedLimiter :: "int option"

record OfflineUser =
  of_UserTag :: string
  of_UID :: int

record Limiter =
  lm_Nodetype :: string
  lm_SpeedLimit :: int
  lm_NodeSpeedLimiter :: "int option"
  lm_UserLimitInfo :: "(string \<times> UserLimitInfo) list"
  lm_AliveList :: "(int \<times> int) list"
  lm_online :: "(string \<times> onlineUserState) list"
  lm_reported :: "(string \<times> string list) list"
  lm_pendingOffline :: "(string \<times> int) list"

text \<open>Reading a key that is not in a map gives the zero value.\<close>

definition mapGet :: "('a \<times> 'b) list \<Rightarrow> 'a \<Rightarrow> 'b \<Rightarrow> 'b" where
  "mapGet m k zero = (case map_of m k of None \<Rightarrow> zero | Some v \<Rightarrow> v)"

definition UserTag :: "string \<Rightarrow> string \<Rightarrow> string" where
  "UserTag tag uuid = tag @ ''|'' @ uuid"

text \<open>Mbps to bytes per second; the product wraps at 64 bits and the division truncates.\<close>

definition speedRate :: "int \<Rightarrow> int" where
  "speedRate mbps = (let v = i64 (mbps * 1000000) in if v < 0 then - ((- v) div 8) else v div 8)"

section \<open>Users\<close>

definition newUserLimitInfo :: "UserInfo \<Rightarrow> UserLimitInfo" where
  "newUserLimitInfo user =
     \<lparr>ul_UID = ui_Id user, ul_DeviceLimit = ui_DeviceLimit user, ul_SpeedLimit = ui_SpeedLimit user,
      ul_UserSpeedLimiter = (if ui_SpeedLimit user > 0 then Some (speedRate (ui_SpeedLimit user)) else None)\<rparr>"

definition storeUsers :: "string \<Rightarrow> UserInfo list \<Rightarrow> (string \<times> UserLimitInfo) list \<Rightarrow> (string \<times> UserLimitInfo) list" where
  "storeUsers tag users m = fold (\<lambda>u. AList.update (UserTag tag (ui_Uuid u)) (newUserLimitInfo u)) users m"

definition newLimiter :: "string \<Rightarrow> string \<Rightarrow> int \<Rightarrow> UserInfo list \<Rightarrow> (int \<times> int) list \<Rightarrow> Limiter" where
  "newLimiter nodetype tag speedLimit users aliveList =
     \<lparr>lm_Nodetype = nodetype, lm_SpeedLimit = speedLimit,
      lm_NodeSpeedLimiter = (if speedLimit > 0 then Some (speedRate speedLimit) else None),
      lm_UserLimitInfo = storeUsers tag users [], lm_AliveList = aliveList,
      lm_online = [], lm_reported = [], lm_pendingOffline = []\<rparr>"

text \<open>The process-wide table of limiters: a limiter is an object, the table holds its address.\<close>

record limiterTable =
  lt_objects :: "Limiter list"
  lt_limiter :: "(string \<times> nat) list"

definition AddLimiter :: "string \<Rightarrow> string \<Rightarrow> int \<Rightarrow> UserInfo list \<Rightarrow> (int \<times> int) list \<Rightarrow> limiterTable \<Rightarrow> nat \<times> limiterTable" where
  "AddLimiter nodetype tag speedLimit users aliveList t =
     (let a = length (lt_objects t) in
      (a, t\<lparr>lt_objects := lt_objects t @ [newLimiter nodetype tag speedLimit users aliveList],
            lt_limiter := AList.update tag a (lt_limiter t)\<rparr>))"

definition GetLimiter :: "limiterTable \<Rightarrow> string \<Rightarrow> nat option" where
  "GetLimiter t tag = map_of (lt_limiter t) tag"

definition DeleteLimiter :: "string \<Rightarrow> limiterTable \<Rightarrow> limiterTable" where
  "DeleteLimiter tag t = t\<lparr>lt_limiter := AList.delete tag (lt_limiter t)\<rparr>"

text \<open>UpdateUser: a modified user keeps its entry; its bucket is created, changed or dropped.\<close>

definition modifyUser :: "string \<Rightarrow> UserInfo \<Rightarrow> (string \<times> UserLimitInfo) list \<Rightarrow> (string \<times> UserLimitInfo) list" where
  "modifyUser tag user m =
     (case map_of m (UserTag tag (ui_Uuid user)) of
        None \<Rightarrow> m
      | Some u \<Rightarrow> AList.update (UserTag tag (ui_Uuid user))
          (u\<lparr>ul_DeviceLimit := ui_DeviceLimit user, ul_SpeedLimit := ui_SpeedLimit user,
             ul_UserSpeedLimiter := (if ui_SpeedLimit user > 0 then Some (speedRate (ui_SpeedLimit user)) else None)\<rparr>) m)"

definition deleteTags :: "string \<Rightarrow> UserInfo list \<Rightarrow> (string \<times> 'a) list \<Rightarrow> (string \<times> 'a) list" where
  "deleteTags tag users m = fold (\<lambda>u. AList.delete (UserTag tag (ui_Uuid u))) users m"

definition UpdateUser :: "string \<Rightarrow> UserInfo list \<Rightarrow> UserInfo list \<Rightarrow> UserInfo list \<Rightarrow> Limiter \<Rightarrow> Limiter" where
  "UpdateUser tag added deleted modified l =
     l\<lparr>lm_UserLimitInfo := storeUsers tag added (fold (modifyUser tag) modified (deleteTags tag deleted (lm_UserLimitInfo l))),
       lm_AliveList := fold (\<lambda>u. AList.delete (ui_Id u)) deleted (lm_AliveList l),
       lm_online := deleteTags tag deleted (lm_online l),
       lm_reported := deleteTags tag deleted (lm_reported l),
       lm_pendingOffline := deleteTags tag deleted (lm_pendingOffline l)\<rparr>"

definition SetAliveList :: "(int \<times> int) list \<Rightarrow> Limiter \<Rightarrow> Limiter" where
  "SetAliveList aliveList l = l\<lparr>lm_AliveList := aliveList\<rparr>"

definition UserSpeedLimiter :: "Limiter \<Rightarrow> string \<Rightarrow> int option" where
  "UserSpeedLimiter l taguuid =
     (case map_of (lm_UserLimitInfo l) taguuid of None \<Rightarrow> None | Some u \<Rightarrow> ul_UserSpeedLimiter u)"

definition SpeedLimiter :: "Limiter \<Rightarrow> string \<Rightarrow> int option" where
  "SpeedLimiter l taguuid =
     (case lm_NodeSpeedLimiter l of Some b \<Rightarrow> Some b | None \<Rightarrow> UserSpeedLimiter l taguuid)"

section \<open>Connections\<close>

definition mappedPrefix :: string where "mappedPrefix = ''::ffff:''"

text \<open>Storing a state with the count of an address; every accepted connection ends the pending
  offline report.\<close>

definition acceptIP :: "string \<Rightarrow> onlineUserState \<Rightarrow> string \<Rightarrow> int \<Rightarrow> Limiter \<Rightarrow> Limiter" where
  "acceptIP taguuid state ip n l =
     l\<lparr>lm_online := AList.update taguuid (state\<lparr>os_ips := AList.update ip n (os_ips state)\<rparr>) (lm_online l),
       lm_pendingOffline := AList.delete taguuid (lm_pendingOffline l)\<rparr>"

definition trackConnection :: "string \<Rightarrow> int \<Rightarrow> string \<Rightarrow> int \<Rightarrow> int \<Rightarrow> Limiter \<Rightarrow> bool \<times> Limiter" where
  "trackConnection taguuid uid ip aliveIP deviceLimit l =
     (let state = mapGet (lm_online l) taguuid \<lparr>os_uid = uid, os_ips = []\<rparr>;
          l = l\<lparr>lm_online := AList.update taguuid state (lm_online l)\<rparr> in
      if mapGet (os_ips state) ip 0 > 0 then (True, acceptIP taguuid state ip (mapGet (os_ips state) ip 0 + 1) l)
      else if deviceLimit > 0 then
        let reported = mapGet (lm_reported l) taguuid [] in
        if map_of (lm_pendingOffline l) taguuid \<noteq> None \<and> ip \<in> set reported then (True, acceptIP taguuid state ip 1 l)
        else
          let reportedActive = int (length (filter (\<lambda>(a, n). a \<in> set reported) (os_ips state)));
              unreportedActive = int (length (filter (\<lambda>(a, n). a \<notin> set reported) (os_ips state)));
              knownDevices = max aliveIP reportedActive in
          if knownDevices + unreportedActive + 1 > deviceLimit
          then (False, if os_ips state = [] then l\<lparr>lm_online := AList.delete taguuid (lm_online l)\<rparr> else l)
          else (True, acceptIP taguuid state ip 1 l)
      else (True, acceptIP taguuid state ip 1 l))"

text \<open>The result is the node's bucket, whether the connection is rejected, and the limiter.\<close>

definition CheckLimit :: "string \<Rightarrow> string \<Rightarrow> bool \<Rightarrow> Limiter \<Rightarrow> int option \<times> bool \<times> Limiter" where
  "CheckLimit taguuid ip noUDPsource l =
     (let ip = trimPrefix ip mappedPrefix in
      case map_of (lm_UserLimitInfo l) taguuid of
        None \<Rightarrow> (None, True, l)
      | Some u \<Rightarrow>
          if noUDPsource then
            (case trackConnection taguuid (ul_UID u) ip (mapGet (lm_AliveList l) (ul_UID u) 0) (ul_DeviceLimit u) l of
               (False, l) \<Rightarrow> (None, True, l)
             | (True, l) \<Rightarrow> (lm_NodeSpeedLimiter l, False, l))
          else (lm_NodeSpeedLimiter l, False, l))"

definition ReleaseConnection :: "string \<Rightarrow> string \<Rightarrow> Limiter \<Rightarrow> Limiter" where
  "ReleaseConnection taguuid ip l =
     (let ip = trimPrefix ip mappedPrefix in
      case map_of (lm_online l) taguuid of
        None \<Rightarrow> l
      | Some state \<Rightarrow>
          if mapGet (os_ips state) ip 0 > 1 then
            l\<lparr>lm_online := AList.update taguuid (state\<lparr>os_ips := AList.update ip (mapGet (os_ips state) ip 0 - 1) (os_ips state)\<rparr>) (lm_online l)\<rparr>
          else
            let state = state\<lparr>os_ips := AList.delete ip (os_ips state)\<rparr> in
            if os_ips state = [] then
              l\<lparr>lm_online := AList.delete taguuid (lm_online l),
                lm_pendingOffline := (if mapGet (lm_reported l) taguuid [] \<noteq> []
                  then AList.update taguuid (os_uid state) (lm_pendingOffline l)
                  else AList.delete taguuid (lm_pendingOffline l))\<rparr>
            else l\<lparr>lm_online := AList.update taguuid state (lm_online l)\<rparr>)"

section \<open>Reports\<close>

definition GetOnlineDevice :: "Limiter \<Rightarrow> OnlineUser list" where
  "GetOnlineDevice l =
     concat (map (\<lambda>(taguuid, state). map (\<lambda>(ip, n). \<lparr>ou_UID = os_uid state, ou_IP = ip\<rparr>) (os_ips state)) (lm_online l))"

definition GetPendingOfflineUsers :: "Limiter \<Rightarrow> OfflineUser list" where
  "GetPendingOfflineUsers l = map (\<lambda>(taguuid, uid). \<lparr>of_UserTag = taguuid, of_UID = uid\<rparr>) (lm_pendingOffline l)"

definition markOffline :: "OfflineUser \<Rightarrow> Limiter \<Rightarrow> Limiter" where
  "markOffline item l =
     (if map_of (lm_pendingOffline l) (of_UserTag item) \<noteq> Some (of_UID item) then l
      else if (case map_of (lm_online l) (of_UserTag item) of None \<Rightarrow> False | Some state \<Rightarrow> os_ips state \<noteq> []) then l
      else l\<lparr>lm_pendingOffline := AList.delete (of_UserTag item) (lm_pendingOffline l),
             lm_reported := AList.delete (of_UserTag item) (lm_reported l)\<rparr>)"

definition MarkOfflineUsersReported :: "OfflineUser list \<Rightarrow> Limiter \<Rightarrow> Limiter" where
  "MarkOfflineUsersReported offline l = fold markOffline offline l"

definition ipsByUID :: "OnlineUser list \<Rightarrow> int \<Rightarrow> string list" where
  "ipsByUID online uid =
     remdups (map (\<lambda>item. trimPrefix (ou_IP item) mappedPrefix) (filter (\<lambda>item. ou_UID item = uid) online))"

definition MarkOnlineDeviceReported :: "OnlineUser list \<Rightarrow> Limiter \<Rightarrow> Limiter" where
  "MarkOnlineDeviceReported online l =
     l\<lparr>lm_reported := fold (\<lambda>(taguuid, state) reported.
          let ips = ipsByUID online (os_uid state) in
          if ips \<noteq> [] then AList.update taguuid ips reported else AList.delete taguuid reported) (lm_online l) (lm_reported l)\<rparr>"


section \<open>The invariant\<close>

lemma update_fresh: "k \<notin> fst ` set al \<Longrightarrow> AList.update k v al = al @ [(k, v)]"
  by (induction al) auto

lemma map_of_update [simp]: "map_of (AList.update k v al) j = (if j = k then Some v else map_of al j)"
  by (simp add: AList.update_conv')

lemma map_of_delete [simp]: "map_of (AList.delete k al) j = (if j = k then None else map_of al j)"
  by (simp add: AList.delete_conv')

lemma update_not_Nil [simp]: "AList.update k v al \<noteq> []"
  by (cases al) auto

lemma length_update_old: "k \<in> fst ` set al \<Longrightarrow> length (AList.update k v al) = length al"
  by (induction al) auto

lemma length_delete_le: "length (AList.delete k al) \<le> length al"
  by (simp add: AList.delete_eq)

lemma mapGet_update [simp]: "mapGet (AList.update k v al) j z = (if j = k then v else mapGet al j z)"
  by (simp add: mapGet_def)

lemma mapGet_delete [simp]: "mapGet (AList.delete k al) j z = (if j = k then z else mapGet al j z)"
  by (simp add: mapGet_def)

lemma snd_delete: "snd ` set (AList.delete k al) \<subseteq> snd ` set al"
  by (auto simp: AList.delete_eq)

lemma snd_update: "snd ` set (AList.update k v al) \<subseteq> insert v (snd ` set al)"
  by (induction al) auto

text \<open>The addresses of an online user: at least one, none twice, each with a connection. A user
  whose offline report is pending is not online.\<close>

definition ipsInv :: "(string \<times> int) list \<Rightarrow> bool" where
  "ipsInv ips \<longleftrightarrow> ips \<noteq> [] \<and> distinct (map fst ips) \<and> (\<forall>n\<in>snd ` set ips. 0 < n)"

definition limiterInv :: "Limiter \<Rightarrow> bool" where
  "limiterInv l \<longleftrightarrow> distinct (map fst (lm_online l)) \<and> (\<forall>t st. map_of (lm_online l) t = Some st \<longrightarrow> ipsInv (os_ips st))
     \<and> (\<forall>t. map_of (lm_pendingOffline l) t \<noteq> None \<longrightarrow> map_of (lm_online l) t = None)"

definition onlineIPs :: "Limiter \<Rightarrow> string \<Rightarrow> (string \<times> int) list" where
  "onlineIPs l t = (case map_of (lm_online l) t of None \<Rightarrow> [] | Some st \<Rightarrow> os_ips st)"

lemma ipsInv_mapGet:
  assumes "ips = [] \<or> ipsInv ips"
  shows "mapGet ips ip 0 > 0 \<longleftrightarrow> ip \<in> fst ` set ips"
proof (cases "map_of ips ip")
  case None
  then have "ip \<notin> fst ` set ips" by (simp add: map_of_eq_None_iff)
  moreover have "mapGet ips ip 0 = 0" unfolding mapGet_def None by simp
  ultimately show ?thesis by simp
next
  case (Some n)
  then have "(ip, n) \<in> set ips" by (rule map_of_SomeD)
  moreover from this have "0 < n" using assms by (force simp: ipsInv_def)
  ultimately show ?thesis using Some by (force simp: mapGet_def)
qed

lemma ipsInv_update: "ips = [] \<or> ipsInv ips \<Longrightarrow> 0 < n \<Longrightarrow> ipsInv (AList.update ip n ips)"
  using snd_update [of ip n ips] by (fastforce simp: ipsInv_def AList.distinct_update)

lemma ipsInv_delete: "ipsInv ips \<Longrightarrow> AList.delete ip ips \<noteq> [] \<Longrightarrow> ipsInv (AList.delete ip ips)"
  using snd_delete [of ip ips] by (fastforce simp: ipsInv_def AList.distinct_delete)

lemma limiterInv_ips: "limiterInv l \<Longrightarrow> onlineIPs l t = [] \<or> ipsInv (onlineIPs l t)"
  by (auto simp: limiterInv_def onlineIPs_def split: option.splits)

lemma limiterInv_same:
  assumes "limiterInv l" "distinct (map fst (lm_online l'))" "map_of (lm_online l') = map_of (lm_online l)"
    "lm_pendingOffline l' = lm_pendingOffline l"
  shows "limiterInv l'"
  using assms(1, 2) unfolding limiterInv_def assms(3, 4) by blast

text \<open>What an accepted connection and a release do to the addresses that are online.\<close>

lemma acceptIP_props:
  assumes "limiterInv l" "os_ips state = onlineIPs l t" "0 < n"
  shows "limiterInv (acceptIP t state ip n (l\<lparr>lm_online := AList.update t state (lm_online l)\<rparr>))"
    "onlineIPs (acceptIP t state ip n (l\<lparr>lm_online := AList.update t state (lm_online l)\<rparr>)) t' =
       (if t' = t then AList.update ip n (onlineIPs l t) else onlineIPs l t')"
proof -
  have "ipsInv (AList.update ip n (os_ips state))" using limiterInv_ips [OF assms(1), of t] assms(2, 3) ipsInv_update by simp
  then show "limiterInv (acceptIP t state ip n (l\<lparr>lm_online := AList.update t state (lm_online l)\<rparr>))"
    using assms(1) by (auto simp: acceptIP_def limiterInv_def AList.distinct_update)
  show "onlineIPs (acceptIP t state ip n (l\<lparr>lm_online := AList.update t state (lm_online l)\<rparr>)) t' =
       (if t' = t then AList.update ip n (onlineIPs l t) else onlineIPs l t')"
    using assms(2) by (simp add: acceptIP_def onlineIPs_def)
qed

lemma trackConnection_props:
  assumes inv: "limiterInv l" and run: "trackConnection t uid ip alive d l = (ok, l')"
  shows "limiterInv l'"
    and "onlineIPs l' t' = (if ok \<and> t' = t then AList.update ip (mapGet (onlineIPs l t) ip 0 + 1) (onlineIPs l t) else onlineIPs l t')"
    and "ok \<Longrightarrow> 0 < d \<Longrightarrow> ip \<notin> fst ` set (onlineIPs l t) \<Longrightarrow> int (length (onlineIPs l t)) + 1 \<le> d"
    and "lm_UserLimitInfo l' = lm_UserLimitInfo l"
proof -
  define state where "state = mapGet (lm_online l) t \<lparr>os_uid = uid, os_ips = []\<rparr>"
  let ?l = "l\<lparr>lm_online := AList.update t state (lm_online l)\<rparr>" and ?ips = "onlineIPs l t"
  have st: "os_ips state = ?ips" by (simp add: state_def onlineIPs_def mapGet_def split: option.split)
  have pos: "mapGet ?ips ip 0 > 0 \<longleftrightarrow> ip \<in> fst ` set ?ips" using ipsInv_mapGet limiterInv_ips [OF inv, of t] by blast
  have zero: "mapGet ?ips ip 0 = 0" if "ip \<notin> fst ` set ?ips"
  proof -
    have "map_of ?ips ip = None" using that by (simp add: map_of_eq_None_iff)
    then show ?thesis unfolding mapGet_def by (simp only: option.case)
  qed
  define reported where "reported = mapGet (lm_reported l) t []"
  define room where "room \<longleftrightarrow> \<not> max alive (int (length (filter (\<lambda>(a, n). a \<in> set reported) ?ips)))
      + int (length (filter (\<lambda>(a, n). a \<notin> set reported) ?ips)) + 1 > d"
  define grace where "grace \<longleftrightarrow> map_of (lm_pendingOffline l) t \<noteq> None \<and> ip \<in> set reported"
  have run': "(ok, l') = (if ip \<in> fst ` set ?ips then (True, acceptIP t state ip (mapGet ?ips ip 0 + 1) ?l)
      else if 0 < d \<and> \<not> grace \<and> \<not> room then (False, if ?ips = [] then ?l\<lparr>lm_online := AList.delete t (lm_online ?l)\<rparr> else ?l)
      else (True, acceptIP t state ip 1 ?l))"
    unfolding run [symmetric] trackConnection_def Let_def state_def [symmetric] st pos
    by (auto simp: grace_def room_def reported_def)
  have acc: "ok \<Longrightarrow> l' = acceptIP t state ip (mapGet ?ips ip 0 + 1) ?l" using run' zero by (auto split: if_splits)
  have rej: "\<not> ok \<Longrightarrow> l' = (if ?ips = [] then ?l\<lparr>lm_online := AList.delete t (lm_online ?l)\<rparr> else ?l)" using run' by (auto split: if_splits)
  have n: "0 < mapGet ?ips ip 0 + 1" using pos zero by (cases "ip \<in> fst ` set ?ips") auto
  have same: "map_of (lm_online ?l) t' = map_of (lm_online l) t'" if "?ips \<noteq> []" for t'
    using that by (auto simp: state_def mapGet_def onlineIPs_def split: option.splits)
  have none: "map_of (lm_online l) t = None" if "?ips = []"
    using that inv by (auto simp: onlineIPs_def limiterInv_def ipsInv_def split: option.splits)
  show "limiterInv l'"
  proof (cases ok)
    case True
    then show ?thesis using acceptIP_props(1) [OF inv st n] acc by simp
  next
    case False
    have "distinct (map fst (lm_online ?l))" "distinct (map fst (AList.delete t (lm_online ?l)))"
      using inv by (simp_all add: limiterInv_def AList.distinct_update AList.distinct_delete)
    moreover have "map_of (AList.delete t (lm_online ?l)) = map_of (lm_online l)" if "?ips = []"
      using none [OF that] by (simp add: fun_eq_iff)
    ultimately show ?thesis using rej [OF False] same by (intro limiterInv_same [OF inv]) (auto simp only: fun_eq_iff split: if_splits, simp_all)
  qed
  show "onlineIPs l' t' = (if ok \<and> t' = t then AList.update ip (mapGet ?ips ip 0 + 1) ?ips else onlineIPs l t')"
  proof (cases ok)
    case True
    then show ?thesis using acceptIP_props(2) [OF inv st n] acc by simp
  next
    case False
    then show ?thesis using rej same none by (auto simp: onlineIPs_def)
  qed
  show "lm_UserLimitInfo l' = lm_UserLimitInfo l" using acc rej by (cases ok) (auto simp: acceptIP_def)
  show "int (length ?ips) + 1 \<le> d" if "ok" "0 < d" "ip \<notin> fst ` set ?ips"
  proof -
    have "grace \<or> room" using run' that by (auto split: if_splits)
    then show ?thesis
    proof
      assume grace
      then have "?ips = []" using inv by (auto simp: grace_def limiterInv_def onlineIPs_def)
      then show ?thesis using that(2) by simp
    next
      assume room
      moreover have "length (filter (\<lambda>(a, n). a \<in> set reported) ?ips) + length (filter (\<lambda>(a, n). a \<notin> set reported) ?ips) = length ?ips"
        using sum_length_filter_compl [of "\<lambda>(a, n). a \<in> set reported" ?ips] by (simp add: case_prod_unfold)
      ultimately show ?thesis unfolding room_def by linarith
    qed
  qed
qed

lemma CheckLimit_cases:
  assumes "CheckLimit t ip tracked l = (b, reject, l')"
  obtains (unknown) "map_of (lm_UserLimitInfo l) t = None" "reject" "l' = l"
  | (untracked) "\<not> tracked" "\<not> reject" "l' = l"
  | (tracked) u where "map_of (lm_UserLimitInfo l) t = Some u" "tracked"
      "trackConnection t (ul_UID u) (trimPrefix ip mappedPrefix) (mapGet (lm_AliveList l) (ul_UID u) 0) (ul_DeviceLimit u) l = (\<not> reject, l')"
  using assms by (auto simp: CheckLimit_def Let_def split: option.splits if_splits prod.splits bool.splits)

lemma ReleaseConnection_props:
  assumes inv: "limiterInv l"
  shows "limiterInv (ReleaseConnection t ip l)"
    and "onlineIPs (ReleaseConnection t ip l) t' =
      (let i = trimPrefix ip mappedPrefix in
       if t' = t then if mapGet (onlineIPs l t) i 0 > 1 then AList.update i (mapGet (onlineIPs l t) i 0 - 1) (onlineIPs l t)
         else AList.delete i (onlineIPs l t)
       else onlineIPs l t')"
    and "lm_UserLimitInfo (ReleaseConnection t ip l) = lm_UserLimitInfo l"
proof -
  define i where "i = trimPrefix ip mappedPrefix"
  show "lm_UserLimitInfo (ReleaseConnection t ip l) = lm_UserLimitInfo l"
    by (simp add: ReleaseConnection_def Let_def split: option.split)
  have "limiterInv (ReleaseConnection t ip l) \<and> onlineIPs (ReleaseConnection t ip l) t' =
     (if t' = t then if mapGet (onlineIPs l t) i 0 > 1 then AList.update i (mapGet (onlineIPs l t) i 0 - 1) (onlineIPs l t)
        else AList.delete i (onlineIPs l t) else onlineIPs l t')"
  proof (cases "map_of (lm_online l) t")
    case None
    then show ?thesis using inv by (simp add: ReleaseConnection_def onlineIPs_def mapGet_def)
  next
    case (Some state)
    then have ips: "onlineIPs l t = os_ips state" "ipsInv (os_ips state)" using inv by (auto simp: onlineIPs_def limiterInv_def)
    have d: "distinct (map fst (AList.update t st (lm_online l)))" "distinct (map fst (AList.delete t (lm_online l)))" for st
      using inv by (simp_all add: limiterInv_def AList.distinct_update AList.distinct_delete)
    consider "mapGet (os_ips state) i 0 > 1" | "\<not> mapGet (os_ips state) i 0 > 1" "AList.delete i (os_ips state) = []"
      | "\<not> mapGet (os_ips state) i 0 > 1" "AList.delete i (os_ips state) \<noteq> []" by blast
    then show ?thesis
    proof cases
      case 1
      then have "ipsInv (AList.update i (mapGet (os_ips state) i 0 - 1) (os_ips state))" using ips(2) ipsInv_update by simp
      then show ?thesis using 1 Some ips(1) inv d
        by (auto simp: ReleaseConnection_def Let_def i_def [symmetric] limiterInv_def onlineIPs_def)
    next
      case 2
      then show ?thesis using Some ips(1) inv d
        by (auto simp: ReleaseConnection_def Let_def i_def [symmetric] limiterInv_def onlineIPs_def)
    next
      case 3
      then have "ipsInv (AList.delete i (os_ips state))" using ips(2) ipsInv_delete by simp
      then show ?thesis using 3 Some ips(1) inv d
        by (auto simp: ReleaseConnection_def Let_def i_def [symmetric] limiterInv_def onlineIPs_def)
    qed
  qed
  then show "limiterInv (ReleaseConnection t ip l)" "onlineIPs (ReleaseConnection t ip l) t' =
      (let i = trimPrefix ip mappedPrefix in
       if t' = t then if mapGet (onlineIPs l t) i 0 > 1 then AList.update i (mapGet (onlineIPs l t) i 0 - 1) (onlineIPs l t)
         else AList.delete i (onlineIPs l t)
       else onlineIPs l t')"
    by (simp_all add: i_def Let_def)
qed


section \<open>Histories\<close>

text \<open>What happens to a limiter: connections come and go, the panel changes users and alive
  counts and acknowledges reports.\<close>

datatype limEvent =
    EvCheck string string bool
  | EvRelease string string
  | EvUpdate string "UserInfo list" "UserInfo list" "UserInfo list"
  | EvAlive "(int \<times> int) list"
  | EvOfflineReported "OfflineUser list"
  | EvOnlineReported "OnlineUser list"

fun limStep :: "limEvent \<Rightarrow> Limiter \<Rightarrow> Limiter" where
  "limStep (EvCheck t ip tracked) l = snd (snd (CheckLimit t ip tracked l))"
| "limStep (EvRelease t ip) l = ReleaseConnection t ip l"
| "limStep (EvUpdate tag added deleted modified) l = UpdateUser tag added deleted modified l"
| "limStep (EvAlive alive) l = SetAliveList alive l"
| "limStep (EvOfflineReported off) l = MarkOfflineUsersReported off l"
| "limStep (EvOnlineReported on) l = MarkOnlineDeviceReported on l"

lemma map_of_deleteTags:
  "map_of (deleteTags tag users m) t = (if t \<in> (\<lambda>u. UserTag tag (ui_Uuid u)) ` set users then None else map_of m t)"
proof (induction users arbitrary: m)
  case (Cons u users)
  show ?case using Cons [of "AList.delete (UserTag tag (ui_Uuid u)) m"] by (simp add: deleteTags_def)
qed (simp add: deleteTags_def)

lemma distinct_deleteTags: "distinct (map fst m) \<Longrightarrow> distinct (map fst (deleteTags tag users m))"
proof (induction users arbitrary: m)
  case (Cons u users)
  then show ?case using Cons.IH [of "AList.delete (UserTag tag (ui_Uuid u)) m"] by (simp add: deleteTags_def AList.distinct_delete)
qed (simp add: deleteTags_def)

lemma UpdateUser_props:
  assumes "limiterInv l"
  shows "limiterInv (UpdateUser tag added deleted modified l)"
    "onlineIPs (UpdateUser tag added deleted modified l) t =
       (if t \<in> (\<lambda>u. UserTag tag (ui_Uuid u)) ` set deleted then [] else onlineIPs l t)"
proof -
  have "distinct (map fst (deleteTags tag deleted (lm_online l)))"
    using assms by (intro distinct_deleteTags) (simp add: limiterInv_def)
  moreover have "\<forall>t st. map_of (deleteTags tag deleted (lm_online l)) t = Some st \<longrightarrow> ipsInv (os_ips st)"
    using assms unfolding map_of_deleteTags limiterInv_def by (metis option.distinct(1))
  moreover have "\<forall>t. map_of (deleteTags tag deleted (lm_pendingOffline l)) t \<noteq> None \<longrightarrow> map_of (deleteTags tag deleted (lm_online l)) t = None"
    using assms unfolding map_of_deleteTags limiterInv_def by metis
  ultimately show "limiterInv (UpdateUser tag added deleted modified l)"
    unfolding limiterInv_def by (simp add: UpdateUser_def)
  show "onlineIPs (UpdateUser tag added deleted modified l) t =
       (if t \<in> (\<lambda>u. UserTag tag (ui_Uuid u)) ` set deleted then [] else onlineIPs l t)"
    by (simp add: onlineIPs_def UpdateUser_def map_of_deleteTags)
qed

lemma markOffline_props:
  "limiterInv l \<Longrightarrow> limiterInv (markOffline item l)" "lm_online (markOffline item l) = lm_online l"
  "lm_UserLimitInfo (markOffline item l) = lm_UserLimitInfo l"
  by (auto simp: markOffline_def limiterInv_def)

lemma MarkOffline_props:
  "limiterInv l \<Longrightarrow> limiterInv (MarkOfflineUsersReported off l)" "lm_online (MarkOfflineUsersReported off l) = lm_online l"
  "lm_UserLimitInfo (MarkOfflineUsersReported off l) = lm_UserLimitInfo l"
  unfolding MarkOfflineUsersReported_def
  by (induction off arbitrary: l) (auto simp: markOffline_props)

lemma MarkOnline_props:
  "limiterInv l \<Longrightarrow> limiterInv (MarkOnlineDeviceReported on l)" "lm_online (MarkOnlineDeviceReported on l) = lm_online l"
  "lm_UserLimitInfo (MarkOnlineDeviceReported on l) = lm_UserLimitInfo l"
  by (simp_all add: MarkOnlineDeviceReported_def limiterInv_def)

lemma SetAlive_props:
  "limiterInv l \<Longrightarrow> limiterInv (SetAliveList a l)" "lm_online (SetAliveList a l) = lm_online l"
  "lm_UserLimitInfo (SetAliveList a l) = lm_UserLimitInfo l"
  by (simp_all add: SetAliveList_def limiterInv_def)

lemmas limiter_frame = MarkOffline_props MarkOnline_props SetAlive_props

lemma CheckLimit_inv: "limiterInv l \<Longrightarrow> limiterInv (snd (snd (CheckLimit t ip tracked l)))"
proof -
  assume inv: "limiterInv l"
  obtain b reject l' where run: "CheckLimit t ip tracked l = (b, reject, l')" by (metis prod_cases3)
  from run have "limiterInv l'" using inv by (cases rule: CheckLimit_cases) (auto dest: trackConnection_props(1) [OF inv])
  with run show ?thesis by simp
qed

lemma limStep_inv: "limiterInv l \<Longrightarrow> limiterInv (limStep ev l)"
  by (cases ev) (simp_all add: CheckLimit_inv ReleaseConnection_props(1) UpdateUser_props(1) limiter_frame)

lemma newLimiter_inv: "limiterInv (newLimiter nodetype tag speed users alive)"
  by (simp add: newLimiter_def limiterInv_def)

text \<open>The limits of a user: those of the entries the panel has set.\<close>

definition limitsFor :: "string \<Rightarrow> string \<Rightarrow> int \<Rightarrow> UserInfo list \<Rightarrow> bool" where
  "limitsFor t tag d users \<longleftrightarrow> (\<forall>u\<in>set users. UserTag tag (ui_Uuid u) = t \<longrightarrow> 0 < ui_DeviceLimit u \<and> ui_DeviceLimit u \<le> d)"

fun evLimits :: "string \<Rightarrow> int \<Rightarrow> limEvent \<Rightarrow> bool" where
  "evLimits t d (EvUpdate tag added deleted modified) \<longleftrightarrow> limitsFor t tag d added \<and> limitsFor t tag d modified"
| "evLimits t d ev \<longleftrightarrow> True"

definition limitOk :: "string \<Rightarrow> int \<Rightarrow> (string \<times> UserLimitInfo) list \<Rightarrow> bool" where
  "limitOk t d m \<longleftrightarrow> (\<forall>u. map_of m t = Some u \<longrightarrow> 0 < ul_DeviceLimit u \<and> ul_DeviceLimit u \<le> d)"

lemma limitOk_store: "limitOk t d m \<Longrightarrow> limitsFor t tag d users \<Longrightarrow> limitOk t d (storeUsers tag users m)"
proof (induction users arbitrary: m)
  case (Cons u users)
  have "limitOk t d (AList.update (UserTag tag (ui_Uuid u)) (newUserLimitInfo u) m)"
    using Cons.prems by (auto simp: limitOk_def limitsFor_def newUserLimitInfo_def)
  then show ?case using Cons by (simp add: storeUsers_def limitsFor_def)
qed (simp add: storeUsers_def)

lemma limitOk_modify: "limitOk t d m \<Longrightarrow> limitsFor t tag d users \<Longrightarrow> limitOk t d (fold (modifyUser tag) users m)"
proof (induction users arbitrary: m)
  case (Cons u users)
  have "limitOk t d (modifyUser tag u m)"
    using Cons.prems by (auto simp: limitOk_def limitsFor_def modifyUser_def split: option.splits)
  then show ?case using Cons by (simp add: limitsFor_def)
qed simp

lemma limitOk_delete: "limitOk t d m \<Longrightarrow> limitOk t d (deleteTags tag users m)"
  by (simp add: limitOk_def map_of_deleteTags)

lemma limStep_limitOk:
  assumes "limiterInv l" "limitOk t d (lm_UserLimitInfo l)" "evLimits t d ev"
  shows "limitOk t d (lm_UserLimitInfo (limStep ev l))"
proof (cases ev)
  case (EvCheck t' ip tracked)
  obtain b reject l' where run: "CheckLimit t' ip tracked l = (b, reject, l')" by (metis prod_cases3)
  from run have "lm_UserLimitInfo l' = lm_UserLimitInfo l"
    by (cases rule: CheckLimit_cases) (auto dest: trackConnection_props(4) [OF assms(1)])
  then show ?thesis using EvCheck run assms(2) by simp
next
  case (EvUpdate tag added deleted modified)
  then show ?thesis using assms(2, 3) limitOk_store limitOk_modify limitOk_delete by (simp add: UpdateUser_def)
qed (use assms in \<open>simp_all add: ReleaseConnection_props(3) limiter_frame\<close>)

text \<open>One event keeps the number of a user's devices within the limit.\<close>

lemma limStep_devices:
  assumes inv: "limiterInv l" and lim: "limitOk t d (lm_UserLimitInfo l)" and now: "int (length (onlineIPs l t)) \<le> d"
  shows "int (length (onlineIPs (limStep ev l) t)) \<le> d"
proof (cases ev)
  case (EvCheck t' ip tracked)
  obtain b reject l' where run: "CheckLimit t' ip tracked l = (b, reject, l')" by (metis prod_cases3)
  from run have "int (length (onlineIPs l' t)) \<le> d"
  proof (cases rule: CheckLimit_cases)
    case (tracked u)
    let ?i = "trimPrefix ip mappedPrefix"
    note tr = trackConnection_props [OF inv tracked(3)]
    show ?thesis
    proof (cases "\<not> reject \<and> t = t'")
      case True
      then have ips: "onlineIPs l' t = AList.update ?i (mapGet (onlineIPs l t) ?i 0 + 1) (onlineIPs l t)" using tr(2) [of t] by simp
      show ?thesis
      proof (cases "?i \<in> fst ` set (onlineIPs l t)")
        case True
        then show ?thesis using ips now by (simp add: length_update_old)
      next
        case new: False
        have "0 < ul_DeviceLimit u" "ul_DeviceLimit u \<le> d" using lim tracked(1) True by (auto simp: limitOk_def)
        then show ?thesis using ips tr(3) True new by (simp add: update_fresh)
      qed
    next
      case False
      then have "onlineIPs l' t = onlineIPs l t" using tr(2) [of t] by auto
      then show ?thesis using now by simp
    qed
  qed (use now in simp_all)
  then show ?thesis using EvCheck run by simp
next
  case (EvRelease t' ip)
  let ?i = "trimPrefix ip mappedPrefix" and ?ips = "onlineIPs l t'"
  have "length (AList.update ?i (mapGet ?ips ?i 0 - 1) ?ips) = length ?ips" if "mapGet ?ips ?i 0 > 1"
    using that ipsInv_mapGet [OF limiterInv_ips [OF inv], of t' ?i] by (intro length_update_old) simp
  then show ?thesis using EvRelease now length_delete_le [of ?i ?ips] ReleaseConnection_props(2) [OF inv, of t' ip t]
    by (auto simp: Let_def)
next
  case (EvUpdate tag added deleted modified)
  then show ?thesis using UpdateUser_props(2) [OF inv] now by simp
qed (use now in \<open>simp_all add: onlineIPs_def limiter_frame\<close>)


text \<open>The connections that are open in a history, as a multiset of user tag and address; a
  release is of an open connection, and removing a user forgets its connections.\<close>

fun opens :: "limEvent \<Rightarrow> Limiter \<Rightarrow> (string \<times> string) multiset \<Rightarrow> (string \<times> string) multiset" where
  "opens (EvCheck t ip tracked) l G =
     (if tracked \<and> \<not> fst (snd (CheckLimit t ip tracked l)) then add_mset (t, trimPrefix ip mappedPrefix) G else G)"
| "opens (EvRelease t ip) l G = G - {#(t, trimPrefix ip mappedPrefix)#}"
| "opens (EvUpdate tag added deleted modified) l G = {#c \<in># G. fst c \<notin> (\<lambda>u. UserTag tag (ui_Uuid u)) ` set deleted#}"
| "opens ev l G = G"

fun releaseOk :: "limEvent \<Rightarrow> (string \<times> string) multiset \<Rightarrow> bool" where
  "releaseOk (EvRelease t ip) G \<longleftrightarrow> (t, trimPrefix ip mappedPrefix) \<in># G"
| "releaseOk ev G \<longleftrightarrow> True"

fun history :: "limEvent list \<Rightarrow> Limiter \<Rightarrow> (string \<times> string) multiset \<Rightarrow> Limiter \<times> (string \<times> string) multiset" where
  "history [] l G = (l, G)"
| "history (ev # evs) l G = history evs (limStep ev l) (opens ev l G)"

fun releasesOk :: "limEvent list \<Rightarrow> Limiter \<Rightarrow> (string \<times> string) multiset \<Rightarrow> bool" where
  "releasesOk [] l G \<longleftrightarrow> True"
| "releasesOk (ev # evs) l G \<longleftrightarrow> releaseOk ev G \<and> releasesOk evs (limStep ev l) (opens ev l G)"

definition counts :: "Limiter \<Rightarrow> (string \<times> string) multiset \<Rightarrow> bool" where
  "counts l G \<longleftrightarrow> (\<forall>t ip. mapGet (onlineIPs l t) ip 0 = int (count G (t, ip)))"

lemma limStep_counts:
  assumes inv: "limiterInv l" and cnt: "counts l G" and rel: "releaseOk ev G"
  shows "counts (limStep ev l) (opens ev l G)"
proof (cases ev)
  case (EvCheck t ip tracked)
  obtain b reject l' where run: "CheckLimit t ip tracked l = (b, reject, l')" by (metis prod_cases3)
  from run have "counts l' (if tracked \<and> \<not> reject then add_mset (t, trimPrefix ip mappedPrefix) G else G)"
  proof (cases rule: CheckLimit_cases)
    case (tracked u)
    then show ?thesis using trackConnection_props(2) [OF inv tracked(3)] cnt by (auto simp: counts_def)
  qed (use cnt in simp_all)
  then show ?thesis using EvCheck run by simp
next
  case (EvRelease t ip)
  let ?i = "trimPrefix ip mappedPrefix"
  have "count G (t, ?i) \<noteq> 0" using rel EvRelease by simp
  moreover have "mapGet (onlineIPs l t) ?i 0 = int (count G (t, ?i))" using cnt by (simp add: counts_def)
  moreover have "mapGet (onlineIPs (ReleaseConnection t ip l) t') j 0 =
      (if t' = t \<and> j = ?i then if mapGet (onlineIPs l t) ?i 0 > 1 then mapGet (onlineIPs l t) ?i 0 - 1 else 0
       else mapGet (onlineIPs l t') j 0)" for t' j
    using ReleaseConnection_props(2) [OF inv, of t ip t'] by (simp add: Let_def)
  ultimately show ?thesis using cnt EvRelease by (auto simp: counts_def)
next
  case (EvUpdate tag added deleted modified)
  then show ?thesis using cnt UpdateUser_props(2) [OF inv]
    by (auto simp: counts_def mapGet_def)
qed (use cnt in \<open>simp_all add: counts_def onlineIPs_def limiter_frame\<close>)

lemma history_counts:
  "limiterInv l \<Longrightarrow> counts l G \<Longrightarrow> releasesOk evs l G \<Longrightarrow> history evs l G = (l', G') \<Longrightarrow> limiterInv l' \<and> counts l' G'"
proof (induction evs arbitrary: l G)
  case (Cons ev evs)
  then show ?case using Cons.IH [of "limStep ev l" "opens ev l G"] limStep_inv limStep_counts by simp
qed simp

lemma GetOnlineDevice_iff:
  assumes "limiterInv l"
  shows "(\<exists>item\<in>set (GetOnlineDevice l). ou_IP item = ip \<and> P (ou_UID item))
    \<longleftrightarrow> (\<exists>t st. map_of (lm_online l) t = Some st \<and> 0 < mapGet (onlineIPs l t) ip 0 \<and> P (os_uid st))"
proof -
  have d: "distinct (map fst (lm_online l))" using assms by (simp add: limiterInv_def)
  have "(\<exists>item\<in>set (GetOnlineDevice l). ou_IP item = ip \<and> P (ou_UID item))
    \<longleftrightarrow> (\<exists>t st. (t, st) \<in> set (lm_online l) \<and> ip \<in> fst ` set (os_ips st) \<and> P (os_uid st))"
    by (force simp: GetOnlineDevice_def)
  also have "\<dots> \<longleftrightarrow> (\<exists>t st. map_of (lm_online l) t = Some st \<and> ip \<in> fst ` set (onlineIPs l t) \<and> P (os_uid st))"
  proof -
    have "(t, st) \<in> set (lm_online l) \<and> ip \<in> fst ` set (os_ips st) \<longleftrightarrow> map_of (lm_online l) t = Some st \<and> ip \<in> fst ` set (onlineIPs l t)" for t st
      unfolding map_of_eq_Some_iff [OF d, symmetric] onlineIPs_def by auto
    then show ?thesis by blast
  qed
  also have "\<dots> \<longleftrightarrow> (\<exists>t st. map_of (lm_online l) t = Some st \<and> 0 < mapGet (onlineIPs l t) ip 0 \<and> P (os_uid st))"
    using ipsInv_mapGet [OF limiterInv_ips [OF assms]] by simp
  finally show ?thesis .
qed

section \<open>Properties of the limiter\<close>



text \<open>C14: the online devices are the open connections. In every history in which only open
  connections are released, the number kept for a user and an address is the number of its
  open connections, so the device report lists an address exactly while a connection from it
  is open: connections from one address share a slot that is freed with the last of them.\<close>

theorem online_devices_are_open_connections:
  assumes "releasesOk evs (newLimiter nodetype tag speed users alive) {#}"
    and "history evs (newLimiter nodetype tag speed users alive) {#} = (l, G)"
  shows "mapGet (onlineIPs l t) ip 0 = int (count G (t, ip))
    \<and> ((\<exists>item\<in>set (GetOnlineDevice l). ou_IP item = ip) \<longleftrightarrow> (\<exists>t. (t, ip) \<in># G))"
proof -
  have "counts (newLimiter nodetype tag speed users alive) {#}" by (simp add: counts_def newLimiter_def onlineIPs_def mapGet_def)
  from history_counts [OF newLimiter_inv this assms] have inv: "limiterInv l" and cnt: "counts l G" by auto
  have "map_of (lm_online l) t \<noteq> None" if "0 < mapGet (onlineIPs l t) ip 0" for t
    using that by (auto simp: onlineIPs_def mapGet_def split: option.splits)
  then have "(\<exists>item\<in>set (GetOnlineDevice l). ou_IP item = ip) \<longleftrightarrow> (\<exists>t. 0 < mapGet (onlineIPs l t) ip 0)"
    using GetOnlineDevice_iff [OF inv, of ip "\<lambda>_. True"] by (metis option.exhaust)
  then show ?thesis using cnt by (auto simp: counts_def)
qed

theorem online_devices_are_open_connections_witness:
  "let u = \<lparr>ui_Id = 7, ui_Uuid = ''u'', ui_SpeedLimit = 0, ui_DeviceLimit = 2\<rparr>;
       evs = [EvCheck ''n|u'' ''1.1.1.1'' True, EvCheck ''n|u'' ''1.1.1.1'' True, EvRelease ''n|u'' ''1.1.1.1''] in
   \<exists>l G. history evs (newLimiter ''sudoku'' ''n'' 0 [u] []) {#} = (l, G) \<and> mapGet (onlineIPs l ''n|u'') ''1.1.1.1'' 0 = 1
     \<and> int (count G (''n|u'', ''1.1.1.1'')) = 1"
proof -
  define u where "u = \<lparr>ui_Id = 7, ui_Uuid = ''u'', ui_SpeedLimit = 0, ui_DeviceLimit = 2\<rparr>"
  define evs where "evs = [EvCheck ''n|u'' ''1.1.1.1'' True, EvCheck ''n|u'' ''1.1.1.1'' True, EvRelease ''n|u'' ''1.1.1.1'']"
  let ?l = "newLimiter ''sudoku'' ''n'' 0 [u] []"
  have acc: "fst (snd (CheckLimit ''n|u'' ''1.1.1.1'' True ?l)) = False"
    "fst (snd (CheckLimit ''n|u'' ''1.1.1.1'' True (snd (snd (CheckLimit ''n|u'' ''1.1.1.1'' True ?l))))) = False"
    unfolding u_def by code_simp+
  then have ok: "releasesOk evs ?l {#}" by (simp add: evs_def mappedPrefix_def trimPrefix_def)
  obtain l G where h: "history evs ?l {#} = (l, G)" by (metis prod.exhaust)
  have "mapGet (onlineIPs (fold limStep evs ?l) ''n|u'') ''1.1.1.1'' 0 = 1" unfolding evs_def u_def by code_simp
  then have "mapGet (onlineIPs l ''n|u'') ''1.1.1.1'' 0 = 1" using h by (simp add: evs_def)
  moreover from online_devices_are_open_connections [OF ok h, of "''n|u''" "''1.1.1.1''"]
  have "mapGet (onlineIPs l ''n|u'') ''1.1.1.1'' 0 = int (count G (''n|u'', ''1.1.1.1''))" by blast
  ultimately show ?thesis using h unfolding Let_def u_def [symmetric] evs_def [symmetric]
    by (intro exI [of _ l] exI [of _ G]) simp
qed

text \<open>An offline report can be lost. When the last connection of a user ends while the first
  report that lists its address is on its way, the release finds nothing reported and plans
  no offline report, and the acknowledgement finds the user gone and records nothing: the
  panel holds the address of a user who is offline, and no report is pending that would
  remove it.\<close>

lemma offline_report_lost:
  "\<exists>l0 l1 report. l0 = snd (snd (CheckLimit ''n|u'' ip True
        (newLimiter ''sudoku'' ''n'' 0 [\<lparr>ui_Id = 7, ui_Uuid = ''u'', ui_SpeedLimit = 0, ui_DeviceLimit = 1\<rparr>] [])))
    \<and> report = GetOnlineDevice l0
    \<and> l1 = MarkOnlineDeviceReported report (ReleaseConnection ''n|u'' ip l0)
    \<and> report = [\<lparr>ou_UID = 7, ou_IP = trimPrefix ip mappedPrefix\<rparr>] \<and> GetOnlineDevice l1 = [] \<and> GetPendingOfflineUsers l1 = []"
  by (simp add: CheckLimit_def newLimiter_def storeUsers_def newUserLimitInfo_def UserTag_def trackConnection_def mapGet_def
      acceptIP_def GetOnlineDevice_def ReleaseConnection_def MarkOnlineDeviceReported_def GetPendingOfflineUsers_def Let_def)

end
