(* ===== verification/Node_Users.thy ===== *)
theory Node_Users
  imports Limiter "HOL-Library.Sublist"
begin

text \<open>
  The controller's user bookkeeping (node/user.go): which traffic and which devices are worth
  reporting, and the difference between two user lists that is applied to the limiter.
\<close>

record UserTraffic =
  ut_UID :: int
  ut_Upload :: int
  ut_Download :: int
  ut_ForceReport :: bool

definition filterTrafficByMinimum :: "UserTraffic list \<Rightarrow> int \<Rightarrow> UserTraffic list" where
  "filterTrafficByMinimum traffic minimum =
     (if minimum \<le> 0 then traffic
      else let threshold = i64 (minimum * 1000) in
        filter (\<lambda>item. ut_ForceReport item \<or> i64 (ut_Upload item + ut_Download item) > threshold) traffic)"

definition filterOnlineUsers :: "OnlineUser list \<Rightarrow> UserTraffic list \<Rightarrow> int \<Rightarrow> OnlineUser list" where
  "filterOnlineUsers online traffic minimum =
     (if minimum \<le> 0 then online
      else let threshold = i64 (minimum * 1000);
               totals = fold (\<lambda>item. AList.update (ut_UID item) (i64 (ut_Upload item + ut_Download item))) traffic [] in
        filter (\<lambda>item. mapGet totals (ou_UID item) 0 > threshold) online)"

text \<open>compareUserList: the loop over the new users with the old ones that are left.\<close>

fun compareLoop :: "(string \<times> UserInfo) list \<Rightarrow> UserInfo list \<Rightarrow> UserInfo list \<Rightarrow> UserInfo list \<Rightarrow> UserInfo list
    \<Rightarrow> UserInfo list \<times> UserInfo list \<times> UserInfo list" where
  "compareLoop oldMap [] deleted added modified = (deleted @ map snd oldMap, added, modified)"
| "compareLoop oldMap (u # us) deleted added modified =
     (case map_of oldMap (ui_Uuid u) of
        None \<Rightarrow> compareLoop oldMap us deleted (added @ [u]) modified
      | Some old \<Rightarrow>
          let oldMap = AList.delete (ui_Uuid u) oldMap in
          if ui_Id old \<noteq> ui_Id u then compareLoop oldMap us (deleted @ [old]) (added @ [u]) modified
          else if ui_DeviceLimit old \<noteq> ui_DeviceLimit u \<or> ui_SpeedLimit old \<noteq> ui_SpeedLimit u
          then compareLoop oldMap us deleted added (modified @ [u])
          else compareLoop oldMap us deleted added modified)"

definition compareUserList :: "UserInfo list \<Rightarrow> UserInfo list \<Rightarrow> UserInfo list \<times> UserInfo list \<times> UserInfo list" where
  "compareUserList old new = compareLoop (fold (\<lambda>u. AList.update (ui_Uuid u) u) old []) new [] [] []"

section \<open>What the difference is\<close>

lemma subseq_imp_distinct: "subseq xs ys \<Longrightarrow> distinct ys \<Longrightarrow> distinct xs"
  by (induction rule: list_emb.induct) (auto dest: list_emb_set)

definition sameUser :: "UserInfo \<Rightarrow> UserInfo \<Rightarrow> bool" where
  "sameUser u v \<longleftrightarrow> ui_Uuid u = ui_Uuid v \<and> ui_Id u = ui_Id v"

definition sameLimits :: "UserInfo \<Rightarrow> UserInfo \<Rightarrow> bool" where
  "sameLimits u v \<longleftrightarrow> ui_DeviceLimit u = ui_DeviceLimit v \<and> ui_SpeedLimit u = ui_SpeedLimit v"

lemma UserTag_inj [simp]: "UserTag tag x = UserTag tag y \<longleftrightarrow> x = y"
  by (simp add: UserTag_def)

lemma fold_update_users:
  "distinct (map ui_Uuid us) \<Longrightarrow> ui_Uuid ` set us \<inter> fst ` set m = {} \<Longrightarrow>
     fold (\<lambda>u. AList.update (ui_Uuid u) u) us m = m @ map (\<lambda>u. (ui_Uuid u, u)) us"
  by (induction us arbitrary: m) (auto simp: update_fresh)

lemma map_of_users: "distinct (map ui_Uuid us) \<Longrightarrow> map_of (map (\<lambda>u. (ui_Uuid u, u)) us) x = find (\<lambda>u. ui_Uuid u = x) us"
  by (induction us) auto

text \<open>The loop's result, for old users with distinct credentials in the map.\<close>

lemma compareLoop_sets:
  assumes "compareLoop m us d a c = (d', a', c')"
    and "distinct (map ui_Uuid us)" "distinct (map fst m)" "\<forall>(x, old)\<in>set m. ui_Uuid old = x"
  shows "set d' = set d \<union> {old \<in> snd ` set m. \<not> (\<exists>u\<in>set us. sameUser old u)}
    \<and> set a' = set a \<union> {u \<in> set us. \<not> (\<exists>old\<in>snd ` set m. sameUser old u)}
    \<and> set c' = set c \<union> {u \<in> set us. \<exists>old\<in>snd ` set m. sameUser old u \<and> \<not> sameLimits old u}
    \<and> (\<exists>x y. a' = a @ x \<and> subseq x us \<and> c' = c @ y \<and> subseq y us)"
  using assms
proof (induction m us d a c rule: compareLoop.induct)
  case (1 m d a c)
  then show ?case by force
next
  case (2 m u us d a c)
  show ?case
  proof (cases "map_of m (ui_Uuid u)")
    case None
    then have "compareLoop m us d (a @ [u]) c = (d', a', c')" "distinct (map ui_Uuid us)" using 2(5, 6) by simp_all
    note IH = 2(1) [OF None this 2(7, 8)]
    have no: "\<not> sameUser old u" if "old \<in> snd ` set m" for old
      using None that 2(8) by (force simp: map_of_eq_None_iff sameUser_def)
    from IH obtain x y where "a' = (a @ [u]) @ x" "subseq x us" "c' = c @ y" "subseq y us" by blast
    then have "\<exists>x y. a' = a @ x \<and> subseq x (u # us) \<and> c' = c @ y \<and> subseq y (u # us)"
      by (intro exI [of _ "u # x"] exI [of _ y]) auto
    then show ?thesis using IH no by auto
  next
    case (Some old)
    let ?m = "AList.delete (ui_Uuid u) m"
    have "\<forall>(x, old)\<in>set ?m. ui_Uuid old = x" using 2(8) by (auto simp: AList.delete_eq)
    with 2(6, 7) have d: "distinct (map ui_Uuid us)" "distinct (map fst ?m)" "\<forall>(x, old)\<in>set ?m. ui_Uuid old = x"
      by (simp_all add: AList.distinct_delete)
    have old: "(ui_Uuid u, old) \<in> set m" "ui_Uuid old = ui_Uuid u" using map_of_SomeD [OF Some] 2(8) by auto
    have uniq: "o' = old" if mem: "o' \<in> snd ` set m" and same: "ui_Uuid o' = ui_Uuid u" for o'
    proof -
      obtain x where x: "(x, o') \<in> set m" using mem by auto
      then have "x = ui_Uuid u" using 2(8) same by auto
      then show ?thesis using eq_key_imp_eq_value [OF 2(7)] x old(1) by blast
    qed
    have setm: "set ?m = {p \<in> set m. fst p \<noteq> ui_Uuid u}" by (auto simp: AList.delete_eq)
    have key: "fst p = ui_Uuid (snd p)" if "p \<in> set m" for p using that 2(8) by (cases p) auto
    have "snd p = old \<or> p \<in> set ?m" if "p \<in> set m" for p using that setm uniq [of "snd p"] key [OF that] by auto
    then have rest: "snd ` set m = insert old (snd ` set ?m)" using old(1) setm by (auto simp: image_iff) (force)+
    have nu: "ui_Uuid v \<noteq> ui_Uuid u" if "v \<in> set us" for v using that 2(6) by (metis distinct.simps(2) image_eqI list.set_map list.simps(9))
    have nm: "ui_Uuid o' \<noteq> ui_Uuid u" if "o' \<in> snd ` set ?m" for o' using that setm key by auto
    have none: "\<not> sameUser o' u" if "o' \<in> snd ` set ?m" for o' using nm [OF that] by (simp add: sameUser_def)
    have none': "\<not> sameUser old v" if "v \<in> set us" for v using nu [OF that] old(2) by (simp add: sameUser_def)
    consider "ui_Id old \<noteq> ui_Id u" | "ui_Id old = ui_Id u" "\<not> sameLimits old u" | "ui_Id old = ui_Id u" "sameLimits old u" by blast
    then show ?thesis
    proof cases
      case 1
      then have "compareLoop ?m us (d @ [old]) (a @ [u]) c = (d', a', c')" using 2(5) Some by simp
      note IH = 2(2) [OF Some refl 1 this d]
      from IH obtain x y where "a' = (a @ [u]) @ x" "subseq x us" "c' = c @ y" "subseq y us" by blast
      then have "\<exists>x y. a' = a @ x \<and> subseq x (u # us) \<and> c' = c @ y \<and> subseq y (u # us)"
        by (intro exI [of _ "u # x"] exI [of _ y]) auto
      moreover have "\<not> sameUser old u" using 1 by (simp add: sameUser_def)
      ultimately show ?thesis using IH none none' unfolding rest by auto
    next
      case 2
      then have "compareLoop ?m us d a (c @ [u]) = (d', a', c')" using "2.prems"(1) Some by (auto simp: sameLimits_def)
      moreover have "ui_DeviceLimit old \<noteq> ui_DeviceLimit u \<or> ui_SpeedLimit old \<noteq> ui_SpeedLimit u" using 2 by (auto simp: sameLimits_def)
      ultimately have IH: "set d' = set d \<union> {old \<in> snd ` set ?m. \<not> (\<exists>u\<in>set us. sameUser old u)}
        \<and> set a' = set a \<union> {u \<in> set us. \<not> (\<exists>old\<in>snd ` set ?m. sameUser old u)}
        \<and> set c' = set (c @ [u]) \<union> {u \<in> set us. \<exists>old\<in>snd ` set ?m. sameUser old u \<and> \<not> sameLimits old u}
        \<and> (\<exists>x y. a' = a @ x \<and> subseq x us \<and> c' = (c @ [u]) @ y \<and> subseq y us)"
        using "2.IH"(3) [OF Some refl _ _ _ d] 2(1) by blast
      then obtain x y where "a' = a @ x" "subseq x us" "c' = (c @ [u]) @ y" "subseq y us" by blast
      then have "\<exists>x y. a' = a @ x \<and> subseq x (u # us) \<and> c' = c @ y \<and> subseq y (u # us)"
        by (intro exI [of _ x] exI [of _ "u # y"]) auto
      moreover have "sameUser old u" using 2 old(2) by (simp add: sameUser_def)
      ultimately show ?thesis using IH none none' 2(2) unfolding rest by auto
    next
      case 3
      then have "\<not> (ui_DeviceLimit old \<noteq> ui_DeviceLimit u \<or> ui_SpeedLimit old \<noteq> ui_SpeedLimit u)" by (auto simp: sameLimits_def)
      moreover from this have "compareLoop ?m us d a c = (d', a', c')" using "2.prems"(1) Some 3(1) by simp
      ultimately have IH: "set d' = set d \<union> {old \<in> snd ` set ?m. \<not> (\<exists>u\<in>set us. sameUser old u)}
        \<and> set a' = set a \<union> {u \<in> set us. \<not> (\<exists>old\<in>snd ` set ?m. sameUser old u)}
        \<and> set c' = set c \<union> {u \<in> set us. \<exists>old\<in>snd ` set ?m. sameUser old u \<and> \<not> sameLimits old u}
        \<and> (\<exists>x y. a' = a @ x \<and> subseq x us \<and> c' = c @ y \<and> subseq y us)"
        using "2.IH"(4) [OF Some refl _ _ _ d] 3(1) by blast
      then obtain x y where "a' = a @ x" "subseq x us" "c' = c @ y" "subseq y us" by blast
      then have "\<exists>x y. a' = a @ x \<and> subseq x (u # us) \<and> c' = c @ y \<and> subseq y (u # us)" by auto
      moreover have "sameUser old u" using 3 old(2) by (simp add: sameUser_def)
      ultimately show ?thesis using IH none none' 3(2) unfolding rest by auto
    qed
  qed
qed


lemma compareUserList_sets:
  assumes "compareUserList old new = (d, a, c)" "distinct (map ui_Uuid old)" "distinct (map ui_Uuid new)"
  shows "set d = {o' \<in> set old. \<not> (\<exists>u\<in>set new. sameUser o' u)}"
    "set a = {u \<in> set new. \<not> (\<exists>o'\<in>set old. sameUser o' u)}"
    "set c = {u \<in> set new. \<exists>o'\<in>set old. sameUser o' u \<and> \<not> sameLimits o' u}"
    "distinct (map ui_Uuid a)" "distinct (map ui_Uuid c)"
proof -
  have m: "fold (\<lambda>u. AList.update (ui_Uuid u) u) old [] = map (\<lambda>u. (ui_Uuid u, u)) old"
    using fold_update_users [OF assms(2), of "[]"] by simp
  note run = assms(1) [unfolded compareUserList_def m]
  have sub: "distinct (map ui_Uuid xs)" if "subseq xs new" for xs
    using subseq_map [OF that, of ui_Uuid] assms(3) subseq_imp_distinct by blast
  have img: "snd ` set (map (\<lambda>u. (ui_Uuid u, u)) old) = set old" by force
  have "distinct (map fst (map (\<lambda>u. (ui_Uuid u, u)) old))" "\<forall>(x, o')\<in>set (map (\<lambda>u. (ui_Uuid u, u)) old). ui_Uuid o' = x"
    using assms(2) by (simp_all add: o_def)
  from compareLoop_sets [OF run assms(3) this, unfolded img] sub
  show "set d = {o' \<in> set old. \<not> (\<exists>u\<in>set new. sameUser o' u)}" "set a = {u \<in> set new. \<not> (\<exists>o'\<in>set old. sameUser o' u)}"
    "set c = {u \<in> set new. \<exists>o'\<in>set old. sameUser o' u \<and> \<not> sameLimits o' u}"
    "distinct (map ui_Uuid a)" "distinct (map ui_Uuid c)" by auto
qed

section \<open>Applying the difference\<close>

lemma map_of_storeUsers:
  assumes "distinct (map ui_Uuid us)"
  shows "map_of (storeUsers tag us m) t =
    (if \<exists>u\<in>set us. UserTag tag (ui_Uuid u) = t then Some (newUserLimitInfo (THE u. u \<in> set us \<and> UserTag tag (ui_Uuid u) = t)) else map_of m t)"
  using assms
proof (induction us arbitrary: m)
  case (Cons u us)
  let ?t = "UserTag tag (ui_Uuid u)"
  have IH: "map_of (storeUsers tag (u # us) m) t = map_of (storeUsers tag us (AList.update ?t (newUserLimitInfo u) m)) t"
    by (simp add: storeUsers_def)
  show ?case
  proof (cases "t = ?t")
    case True
    then have "\<not> (\<exists>v\<in>set us. UserTag tag (ui_Uuid v) = t)" using Cons.prems by (auto simp: image_iff)
    moreover from this have "(THE v. v \<in> set (u # us) \<and> UserTag tag (ui_Uuid v) = t) = u" using True by (intro the_equality) auto
    ultimately show ?thesis using IH Cons.IH [of "AList.update ?t (newUserLimitInfo u) m"] Cons.prems True by simp
  next
    case False
    then have "v \<in> set (u # us) \<and> UserTag tag (ui_Uuid v) = t \<longleftrightarrow> v \<in> set us \<and> UserTag tag (ui_Uuid v) = t" for v by auto
    then show ?thesis using IH Cons.IH [of "AList.update ?t (newUserLimitInfo u) m"] Cons.prems False by auto
  qed
qed (simp add: storeUsers_def)

lemma storeUsers_in:
  assumes "distinct (map ui_Uuid us)" "u \<in> set us"
  shows "map_of (storeUsers tag us m) (UserTag tag (ui_Uuid u)) = Some (newUserLimitInfo u)"
proof -
  have "(THE v. v \<in> set us \<and> UserTag tag (ui_Uuid v) = UserTag tag (ui_Uuid u)) = u"
    using assms by (intro the_equality) (auto simp: distinct_map inj_on_def)
  then show ?thesis using assms map_of_storeUsers [OF assms(1), of tag m] by auto
qed

lemma storeUsers_notin:
  assumes "distinct (map ui_Uuid us)" "\<not> (\<exists>u\<in>set us. UserTag tag (ui_Uuid u) = t)"
  shows "map_of (storeUsers tag us m) t = map_of m t"
  using assms map_of_storeUsers [OF assms(1), of tag m] by auto

lemma modify_notin:
  "\<not> (\<exists>u\<in>set us. UserTag tag (ui_Uuid u) = t) \<Longrightarrow> map_of (fold (modifyUser tag) us m) t = map_of m t"
proof (induction us arbitrary: m)
  case (Cons u us)
  then have "map_of (modifyUser tag u m) t = map_of m t" by (auto simp: modifyUser_def split: option.split)
  then show ?case using Cons by simp
qed simp

lemma modify_in:
  assumes "distinct (map ui_Uuid us)" "u \<in> set us" "map_of m (UserTag tag (ui_Uuid u)) = Some (newUserLimitInfo o')" "ui_Id o' = ui_Id u"
  shows "map_of (fold (modifyUser tag) us m) (UserTag tag (ui_Uuid u)) = Some (newUserLimitInfo u)"
  using assms
proof (induction us arbitrary: m)
  case (Cons v us)
  show ?case
  proof (cases "v = u")
    case True
    have "\<not> (\<exists>w\<in>set us. UserTag tag (ui_Uuid w) = UserTag tag (ui_Uuid u))" using Cons.prems(1) True by (auto simp: image_iff)
    moreover have "map_of (modifyUser tag v m) (UserTag tag (ui_Uuid u)) = Some (newUserLimitInfo u)"
      using Cons.prems(3, 4) True by (simp add: modifyUser_def newUserLimitInfo_def)
    ultimately show ?thesis using modify_notin [of us tag "UserTag tag (ui_Uuid u)" "modifyUser tag v m"] by simp
  next
    case False
    then have "u \<in> set us" "ui_Uuid v \<noteq> ui_Uuid u" using Cons.prems(1, 2) by (auto simp: image_iff)
    then have "map_of (modifyUser tag v m) (UserTag tag (ui_Uuid u)) = Some (newUserLimitInfo o')"
      using Cons.prems(3) by (simp add: modifyUser_def split: option.split)
    then show ?thesis using Cons.IH [of "modifyUser tag v m"] Cons.prems \<open>u \<in> set us\<close> by simp
  qed
qed simp

text \<open>Synchronising users brings the limiter to the new user list. When the limiter holds the
  limits of the old list and the difference the controller computes is applied to it, it
  holds exactly the limits of the new list: removed users are gone, new ones are there,
  changed limits and user numbers are taken over, and unchanged users are left alone.\<close>

lemma compare_and_update_users:
  assumes "distinct (map ui_Uuid old)" "distinct (map ui_Uuid new)" "compareUserList old new = (deleted, added, modified)"
    and "map_of (lm_UserLimitInfo l) = map_of (storeUsers tag old [])"
  shows "map_of (lm_UserLimitInfo (UpdateUser tag added deleted modified l)) = map_of (storeUsers tag new [])"
proof
  fix t
  note df = compareUserList_sets [OF assms(3, 1, 2)]
  let ?m0 = "deleteTags tag deleted (lm_UserLimitInfo l)"
  let ?m1 = "fold (modifyUser tag) modified ?m0"
  have goal: "map_of (lm_UserLimitInfo (UpdateUser tag added deleted modified l)) t = map_of (storeUsers tag added ?m1) t"
    by (simp add: UpdateUser_def)
  have del: "map_of ?m0 t = (if \<exists>o'\<in>set deleted. UserTag tag (ui_Uuid o') = t then None else map_of (storeUsers tag old []) t)"
    unfolding map_of_deleteTags assms(4) by (auto simp: image_iff)
  show "map_of (lm_UserLimitInfo (UpdateUser tag added deleted modified l)) t = map_of (storeUsers tag new []) t"
  proof (cases "\<exists>u\<in>set new. UserTag tag (ui_Uuid u) = t")
    case True
    then obtain u where u: "u \<in> set new" "UserTag tag (ui_Uuid u) = t" by blast
    then have new: "map_of (storeUsers tag new []) t = Some (newUserLimitInfo u)" using storeUsers_in [OF assms(2) u(1)] by blast
    have uu: "v = u" if "v \<in> set new" "ui_Uuid v = ui_Uuid u" for v
      using that u(1) assms(2) by (auto simp: distinct_map inj_on_def)
    show ?thesis
    proof (cases "u \<in> set added")
      case True
      then show ?thesis using goal new storeUsers_in [OF df(4) True] u(2) by auto
    next
      case False
      then obtain o' where o': "o' \<in> set old" "sameUser o' u" using df(2) u(1) by auto
      have na: "\<not> (\<exists>v\<in>set added. UserTag tag (ui_Uuid v) = t)"
        using False uu df(2) u(2) by (metis (no_types, lifting) UserTag_inj mem_Collect_eq)
      have oo: "x = o'" if "x \<in> set old" "ui_Uuid x = ui_Uuid u" for x
        using that o' assms(1) by (auto simp: distinct_map inj_on_def sameUser_def)
      have "\<not> (\<exists>x\<in>set deleted. UserTag tag (ui_Uuid x) = t)"
        using oo df(1) o' u by (metis (no_types, lifting) UserTag_inj mem_Collect_eq)
      then have m0: "map_of ?m0 (UserTag tag (ui_Uuid u)) = Some (newUserLimitInfo o')"
        using del storeUsers_in [OF assms(1) o'(1), of tag "[]"] o'(2) u(2) by (auto simp: sameUser_def)
      have "map_of ?m1 t = Some (newUserLimitInfo u)"
      proof (cases "u \<in> set modified")
        case True
        then show ?thesis using modify_in [OF df(5) True m0] o'(2) u(2) by (simp add: sameUser_def)
      next
        case False
        then have "\<not> (\<exists>v\<in>set modified. UserTag tag (ui_Uuid v) = t)"
          using uu df(3) u(2) by (metis (no_types, lifting) UserTag_inj mem_Collect_eq)
        moreover have "newUserLimitInfo o' = newUserLimitInfo u"
          using False df(3) u(1) o' by (auto simp: newUserLimitInfo_def sameUser_def sameLimits_def)
        ultimately show ?thesis using m0 u(2) modify_notin by metis
      qed
      then show ?thesis using goal new storeUsers_notin [OF df(4) na] by simp
    qed
  next
    case False
    then have na: "\<not> (\<exists>v\<in>set added. UserTag tag (ui_Uuid v) = t)" "\<not> (\<exists>v\<in>set modified. UserTag tag (ui_Uuid v) = t)"
      using df(2, 3) by auto
    have "map_of ?m0 t = None"
    proof (cases "\<exists>x\<in>set old. UserTag tag (ui_Uuid x) = t")
      case True
      then obtain x where x: "x \<in> set old" "UserTag tag (ui_Uuid x) = t" by blast
      then have "x \<in> set deleted" using df(1) False by (auto simp: sameUser_def)
      then show ?thesis using del x(2) by auto
    next
      case False
      then show ?thesis using del storeUsers_notin [OF assms(1) False, of "[]"] by simp
    qed
    then have "map_of ?m1 t = None" using modify_notin [OF na(2)] by simp
    then show ?thesis using goal storeUsers_notin [OF df(4) na(1)] storeUsers_notin [OF assms(2) False, of "[]"] by simp
  qed
qed

end
