(* ===== verification/Runtime_Services.thy ===== *)
theory Runtime_Services
  imports Node_Users Go_Net
begin

text \<open>
  The services all protocol kernels share (core/shared/runtime.go): the users a runtime
  accepts, the sessions that are open, device and speed policy through the limiter, and the
  traffic counters with what has been reported to the panel.

  A session is an object: the store holds the sessions ever opened and a pointer is an index
  into it. A traffic counter is never dropped from the table, so a session's counter is the
  one the table has for its user. The baseline of committed traffic and the table of limiters
  belong to the process and outlive a runtime; the world has them beside the services. The
  protocol's own Close and the waiting on a speed bucket are calls of other code without an
  effect on this state.
\<close>

section \<open>State\<close>

record TrafficTotal =
  tt_Upload :: int
  tt_Download :: int

record pendingTraffic =
  pt_total :: TrafficTotal
  pt_reported :: UserTraffic

record rsSession =
  se_uid :: int
  se_nodeLimiter :: nat
  se_userTag :: string
  se_ip :: string
  se_trackDevice :: bool
  se_released :: bool
  se_closed :: bool

record RuntimeServices =
  rs_tag :: string
  rs_users :: "(int \<times> UserInfo) list"
  rs_usersByUUID :: "(string \<times> int) list"
  rs_counters :: "(int \<times> TrafficTotal) list"
  rs_pending :: "(int \<times> pendingTraffic) list"
  rs_connections :: "(int \<times> nat list) list"
  rs_trafficUsers :: "int list"
  rs_sessions :: "rsSession list"

record nodeWorld =
  nw_services :: RuntimeServices
  nw_limiters :: limiterTable
  nw_committed :: "((string \<times> int) \<times> TrafficTotal) list"

definition zeroTotal :: TrafficTotal where "zeroTotal = \<lparr>tt_Upload = 0, tt_Download = 0\<rparr>"

definition NewRuntimeServices :: "string \<Rightarrow> RuntimeServices" where
  "NewRuntimeServices tag =
     \<lparr>rs_tag = tag, rs_users = [], rs_usersByUUID = [], rs_counters = [], rs_pending = [], rs_connections = [],
      rs_trafficUsers = [], rs_sessions = []\<rparr>"

section \<open>Users and sessions\<close>

definition normalizedUUID :: "string \<Rightarrow> string" where
  "normalizedUUID v = toLower (trimSpace v)"

definition counterLocked :: "int \<Rightarrow> RuntimeServices \<Rightarrow> RuntimeServices" where
  "counterLocked uid s =
     (if map_of (rs_counters s) uid = None then s\<lparr>rs_counters := AList.update uid zeroTotal (rs_counters s)\<rparr> else s)"

definition addTrafficUser :: "int \<Rightarrow> RuntimeServices \<Rightarrow> RuntimeServices" where
  "addTrafficUser uid s = s\<lparr>rs_trafficUsers := List.insert uid (rs_trafficUsers s)\<rparr>"

definition onLimiter :: "nat \<Rightarrow> (Limiter \<Rightarrow> Limiter) \<Rightarrow> nodeWorld \<Rightarrow> nodeWorld" where
  "onLimiter a f w =
     (let t = nw_limiters w in
      if a < length (lt_objects t) then w\<lparr>nw_limiters := t\<lparr>lt_objects := (lt_objects t)[a := f (lt_objects t ! a)]\<rparr>\<rparr> else w)"

definition onServices :: "(RuntimeServices \<Rightarrow> RuntimeServices) \<Rightarrow> nodeWorld \<Rightarrow> nodeWorld" where
  "onServices f w = w\<lparr>nw_services := f (nw_services w)\<rparr>"

text \<open>Release and Close run once; Release forgets the connection and frees the device slot.\<close>

definition dropConnection :: "int \<Rightarrow> nat \<Rightarrow> RuntimeServices \<Rightarrow> RuntimeServices" where
  "dropConnection uid a s =
     (let connections = filter (\<lambda>b. b \<noteq> a) (mapGet (rs_connections s) uid []) in
      s\<lparr>rs_connections := (if connections = [] then AList.delete uid (rs_connections s)
                           else AList.update uid connections (rs_connections s))\<rparr>)"

definition markReleased :: "nat \<Rightarrow> RuntimeServices \<Rightarrow> RuntimeServices" where
  "markReleased a s = s\<lparr>rs_sessions := (rs_sessions s)[a := (rs_sessions s ! a)\<lparr>se_released := True\<rparr>]\<rparr>"

definition Release :: "nat \<Rightarrow> nodeWorld \<Rightarrow> nodeWorld" where
  "Release a w =
     (let se = rs_sessions (nw_services w) ! a in
      if se_released se then w
      else let w = onServices (\<lambda>s. dropConnection (se_uid se) a (markReleased a s)) w in
        if se_trackDevice se then onLimiter (se_nodeLimiter se) (ReleaseConnection (se_userTag se) (se_ip se)) w else w)"

definition rsClose :: "nat \<Rightarrow> nodeWorld \<Rightarrow> nodeWorld" where
  "rsClose a w =
     (let se = rs_sessions (nw_services w) ! a in
      if se_closed se then w
      else Release a (onServices (\<lambda>s. s\<lparr>rs_sessions := (rs_sessions s)[a := (rs_sessions s ! a)\<lparr>se_closed := True\<rparr>]\<rparr>) w))"

definition closeSessions :: "nat list \<Rightarrow> nodeWorld \<Rightarrow> nodeWorld" where
  "closeSessions sessions w = fold rsClose sessions w"

text \<open>SyncUsers: the users removed, with the sessions to close, then the users added.\<close>

definition syncDelete :: "UserInfo \<Rightarrow> RuntimeServices \<times> nat list \<Rightarrow> RuntimeServices \<times> nat list" where
  "syncDelete user sc =
     (case sc of (s, connections) \<Rightarrow>
       let uid = ui_Id user;
           byUUID = (case map_of (rs_users s) uid of
               None \<Rightarrow> rs_usersByUUID s
             | Some current \<Rightarrow> AList.delete (normalizedUUID (ui_Uuid current)) (rs_usersByUUID s));
           taken = mapGet (rs_connections s) uid []
       in (addTrafficUser uid (s\<lparr>rs_usersByUUID := byUUID, rs_users := AList.delete uid (rs_users s),
             rs_connections := AList.delete uid (rs_connections s)\<rparr>), connections @ taken))"

definition syncAdd :: "UserInfo \<Rightarrow> RuntimeServices \<Rightarrow> RuntimeServices" where
  "syncAdd user s =
     (let uid = ui_Id user;
          byUUID = (case map_of (rs_users s) uid of
              None \<Rightarrow> rs_usersByUUID s
            | Some previous \<Rightarrow> if ui_Uuid previous \<noteq> ui_Uuid user
                then AList.delete (normalizedUUID (ui_Uuid previous)) (rs_usersByUUID s) else rs_usersByUUID s)
      in addTrafficUser uid (counterLocked uid
           (s\<lparr>rs_users := AList.update uid user (rs_users s),
              rs_usersByUUID := AList.update (normalizedUUID (ui_Uuid user)) uid byUUID\<rparr>)))"

definition SyncUsers :: "UserInfo list \<Rightarrow> UserInfo list \<Rightarrow> nodeWorld \<Rightarrow> nodeWorld" where
  "SyncUsers deleted added w =
     (let (s, connections) = fold syncDelete deleted (nw_services w, []);
          s = fold syncAdd added s
      in closeSessions connections (w\<lparr>nw_services := s\<rparr>))"

definition UserByID :: "RuntimeServices \<Rightarrow> int \<Rightarrow> UserInfo option" where
  "UserByID s uid = map_of (rs_users s) uid"

definition UserByUUID :: "RuntimeServices \<Rightarrow> string \<Rightarrow> UserInfo option" where
  "UserByUUID s uuid =
     do { uid \<leftarrow> map_of (rs_usersByUUID s) (normalizedUUID uuid);
          user \<leftarrow> map_of (rs_users s) uid;
          if normalizedUUID (ui_Uuid user) = normalizedUUID uuid then Some user else None }"

definition userIsCurrent :: "RuntimeServices \<Rightarrow> UserInfo \<Rightarrow> bool" where
  "userIsCurrent s user =
     (case map_of (rs_users s) (ui_Id user) of None \<Rightarrow> False | Some current \<Rightarrow> ui_Uuid current = ui_Uuid user)"

definition remoteIPString :: "string \<Rightarrow> string" where
  "remoteIPString address = (case SplitHostPort address of Inl e \<Rightarrow> address | Inr (host, port) \<Rightarrow> host)"

text \<open>openSession runs in two critical sections: the user is current and the limiter admits the
  connection (openCheck), then the user is checked again and the session stored (openStore).
  A user that is removed in between gives the device slot back.\<close>

definition openCheck :: "UserInfo \<Rightarrow> string \<Rightarrow> bool \<Rightarrow> nodeWorld \<Rightarrow> nat option \<times> nodeWorld" where
  "openCheck user ip trackDevice w =
     (let s = nw_services w in
      if \<not> userIsCurrent s user then (None, w)
      else (case GetLimiter (nw_limiters w) (rs_tag s) of
          None \<Rightarrow> (None, w)
        | Some lim \<Rightarrow>
            let (b, reject, l) = CheckLimit (UserTag (rs_tag s) (ui_Uuid user)) ip trackDevice (lt_objects (nw_limiters w) ! lim);
                w = onLimiter lim (\<lambda>_. l) w
            in if reject then (None, w) else (Some lim, w)))"

definition storeSession :: "UserInfo \<Rightarrow> string \<Rightarrow> bool \<Rightarrow> nat \<Rightarrow> RuntimeServices \<Rightarrow> RuntimeServices" where
  "storeSession user ip trackDevice lim s =
     (let a = length (rs_sessions s);
          session = \<lparr>se_uid = ui_Id user, se_nodeLimiter = lim, se_userTag = UserTag (rs_tag s) (ui_Uuid user), se_ip = ip,
                     se_trackDevice = trackDevice, se_released = False, se_closed = False\<rparr>
      in addTrafficUser (ui_Id user)
           ((counterLocked (ui_Id user) s)\<lparr>rs_sessions := rs_sessions s @ [session],
              rs_connections := AList.update (ui_Id user) (mapGet (rs_connections s) (ui_Id user) [] @ [a]) (rs_connections s)\<rparr>))"

definition openStore :: "UserInfo \<Rightarrow> string \<Rightarrow> bool \<Rightarrow> nat \<Rightarrow> nodeWorld \<Rightarrow> nat option \<times> nodeWorld" where
  "openStore user ip trackDevice lim w =
     (let s = nw_services w in
      if \<not> userIsCurrent s user then
        (None, if trackDevice then onLimiter lim (ReleaseConnection (UserTag (rs_tag s) (ui_Uuid user)) ip) w else w)
      else (Some (length (rs_sessions s)), onServices (storeSession user ip trackDevice lim) w))"

definition openSession :: "UserInfo \<Rightarrow> string \<Rightarrow> bool \<Rightarrow> nodeWorld \<Rightarrow> nat option \<times> nodeWorld" where
  "openSession user ip trackDevice w =
     (case openCheck user ip trackDevice w of
        (None, w) \<Rightarrow> (None, w)
      | (Some lim, w) \<Rightarrow> openStore user ip trackDevice lim w)"

definition OpenSession :: "UserInfo \<Rightarrow> string \<Rightarrow> bool \<Rightarrow> nodeWorld \<Rightarrow> nat option \<times> nodeWorld" where
  "OpenSession user sourceAddress trackDevice w = openSession user (remoteIPString sourceAddress) trackDevice w"

definition takeConnections :: "int \<Rightarrow> RuntimeServices \<Rightarrow> nat list \<times> RuntimeServices" where
  "takeConnections uid s = (mapGet (rs_connections s) uid [], s\<lparr>rs_connections := AList.delete uid (rs_connections s)\<rparr>)"

definition CloseUserConnections :: "int \<Rightarrow> nodeWorld \<Rightarrow> nodeWorld" where
  "CloseUserConnections uid w =
     (let (sessions, s) = takeConnections uid (nw_services w) in closeSessions sessions (w\<lparr>nw_services := s\<rparr>))"

definition CloseAllConnections :: "nodeWorld \<Rightarrow> nodeWorld" where
  "CloseAllConnections w =
     (let sessions = concat (map snd (rs_connections (nw_services w)))
      in closeSessions sessions (onServices (\<lambda>s. s\<lparr>rs_connections := []\<rparr>) w))"

section \<open>Traffic\<close>

definition counterAdd :: "int \<Rightarrow> int \<Rightarrow> bool \<Rightarrow> RuntimeServices \<Rightarrow> RuntimeServices" where
  "counterAdd uid bytes upload s =
     (let c = mapGet (rs_counters s) uid zeroTotal;
          c = (if upload then c\<lparr>tt_Upload := i64 (tt_Upload c + bytes)\<rparr> else c\<lparr>tt_Download := i64 (tt_Download c + bytes)\<rparr>)
      in s\<lparr>rs_counters := AList.update uid c (rs_counters s)\<rparr>)"

text \<open>RecordUpload and RecordDownload of a session, and of the services.\<close>

definition sessionRecord :: "nat \<Rightarrow> int \<Rightarrow> bool \<Rightarrow> nodeWorld \<Rightarrow> nodeWorld" where
  "sessionRecord a bytes upload w =
     (if bytes > 0 then onServices (counterAdd (se_uid (rs_sessions (nw_services w) ! a)) bytes upload) w else w)"

definition rsRecord :: "int \<Rightarrow> int \<Rightarrow> bool \<Rightarrow> nodeWorld \<Rightarrow> bool \<times> nodeWorld" where
  "rsRecord uid bytes upload w =
     (if bytes \<le> 0 then (False, w)
      else if map_of (rs_users (nw_services w)) uid = None then (False, w)
      else (True, onServices (\<lambda>s. counterAdd uid bytes upload (addTrafficUser uid (counterLocked uid s))) w))"

definition trafficDelta :: "int \<Rightarrow> int \<Rightarrow> int" where
  "trafficDelta current committed =
     (if current < 0 then 0 else if current < committed then current else i64 (current - committed))"

text \<open>LoadOrStore on the baseline leaves an entry behind.\<close>

definition seedCommitted :: "int \<Rightarrow> nodeWorld \<Rightarrow> nodeWorld" where
  "seedCommitted uid w =
     (let key = (rs_tag (nw_services w), uid) in
      if map_of (nw_committed w) key = None then w\<lparr>nw_committed := AList.update key zeroTotal (nw_committed w)\<rparr> else w)"

text \<open>Traffic for one user of the candidate set: the report, if any, and the new state.\<close>

definition trafficFor :: "int \<Rightarrow> int \<Rightarrow> nodeWorld \<Rightarrow> UserTraffic option \<times> nodeWorld" where
  "trafficFor threshold uid w =
     (let s = nw_services w in
      case map_of (rs_counters s) uid of
        None \<Rightarrow> (None, w)
      | Some current \<Rightarrow>
          let committed = mapGet (nw_committed w) (rs_tag s, uid) zeroTotal;
              w = seedCommitted uid w;
              upload = trafficDelta (tt_Upload current) (tt_Upload committed);
              download = trafficDelta (tt_Download current) (tt_Download committed);
              currentUser = map_of (rs_users s) uid \<noteq> None;
              active = mapGet (rs_connections s) uid [] \<noteq> [] in
          if upload = 0 \<and> download = 0 then
            (None, if active then w
                   else onServices (\<lambda>s. s\<lparr>rs_trafficUsers := removeAll uid (rs_trafficUsers s), rs_pending := AList.delete uid (rs_pending s)\<rparr>) w)
          else if i64 (upload + download) \<le> (if currentUser then threshold else 0) then (None, w)
          else
            let reported = \<lparr>ut_UID = uid, ut_Upload = upload, ut_Download = download, ut_ForceReport = \<not> currentUser\<rparr>
            in (Some reported, onServices (\<lambda>s. s\<lparr>rs_pending := AList.update uid \<lparr>pt_total = current, pt_reported = reported\<rparr> (rs_pending s)\<rparr>) w))"

fun trafficLoop :: "int \<Rightarrow> int list \<Rightarrow> nodeWorld \<Rightarrow> UserTraffic list \<times> nodeWorld" where
  "trafficLoop threshold [] w = ([], w)"
| "trafficLoop threshold (uid # uids) w =
     (case trafficFor threshold uid w of (r, w) \<Rightarrow>
        case trafficLoop threshold uids w of (rs, w) \<Rightarrow> ((case r of None \<Rightarrow> rs | Some x \<Rightarrow> x # rs), w))"

definition Traffic :: "int \<Rightarrow> nodeWorld \<Rightarrow> UserTraffic list \<times> nodeWorld" where
  "Traffic minTraffic w =
     trafficLoop (if minTraffic > 0 then i64 (minTraffic * 1000) else 0) (rs_trafficUsers (nw_services w)) w"

definition commitItem :: "UserTraffic \<Rightarrow> nodeWorld \<Rightarrow> nodeWorld" where
  "commitItem item w =
     (let s = nw_services w in
      case map_of (rs_pending s) (ut_UID item) of
        None \<Rightarrow> w
      | Some p \<Rightarrow>
          if pt_reported p \<noteq> item then w
          else onServices (\<lambda>s. s\<lparr>rs_pending := AList.delete (ut_UID item) (rs_pending s)\<rparr>)
                 (w\<lparr>nw_committed := AList.update (rs_tag s, ut_UID item) (pt_total p) (nw_committed w)\<rparr>))"

definition CommitTraffic :: "UserTraffic list \<Rightarrow> nodeWorld \<Rightarrow> nodeWorld" where
  "CommitTraffic traffic w = fold commitItem traffic w"

section \<open>Sessions and the candidates for a report\<close>

text \<open>Every session that is not released is tracked under its user, apart from those in X that
  are about to be closed, and a user with a session is a candidate for the next report.\<close>

definition sessionOf :: "RuntimeServices \<Rightarrow> nat \<Rightarrow> int \<Rightarrow> bool" where
  "sessionOf s a uid \<longleftrightarrow> a < length (rs_sessions s) \<and> \<not> se_released (rs_sessions s ! a) \<and> se_uid (rs_sessions s ! a) = uid"

definition connsOf :: "RuntimeServices \<Rightarrow> int \<Rightarrow> nat set" where
  "connsOf s uid = set (mapGet (rs_connections s) uid [])"

definition sessInv :: "nat set \<Rightarrow> RuntimeServices \<Rightarrow> bool" where
  "sessInv X s \<longleftrightarrow>
     (\<forall>a<length (rs_sessions s). se_closed (rs_sessions s ! a) \<longrightarrow> se_released (rs_sessions s ! a))
     \<and> (\<forall>a uid. sessionOf s a uid \<longrightarrow> a \<in> connsOf s uid \<or> a \<in> X)
     \<and> (\<forall>uid. connsOf s uid \<noteq> {} \<longrightarrow> uid \<in> set (rs_trafficUsers s))
     \<and> (\<forall>uid. connsOf s uid \<subseteq> {..<length (rs_sessions s)})
     \<and> X \<subseteq> {..<length (rs_sessions s)} \<and> distinct (rs_trafficUsers s) \<and> distinct (map fst (rs_connections s))"

text \<open>What the accounting looks at, apart from the candidates.\<close>

definition money :: "nodeWorld \<Rightarrow> string \<times> (int \<Rightarrow> TrafficTotal) \<times> ((string \<times> int) \<times> TrafficTotal) list \<times> (int \<times> pendingTraffic) list" where
  "money w = (rs_tag (nw_services w), \<lambda>uid. mapGet (rs_counters (nw_services w)) uid zeroTotal, nw_committed w, rs_pending (nw_services w))"

definition sameMoney :: "nodeWorld \<Rightarrow> nodeWorld \<Rightarrow> bool" where
  "sameMoney w w' \<longleftrightarrow> money w' = money w
     \<and> set (rs_trafficUsers (nw_services w)) \<subseteq> set (rs_trafficUsers (nw_services w'))
     \<and> length (rs_sessions (nw_services w)) \<le> length (rs_sessions (nw_services w'))
     \<and> fst ` set (rs_counters (nw_services w)) \<subseteq> fst ` set (rs_counters (nw_services w'))"

lemma sameMoney_refl [simp]: "sameMoney w w"
  by (simp add: sameMoney_def)

lemma sameMoney_trans: "sameMoney w w' \<Longrightarrow> sameMoney w' w'' \<Longrightarrow> sameMoney w w''"
  unfolding sameMoney_def by (metis (no_types, lifting) order.trans)

lemma onLimiter_services [simp]: "nw_services (onLimiter a f w) = nw_services w" "nw_committed (onLimiter a f w) = nw_committed w"
  by (simp_all add: onLimiter_def Let_def)

lemma onServices_simps [simp]: "nw_services (onServices f w) = f (nw_services w)" "nw_committed (onServices f w) = nw_committed w"
  "nw_limiters (onServices f w) = nw_limiters w"
  by (simp_all add: onServices_def)

lemma sameMoney_onLimiter [simp]: "sameMoney w (onLimiter a f w') \<longleftrightarrow> sameMoney w w'"
  by (simp add: sameMoney_def money_def)

lemma dropConnection_simps [simp]:
  "rs_tag (dropConnection uid a s) = rs_tag s" "rs_counters (dropConnection uid a s) = rs_counters s"
  "rs_pending (dropConnection uid a s) = rs_pending s" "rs_trafficUsers (dropConnection uid a s) = rs_trafficUsers s"
  "rs_sessions (dropConnection uid a s) = rs_sessions s" "rs_users (dropConnection uid a s) = rs_users s"
  "rs_usersByUUID (dropConnection uid a s) = rs_usersByUUID s"
  "connsOf (dropConnection uid a s) u = (if u = uid then connsOf s u - {a} else connsOf s u)"
  "distinct (map fst (rs_connections s)) \<Longrightarrow> distinct (map fst (rs_connections (dropConnection uid a s)))"
  by (auto simp: dropConnection_def Let_def connsOf_def filter_empty_conv AList.distinct_delete distinct_update)

lemma markReleased_simps [simp]:
  "rs_tag (markReleased a s) = rs_tag s" "rs_counters (markReleased a s) = rs_counters s"
  "rs_pending (markReleased a s) = rs_pending s" "rs_trafficUsers (markReleased a s) = rs_trafficUsers s"
  "rs_sessions (markReleased a s) = (rs_sessions s)[a := (rs_sessions s ! a)\<lparr>se_released := True\<rparr>]"
  "rs_users (markReleased a s) = rs_users s" "rs_usersByUUID (markReleased a s) = rs_usersByUUID s"
  "connsOf (markReleased a s) = connsOf s" "rs_connections (markReleased a s) = rs_connections s"
  by (auto simp: markReleased_def connsOf_def)

lemma Release_money: "sameMoney w (Release a w)"
  by (simp add: Release_def Let_def sameMoney_def money_def)

lemma rsClose_money: "sameMoney w (rsClose a w)"
proof -
  have "sameMoney w (onServices (\<lambda>s. s\<lparr>rs_sessions := (rs_sessions s)[a := (rs_sessions s ! a)\<lparr>se_closed := True\<rparr>]\<rparr>) w)"
    by (simp add: sameMoney_def money_def)
  then show ?thesis using sameMoney_trans [OF _ Release_money] by (simp add: rsClose_def Let_def)
qed

lemma closeSessions_money: "sameMoney w (closeSessions as w)"
  unfolding closeSessions_def
  by (induction as arbitrary: w) (auto intro: sameMoney_trans [OF rsClose_money])

text \<open>Releasing a session keeps the invariant; closing one also takes it out of X.\<close>

lemma Release_sessInv:
  assumes "sessInv X (nw_services w)" "a < length (rs_sessions (nw_services w))"
  shows "sessInv X (nw_services (Release a w))" "se_released (rs_sessions (nw_services (Release a w)) ! a)"
    "length (rs_sessions (nw_services (Release a w))) = length (rs_sessions (nw_services w))"
proof -
  let ?s = "nw_services w"
  let ?uid = "se_uid (rs_sessions ?s ! a)"
  let ?s' = "dropConnection ?uid a (markReleased a ?s)"
  have "sessInv X ?s'" if nr: "\<not> se_released (rs_sessions ?s ! a)"
  proof -
    have so: "sessionOf ?s' b u \<longleftrightarrow> sessionOf ?s b u \<and> b \<noteq> a" for b u
      using assms(2) by (auto simp: sessionOf_def nth_list_update)
    show ?thesis using assms unfolding sessInv_def so by (auto simp: nth_list_update)
  qed
  then show "sessInv X (nw_services (Release a w))" "se_released (rs_sessions (nw_services (Release a w)) ! a)"
    "length (rs_sessions (nw_services (Release a w))) = length (rs_sessions (nw_services w))"
    using assms by (auto simp: Release_def Let_def)
qed

lemma rsClose_sessInv:
  assumes "sessInv X (nw_services w)" "a < length (rs_sessions (nw_services w))"
  shows "sessInv (X - {a}) (nw_services (rsClose a w))"
    "length (rs_sessions (nw_services (rsClose a w))) = length (rs_sessions (nw_services w))"
proof -
  let ?s = "nw_services w"
  let ?s1 = "?s\<lparr>rs_sessions := (rs_sessions ?s)[a := (rs_sessions ?s ! a)\<lparr>se_closed := True\<rparr>]\<rparr>"
  let ?s2 = "dropConnection (se_uid (rs_sessions ?s ! a)) a (markReleased a ?s1)"
  have [simp]: "connsOf ?s1 = connsOf ?s" by (auto simp: connsOf_def)
  have 1: "sessInv (X - {a}) ?s" if "se_released (rs_sessions ?s ! a)"
    using assms(1) that by (auto simp: sessInv_def sessionOf_def)
  have 2: "sessInv (X - {a}) ?s1" if "se_released (rs_sessions ?s ! a)"
  proof -
    have so: "sessionOf ?s1 b u \<longleftrightarrow> sessionOf ?s b u" for b u
      using assms(2) by (auto simp: sessionOf_def nth_list_update)
    show ?thesis using 1 [OF that] that assms(2) unfolding sessInv_def so by (auto simp: nth_list_update)
  qed
  have 3: "sessInv (X - {a}) ?s2"
  proof -
    have so: "sessionOf ?s2 b u \<longleftrightarrow> sessionOf ?s b u \<and> b \<noteq> a" for b u
      using assms(2) by (auto simp: sessionOf_def nth_list_update)
    show ?thesis using assms unfolding sessInv_def so by (auto simp: nth_list_update)
  qed
  have closed: "se_closed (rs_sessions ?s ! a) \<Longrightarrow> se_released (rs_sessions ?s ! a)" using assms by (auto simp: sessInv_def)
  show "sessInv (X - {a}) (nw_services (rsClose a w))"
    using 1 2 3 closed assms(2) by (auto simp: rsClose_def Release_def Let_def)
  show "length (rs_sessions (nw_services (rsClose a w))) = length (rs_sessions (nw_services w))"
    by (auto simp: rsClose_def Release_def Let_def)
qed

lemma closeSessions_sessInv:
  "sessInv X (nw_services w) \<Longrightarrow> set as \<subseteq> {..<length (rs_sessions (nw_services w))} \<Longrightarrow>
     sessInv (X - set as) (nw_services (closeSessions as w))"
proof (induction as arbitrary: X w)
  case (Cons a as)
  then have a: "sessInv (X - {a}) (nw_services (rsClose a w))" "set as \<subseteq> {..<length (rs_sessions (nw_services (rsClose a w)))}"
    using rsClose_sessInv by auto
  show ?case using Cons.IH [OF a] by (simp add: closeSessions_def Diff_insert2 [symmetric])
qed (simp add: closeSessions_def)

text \<open>The operations of the user table.\<close>

lemma counterLocked_simps [simp]:
  "rs_tag (counterLocked uid s) = rs_tag s" "rs_pending (counterLocked uid s) = rs_pending s"
  "rs_trafficUsers (counterLocked uid s) = rs_trafficUsers s" "rs_sessions (counterLocked uid s) = rs_sessions s"
  "rs_connections (counterLocked uid s) = rs_connections s" "rs_users (counterLocked uid s) = rs_users s"
  "rs_usersByUUID (counterLocked uid s) = rs_usersByUUID s"
  "mapGet (rs_counters (counterLocked uid s)) u zeroTotal = mapGet (rs_counters s) u zeroTotal"
  "fst ` set (rs_counters (counterLocked uid s)) = insert uid (fst ` set (rs_counters s))"
  by (auto simp: counterLocked_def mapGet_def dom_update insert_absorb split: option.split
      intro: domIff [THEN iffD1] simp flip: dom_map_of_conv_image_fst)

lemma addTrafficUser_simps [simp]:
  "rs_tag (addTrafficUser uid s) = rs_tag s" "rs_pending (addTrafficUser uid s) = rs_pending s"
  "rs_trafficUsers (addTrafficUser uid s) = List.insert uid (rs_trafficUsers s)" "rs_sessions (addTrafficUser uid s) = rs_sessions s"
  "rs_connections (addTrafficUser uid s) = rs_connections s" "rs_users (addTrafficUser uid s) = rs_users s"
  "rs_usersByUUID (addTrafficUser uid s) = rs_usersByUUID s" "rs_counters (addTrafficUser uid s) = rs_counters s"
  by (simp_all add: addTrafficUser_def)

lemma sessInv_grow:
  "sessInv X s \<Longrightarrow> rs_sessions s' = rs_sessions s \<Longrightarrow> rs_connections s' = rs_connections s \<Longrightarrow>
     set (rs_trafficUsers s) \<subseteq> set (rs_trafficUsers s') \<Longrightarrow> distinct (rs_trafficUsers s') \<Longrightarrow> sessInv X s'"
  by (simp add: sessInv_def sessionOf_def connsOf_def) blast

lemma sessInv_distinct: "sessInv X s \<Longrightarrow> distinct (rs_trafficUsers s)"
  by (simp add: sessInv_def)

lemma sessInv_take:
  assumes "sessInv X s"
  shows "sessInv (X \<union> connsOf s uid) (s\<lparr>rs_connections := AList.delete uid (rs_connections s)\<rparr>)"
proof -
  let ?s = "s\<lparr>rs_connections := AList.delete uid (rs_connections s)\<rparr>"
  have so: "sessionOf ?s b u \<longleftrightarrow> sessionOf s b u" for b u by (simp add: sessionOf_def)
  have [simp]: "connsOf ?s u = (if u = uid then {} else connsOf s u)" for u by (auto simp: connsOf_def)
  show ?thesis using assms unfolding sessInv_def so by (auto simp: AList.distinct_delete)
qed

lemma syncDelete_sessInv:
  assumes "sessInv (set cs) s" "syncDelete u (s, cs) = (s', cs')"
  shows "sessInv (set cs') s'"
proof -
  have cs': "set cs' = set cs \<union> connsOf s (ui_Id u)" using assms(2) by (auto simp: syncDelete_def Let_def connsOf_def)
  show ?thesis unfolding cs'
    by (rule sessInv_grow [OF sessInv_take [OF assms(1), of "ui_Id u"]])
      (use assms sessInv_distinct [OF assms(1)] in \<open>auto simp: syncDelete_def Let_def\<close>)
qed

lemma syncDeletes_sessInv:
  "sessInv (set cs) s \<Longrightarrow> fold syncDelete us (s, cs) = (s', cs') \<Longrightarrow> sessInv (set cs') s'"
proof (induction us arbitrary: s cs)
  case (Cons u us)
  obtain s1 cs1 where 1: "syncDelete u (s, cs) = (s1, cs1)" by fastforce
  show ?case using Cons.IH [OF syncDelete_sessInv [OF Cons.prems(1) 1]] Cons.prems(2) 1 by simp
qed simp

lemma syncAdds_sessInv: "sessInv X s \<Longrightarrow> sessInv X (fold syncAdd us s)"
proof (induction us arbitrary: s)
  case (Cons u us)
  have "sessInv X (syncAdd u s)"
    by (rule sessInv_grow [OF Cons.prems]) (use sessInv_distinct [OF Cons.prems] in \<open>auto simp: syncAdd_def Let_def\<close>)
  then show ?case using Cons.IH by simp
qed simp

lemma syncDeletes_money:
  assumes "fold syncDelete us (nw_services w, cs) = (s', cs')"
  shows "sameMoney w (w\<lparr>nw_services := s'\<rparr>)"
  using assms
proof (induction us arbitrary: w cs)
  case (Cons u us)
  obtain s1 cs1 where 1: "syncDelete u (nw_services w, cs) = (s1, cs1)" by fastforce
  have "sameMoney w (w\<lparr>nw_services := s1\<rparr>)" using 1 by (auto simp: sameMoney_def money_def syncDelete_def Let_def)
  moreover have "sameMoney (w\<lparr>nw_services := s1\<rparr>) (w\<lparr>nw_services := s'\<rparr>)"
    using Cons.IH [of "w\<lparr>nw_services := s1\<rparr>" cs1] Cons.prems 1 by simp
  ultimately show ?case by (rule sameMoney_trans)
qed auto

lemma syncAdds_money: "sameMoney w (w\<lparr>nw_services := fold syncAdd us (nw_services w)\<rparr>)"
proof (induction us arbitrary: w)
  case (Cons u us)
  have "sameMoney w (w\<lparr>nw_services := syncAdd u (nw_services w)\<rparr>)"
    by (auto simp: sameMoney_def money_def syncAdd_def Let_def)
  then show ?case using Cons.IH [of "w\<lparr>nw_services := syncAdd u (nw_services w)\<rparr>"] sameMoney_trans by simp
qed simp

lemma closeTaken_keeps:
  assumes "sessInv (set as) s" "sameMoney w (w\<lparr>nw_services := s\<rparr>)"
  shows "sessInv {} (nw_services (closeSessions as (w\<lparr>nw_services := s\<rparr>)))" "sameMoney w (closeSessions as (w\<lparr>nw_services := s\<rparr>))"
proof -
  have "set as \<subseteq> {..<length (rs_sessions s)}" using assms(1) by (simp add: sessInv_def)
  then show "sessInv {} (nw_services (closeSessions as (w\<lparr>nw_services := s\<rparr>)))"
    using closeSessions_sessInv [of "set as" "w\<lparr>nw_services := s\<rparr>" as] assms(1) by simp
  show "sameMoney w (closeSessions as (w\<lparr>nw_services := s\<rparr>))" by (rule sameMoney_trans [OF assms(2) closeSessions_money])
qed

lemma SyncUsers_keeps:
  assumes "sessInv {} (nw_services w)"
  shows "sessInv {} (nw_services (SyncUsers deleted added w))" "sameMoney w (SyncUsers deleted added w)"
proof -
  obtain s cs where d: "fold syncDelete deleted (nw_services w, []) = (s, cs)" by fastforce
  have "sessInv (set cs) (fold syncAdd added s)" using syncAdds_sessInv [OF syncDeletes_sessInv [OF _ d]] assms by simp
  moreover have "sameMoney w (w\<lparr>nw_services := fold syncAdd added s\<rparr>)"
    using sameMoney_trans [OF syncDeletes_money [OF d] syncAdds_money [of "w\<lparr>nw_services := s\<rparr>" added]] by simp
  ultimately show "sessInv {} (nw_services (SyncUsers deleted added w))" "sameMoney w (SyncUsers deleted added w)"
    using closeTaken_keeps by (simp_all add: SyncUsers_def d)
qed

lemma CloseUserConnections_keeps:
  assumes "sessInv {} (nw_services w)"
  shows "sessInv {} (nw_services (CloseUserConnections uid w))" "sameMoney w (CloseUserConnections uid w)"
proof -
  let ?s = "(nw_services w)\<lparr>rs_connections := AList.delete uid (rs_connections (nw_services w))\<rparr>"
  have "sessInv (set (mapGet (rs_connections (nw_services w)) uid [])) ?s"
    using sessInv_take [OF assms, of uid] by (simp add: connsOf_def)
  moreover have "sameMoney w (w\<lparr>nw_services := ?s\<rparr>)" by (simp add: sameMoney_def money_def)
  ultimately show "sessInv {} (nw_services (CloseUserConnections uid w))" "sameMoney w (CloseUserConnections uid w)"
    using closeTaken_keeps by (simp_all add: CloseUserConnections_def takeConnections_def)
qed

lemma CloseAllConnections_keeps:
  assumes "sessInv {} (nw_services w)"
  shows "sessInv {} (nw_services (CloseAllConnections w))" "sameMoney w (CloseAllConnections w)"
proof -
  let ?s = "nw_services w"
  let ?s' = "?s\<lparr>rs_connections := []\<rparr>"
  let ?as = "concat (map snd (rs_connections ?s))"
  have d: "distinct (map fst (rs_connections ?s))" using assms by (simp add: sessInv_def)
  have cs: "x \<in> connsOf ?s uid \<longleftrightarrow> (\<exists>l. (uid, l) \<in> set (rs_connections ?s) \<and> x \<in> set l)" for x uid
    unfolding connsOf_def mapGet_def map_of_eq_Some_iff [OF d, symmetric]
    by (cases "map_of (rs_connections ?s) uid") auto
  have "x \<in> set ?as \<longleftrightarrow> (\<exists>uid l. (uid, l) \<in> set (rs_connections ?s) \<and> x \<in> set l)" for x by force
  then have conns: "set ?as = (\<Union>uid. connsOf ?s uid)" unfolding set_eq_iff UN_iff cs by blast
  have so: "sessionOf ?s' b u \<longleftrightarrow> sessionOf ?s b u" for b u by (simp add: sessionOf_def)
  have "connsOf ?s' u = {}" for u by (simp add: connsOf_def mapGet_def)
  then have "sessInv (set ?as) ?s'" using assms(1) unfolding sessInv_def so conns by (auto; blast)
  moreover have "sameMoney w (w\<lparr>nw_services := ?s'\<rparr>)" by (simp add: sameMoney_def money_def)
  ultimately show "sessInv {} (nw_services (CloseAllConnections w))" "sameMoney w (CloseAllConnections w)"
    using closeTaken_keeps [of ?as ?s' w] by (simp_all add: CloseAllConnections_def onServices_def)
qed

lemma openCheck_keeps:
  "nw_services (snd (openCheck user ip t w)) = nw_services w" "nw_committed (snd (openCheck user ip t w)) = nw_committed w"
  "sameMoney w (snd (openCheck user ip t w))"
  by (auto simp: openCheck_def Let_def sameMoney_def money_def split: option.split prod.split)

lemma storeSession_sessInv:
  assumes "sessInv {} s"
  shows "sessInv {} (storeSession user ip t lim s)"
proof -
  let ?s = "storeSession user ip t lim s"
  let ?n = "length (rs_sessions s)"
  have so: "sessionOf ?s b u \<longleftrightarrow> sessionOf s b u \<or> b = ?n \<and> u = ui_Id user" for b u
    by (auto simp: sessionOf_def storeSession_def Let_def nth_append less_Suc_eq)
  have conns: "connsOf ?s u = (if u = ui_Id user then insert ?n (connsOf s u) else connsOf s u)" for u
    by (auto simp: connsOf_def storeSession_def Let_def)
  have cl: "se_closed (rs_sessions ?s ! a) \<longrightarrow> se_released (rs_sessions ?s ! a)" if "a < length (rs_sessions ?s)" for a
    using assms that by (auto simp: sessInv_def storeSession_def Let_def nth_append less_Suc_eq)
  have len: "length (rs_sessions ?s) = Suc ?n" by (simp add: storeSession_def Let_def)
  have tu: "rs_trafficUsers ?s = List.insert (ui_Id user) (rs_trafficUsers s)" by (simp add: storeSession_def Let_def)
  have d: "distinct (map fst (rs_connections ?s))" using assms by (simp add: sessInv_def storeSession_def Let_def distinct_update)
  have "connsOf s u \<subseteq> {..<Suc ?n}" for u using assms by (force simp: sessInv_def)
  then show ?thesis using assms cl d unfolding sessInv_def so conns len tu by (auto split: if_splits)
qed

lemma openStore_keeps:
  assumes "sessInv {} (nw_services w)"
  shows "sessInv {} (nw_services (snd (openStore user ip t lim w)))" "sameMoney w (snd (openStore user ip t lim w))"
  using assms storeSession_sessInv
  by (auto simp: openStore_def Let_def sameMoney_def money_def storeSession_def)

section \<open>Billing\<close>

definition amount :: "bool \<Rightarrow> TrafficTotal \<Rightarrow> int" where
  "amount up t = (if up then tt_Upload t else tt_Download t)"

definition itemAmount :: "bool \<Rightarrow> UserTraffic \<Rightarrow> int" where
  "itemAmount up item = (if up then ut_Upload item else ut_Download item)"

type_synonym ledger = "int \<Rightarrow> bool \<Rightarrow> int"

definition counterOf :: "nodeWorld \<Rightarrow> int \<Rightarrow> TrafficTotal" where
  "counterOf w uid = mapGet (rs_counters (nw_services w)) uid zeroTotal"

definition committedOf :: "nodeWorld \<Rightarrow> int \<Rightarrow> TrafficTotal" where
  "committedOf w uid = mapGet (nw_committed w) (rs_tag (nw_services w), uid) zeroTotal"

text \<open>The accounts: what was recorded is in the counters, what was billed is committed, a pending
  report is the difference up to its snapshot, and a user with unbilled traffic is a candidate.\<close>

definition pendingOk :: "ledger \<Rightarrow> ledger \<Rightarrow> int \<Rightarrow> pendingTraffic \<Rightarrow> bool" where
  "pendingOk recorded billed uid p \<longleftrightarrow> ut_UID (pt_reported p) = uid
     \<and> (\<forall>up. itemAmount up (pt_reported p) = amount up (pt_total p) - billed uid up
          \<and> billed uid up \<le> amount up (pt_total p) \<and> amount up (pt_total p) \<le> recorded uid up)"

definition accounts :: "ledger \<Rightarrow> ledger \<Rightarrow> nodeWorld \<Rightarrow> bool" where
  "accounts recorded billed w \<longleftrightarrow> sessInv {} (nw_services w)
     \<and> (\<forall>uid up. amount up (counterOf w uid) = recorded uid up \<and> amount up (committedOf w uid) = billed uid up
          \<and> 0 \<le> billed uid up \<and> billed uid up \<le> recorded uid up \<and> recorded uid up < 2 ^ 62
          \<and> (billed uid up \<noteq> recorded uid up \<longrightarrow> uid \<in> set (rs_trafficUsers (nw_services w))))
     \<and> (\<forall>uid p. map_of (rs_pending (nw_services w)) uid = Some p \<longrightarrow> pendingOk recorded billed uid p)"

lemma accounts_sameMoney:
  "accounts recorded billed w \<Longrightarrow> sameMoney w w' \<Longrightarrow> sessInv {} (nw_services w') \<Longrightarrow> accounts recorded billed w'"
  unfolding accounts_def sameMoney_def money_def counterOf_def committedOf_def by (simp add: fun_eq_iff) blast

lemma accounts_sess: "accounts recorded billed w \<Longrightarrow> sessInv {} (nw_services w)"
  by (simp add: accounts_def)

lemma amount_zero [simp]: "amount up zeroTotal = 0"
  by (simp add: amount_def zeroTotal_def)

lemma trafficDelta_eq: "0 \<le> k \<Longrightarrow> k \<le> c \<Longrightarrow> c < 2 ^ 62 \<Longrightarrow> trafficDelta c k = c - k"
  by (auto simp: trafficDelta_def)

definition addRecorded :: "int \<Rightarrow> int \<Rightarrow> bool \<Rightarrow> ledger \<Rightarrow> ledger" where
  "addRecorded uid bytes up recorded = recorded(uid := (recorded uid)(up := recorded uid up + bytes))"

lemma counterAdd_accounts:
  assumes "accounts recorded billed w" "0 < bytes" "recorded uid up + bytes < 2 ^ 62"
    "uid \<in> set (rs_trafficUsers (nw_services w))"
  shows "accounts (addRecorded uid bytes up recorded) billed (onServices (counterAdd uid bytes up) w)"
proof -
  let ?w = "onServices (counterAdd uid bytes up) w"
  have s: "rs_tag (nw_services ?w) = rs_tag (nw_services w)" "rs_pending (nw_services ?w) = rs_pending (nw_services w)"
    "rs_trafficUsers (nw_services ?w) = rs_trafficUsers (nw_services w)" "rs_sessions (nw_services ?w) = rs_sessions (nw_services w)"
    "rs_connections (nw_services ?w) = rs_connections (nw_services w)"
    by (simp_all add: counterAdd_def Let_def)
  have inv: "sessInv {} (nw_services ?w)"
    using sessInv_grow [OF accounts_sess [OF assms(1)]] s sessInv_distinct [OF accounts_sess [OF assms(1)]] by simp
  have range: "amount up (counterOf w uid) = recorded uid up" "0 \<le> recorded uid up" using assms(1) by (auto simp: accounts_def intro: order.trans)
  have cnt: "amount v (counterOf ?w u) = addRecorded uid bytes up recorded u v" for u v
  proof -
    have "amount v (counterOf ?w u) = (if u = uid \<and> v = up then i64 (amount up (counterOf w uid) + bytes) else amount v (counterOf w u))"
      by (auto simp: counterOf_def counterAdd_def Let_def amount_def)
    moreover have "amount v (counterOf w u) = recorded u v" using assms(1) by (simp add: accounts_def)
    ultimately show ?thesis using assms(2, 3) range by (cases "u = uid \<and> v = up") (auto simp: addRecorded_def)
  qed
  have com: "committedOf ?w = committedOf w" using s(1) by (simp add: committedOf_def fun_eq_iff)
  have le: "recorded u v \<le> addRecorded uid bytes up recorded u v" for u v using assms(2) by (simp add: addRecorded_def)
  have pend: "pendingOk (addRecorded uid bytes up recorded) billed u p" if "pendingOk recorded billed u p" for u p
    using that le unfolding pendingOk_def by (meson order.trans)
  have "addRecorded uid bytes up recorded u v < 2 ^ 62" "billed u v \<noteq> addRecorded uid bytes up recorded u v \<longrightarrow> u \<in> set (rs_trafficUsers (nw_services w))"
      "billed u v \<le> addRecorded uid bytes up recorded u v" "0 \<le> billed u v" "amount v (committedOf w u) = billed u v" for u v
  proof -
    have old: "0 \<le> billed u v" "billed u v \<le> recorded u v" "recorded u v < 2 ^ 62" "amount v (committedOf w u) = billed u v"
      "billed u v \<noteq> recorded u v \<longrightarrow> u \<in> set (rs_trafficUsers (nw_services w))" using assms(1) by (auto simp: accounts_def)
    show "addRecorded uid bytes up recorded u v < 2 ^ 62" "billed u v \<noteq> addRecorded uid bytes up recorded u v \<longrightarrow> u \<in> set (rs_trafficUsers (nw_services w))"
      using old assms(3, 4) by (auto simp: addRecorded_def split: if_splits)
    show "billed u v \<le> addRecorded uid bytes up recorded u v" "0 \<le> billed u v" "amount v (committedOf w u) = billed u v"
      using old le [of u v] by auto
  qed
  then show ?thesis using assms(1) inv pend unfolding accounts_def s cnt com by simp
qed

text \<open>The three ways a candidate of Traffic goes: it stays as it is, it is dropped because it has
  nothing to bill and no connection, or a report is made and remembered.\<close>

lemma seedCommitted_simps [simp]:
  "nw_services (seedCommitted uid w) = nw_services w" "committedOf (seedCommitted uid w) = committedOf w"
  "counterOf (seedCommitted uid w) = counterOf w"
  by (auto simp: seedCommitted_def Let_def committedOf_def counterOf_def mapGet_def fun_eq_iff)

lemma seedCommitted_accounts: "accounts recorded billed w \<Longrightarrow> accounts recorded billed (seedCommitted uid w)"
  by (simp add: accounts_def)

definition dropCandidate :: "int \<Rightarrow> RuntimeServices \<Rightarrow> RuntimeServices" where
  "dropCandidate uid s = s\<lparr>rs_trafficUsers := removeAll uid (rs_trafficUsers s), rs_pending := AList.delete uid (rs_pending s)\<rparr>"

lemma dropCandidate_accounts:
  assumes "accounts recorded billed w" "\<And>up. recorded uid up = billed uid up" "mapGet (rs_connections (nw_services w)) uid [] = []"
  shows "accounts recorded billed (onServices (dropCandidate uid) w)"
proof -
  have none: "connsOf (nw_services w) uid = {}" using assms(3) by (simp add: connsOf_def)
  have "sessInv {} (dropCandidate uid (nw_services w))"
    using accounts_sess [OF assms(1)] none by (auto simp: dropCandidate_def sessInv_def sessionOf_def connsOf_def distinct_removeAll)
  moreover have "committedOf (onServices (dropCandidate uid) w) = committedOf w" "counterOf (onServices (dropCandidate uid) w) = counterOf w"
    by (simp_all add: committedOf_def counterOf_def dropCandidate_def fun_eq_iff)
  ultimately show ?thesis using assms(1, 2) by (auto simp: accounts_def dropCandidate_def)
qed

definition notePending :: "pendingTraffic \<Rightarrow> RuntimeServices \<Rightarrow> RuntimeServices" where
  "notePending p s = s\<lparr>rs_pending := AList.update (ut_UID (pt_reported p)) p (rs_pending s)\<rparr>"

lemma notePending_accounts:
  assumes "accounts recorded billed w" "pendingOk recorded billed (ut_UID (pt_reported p)) p"
  shows "accounts recorded billed (onServices (notePending p) w)"
proof -
  have "sessInv {} (notePending p (nw_services w))"
    using accounts_sess [OF assms(1)] by (simp add: notePending_def sessInv_def sessionOf_def connsOf_def)
  moreover have "committedOf (onServices (notePending p) w) = committedOf w" "counterOf (onServices (notePending p) w) = counterOf w"
    by (simp_all add: committedOf_def counterOf_def notePending_def fun_eq_iff)
  ultimately show ?thesis using assms by (auto simp: accounts_def notePending_def)
qed

lemma trafficFor_cases:
  assumes "accounts recorded billed w" "trafficFor threshold uid w = (r, w')"
  obtains (quiet) "r = None" "w' = seedCommitted uid w \<or> w' = w" "threshold \<le> 0 \<Longrightarrow> \<forall>up. recorded uid up = billed uid up"
    | (idle) "r = None" "w' = onServices (dropCandidate uid) (seedCommitted uid w)" "\<forall>up. recorded uid up = billed uid up"
        "mapGet (rs_connections (nw_services w)) uid [] = []"
    | (report) p where "r = Some (pt_reported p)" "w' = onServices (notePending p) (seedCommitted uid w)" "pendingOk recorded billed uid p"
        "\<forall>up. itemAmount up (pt_reported p) = recorded uid up - billed uid up"
proof (cases "map_of (rs_counters (nw_services w)) uid")
  case None
  have "amount up (counterOf w uid) = recorded uid up" "0 \<le> billed uid up" "billed uid up \<le> recorded uid up" for up
    using assms(1) by (auto simp: accounts_def)
  moreover have "counterOf w uid = zeroTotal" using None by (simp add: counterOf_def mapGet_def)
  ultimately have "recorded uid up = billed uid up" for up by (metis amount_zero order.antisym)
  then show ?thesis using None assms(2) by (intro quiet) (simp_all add: trafficFor_def Let_def)
next
  case (Some c)
  let ?s = "nw_services w"
  have c: "counterOf w uid = c" using Some by (simp add: counterOf_def mapGet_def)
  have bounds: "amount up c = recorded uid up" "amount up (committedOf w uid) = billed uid up"
      "0 \<le> billed uid up" "billed uid up \<le> recorded uid up" "recorded uid up < 2 ^ 62" for up
    using assms(1) unfolding c [symmetric] accounts_def by blast+
  define d where "d up = recorded uid up - billed uid up" for up
  have d: "trafficDelta (tt_Upload c) (tt_Upload (committedOf w uid)) = d True"
      "trafficDelta (tt_Download c) (tt_Download (committedOf w uid)) = d False"
    using trafficDelta_eq bounds [of True] bounds [of False] by (auto simp: amount_def d_def)
  have sum: "i64 (d True + d False) = d True + d False" "0 \<le> d True" "0 \<le> d False"
    using bounds [of True] bounds [of False] by (auto simp: d_def)
  have zero: "\<forall>up. recorded uid up = billed uid up" if "d True + d False \<le> 0"
    using sum(2, 3) that by (auto simp: all_bool_eq d_def)
  define p where "p = \<lparr>pt_total = c, pt_reported =
    \<lparr>ut_UID = uid, ut_Upload = d True, ut_Download = d False, ut_ForceReport = map_of (rs_users ?s) uid = None\<rparr>\<rparr>"
  have item: "itemAmount up (pt_reported p) = d up" for up by (simp add: itemAmount_def p_def)
  have p: "pendingOk recorded billed uid p" using item bounds by (simp add: pendingOk_def d_def p_def)
  let ?t = "if map_of (rs_users ?s) uid \<noteq> None then threshold else 0"
  have eq: "(r, w') = (if d True = 0 \<and> d False = 0 then (None, if mapGet (rs_connections ?s) uid [] \<noteq> [] then seedCommitted uid w
        else onServices (dropCandidate uid) (seedCommitted uid w))
      else if d True + d False \<le> ?t then (None, seedCommitted uid w) else (Some (pt_reported p), onServices (notePending p) (seedCommitted uid w)))"
    unfolding assms(2) [symmetric] trafficFor_def Let_def Some option.case committedOf_def [symmetric] d sum(1)
    by (cases "map_of (rs_users ?s) uid") (simp_all add: dropCandidate_def [abs_def] notePending_def [abs_def] p_def)
  consider "d True = 0 \<and> d False = 0" "mapGet (rs_connections ?s) uid [] \<noteq> []"
    | "d True = 0 \<and> d False = 0" "mapGet (rs_connections ?s) uid [] = []"
    | "\<not> (d True = 0 \<and> d False = 0)" "d True + d False \<le> ?t" | "\<not> (d True = 0 \<and> d False = 0)" "\<not> d True + d False \<le> ?t" by blast
  then show ?thesis
  proof cases
    case 1
    then show ?thesis using eq zero by (intro quiet) simp_all
  next
    case 2
    then show ?thesis using eq zero by (intro idle) simp_all
  next
    case 3
    have "threshold \<le> 0 \<Longrightarrow> d True + d False \<le> 0" using 3(2) by (auto split: if_splits)
    then show ?thesis using eq zero unfolding if_not_P [OF 3(1)] if_P [OF 3(2)] by (intro quiet) simp_all
  next
    case 4
    show ?thesis using eq p item unfolding if_not_P [OF 4(1)] if_not_P [OF 4(2)] by (intro report [of p]) (simp_all add: d_def)
  qed
qed

text \<open>One candidate of Traffic: the accounts hold after it, and a report is exactly what is not
  billed; without a threshold only a user with nothing to bill gets no report.\<close>

lemma trafficFor_accounts:
  assumes "accounts recorded billed w" "trafficFor threshold uid w = (r, w')"
  shows "accounts recorded billed w'"
    and "u \<noteq> uid \<Longrightarrow> map_of (rs_pending (nw_services w')) u = map_of (rs_pending (nw_services w)) u"
    and "r = Some item \<Longrightarrow> ut_UID item = uid \<and> (\<exists>p. map_of (rs_pending (nw_services w')) uid = Some p \<and> pt_reported p = item)
           \<and> (\<forall>up. itemAmount up item = recorded uid up - billed uid up)"
    and "r = None \<Longrightarrow> threshold \<le> 0 \<Longrightarrow> recorded uid up = billed uid up"
  using assms(1) seedCommitted_accounts [OF assms(1), of uid]
  by (cases rule: trafficFor_cases [OF assms];
      auto simp: dropCandidate_accounts notePending_accounts dropCandidate_def notePending_def pendingOk_def)+

lemma trafficLoop_accounts:
  assumes "accounts recorded billed w" "trafficLoop threshold uids w = (items, w')" "distinct uids"
  shows "accounts recorded billed w' \<and> distinct (map ut_UID items) \<and> ut_UID ` set items \<subseteq> set uids
    \<and> (\<forall>u. u \<notin> set uids \<longrightarrow> map_of (rs_pending (nw_services w')) u = map_of (rs_pending (nw_services w)) u)
    \<and> (\<forall>item\<in>set items. (\<exists>p. map_of (rs_pending (nw_services w')) (ut_UID item) = Some p \<and> pt_reported p = item)
          \<and> (\<forall>up. itemAmount up item = recorded (ut_UID item) up - billed (ut_UID item) up))
    \<and> (threshold \<le> 0 \<longrightarrow> (\<forall>u\<in>set uids - ut_UID ` set items. \<forall>up. recorded u up = billed u up))"
  using assms
proof (induction uids arbitrary: w items)
  case (Cons uid uids)
  obtain r w1 where 1: "trafficFor threshold uid w = (r, w1)" by fastforce
  obtain rest where 2: "trafficLoop threshold uids w1 = (rest, w')" "items = (case r of None \<Rightarrow> rest | Some x \<Rightarrow> x # rest)"
    using Cons.prems(2) 1 by (auto split: prod.splits)
  note one = trafficFor_accounts [OF Cons.prems(1) 1]
  note IH = Cons.IH [OF one(1) 2(1)]
  have d: "uid \<notin> set uids" "distinct uids" using Cons.prems(3) by simp_all
  have new: "uid \<notin> ut_UID ` set rest" using IH d by auto
  show ?case
  proof (cases r)
    case None
    then show ?thesis using IH d one(2, 4) 2(2) by auto
  next
    case (Some x)
    have x: "ut_UID x = uid" "\<exists>p. map_of (rs_pending (nw_services w1)) uid = Some p \<and> pt_reported p = x"
      "\<forall>up. itemAmount up x = recorded uid up - billed uid up" using one(3) [OF Some] by auto
    show ?thesis using IH d one(2) x new 2(2) Some by auto
  qed
qed simp

definition addBilled :: "UserTraffic \<Rightarrow> ledger \<Rightarrow> ledger" where
  "addBilled item billed = billed(ut_UID item := (\<lambda>up. billed (ut_UID item) up + itemAmount up item))"

lemma commitItem_accounts:
  assumes "accounts recorded billed w" "map_of (rs_pending (nw_services w)) (ut_UID item) = Some p" "pt_reported p = item"
  shows "accounts recorded (addBilled item billed) (commitItem item w)"
    and "u \<noteq> ut_UID item \<Longrightarrow> map_of (rs_pending (nw_services (commitItem item w))) u = map_of (rs_pending (nw_services w)) u"
proof -
  let ?w = "commitItem item w"
  have run: "?w = onServices (\<lambda>s. s\<lparr>rs_pending := AList.delete (ut_UID item) (rs_pending s)\<rparr>)
      (w\<lparr>nw_committed := AList.update (rs_tag (nw_services w), ut_UID item) (pt_total p) (nw_committed w)\<rparr>)"
    using assms(2, 3) by (simp add: commitItem_def Let_def)
  then show "u \<noteq> ut_UID item \<Longrightarrow> map_of (rs_pending (nw_services ?w)) u = map_of (rs_pending (nw_services w)) u" by simp
  have p: "pendingOk recorded billed (ut_UID item) p" using assms(1, 2) unfolding accounts_def by blast
  then have tot: "addBilled item billed (ut_UID item) up = amount up (pt_total p)" for up
    using assms(3) by (simp add: addBilled_def pendingOk_def)
  have com: "committedOf ?w u = (if u = ut_UID item then pt_total p else committedOf w u)" for u by (simp add: committedOf_def run)
  have other: "addBilled item billed u = billed u" if "u \<noteq> ut_UID item" for u using that by (simp add: addBilled_def)
  have sess: "sessInv {} (nw_services ?w)" using accounts_sess [OF assms(1)] by (simp add: run sessInv_def sessionOf_def connsOf_def)
  have cnt: "counterOf ?w = counterOf w" by (simp add: run counterOf_def fun_eq_iff)
  have tu: "rs_trafficUsers (nw_services ?w) = rs_trafficUsers (nw_services w)" by (simp add: run)
  have old: "amount up (counterOf w u) = recorded u up" "amount up (committedOf w u) = billed u up" "0 \<le> billed u up"
      "billed u up \<le> recorded u up" "recorded u up < 2 ^ 62" "billed u up \<noteq> recorded u up \<longrightarrow> u \<in> set (rs_trafficUsers (nw_services w))" for u up
    using assms(1) by (auto simp: accounts_def)
  have one: "amount up (committedOf ?w u) = addBilled item billed u up \<and> 0 \<le> addBilled item billed u up
      \<and> addBilled item billed u up \<le> recorded u up
      \<and> (addBilled item billed u up \<noteq> recorded u up \<longrightarrow> u \<in> set (rs_trafficUsers (nw_services w)))" for u up
  proof (cases "u = ut_UID item")
    case True
    have b: "billed u up \<le> amount up (pt_total p)" "amount up (pt_total p) \<le> recorded u up" using p True by (auto simp: pendingOk_def)
    have "amount up (pt_total p) \<noteq> recorded u up \<longrightarrow> billed u up \<noteq> recorded u up" using b by linarith
    then show ?thesis using True tot com b old(3, 6) [of u up] by auto
  next
    case False
    then show ?thesis using old(2) [of up u] old(3, 4, 6) [of u up] com other by simp
  qed
  have pend: "pendingOk recorded (addBilled item billed) u q" if "map_of (rs_pending (nw_services ?w)) u = Some q" for u q
  proof -
    have "u \<noteq> ut_UID item" "map_of (rs_pending (nw_services w)) u = Some q" using that by (simp_all add: run split: if_splits)
    moreover from this(2) have "pendingOk recorded billed u q" using assms(1) unfolding accounts_def by blast
    ultimately show ?thesis using other by (simp add: pendingOk_def)
  qed
  show "accounts recorded (addBilled item billed) ?w"
    unfolding accounts_def cnt tu using sess one old(1, 5) pend by simp
qed

lemma CommitTraffic_accounts:
  "accounts recorded billed w \<Longrightarrow> distinct (map ut_UID items) \<Longrightarrow>
   \<forall>item\<in>set items. \<exists>p. map_of (rs_pending (nw_services w)) (ut_UID item) = Some p \<and> pt_reported p = item \<Longrightarrow>
     accounts recorded (fold addBilled items billed) (CommitTraffic items w)"
  unfolding CommitTraffic_def
proof (induction items arbitrary: billed w)
  case (Cons item items)
  then obtain p where p: "map_of (rs_pending (nw_services w)) (ut_UID item) = Some p" "pt_reported p = item" by auto
  note one = commitItem_accounts [OF Cons.prems(1) p]
  have "\<exists>p. map_of (rs_pending (nw_services (commitItem item w))) (ut_UID x) = Some p \<and> pt_reported p = x" if "x \<in> set items" for x
  proof -
    have "ut_UID x \<noteq> ut_UID item" using Cons.prems(2) that by (metis (no_types, lifting) distinct.simps(2) image_eqI list.set_map list.simps(9))
    then show ?thesis using one(2) Cons.prems(3) that by auto
  qed
  then show ?case using Cons.IH [OF one(1)] Cons.prems(2) by simp
qed simp

section \<open>Histories\<close>

text \<open>A history of a runtime: sessions are opened in their two critical sections, carry traffic,
  are released and closed, users come and go, and the controller asks for a report and
  commits what the panel took of it. The ledger keeps what was recorded and what was billed.\<close>

record billing =
  bl_world :: nodeWorld
  bl_outstanding :: "UserTraffic list"
  bl_recorded :: ledger
  bl_billed :: ledger

datatype rsEvent =
    RsCheck UserInfo string bool
  | RsStore UserInfo string bool nat
  | RsSessionRecord nat int bool
  | RsRecord int int bool
  | RsRelease nat
  | RsClose nat
  | RsSync "UserInfo list" "UserInfo list"
  | RsCloseUser int
  | RsCloseAll
  | RsTraffic int
  | RsAccept int

definition onWorld :: "(nodeWorld \<Rightarrow> nodeWorld) \<Rightarrow> billing \<Rightarrow> billing" where
  "onWorld f b = b\<lparr>bl_world := f (bl_world b)\<rparr>"

fun rsStep :: "rsEvent \<Rightarrow> billing \<Rightarrow> billing" where
  "rsStep (RsCheck user ip t) b = onWorld (\<lambda>w. snd (openCheck user ip t w)) b"
| "rsStep (RsStore user ip t lim) b = onWorld (\<lambda>w. snd (openStore user ip t lim w)) b"
| "rsStep (RsSessionRecord a bytes up) b =
     (let b' = onWorld (sessionRecord a bytes up) b; uid = se_uid (rs_sessions (nw_services (bl_world b)) ! a) in
      if bytes > 0 then b'\<lparr>bl_recorded := addRecorded uid bytes up (bl_recorded b)\<rparr> else b')"
| "rsStep (RsRecord uid bytes up) b =
     (case rsRecord uid bytes up (bl_world b) of (ok, w) \<Rightarrow>
        b\<lparr>bl_world := w, bl_recorded := (if ok then addRecorded uid bytes up (bl_recorded b) else bl_recorded b)\<rparr>)"
| "rsStep (RsRelease a) b = onWorld (Release a) b"
| "rsStep (RsClose a) b = onWorld (rsClose a) b"
| "rsStep (RsSync deleted added) b = onWorld (SyncUsers deleted added) b"
| "rsStep (RsCloseUser uid) b = onWorld (CloseUserConnections uid) b"
| "rsStep RsCloseAll b = onWorld CloseAllConnections b"
| "rsStep (RsTraffic minTraffic) b =
     (case Traffic minTraffic (bl_world b) of (items, w) \<Rightarrow> b\<lparr>bl_world := w, bl_outstanding := items\<rparr>)"
| "rsStep (RsAccept minimum) b =
     (let items = filterTrafficByMinimum (bl_outstanding b) minimum in
      b\<lparr>bl_world := CommitTraffic items (bl_world b), bl_outstanding := [],
        bl_billed := fold addBilled items (bl_billed b)\<rparr>)"

text \<open>Traffic is recorded on a session before it is released, sessions that are released or closed
  exist, and no user reaches 2 ^ 62 bytes in one direction.\<close>

fun rsLegal :: "rsEvent \<Rightarrow> billing \<Rightarrow> bool" where
  "rsLegal (RsSessionRecord a bytes up) b \<longleftrightarrow>
     (let s = nw_services (bl_world b); uid = se_uid (rs_sessions s ! a) in
      sessionOf s a uid \<and> bl_recorded b uid up + bytes < 2 ^ 62)"
| "rsLegal (RsRecord uid bytes up) b \<longleftrightarrow> bl_recorded b uid up + bytes < 2 ^ 62"
| "rsLegal (RsRelease a) b \<longleftrightarrow> a < length (rs_sessions (nw_services (bl_world b)))"
| "rsLegal (RsClose a) b \<longleftrightarrow> a < length (rs_sessions (nw_services (bl_world b)))"
| "rsLegal ev b \<longleftrightarrow> True"

fun rsRun :: "rsEvent list \<Rightarrow> billing \<Rightarrow> billing option" where
  "rsRun [] b = Some b"
| "rsRun (ev # evs) b = (if rsLegal ev b then rsRun evs (rsStep ev b) else None)"

definition newBilling :: "string \<Rightarrow> limiterTable \<Rightarrow> billing" where
  "newBilling tag limiters =
     \<lparr>bl_world = \<lparr>nw_services = NewRuntimeServices tag, nw_limiters = limiters, nw_committed = []\<rparr>, bl_outstanding = [],
      bl_recorded = (\<lambda>_ _. 0), bl_billed = (\<lambda>_ _. 0)\<rparr>"

definition billingInv :: "billing \<Rightarrow> bool" where
  "billingInv b \<longleftrightarrow> accounts (bl_recorded b) (bl_billed b) (bl_world b) \<and> distinct (map ut_UID (bl_outstanding b))
     \<and> (\<forall>item\<in>set (bl_outstanding b).
          \<exists>p. map_of (rs_pending (nw_services (bl_world b))) (ut_UID item) = Some p \<and> pt_reported p = item)"

lemma billingInv_onWorld:
  assumes "billingInv b" "sameMoney (bl_world b) (f (bl_world b))" "sessInv {} (nw_services (f (bl_world b)))"
  shows "billingInv (onWorld f b)"
proof -
  have "rs_pending (nw_services (f (bl_world b))) = rs_pending (nw_services (bl_world b))"
    using assms(2) by (simp add: sameMoney_def money_def)
  then show ?thesis using assms accounts_sameMoney [of "bl_recorded b" "bl_billed b" "bl_world b"] by (simp add: billingInv_def onWorld_def)
qed

lemma billingInv_sess: "billingInv b \<Longrightarrow> sessInv {} (nw_services (bl_world b))"
  by (simp add: billingInv_def accounts_def)

lemma billingInv_record:
  assumes "billingInv b" "0 < bytes" "bl_recorded b uid up + bytes < 2 ^ 62" "uid \<in> set (rs_trafficUsers (nw_services (bl_world b)))"
  shows "billingInv (b\<lparr>bl_world := onServices (counterAdd uid bytes up) (bl_world b), bl_recorded := addRecorded uid bytes up (bl_recorded b)\<rparr>)"
proof -
  have "rs_pending (counterAdd uid bytes up s) = rs_pending s" for s by (simp add: counterAdd_def Let_def)
  then show ?thesis using assms counterAdd_accounts [where recorded = "bl_recorded b" and w = "bl_world b", OF _ assms(2, 3, 4)] by (simp add: billingInv_def)
qed

lemma distinct_map_filter_UID: "distinct (map ut_UID items) \<Longrightarrow> distinct (map ut_UID (filterTrafficByMinimum items m))"
  by (simp add: filterTrafficByMinimum_def Let_def distinct_map_filter)

lemma set_filterTraffic: "set (filterTrafficByMinimum items m) \<subseteq> set items"
  by (auto simp: filterTrafficByMinimum_def Let_def)

lemma Traffic_accounts:
  assumes "accounts recorded billed w" "Traffic m w = (items, w')"
  shows "accounts recorded billed w'" "distinct (map ut_UID items)"
    "\<forall>item\<in>set items. \<exists>p. map_of (rs_pending (nw_services w')) (ut_UID item) = Some p \<and> pt_reported p = item"
    "\<forall>item\<in>set items. \<forall>up. itemAmount up item = recorded (ut_UID item) up - billed (ut_UID item) up"
    "m \<le> 0 \<Longrightarrow> u \<notin> ut_UID ` set items \<Longrightarrow> recorded u up = billed u up"
proof -
  note loop = trafficLoop_accounts [OF assms(1) assms(2) [unfolded Traffic_def] sessInv_distinct [OF accounts_sess [OF assms(1)]]]
  show "accounts recorded billed w'" "distinct (map ut_UID items)"
    "\<forall>item\<in>set items. \<exists>p. map_of (rs_pending (nw_services w')) (ut_UID item) = Some p \<and> pt_reported p = item"
    "\<forall>item\<in>set items. \<forall>up. itemAmount up item = recorded (ut_UID item) up - billed (ut_UID item) up" using loop by blast+
  assume m: "m \<le> 0" and u: "u \<notin> ut_UID ` set items"
  show "recorded u up = billed u up"
  proof (cases "u \<in> set (rs_trafficUsers (nw_services w))")
    case True
    then show ?thesis using loop m u by auto
  next
    case False
    then show ?thesis using assms(1) unfolding accounts_def by metis
  qed
qed

lemma rsStep_inv: "billingInv b \<Longrightarrow> rsLegal ev b \<Longrightarrow> billingInv (rsStep ev b)"
proof (induction ev)
  case (RsSessionRecord a bytes up)
  let ?s = "nw_services (bl_world b)"
  let ?uid = "se_uid (rs_sessions ?s ! a)"
  have "sessionOf ?s a ?uid" "bl_recorded b ?uid up + bytes < 2 ^ 62" using RsSessionRecord.prems(2) by (simp_all add: Let_def)
  moreover from this have "?uid \<in> set (rs_trafficUsers ?s)" using billingInv_sess [OF RsSessionRecord.prems(1)] unfolding sessInv_def by blast
  ultimately show ?case using billingInv_record [OF RsSessionRecord.prems(1)] RsSessionRecord.prems(1)
    by (simp add: Let_def onWorld_def sessionRecord_def)
next
  case (RsRecord uid bytes up)
  let ?w = "bl_world b"
  let ?f = "\<lambda>s. addTrafficUser uid (counterLocked uid s)"
  have s: "sessInv {} (?f (nw_services ?w))"
    using sessInv_grow [OF billingInv_sess [OF RsRecord.prems(1)]] sessInv_distinct [OF billingInv_sess [OF RsRecord.prems(1)]]
    by (simp add: subset_insertI)
  have m: "sameMoney ?w (onServices ?f ?w)" by (auto simp: sameMoney_def money_def)
  have inv: "billingInv (onWorld (onServices ?f) b)" using billingInv_onWorld [where f = "onServices ?f", OF RsRecord.prems(1) m] s by simp
  have eq: "onServices (\<lambda>s. counterAdd uid bytes up (?f s)) ?w = onServices (counterAdd uid bytes up) (onServices ?f ?w)"
    by (simp add: onServices_def)
  show ?case using billingInv_record [OF inv, of bytes uid up] RsRecord.prems
    by (simp add: rsRecord_def onWorld_def eq not_le)
next
  case (RsTraffic m)
  obtain items w where t: "Traffic m (bl_world b) = (items, w)" by fastforce
  have "accounts (bl_recorded b) (bl_billed b) (bl_world b)" using RsTraffic.prems(1) by (simp add: billingInv_def)
  from Traffic_accounts [OF this t] show ?case by (simp add: t billingInv_def)
next
  case (RsAccept m)
  let ?items = "filterTrafficByMinimum (bl_outstanding b) m"
  have "accounts (bl_recorded b) (bl_billed b) (bl_world b)" "distinct (map ut_UID ?items)"
    "\<forall>item\<in>set ?items. \<exists>p. map_of (rs_pending (nw_services (bl_world b))) (ut_UID item) = Some p \<and> pt_reported p = item"
    using RsAccept.prems(1) set_filterTraffic [of "bl_outstanding b" m] distinct_map_filter_UID by (auto simp: billingInv_def)
  from CommitTraffic_accounts [OF this] show ?case by (simp add: billingInv_def Let_def)
qed (use billingInv_sess [of b] in \<open>simp_all add: billingInv_onWorld openCheck_keeps openStore_keeps Release_money Release_sessInv(1)
    rsClose_money rsClose_sessInv(1) [where X = "{}", simplified] SyncUsers_keeps CloseUserConnections_keeps CloseAllConnections_keeps\<close>)

lemma rsRun_inv: "rsRun evs b = Some b' \<Longrightarrow> billingInv b \<Longrightarrow> billingInv b'"
  by (induction evs arbitrary: b) (auto split: if_splits intro: rsStep_inv)

lemma newBilling_inv: "billingInv (newBilling tag limiters)"
  by (simp add: billingInv_def newBilling_def accounts_def NewRuntimeServices_def sessInv_def sessionOf_def connsOf_def
      counterOf_def committedOf_def mapGet_def amount_def zeroTotal_def)

lemma fold_addBilled:
  "distinct (map ut_UID items) \<Longrightarrow> fold addBilled items billed u up =
     billed u up + (\<Sum>item\<leftarrow>filter (\<lambda>item. ut_UID item = u) items. itemAmount up item)"
  by (induction items arbitrary: billed) (auto simp: addBilled_def)

lemma filter_the: "distinct xs \<Longrightarrow> x \<in> set xs \<Longrightarrow> filter (\<lambda>y. y = x) xs = [x]"
  by (induction xs) (auto simp: filter_empty_conv)

lemma flush_bills_all:
  assumes "billingInv b"
  shows "bl_billed (rsStep (RsAccept 0) (rsStep (RsTraffic 0) b)) = bl_recorded b"
proof (intro ext)
  fix u up
  obtain items w where t: "Traffic 0 (bl_world b) = (items, w)" by fastforce
  have acc: "accounts (bl_recorded b) (bl_billed b) (bl_world b)" using assms by (simp add: billingInv_def)
  note tr = Traffic_accounts [OF acc t]
  have "bl_billed (rsStep (RsAccept 0) (rsStep (RsTraffic 0) b)) u up = fold addBilled items (bl_billed b) u up"
    by (simp add: t filterTrafficByMinimum_def Let_def)
  also have "\<dots> = bl_billed b u up + (\<Sum>item\<leftarrow>filter (\<lambda>item. ut_UID item = u) items. itemAmount up item)"
    using fold_addBilled [OF tr(2)] by simp
  also have "\<dots> = bl_recorded b u up"
  proof (cases "u \<in> ut_UID ` set items")
    case True
    then obtain item where item: "item \<in> set items" "ut_UID item = u" by auto
    have "distinct items" "\<And>x. x \<in> set items \<Longrightarrow> ut_UID x = u \<Longrightarrow> x = item"
      using tr(2) item by (auto simp: distinct_map inj_on_def)
    then have "filter (\<lambda>x. ut_UID x = u) items = filter (\<lambda>x. x = item) items" using item(2) by (intro filter_cong) auto
    also have "\<dots> = [item]" using \<open>distinct items\<close> item(1) by (rule filter_the)
    finally show ?thesis using tr(4) item by simp
  next
    case False
    then have "filter (\<lambda>item. ut_UID item = u) items = []" by (auto simp: filter_empty_conv)
    then show ?thesis using tr(5) [OF _ False, of up] by simp
  qed
  finally show "bl_billed (rsStep (RsAccept 0) (rsStep (RsTraffic 0) b)) u up = bl_recorded b u up" .
qed


definition demoUser :: UserInfo where
  "demoUser = \<lparr>ui_Id = 7, ui_Uuid = ''u'', ui_SpeedLimit = 0, ui_DeviceLimit = 0\<rparr>"

definition demoLimiters :: limiterTable where
  "demoLimiters = snd (AddLimiter ''sudoku'' ''n'' 0 [demoUser] [] \<lparr>lt_objects = [], lt_limiter = []\<rparr>)"

definition demoHistory :: "rsEvent list" where
  "demoHistory = [RsSync [] [demoUser], RsCheck demoUser ''1.2.3.4'' True, RsStore demoUser ''1.2.3.4'' True 0,
     RsSessionRecord 0 1500 True, RsTraffic 1, RsSessionRecord 0 20 False, RsAccept 1, RsTraffic 1, RsAccept 1,
     RsSessionRecord 0 30 True, RsSync [demoUser] []]"


section \<open>Replacing the runtime\<close>

text \<open>A reload: a new runtime for the same tag, with the process-wide baseline it finds.\<close>

definition reload :: "nodeWorld \<Rightarrow> nodeWorld" where
  "reload w = w\<lparr>nw_services := NewRuntimeServices (rs_tag (nw_services w))\<rparr>"

definition recordFor :: "UserInfo \<Rightarrow> int \<Rightarrow> nodeWorld \<Rightarrow> nodeWorld" where
  "recordFor user bytes w = snd (rsRecord (ui_Id user) bytes True (SyncUsers [] [user] w))"

definition reportAll :: "nodeWorld \<Rightarrow> UserTraffic list \<times> nodeWorld" where
  "reportAll w = (case Traffic 0 w of (items, w) \<Rightarrow> (items, CommitTraffic items w))"

text \<open>Traffic after a reload is billed short. The counters of the new runtime start at zero while
  the baseline keeps what the old one had reported; 100 bytes reported before the reload and
  250 bytes recorded after it give a second report of 150 bytes, so 100 bytes are never billed.\<close>

lemma traffic_lost_after_reload:
  "let w0 = bl_world (newBilling ''n'' demoLimiters);
       (first, w1) = reportAll (recordFor demoUser 100 w0);
       (second, w2) = reportAll (recordFor demoUser 250 (reload w1))
   in map ut_Upload first = [100] \<and> map ut_Upload second = [150] \<and> fst (Traffic 0 w2) = []"
  by code_simp

end
