(* ===== verification/Node_Tasks.thy ===== *)
theory Node_Tasks
  imports Runtime_Services
begin

text \<open>
  The controller's periodic tasks (node/user.go, node/task.go) with the calls they make: to the
  runtime through the core (core/core.go), to the limiter, and to the panel through the API
  client (api/v2board/user.go). The world is the core with the controller's runtime.

  The panel is a service: its answers are arguments of the tasks. The kernel's own part of a
  user transaction, which runs before the shared services are updated, is the argument
  kernelSync (core/contract/runtime.go: a runtime is an interface); it may fail.
\<close>

section \<open>The core and the panel\<close>

datatype apiError = ApiCanceled | ApiFailed string

datatype taskError = NodeMissing string | TaskApi apiError | SyncFailed string | RuntimeStopTimeout

definition GetUserTrafficSlice :: "string \<Rightarrow> int \<Rightarrow> nodeWorld \<Rightarrow> taskError + (UserTraffic list \<times> nodeWorld)" where
  "GetUserTrafficSlice tag minTraffic w =
     (if rs_tag (nw_services w) = tag then Inr (Traffic minTraffic w) else Inl (NodeMissing tag))"

definition CommitUserTraffic :: "string \<Rightarrow> UserTraffic list \<Rightarrow> nodeWorld \<Rightarrow> nodeWorld" where
  "CommitUserTraffic tag traffic w = (if rs_tag (nw_services w) = tag then CommitTraffic traffic w else w)"

type_synonym kernel = "UserInfo list \<Rightarrow> UserInfo list \<Rightarrow> nodeWorld \<Rightarrow> taskError option \<times> nodeWorld"

definition coreSyncUsers :: "kernel \<Rightarrow> string \<Rightarrow> UserInfo list \<Rightarrow> UserInfo list \<Rightarrow> nodeWorld \<Rightarrow> taskError option \<times> nodeWorld" where
  "coreSyncUsers kernelSync tag deleted added w =
     (if rs_tag (nw_services w) \<noteq> tag then (Some (NodeMissing tag), w)
      else (case kernelSync deleted added w of
              (Some e, w) \<Rightarrow> (Some e, w)
            | (None, w) \<Rightarrow> (None, SyncUsers deleted added w)))"

record panelAnswers =
  pa_traffic :: "UserTraffic list \<Rightarrow> apiError option"
  pa_online :: "(int \<times> string list) list \<Rightarrow> apiError option"
  pa_alive :: "apiError + (int \<times> int) list"

text \<open>The panel's reply to a request for the user list; a list comes with its encoding (msgpack or
  JSON) and its entity tag.\<close>

datatype userReply = ReplyFailed apiError | ReplyNotModified | ReplyUsers bool "UserInfo list" string

record controller =
  ct_tag :: string
  ct_limiter :: nat
  ct_userList :: "UserInfo list"
  ct_aliveMap :: "(int \<times> int) list"
  ct_baseConfig :: "(int \<times> int) option"
  ct_userEtag :: string
  ct_reloadRequested :: bool

text \<open>GetUserList returns nil for an unchanged list. The JSON decoder appends the users to a nil
  slice, so that an empty list is nil as well; msgpack makes an empty slice.\<close>

definition GetUserList :: "(string \<Rightarrow> userReply) \<Rightarrow> controller \<Rightarrow> (apiError + UserInfo list option) \<times> controller" where
  "GetUserList panel c =
     (case panel (ct_userEtag c) of
        ReplyFailed e \<Rightarrow> (Inl e, c)
      | ReplyNotModified \<Rightarrow> (Inr None, c)
      | ReplyUsers msgpack users etag \<Rightarrow>
          (Inr (if users = [] \<and> \<not> msgpack then None else Some users), c\<lparr>ct_userEtag := etag\<rparr>))"

section \<open>Synchronising users\<close>

text \<open>The refresh of the alive list at the end of syncUsers.\<close>

definition syncAlive :: "panelAnswers \<Rightarrow> controller \<Rightarrow> nodeWorld \<Rightarrow> taskError option \<times> controller \<times> nodeWorld" where
  "syncAlive answers c w =
     (case pa_alive answers of
        Inl ApiCanceled \<Rightarrow> (Some (TaskApi ApiCanceled), c, w)
      | Inl (ApiFailed e) \<Rightarrow> (None, c, w)
      | Inr alive \<Rightarrow> (None, c\<lparr>ct_aliveMap := alive\<rparr>, onLimiter (ct_limiter c) (SetAliveList alive) w))"

text \<open>A request to replace the runtime is one element in a channel; a second one is dropped.\<close>

definition requestRuntimeReload :: "controller \<Rightarrow> controller" where
  "requestRuntimeReload c = c\<lparr>ct_reloadRequested := True\<rparr>"

definition applyUsers :: "kernel \<Rightarrow> UserInfo list \<Rightarrow> controller \<Rightarrow> nodeWorld \<Rightarrow> bool \<times> controller \<times> nodeWorld" where
  "applyUsers kernelSync newU c w =
     (let (deleted, added, modified) = compareUserList (ct_userList c) newU;
          (err, w) = (if deleted \<noteq> [] \<or> added \<noteq> [] then coreSyncUsers kernelSync (ct_tag c) deleted added w else (None, w)) in
      if err \<noteq> None then (False, if err = Some RuntimeStopTimeout then requestRuntimeReload c else c, w)
      else
        let w = (if added \<noteq> [] \<or> deleted \<noteq> [] \<or> modified \<noteq> []
                 then onLimiter (ct_limiter c) (UpdateUser (ct_tag c) added deleted modified) w else w)
        in (True, c\<lparr>ct_userList := newU\<rparr>, w))"

definition syncUsers :: "(string \<Rightarrow> userReply) \<Rightarrow> panelAnswers \<Rightarrow> kernel \<Rightarrow> controller \<Rightarrow> nodeWorld
    \<Rightarrow> taskError option \<times> controller \<times> nodeWorld" where
  "syncUsers panel answers kernelSync c w =
     (case GetUserList panel c of
        (Inl ApiCanceled, c) \<Rightarrow> (Some (TaskApi ApiCanceled), c, w)
      | (Inl (ApiFailed e), c) \<Rightarrow> (None, c, w)
      | (Inr None, c) \<Rightarrow> syncAlive answers c w
      | (Inr (Some newU), c) \<Rightarrow>
          (case applyUsers kernelSync newU c w of
             (False, c, w) \<Rightarrow> (None, c, w)
           | (True, c, w) \<Rightarrow> syncAlive answers c w))"

section \<open>Reporting\<close>

text \<open>The traffic half of reportUserTrafficTask: what the panel accepted, and the traffic read. A
  cancelled request ends the task.\<close>

definition reportTraffic :: "panelAnswers \<Rightarrow> controller \<Rightarrow> nodeWorld \<Rightarrow> taskError + (bool \<times> UserTraffic list \<times> UserTraffic list \<times> nodeWorld)" where
  "reportTraffic answers c w =
     (let (reportmin, devicemin) = (case ct_baseConfig c of None \<Rightarrow> (0, 0) | Some b \<Rightarrow> b);
          trafficMin = (if devicemin < reportmin then devicemin else reportmin) in
      bindE (GetUserTrafficSlice (ct_tag c) trafficMin w) (\<lambda>(userTraffic, w).
        let traffic = filterTrafficByMinimum userTraffic reportmin in
        if traffic = [] then Inr (False, [], userTraffic, w)
        else (case pa_traffic answers traffic of
                Some ApiCanceled \<Rightarrow> Inr (True, [], userTraffic, w)
              | Some (ApiFailed e) \<Rightarrow> Inr (False, [], userTraffic, w)
              | None \<Rightarrow> Inr (False, traffic, userTraffic, CommitUserTraffic (ct_tag c) traffic w))))"

text \<open>The map of the online report: the addresses of every user in the snapshot, and an empty list
  for a user who went offline and is not in it.\<close>

definition onlineData :: "OnlineUser list \<Rightarrow> OfflineUser list \<Rightarrow> (int \<times> string list) list" where
  "onlineData result offline =
     (let data = fold (\<lambda>u m. AList.update (ou_UID u) (mapGet m (ou_UID u) [] @ [ou_IP u]) m) result []
      in fold (\<lambda>u m. if map_of m (of_UID u) = None then AList.update (of_UID u) [] m else m) offline data)"

definition reportOnline :: "panelAnswers \<Rightarrow> controller \<Rightarrow> UserTraffic list \<Rightarrow> nodeWorld \<Rightarrow> taskError option \<times> nodeWorld" where
  "reportOnline answers c userTraffic w =
     (let l = lt_objects (nw_limiters w) ! ct_limiter c;
          devicemin = (case ct_baseConfig c of None \<Rightarrow> 0 | Some b \<Rightarrow> snd b);
          result = filterOnlineUsers (GetOnlineDevice l) userTraffic devicemin;
          offline = GetPendingOfflineUsers l;
          data = onlineData result offline in
      if data = [] then (None, w)
      else (case pa_online answers data of
              Some ApiCanceled \<Rightarrow> (Some (TaskApi ApiCanceled), w)
            | Some (ApiFailed e) \<Rightarrow> (None, w)
            | None \<Rightarrow>
                let w = onLimiter (ct_limiter c) (MarkOnlineDeviceReported result) w in
                if offline = [] then (None, w)
                else (case pa_alive answers of
                        Inl e \<Rightarrow> (None, w)
                      | Inr alive \<Rightarrow> (None, onLimiter (ct_limiter c) (\<lambda>l. MarkOfflineUsersReported offline (SetAliveList alive l)) w))))"

definition reportUserTrafficTask :: "panelAnswers \<Rightarrow> controller \<Rightarrow> nodeWorld \<Rightarrow> taskError option \<times> UserTraffic list \<times> nodeWorld" where
  "reportUserTrafficTask answers c w =
     (case reportTraffic answers c w of
        Inl e \<Rightarrow> (Some e, [], w)
      | Inr (cancelled, sent, userTraffic, w) \<Rightarrow>
          if cancelled then (Some (TaskApi ApiCanceled), sent, w)
          else (case reportOnline answers c userTraffic w of (e, w) \<Rightarrow> (e, sent, w)))"

definition flushUserTraffic :: "panelAnswers \<Rightarrow> controller \<Rightarrow> nodeWorld \<Rightarrow> taskError option \<times> UserTraffic list \<times> nodeWorld" where
  "flushUserTraffic answers c w =
     (case GetUserTrafficSlice (ct_tag c) 0 w of
        Inl e \<Rightarrow> (Some e, [], w)
      | Inr (userTraffic, w) \<Rightarrow>
          if userTraffic = [] then (None, [], w)
          else (case pa_traffic answers userTraffic of
                  Some e \<Rightarrow> (Some (TaskApi e), [], w)
                | None \<Rightarrow> (None, userTraffic, CommitUserTraffic (ct_tag c) userTraffic w)))"

section \<open>The accounts\<close>

lemma accounts_onLimiter [simp]: "accounts recorded billed (onLimiter a f w) \<longleftrightarrow> accounts recorded billed w"
  by (simp add: accounts_def counterOf_def committedOf_def)

lemma reportOnline_accounts:
  "accounts recorded billed w \<Longrightarrow> reportOnline answers c traffic w = (e, w') \<Longrightarrow> accounts recorded billed w'"
  by (auto simp: reportOnline_def Let_def split: if_splits option.splits apiError.splits sum.splits)

lemma Commit_sent_accounts:
  assumes "accounts recorded billed w" "Traffic m w = (items, w1)" "set sent \<subseteq> set items" "distinct (map ut_UID sent)"
  shows "accounts recorded (fold addBilled sent billed) (CommitUserTraffic (rs_tag (nw_services w1)) sent w1)"
  using CommitTraffic_accounts [OF Traffic_accounts(1) [OF assms(1, 2)] assms(4)] Traffic_accounts(3) [OF assms(1, 2)] assms(3)
  by (auto simp: CommitUserTraffic_def)

lemma trafficFor_tag: "rs_tag (nw_services (snd (trafficFor threshold uid w))) = rs_tag (nw_services w)"
  by (auto simp: trafficFor_def Let_def split: option.split)

lemma trafficLoop_tag: "rs_tag (nw_services (snd (trafficLoop threshold uids w))) = rs_tag (nw_services w)"
proof (induction uids arbitrary: w)
  case (Cons uid uids)
  then show ?case using trafficFor_tag [of threshold uid w] by (simp add: split_beta)
qed simp

lemma Traffic_tag: "Traffic m w = (items, w') \<Longrightarrow> rs_tag (nw_services w') = rs_tag (nw_services w)"
  using trafficLoop_tag by (metis Traffic_def snd_conv)

lemma flush_ledger:
  assumes "accounts recorded billed w" "Traffic 0 w = (items, w')"
  shows "fold addBilled items billed = recorded"
proof -
  let ?b = "\<lparr>bl_world = w, bl_outstanding = [], bl_recorded = recorded, bl_billed = billed\<rparr>"
  have "billingInv ?b" using assms(1) by (simp add: billingInv_def)
  from flush_bills_all [OF this] show ?thesis using assms(2) by (simp add: filterTrafficByMinimum_def Let_def)
qed

text \<open>C26: the report task keeps the accounts. Whatever the panel answers, the runtime's baseline
  moves by exactly the traffic the panel accepted in this run, so that nothing accepted is
  sent again and nothing refused is forgotten.\<close>

theorem report_task_accounts:
  assumes "accounts recorded billed w" "reportUserTrafficTask answers c w = (e, sent, w')"
  shows "accounts recorded (fold addBilled sent billed) w'"
proof (cases "rs_tag (nw_services w) = ct_tag c")
  case False
  then show ?thesis using assms by (auto simp: reportUserTrafficTask_def reportTraffic_def GetUserTrafficSlice_def Let_def split: prod.splits)
next
  case True
  obtain reportmin devicemin where base: "(case ct_baseConfig c of None \<Rightarrow> (0, 0) | Some b \<Rightarrow> b) = (reportmin, devicemin)" by fastforce
  obtain items w1 where t: "Traffic (if devicemin < reportmin then devicemin else reportmin) w = (items, w1)" by fastforce
  let ?sent = "filterTrafficByMinimum items reportmin"
  have tag: "rs_tag (nw_services w1) = ct_tag c" using Traffic_tag [OF t] True by simp
  note acc = Traffic_accounts [OF assms(1) t]
  have d: "accounts recorded (fold addBilled ?sent billed) (CommitUserTraffic (ct_tag c) ?sent w1)"
    using Commit_sent_accounts [OF assms(1) t set_filterTraffic distinct_map_filter_UID [OF acc(2)]] tag by simp
  have run: "reportTraffic answers c w =
     (if ?sent = [] then Inr (False, [], items, w1)
      else (case pa_traffic answers ?sent of
              Some ApiCanceled \<Rightarrow> Inr (True, [], items, w1)
            | Some (ApiFailed e) \<Rightarrow> Inr (False, [], items, w1)
            | None \<Rightarrow> Inr (False, ?sent, items, CommitUserTraffic (ct_tag c) ?sent w1)))"
    using True unfolding reportTraffic_def base by (simp add: GetUserTrafficSlice_def t Let_def)
  from run consider (none) cancelled where "reportTraffic answers c w = Inr (cancelled, [], items, w1)"
    | (sent) "reportTraffic answers c w = Inr (False, ?sent, items, CommitUserTraffic (ct_tag c) ?sent w1)"
    by (auto split: if_splits option.splits apiError.splits)
  then show ?thesis
  proof cases
    case none
    then show ?thesis using assms(2) acc(1) reportOnline_accounts by (auto simp: reportUserTrafficTask_def split: if_splits prod.splits)
  next
    case sent
    then show ?thesis using assms(2) d reportOnline_accounts by (auto simp: reportUserTrafficTask_def split: prod.splits)
  qed
qed

definition panelAccepts :: panelAnswers where
  "panelAccepts = \<lparr>pa_traffic = (\<lambda>_. None), pa_online = (\<lambda>_. None), pa_alive = Inr []\<rparr>"

definition demoController :: controller where
  "demoController = \<lparr>ct_tag = ''n'', ct_limiter = 0, ct_userList = [demoUser], ct_aliveMap = [], ct_baseConfig = Some (1, 1), ct_userEtag = [],
     ct_reloadRequested = False\<rparr>"

theorem report_task_accounts_witness:
  "\<exists>b e sent w'. rsRun demoHistory (newBilling ''n'' demoLimiters) = Some b
     \<and> reportUserTrafficTask panelAccepts demoController (bl_world b) = (e, sent, w') \<and> map ut_Upload sent = [30]
     \<and> accounts (bl_recorded b) (fold addBilled sent (bl_billed b)) w'"
proof -
  have "case rsRun demoHistory (newBilling ''n'' demoLimiters) of None \<Rightarrow> False
    | Some b \<Rightarrow> map ut_Upload (fst (snd (reportUserTrafficTask panelAccepts demoController (bl_world b)))) = [30]" by code_simp
  then obtain b where b: "rsRun demoHistory (newBilling ''n'' demoLimiters) = Some b"
      "map ut_Upload (fst (snd (reportUserTrafficTask panelAccepts demoController (bl_world b)))) = [30]" by (auto split: option.splits)
  obtain e sent w' where r: "reportUserTrafficTask panelAccepts demoController (bl_world b) = (e, sent, w')" by (metis prod_cases3)
  have "accounts (bl_recorded b) (bl_billed b) (bl_world b)" using rsRun_inv [OF b(1) newBilling_inv] by (simp add: billingInv_def)
  from report_task_accounts [OF this r] show ?thesis using b r by auto
qed

text \<open>The final flush settles every account: when the panel accepts it, each user has been billed
  exactly what was recorded; when it refuses, nothing is committed.\<close>

lemma flush_settles_accounts:
  assumes "accounts recorded billed w" "flushUserTraffic answers c w = (e, sent, w')" "rs_tag (nw_services w) = ct_tag c"
  shows "accounts recorded (fold addBilled sent billed) w' \<and> (e = None \<longrightarrow> fold addBilled sent billed = recorded) \<and> (e \<noteq> None \<longrightarrow> sent = [])"
proof -
  obtain items w1 where t: "Traffic 0 w = (items, w1)" by fastforce
  note acc = Traffic_accounts [OF assms(1) t]
  have "accounts recorded (fold addBilled items billed) (CommitUserTraffic (ct_tag c) items w1)"
    using Commit_sent_accounts [OF assms(1) t _ acc(2)] Traffic_tag [OF t] assms(3) by simp
  then show ?thesis using assms(2, 3) acc(1) flush_ledger [OF assms(1) t]
    by (auto simp: flushUserTraffic_def GetUserTrafficSlice_def t split: if_splits option.splits)
qed

section \<open>Following the panel's user list\<close>

lemma Release_users [simp]: "rs_users (nw_services (Release a w)) = rs_users (nw_services w)"
  by (simp add: Release_def Let_def)

lemma rsClose_users [simp]: "rs_users (nw_services (rsClose a w)) = rs_users (nw_services w)"
  by (simp add: rsClose_def Let_def)

lemma closeSessions_users [simp]: "rs_users (nw_services (closeSessions as w)) = rs_users (nw_services w)"
  unfolding closeSessions_def by (induction as arbitrary: w) simp_all

lemma syncDeletes_users:
  "fold syncDelete us (s, cs) = (s', cs') \<Longrightarrow> map_of (rs_users s') i = (if i \<in> ui_Id ` set us then None else map_of (rs_users s) i)"
proof (induction us arbitrary: s cs)
  case (Cons u us)
  obtain s1 cs1 where 1: "syncDelete u (s, cs) = (s1, cs1)" by fastforce
  then have "map_of (rs_users s1) i = (if i = ui_Id u then None else map_of (rs_users s) i)" by (auto simp: syncDelete_def Let_def)
  then show ?case using Cons.IH [of s1 cs1] Cons.prems 1 by auto
qed simp

lemma syncAdds_users:
  "distinct (map ui_Id us) \<Longrightarrow> map_of (rs_users (fold syncAdd us s)) i = (case find (\<lambda>u. ui_Id u = i) us of None \<Rightarrow> map_of (rs_users s) i | Some u \<Rightarrow> Some u)"
proof (induction us arbitrary: s)
  case (Cons u us)
  have "map_of (rs_users (syncAdd u s)) i = (if i = ui_Id u then Some u else map_of (rs_users s) i)" by (simp add: syncAdd_def Let_def)
  moreover have "i = ui_Id u \<Longrightarrow> find (\<lambda>u. ui_Id u = i) us = None" using Cons.prems unfolding find_None_iff by (auto; metis image_eqI)
  ultimately show ?case using Cons by (auto split: option.split)
qed simp

lemma find_id: "distinct (map ui_Id us) \<Longrightarrow> find (\<lambda>u. ui_Id u = i) us = Some u \<longleftrightarrow> u \<in> set us \<and> ui_Id u = i"
  by (induction us) auto

lemma SyncUsers_users:
  assumes "distinct (map ui_Id added)"
  shows "map_of (rs_users (nw_services (SyncUsers deleted added w))) i =
    (case find (\<lambda>u. ui_Id u = i) added of Some u \<Rightarrow> Some u
     | None \<Rightarrow> if i \<in> ui_Id ` set deleted then None else map_of (rs_users (nw_services w)) i)"
proof -
  obtain s cs where d: "fold syncDelete deleted (nw_services w, []) = (s, cs)" by fastforce
  show ?thesis using syncAdds_users [OF assms, of s i] syncDeletes_users [OF d, of i] by (simp add: SyncUsers_def d split: option.split)
qed

text \<open>The users the services accept are those of a list, by number and credential.\<close>

definition servesUsers :: "UserInfo list \<Rightarrow> nodeWorld \<Rightarrow> bool" where
  "servesUsers us w \<longleftrightarrow> (\<forall>u. userIsCurrent (nw_services w) u \<longleftrightarrow> (\<exists>v\<in>set us. sameUser v u))"

lemma current_iff: "userIsCurrent s u \<longleftrightarrow> (\<exists>v. map_of (rs_users s) (ui_Id u) = Some v \<and> ui_Uuid v = ui_Uuid u)"
  by (auto simp: userIsCurrent_def split: option.split)

lemma SyncUsers_serves:
  assumes "servesUsers old w" "compareUserList old new = (deleted, added, modified)"
    and "distinct (map ui_Uuid old)" "distinct (map ui_Uuid new)" "distinct (map ui_Id old)" "distinct (map ui_Id new)"
  shows "servesUsers new (SyncUsers deleted added w)"
  unfolding servesUsers_def
proof
  fix u :: UserInfo
  note df = compareUserList_sets [OF assms(2, 3, 4)]
  have uniqo: "x = y" if "x \<in> set old" "y \<in> set old" "ui_Id x = ui_Id y" for x y using that assms(5) by (auto simp: distinct_map inj_on_def)
  have uniqn: "x = y" if "x \<in> set new" "y \<in> set new" "ui_Id x = ui_Id y" for x y using that assms(6) by (auto simp: distinct_map inj_on_def)
  have da: "distinct (map ui_Id added)"
    using df(2, 4) uniqn by (auto simp: distinct_map inj_on_def)
  let ?cur = "map_of (rs_users (nw_services (SyncUsers deleted added w))) (ui_Id u)"
  have old: "(\<exists>v. map_of (rs_users (nw_services w)) (ui_Id u) = Some v \<and> ui_Uuid v = ui_Uuid u) \<longleftrightarrow> (\<exists>v\<in>set old. sameUser v u)"
    using assms(1) unfolding servesUsers_def current_iff by blast
  have "userIsCurrent (nw_services (SyncUsers deleted added w)) u \<longleftrightarrow> (\<exists>v. ?cur = Some v \<and> ui_Uuid v = ui_Uuid u)"
    by (rule current_iff)
  also have "\<dots> \<longleftrightarrow> (\<exists>v\<in>set new. sameUser v u)"
  proof (cases "find (\<lambda>v. ui_Id v = ui_Id u) added")
    case (Some x)
    then have x: "x \<in> set added" "ui_Id x = ui_Id u" using find_id [OF da] by auto
    then have xn: "x \<in> set new" using df(2) by auto
    have "(\<exists>v\<in>set new. sameUser v u) \<longleftrightarrow> ui_Uuid x = ui_Uuid u"
      using uniqn [OF xn] xn x(2) unfolding sameUser_def by metis
    then show ?thesis using SyncUsers_users [OF da, of deleted w "ui_Id u"] Some by simp
  next
    case None
    then have na: "x \<notin> set added" if "ui_Id x = ui_Id u" for x using that find_id [OF da, of "ui_Id u" x] by auto
    show ?thesis
    proof (cases "ui_Id u \<in> ui_Id ` set deleted")
      case True
      then obtain x where x: "x \<in> set deleted" "ui_Id x = ui_Id u" by force
      have "\<not> (\<exists>v\<in>set new. sameUser v u)"
      proof
        assume "\<exists>v\<in>set new. sameUser v u"
        then obtain v where v: "v \<in> set new" "ui_Id v = ui_Id u" by (auto simp: sameUser_def)
        then obtain o' where "o' \<in> set old" "sameUser o' v" using na [OF v(2)] df(2) by auto
        then have "o' = x" using uniqo x v(2) df(1) by (auto simp: sameUser_def)
        then show False using x(1) df(1) \<open>sameUser o' v\<close> v(1) by auto
      qed
      then show ?thesis using SyncUsers_users [OF da, of deleted w "ui_Id u"] None True by simp
    next
      case False
      then have nd: "x \<notin> set deleted" if "ui_Id x = ui_Id u" for x using that by (metis image_eqI)
      have "(\<exists>v\<in>set old. sameUser v u) \<longleftrightarrow> (\<exists>v\<in>set new. sameUser v u)"
      proof
        assume "\<exists>v\<in>set old. sameUser v u"
        then obtain v where v: "v \<in> set old" "sameUser v u" by blast
        then obtain n where "n \<in> set new" "sameUser v n" using nd [of v] df(1) by (auto simp: sameUser_def)
        then show "\<exists>v\<in>set new. sameUser v u" using v(2) by (auto simp: sameUser_def)
      next
        assume "\<exists>v\<in>set new. sameUser v u"
        then obtain v where v: "v \<in> set new" "sameUser v u" by blast
        then obtain n where "n \<in> set old" "sameUser n v" using na [of v] df(2) by (auto simp: sameUser_def)
        then show "\<exists>v\<in>set old. sameUser v u" using v(2) by (auto simp: sameUser_def)
      qed
      then show ?thesis using SyncUsers_users [OF da, of deleted w "ui_Id u"] None False old by simp
    qed
  qed
  finally show "userIsCurrent (nw_services (SyncUsers deleted added w)) u \<longleftrightarrow> (\<exists>v\<in>set new. sameUser v u)" .
qed

text \<open>The controller's list, the services and the limiter agree on the users.\<close>

definition inSync :: "controller \<Rightarrow> nodeWorld \<Rightarrow> bool" where
  "inSync c w \<longleftrightarrow> rs_tag (nw_services w) = ct_tag c \<and> ct_limiter c < length (lt_objects (nw_limiters w))
     \<and> distinct (map ui_Uuid (ct_userList c)) \<and> distinct (map ui_Id (ct_userList c)) \<and> servesUsers (ct_userList c) w
     \<and> map_of (lm_UserLimitInfo (lt_objects (nw_limiters w) ! ct_limiter c)) = map_of (storeUsers (ct_tag c) (ct_userList c) [])"

lemma onLimiter_objects [simp]:
  "a < length (lt_objects (nw_limiters w)) \<Longrightarrow> lt_objects (nw_limiters (onLimiter a f w)) ! a = f (lt_objects (nw_limiters w) ! a)"
  "length (lt_objects (nw_limiters (onLimiter a f w))) = length (lt_objects (nw_limiters w))"
  by (simp_all add: onLimiter_def Let_def)

lemma onLimiter_keeps:
  assumes "\<And>l. lm_UserLimitInfo (f l) = lm_UserLimitInfo l"
  shows "length (lt_objects (nw_limiters (onLimiter a f w))) = length (lt_objects (nw_limiters w))"
    "b < length (lt_objects (nw_limiters w)) \<Longrightarrow> lm_UserLimitInfo (lt_objects (nw_limiters (onLimiter a f w)) ! b) = lm_UserLimitInfo (lt_objects (nw_limiters w) ! b)"
  using assms by (simp_all add: onLimiter_def Let_def nth_list_update)

lemma ReleaseConnection_users: "lm_UserLimitInfo (ReleaseConnection t ip l) = lm_UserLimitInfo l"
  by (simp add: ReleaseConnection_def Let_def split: option.split)

text \<open>Closing sessions frees device slots and changes nothing else of the limiters.\<close>

definition keepsLimits :: "nodeWorld \<Rightarrow> nodeWorld \<Rightarrow> bool" where
  "keepsLimits w w' \<longleftrightarrow> length (lt_objects (nw_limiters w')) = length (lt_objects (nw_limiters w)) \<and> rs_tag (nw_services w') = rs_tag (nw_services w)
     \<and> (\<forall>b<length (lt_objects (nw_limiters w)). lm_UserLimitInfo (lt_objects (nw_limiters w') ! b) = lm_UserLimitInfo (lt_objects (nw_limiters w) ! b))"

lemma Release_limits: "keepsLimits w (Release a w)"
  using onLimiter_keeps [OF ReleaseConnection_users] by (simp add: keepsLimits_def Release_def Let_def)

lemma rsClose_limits: "keepsLimits w (rsClose a w)"
  using Release_limits [of "onServices (\<lambda>s. s\<lparr>rs_sessions := (rs_sessions s)[a := (rs_sessions s ! a)\<lparr>se_closed := True\<rparr>]\<rparr>) w" a]
  by (simp add: keepsLimits_def rsClose_def Let_def)

lemma closeSessions_limits: "keepsLimits w (closeSessions as w)"
  unfolding closeSessions_def
proof (induction as arbitrary: w)
  case (Cons a as)
  then show ?case using rsClose_limits [of w a] Cons [of "rsClose a w"] by (simp add: keepsLimits_def)
qed (simp add: keepsLimits_def)

lemma SyncUsers_limits: "keepsLimits w (SyncUsers deleted added w)"
proof -
  obtain s cs where d: "fold syncDelete deleted (nw_services w, []) = (s, cs)" by fastforce
  have t: "rs_tag (fold syncAdd added s) = rs_tag (nw_services w)"
    using syncDeletes_money [OF d] syncAdds_money [of "w\<lparr>nw_services := s\<rparr>" added] by (simp add: sameMoney_def money_def)
  then show ?thesis using closeSessions_limits [of "w\<lparr>nw_services := fold syncAdd added s\<rparr>" cs] by (simp add: SyncUsers_def d keepsLimits_def)
qed

lemma applyUsers_inSync:
  assumes "inSync c w" "distinct (map ui_Uuid new)" "distinct (map ui_Id new)" "kernelSync = (\<lambda>_ _ w. (None, w))"
    and "applyUsers kernelSync new c w = (ok, c', w')"
  shows "ok \<and> c' = c\<lparr>ct_userList := new\<rparr> \<and> inSync c' w'"
proof -
  obtain deleted added modified where df: "compareUserList (ct_userList c) new = (deleted, added, modified)" by (metis prod_cases3)
  have c: "rs_tag (nw_services w) = ct_tag c" "ct_limiter c < length (lt_objects (nw_limiters w))" "distinct (map ui_Uuid (ct_userList c))"
      "distinct (map ui_Id (ct_userList c))" "servesUsers (ct_userList c) w"
      "map_of (lm_UserLimitInfo (lt_objects (nw_limiters w) ! ct_limiter c)) = map_of (storeUsers (ct_tag c) (ct_userList c) [])"
    using assms(1) by (simp_all add: inSync_def)
  let ?w1 = "SyncUsers deleted added w"
  let ?w2 = "onLimiter (ct_limiter c) (UpdateUser (ct_tag c) added deleted modified) ?w1"
  have lim: "length (lt_objects (nw_limiters ?w1)) = length (lt_objects (nw_limiters w))" "rs_tag (nw_services ?w1) = ct_tag c"
      "lm_UserLimitInfo (lt_objects (nw_limiters ?w1) ! ct_limiter c) = lm_UserLimitInfo (lt_objects (nw_limiters w) ! ct_limiter c)"
    using SyncUsers_limits [of w deleted added] c(1, 2) by (simp_all add: keepsLimits_def)
  have new: "servesUsers new ?w1" by (rule SyncUsers_serves [OF c(5) df c(3) assms(2) c(4) assms(3)])
  have limits: "map_of (lm_UserLimitInfo (UpdateUser (ct_tag c) added deleted modified l)) = map_of (storeUsers (ct_tag c) new [])"
    if "lm_UserLimitInfo l = lm_UserLimitInfo (lt_objects (nw_limiters w) ! ct_limiter c)" for l
    using compare_and_update_users [OF c(3) assms(2) df] c(6) that by simp
  have noop: "SyncUsers [] [] w = w" by (simp add: SyncUsers_def closeSessions_def)
  have run: "w' = (if added \<noteq> [] \<or> deleted \<noteq> [] \<or> modified \<noteq> [] then ?w2 else w)" "ok" "c' = c\<lparr>ct_userList := new\<rparr>"
    using assms(5) c(1) noop by (auto simp: applyUsers_def df assms(4) coreSyncUsers_def Let_def split: if_splits)
  have "inSync c' w'"
  proof (cases "added \<noteq> [] \<or> deleted \<noteq> [] \<or> modified \<noteq> []")
    case True
    then have w': "w' = ?w2" using run(1) by simp
    have "servesUsers new ?w2" using new by (simp add: servesUsers_def)
    then show ?thesis using lim c(2) limits [OF lim(3)] assms(2, 3) run(3) unfolding w' inSync_def by simp
  next
    case False
    then have "map_of (lm_UserLimitInfo (lt_objects (nw_limiters w) ! ct_limiter c)) = map_of (storeUsers (ct_tag c) new [])"
      using limits [OF refl] by (simp add: UpdateUser_def storeUsers_def deleteTags_def)
    then show ?thesis using False new noop c(1, 2) assms(2, 3) run by (simp add: inSync_def)
  qed
  then show ?thesis using run by simp
qed

text \<open>A kernel that takes a change leaves the users and the limits to the services and the limiter; it
  may close connections.\<close>

definition takesUsers :: "kernel \<Rightarrow> UserInfo list \<Rightarrow> UserInfo list \<Rightarrow> nodeWorld \<Rightarrow> bool" where
  "takesUsers k deleted added w \<longleftrightarrow>
     (\<exists>w1. k deleted added w = (None, w1) \<and> keepsLimits w w1 \<and> rs_users (nw_services w1) = rs_users (nw_services w))"

lemma applyUsers_takes:
  assumes "inSync c w" "distinct (map ui_Uuid new)" "distinct (map ui_Id new)" "applyUsers k new c w = (ok, c', w')"
    and "compareUserList (ct_userList c) new = (deleted, added, modified)" "takesUsers k deleted added w"
  shows "ok \<and> c' = c\<lparr>ct_userList := new\<rparr> \<and> inSync c' w'"
proof -
  obtain w1 where w1: "k deleted added w = (None, w1)" "keepsLimits w w1" "rs_users (nw_services w1) = rs_users (nw_services w)"
    using assms(6) by (auto simp: takesUsers_def)
  let ?v = "if deleted \<noteq> [] \<or> added \<noteq> [] then w1 else w"
  have "inSync c w1" using assms(1) w1(2, 3) by (simp add: inSync_def keepsLimits_def servesUsers_def current_iff)
  then have v: "inSync c ?v" using assms(1) by simp
  have tag: "rs_tag (nw_services w) = ct_tag c" "rs_tag (nw_services w1) = ct_tag c" using assms(1) w1(2) by (simp_all add: inSync_def keepsLimits_def)
  have "applyUsers (\<lambda>_ _ w. (None, w)) new c ?v = (ok, c', w')"
    using assms(4) w1(1) tag by (auto simp: applyUsers_def assms(5) coreSyncUsers_def Let_def split: if_splits)
  from applyUsers_inSync [OF v assms(2, 3) refl this] show ?thesis .
qed

lemma inSync_etag [simp]: "inSync (c\<lparr>ct_userEtag := e\<rparr>) w = inSync c w"
  by (simp add: inSync_def)

lemma syncAlive_keeps:
  assumes "syncAlive answers c w = (r, c', w')"
  shows "inSync c w \<Longrightarrow> inSync c' w'" "ct_userList c' = ct_userList c" "ct_userEtag c' = ct_userEtag c" "nw_services w' = nw_services w"
  using assms onLimiter_keeps [of "SetAliveList alive" for alive]
  by (auto simp: syncAlive_def inSync_def servesUsers_def SetAliveList_def split: sum.splits apiError.splits)

text \<open>The node follows the panel. When the panel sends a user list and the kernel takes the change
  (it may close connections on the way), the controller's list, the users the services accept
  (by number and credential) and the limits of the limiter are all those of the new list,
  whatever was added, removed or changed, and whatever the request for the alive counts gives.\<close>

lemma sync_follows_panel:
  assumes "inSync c w" "panel (ct_userEtag c) = ReplyUsers msgpack new etag" "new \<noteq> [] \<or> msgpack"
    and "distinct (map ui_Uuid new)" "distinct (map ui_Id new)"
    and "compareUserList (ct_userList c) new = (deleted, added, modified)" "takesUsers kernelSync deleted added w"
    and "syncUsers panel answers kernelSync c w = (r, c', w')"
  shows "ct_userList c' = new \<and> ct_userEtag c' = etag \<and> inSync c' w'"
proof -
  let ?c = "c\<lparr>ct_userEtag := etag\<rparr>"
  have get: "GetUserList panel c = (Inr (Some new), ?c)" using assms(2, 3) by (auto simp: GetUserList_def)
  obtain ok c1 w1 where app: "applyUsers kernelSync new ?c w = (ok, c1, w1)" by (metis prod_cases3)
  have "inSync ?c w" using assms(1) by simp
  from applyUsers_takes [OF this assms(4, 5) app _ assms(7)] assms(6) have a: "ok" "c1 = ?c\<lparr>ct_userList := new\<rparr>" "inSync c1 w1" by auto
  have "syncAlive answers c1 w1 = (r, c', w')" using assms(8) a(1) by (simp add: syncUsers_def get app)
  from syncAlive_keeps [OF this] a show ?thesis by simp
qed

section \<open>Updates that are missed\<close>

definition runSyncs :: "(string \<Rightarrow> userReply) \<Rightarrow> (panelAnswers \<times> kernel) list \<Rightarrow> controller \<times> nodeWorld \<Rightarrow> controller \<times> nodeWorld" where
  "runSyncs panel runs cw = fold (\<lambda>(answers, kernelSync) (c, w). snd (syncUsers panel answers kernelSync c w)) runs cw"

lemma runSyncs_unmodified:
  "panel (ct_userEtag c) = ReplyNotModified \<Longrightarrow> runSyncs panel runs (c, w) = (c', w') \<Longrightarrow>
     ct_userList c' = ct_userList c \<and> nw_services w' = nw_services w"
proof (induction runs arbitrary: c w)
  case (Cons x runs)
  obtain answers kernelSync where x: "x = (answers, kernelSync)" by fastforce
  obtain r c1 w1 where run: "syncAlive answers c w = (r, c1, w1)" by (metis prod_cases3)
  have "syncUsers panel answers kernelSync c w = (r, c1, w1)" using Cons.prems(1) run by (simp add: syncUsers_def GetUserList_def)
  then show ?case using Cons.IH [of c1 w1] Cons.prems x syncAlive_keeps [OF run] by (simp add: runSyncs_def)
qed (simp add: runSyncs_def)

text \<open>C38: a user list the kernel refuses is never tried again. The client keeps the entity tag of the
  list before the list is applied. When the kernel's transaction fails once, for whatever
  reason, every later run is told that nothing changed: however many there are and although
  the kernel would take the list, neither the controller's list nor the services change until
  the panel's list does.\<close>

theorem failed_sync_never_retried:
  assumes "\<forall>etag. panel etag = (if etag = current then ReplyNotModified else ReplyUsers msgpack new current)" "ct_userEtag c \<noteq> current"
    and "compareUserList (ct_userList c) new = (deleted, added, modified)" "deleted \<noteq> [] \<or> added \<noteq> []" "new \<noteq> [] \<or> msgpack"
    and "\<forall>deleted added w. kernelFails deleted added w = (Some (SyncFailed reason), w)"
    and "runSyncs panel ((answers, kernelFails) # runs) (c, w) = (c', w')"
  shows "ct_userList c' = ct_userList c \<and> nw_services w' = nw_services w"
proof -
  let ?c = "c\<lparr>ct_userEtag := current\<rparr>"
  have get: "GetUserList panel c = (Inr (Some new), ?c)" using assms(1, 2, 5) by (auto simp: GetUserList_def)
  have "applyUsers kernelFails new ?c w = (False, ?c, w)" using assms(3, 4, 6) by (simp add: applyUsers_def coreSyncUsers_def Let_def)
  then have "syncUsers panel answers kernelFails c w = (None, ?c, w)" by (simp add: syncUsers_def get)
  then have "runSyncs panel runs (?c, w) = (c', w')" using assms(7) by (simp add: runSyncs_def)
  from runSyncs_unmodified [OF _ this] assms(1) show ?thesis by simp
qed

theorem failed_sync_never_retried_witness:
  "let c0 = demoController\<lparr>ct_userList := []\<rparr>; w0 = bl_world (newBilling ''n'' demoLimiters);
       panel = (\<lambda>etag. if etag = ''v1'' then ReplyNotModified else ReplyUsers True [demoUser] ''v1'');
       (c, w) = runSyncs panel [(panelAccepts, \<lambda>_ _ w. (Some (SyncFailed ''port in use''), w)), (panelAccepts, \<lambda>_ _ w. (None, w))] (c0, w0)
   in ct_userList c = [] \<and> nw_services w = nw_services w0"
proof -
  define c0 where "c0 = demoController\<lparr>ct_userList := []\<rparr>"
  define panel where "panel = (\<lambda>etag. if etag = ''v1'' then ReplyNotModified else ReplyUsers True [demoUser] ''v1'')"
  define runs :: "(panelAnswers \<times> kernel) list" where "runs = [(panelAccepts, \<lambda>_ _ w. (None, w))]"
  let ?w0 = "bl_world (newBilling ''n'' demoLimiters)"
  let ?k = "\<lambda>_ _ w. (Some (SyncFailed ''port in use''), w)"
  obtain c w where run: "runSyncs panel ((panelAccepts, ?k) # runs) (c0, ?w0) = (c, w)" by fastforce
  have cmp: "compareUserList (ct_userList c0) [demoUser] = ([], [demoUser], [])" by (simp add: c0_def compareUserList_def)
  have "ct_userList c = ct_userList c0 \<and> nw_services w = nw_services ?w0"
    by (rule failed_sync_never_retried [where current = "''v1''" and msgpack = True, OF _ _ cmp _ _ _ run]) (simp_all add: panel_def c0_def demoController_def)
  then show ?thesis using run unfolding c0_def [symmetric] panel_def [symmetric] runs_def Let_def by (simp add: c0_def)
qed

text \<open>Removing the last user at the panel removes nobody at the node. An empty list in JSON is
  decoded to nil, which stands for an unchanged list: the users keep their access, and the
  entity tag is stored, so the next request does not bring the list again.\<close>

lemma empty_user_list_ignored:
  "let (r, c', w') = syncUsers (\<lambda>_. ReplyUsers False [] etag) answers kernelSync c w
   in ct_userList c' = ct_userList c \<and> nw_services w' = nw_services w \<and> ct_userEtag c' = etag"
proof -
  obtain r c' w' where run: "syncAlive answers (c\<lparr>ct_userEtag := etag\<rparr>) w = (r, c', w')" by (metis prod_cases3)
  then have "syncUsers (\<lambda>_. ReplyUsers False [] etag) answers kernelSync c w = (r, c', w')" by (simp add: syncUsers_def GetUserList_def)
  then show ?thesis using syncAlive_keeps [OF run] by simp
qed

end
