(* ===== verification/Route_Match.thy ===== *)
theory Route_Match
  imports Go_Net Address
begin

text \<open>
  What the route policies of the kernels share: the panel's routes (api/v2board/node.go), the
  functions of strings, strconv and net/netip they are compiled with, and the interface of a
  policy as a locale. The policies of the Sudoku and the Juicity kernel are its instances
  (Sudoku_Route, Juicity_Route).
\<close>

section \<open>Strings and numbers\<close>

definition hasSuffix :: "string \<Rightarrow> string \<Rightarrow> bool" where
  "hasSuffix s p \<longleftrightarrow> hasPrefix (rev s) (rev p)"

definition trimSuffix :: "string \<Rightarrow> string \<Rightarrow> string" where
  "trimSuffix s p = (if hasSuffix s p then take (length s - length p) s else s)"

fun contains :: "string \<Rightarrow> string \<Rightarrow> bool" where
  "contains [] p \<longleftrightarrow> p = []"
| "contains (c # s) p \<longleftrightarrow> hasPrefix (c # s) p \<or> contains s p"

text \<open>strings.Split on a comma, and strings.SplitN(s, sep, 2).\<close>

fun splitOn :: "char \<Rightarrow> string \<Rightarrow> string list" where
  "splitOn sep [] = [[]]"
| "splitOn sep (c # s) =
     (if c = sep then [] # splitOn sep s
      else (case splitOn sep s of [] \<Rightarrow> [[c]] | p # ps \<Rightarrow> (c # p) # ps))"

definition splitTwo :: "char \<Rightarrow> string \<Rightarrow> string \<times> string option" where
  "splitTwo sep s =
     (case indexByte s sep of None \<Rightarrow> (s, None) | Some i \<Rightarrow> (take i s, Some (drop (i + 1) s)))"

text \<open>strconv.Atoi with the value it returns beside an error: 0 for a syntax error, the nearest
  64-bit number for one out of range. The digits are read one by one, so the first of the two
  errors decides.\<close>

fun scanUint :: "int \<Rightarrow> string \<Rightarrow> int \<times> bool" where
  "scanUint n [] = (n, True)"
| "scanUint n (c # s) =
     (if \<not> isDigit c then (0, False)
      else if n * 10 + int (digitVal c) > 2 ^ 64 - 1 then (2 ^ 64 - 1, False)
      else scanUint (n * 10 + int (digitVal c)) s)"

definition atoi :: "string \<Rightarrow> int \<times> bool" where
  "atoi s =
     (let neg = hasPrefix s ''-''; digits = (if neg \<or> hasPrefix s ''+'' then tl s else s) in
      if digits = [] then (0, False)
      else let (un, ok) = scanUint 0 digits in
        if \<not> ok \<and> un = 0 then (0, False)
        else if \<not> neg \<and> un \<ge> 2 ^ 63 then (2 ^ 63 - 1, False)
        else if neg \<and> un > 2 ^ 63 then (- (2 ^ 63), False)
        else (if neg then - un else un, ok))"

definition mustPort :: "string \<Rightarrow> int" where
  "mustPort v = fst (atoi v)"

section \<open>Addresses and prefixes\<close>

text \<open>A netip.Addr is the pair parseAddr returns, 4 or 16 bytes and a zone; a prefix has no zone.\<close>

type_synonym addr = "byte list \<times> string"

record Prefix =
  px_ip :: "byte list"
  px_bits :: int

definition bitLen :: "byte list \<Rightarrow> int" where
  "bitLen ip = (if length ip = 4 then 32 else 128)"

definition prefixFrom :: "addr \<Rightarrow> int \<Rightarrow> Prefix" where
  "prefixFrom a bits = \<lparr>px_ip = fst a, px_bits = bits\<rparr>"

definition parsePrefix :: "string \<Rightarrow> Prefix option" where
  "parsePrefix s =
     (case lastIndexByte s (CHR ''/'') of
        None \<Rightarrow> None
      | Some i \<Rightarrow>
          (case parseAddr (take i s) of
             None \<Rightarrow> None
           | Some (ip, zone) \<Rightarrow>
               let bitsStr = drop (i + 1) s; (bits, ok) = atoi bitsStr in
               if zone \<noteq> [] then None
               else if length bitsStr > 1 \<and> \<not> (isDigit (hd bitsStr) \<and> hd bitsStr \<noteq> CHR ''0'') then None
               else if \<not> ok \<or> bits < 0 \<or> bits > bitLen ip then None
               else Some (prefixFrom (ip, []) bits)))"

definition ipNum :: "byte list \<Rightarrow> int" where
  "ipNum ip = fold (\<lambda>b n. 256 * n + uint b) ip 0"

text \<open>Prefix.Contains: an address with a zone is in no prefix, and an IPv4 address and an IPv6
  address (one that embeds an IPv4 address included) are never in each other's prefixes.\<close>

definition prefixContains :: "Prefix \<Rightarrow> addr \<Rightarrow> bool" where
  "prefixContains p a \<longleftrightarrow> snd a = [] \<and> length (fst a) = length (px_ip p)
     \<and> (let unit = 2 ^ nat (bitLen (fst a) - px_bits p) in ipNum (fst a) div unit = ipNum (px_ip p) div unit)"

section \<open>Routes and policies\<close>

record Route =
  ro_Id :: int
  ro_Match :: "string list"
  ro_Action :: string
  ro_ActionValue :: "string option"

record 'd routePolicy =
  rp_domains :: "'d list"
  rp_prefixes :: "Prefix list"
  rp_ports :: "(int \<times> int) list"
  rp_blockAll :: bool

datatype routeError = UnsupportedIP string | InvalidIP string | InvalidPort string | UnsupportedAction string
  | OutboundEmpty | OutboundJSON | UnsupportedOutbound string | UnsupportedDomain string | EmptyMatcher | InvalidRegexp string

definition emptyPolicy :: "'d routePolicy" where
  "emptyPolicy = \<lparr>rp_domains = [], rp_prefixes = [], rp_ports = [], rp_blockAll = False\<rparr>"

text \<open>The loops that stop at the first error, and the scan of a policy for a host and a port.\<close>

fun mapE :: "('a \<Rightarrow> 'e + 'b) \<Rightarrow> 'a list \<Rightarrow> 'e + 'b list" where
  "mapE f [] = Inr []"
| "mapE f (x # xs) = bindE (f x) (\<lambda>y. bindE (mapE f xs) (\<lambda>ys. Inr (y # ys)))"

fun compileLoop :: "('r \<Rightarrow> 'd routePolicy \<Rightarrow> 'e + 'd routePolicy) \<Rightarrow> 'd routePolicy \<Rightarrow> 'r list \<Rightarrow> 'e + 'd routePolicy" where
  "compileLoop add p [] = Inr p"
| "compileLoop add p (r # rs) = bindE (add r p) (\<lambda>p. compileLoop add p rs)"

definition policyBlocks :: "('d \<Rightarrow> string \<Rightarrow> bool) \<Rightarrow> 'd routePolicy \<Rightarrow> string \<Rightarrow> int \<Rightarrow> bool" where
  "policyBlocks matches p h port \<longleftrightarrow>
     rp_blockAll p
     \<or> (\<exists>d\<in>set (rp_domains p). matches d h)
     \<or> (case parseAddr h of None \<Rightarrow> False | Some a \<Rightarrow> \<exists>x\<in>set (rp_prefixes p). prefixContains x a)
     \<or> (\<exists>(from, to)\<in>set (rp_ports p). from \<le> port \<and> port \<le> to)"

lemma mapE_Inr: "mapE f xs = Inr ys \<Longrightarrow> length ys = length xs \<and> (\<forall>i<length xs. f (xs ! i) = Inr (ys ! i))"
proof (induction xs arbitrary: ys)
  case (Cons x xs)
  then obtain y zs where "f x = Inr y" "mapE f xs = Inr zs" "ys = y # zs" by (auto simp: bindE_eq_Inr)
  then show ?case using Cons.IH by (auto simp: nth_Cons split: nat.split)
qed simp

lemma mapE_set: "mapE f xs = Inr ys \<Longrightarrow> y \<in> set ys \<longleftrightarrow> (\<exists>x\<in>set xs. f x = Inr y)"
proof (induction xs arbitrary: ys)
  case (Cons x xs)
  then obtain z zs where "f x = Inr z" "mapE f xs = Inr zs" "ys = z # zs" by (auto simp: bindE_eq_Inr)
  then show ?case using Cons.IH by auto
qed simp

lemma mapE_ok: "mapE f xs = Inr ys \<Longrightarrow> x \<in> set xs \<Longrightarrow> \<exists>y. f x = Inr y"
  by (induction xs arbitrary: ys) (auto simp: bindE_eq_Inr)

text \<open>The interface: one route adds a clause to the policy, an empty one when the route does not
  concern it, or is refused. What a compiled policy blocks is then what one of its routes
  blocks, and the order of the routes does not matter.\<close>

definition mergePolicy :: "'d routePolicy \<Rightarrow> 'd routePolicy \<Rightarrow> 'd routePolicy" where
  "mergePolicy p q = \<lparr>rp_domains = rp_domains p @ rp_domains q, rp_prefixes = rp_prefixes p @ rp_prefixes q,
     rp_ports = rp_ports p @ rp_ports q, rp_blockAll = (rp_blockAll p \<or> rp_blockAll q)\<rparr>"

lemma policyBlocks_merge:
  "policyBlocks m (mergePolicy p q) h port \<longleftrightarrow> policyBlocks m p h port \<or> policyBlocks m q h port"
  unfolding policyBlocks_def mergePolicy_def by (cases "parseAddr h") auto

lemma policyBlocks_empty [simp]: "\<not> policyBlocks m emptyPolicy h port"
  by (simp add: policyBlocks_def emptyPolicy_def split: option.split)

lemma policyBlocks_kinds [simp]:
  "policyBlocks m (emptyPolicy\<lparr>rp_domains := ds\<rparr>) h port \<longleftrightarrow> (\<exists>d\<in>set ds. m d h)"
  "policyBlocks m (emptyPolicy\<lparr>rp_prefixes := ps\<rparr>) h port \<longleftrightarrow> (\<exists>a. parseAddr h = Some a \<and> (\<exists>x\<in>set ps. prefixContains x a))"
  "policyBlocks m (emptyPolicy\<lparr>rp_ports := rs\<rparr>) h port \<longleftrightarrow> (\<exists>(from, to)\<in>set rs. from \<le> port \<and> port \<le> to)"
  "policyBlocks m (emptyPolicy\<lparr>rp_blockAll := True\<rparr>) h port"
  by (auto simp: policyBlocks_def emptyPolicy_def split: option.split)

lemma emptyPolicy_simps [simp]: "rp_domains emptyPolicy = []" "rp_prefixes emptyPolicy = []" "rp_ports emptyPolicy = []"
  by (simp_all add: emptyPolicy_def)

lemma mergePolicy_simps [simp]: "mergePolicy emptyPolicy p = p" "mergePolicy p emptyPolicy = p"
  "mergePolicy (mergePolicy p q) r = mergePolicy p (mergePolicy q r)"
  by (simp_all add: mergePolicy_def emptyPolicy_def)

locale route_compiler =
  fixes addRoute :: "'r \<Rightarrow> 'd routePolicy \<Rightarrow> 'e + 'd routePolicy"
    and clause :: "'r \<Rightarrow> 'e + 'd routePolicy"
    and matches :: "'d \<Rightarrow> string \<Rightarrow> bool"
  assumes addRoute_clause: "addRoute r p = bindE (clause r) (\<lambda>q. Inr (mergePolicy p q))"
begin

lemma compile_blocks:
  "compileLoop addRoute p rs = Inr p' \<Longrightarrow>
     policyBlocks matches p' h port \<longleftrightarrow> policyBlocks matches p h port \<or> (\<exists>r\<in>set rs. \<exists>q. clause r = Inr q \<and> policyBlocks matches q h port)"
proof (induction rs arbitrary: p)
  case (Cons r rs)
  then obtain q where q: "clause r = Inr q" "compileLoop addRoute (mergePolicy p q) rs = Inr p'"
    by (auto simp: addRoute_clause [of r p] bindE_eq_Inr)
  show ?case using Cons.IH [OF q(2)] q(1) by (auto simp: policyBlocks_merge)
qed simp

lemma compile_ok_iff: "(\<exists>p'. compileLoop addRoute p rs = Inr p') \<longleftrightarrow> (\<forall>r\<in>set rs. \<exists>q. clause r = Inr q)"
proof (induction rs arbitrary: p)
  case (Cons r rs)
  show ?case
  proof (cases "clause r")
    case (Inr q)
    then show ?thesis using Cons.IH [of "mergePolicy p q"] by (auto simp: addRoute_clause [of r p])
  qed (auto simp: addRoute_clause [of r p])
qed simp

lemma compile_order:
  assumes "compileLoop addRoute emptyPolicy rs = Inr p" "set rs' = set rs"
  shows "\<exists>p'. compileLoop addRoute emptyPolicy rs' = Inr p' \<and> (\<forall>h port. policyBlocks matches p' h port = policyBlocks matches p h port)"
proof -
  obtain p' where p': "compileLoop addRoute emptyPolicy rs' = Inr p'"
    using assms compile_ok_iff [of emptyPolicy rs] compile_ok_iff [of emptyPolicy rs'] by auto
  then show ?thesis using compile_blocks [OF p'] compile_blocks [OF assms(1)] assms(2) by simp
qed

end

end
