(* ===== verification/Sudoku_Route.thy ===== *)
theory Sudoku_Route
  imports Route_Match
begin

text \<open>
  The route policy of the Sudoku kernel (core/sudoku/route.go): which targets a node refuses.
  The protocol field that encoding/json finds in an outbound object is the parameter
  jsonProtocol: None for a text that does not decode.
\<close>

type_synonym sudokuPolicy = "string routePolicy"

definition routeBlocks :: "(string \<Rightarrow> string option) \<Rightarrow> string option \<Rightarrow> bool" where
  "routeBlocks jsonProtocol value =
     (case value of
        None \<Rightarrow> False
      | Some v \<Rightarrow>
          let normalized = toLower (trimSpace v) in
          if normalized \<in> {''block'', ''blackhole''} then True
          else if normalized \<in> {''direct'', ''freedom''} then False
          else (case jsonProtocol v of
                  None \<Rightarrow> False
                | Some protocol \<Rightarrow> toLower (trimSpace protocol) \<in> {''block'', ''blackhole''}))"

definition privatePrefixes :: "string list" where
  "privatePrefixes =
     [''0.0.0.0/8'', ''10.0.0.0/8'', ''100.64.0.0/10'', ''127.0.0.0/8'',
      ''169.254.0.0/16'', ''172.16.0.0/12'', ''192.0.0.0/24'', ''192.0.2.0/24'',
      ''192.168.0.0/16'', ''198.18.0.0/15'', ''198.51.100.0/24'', ''203.0.113.0/24'',
      ''224.0.0.0/4'', ''::/128'', ''::1/128'', ''fc00::/7'', ''fe80::/10'', ''ff00::/8'']"

definition compileIPPrefixes :: "string \<Rightarrow> routeError + Prefix list" where
  "compileIPPrefixes raw =
     (let v = trimSpace raw in
      if v = [] then Inr []
      else if toLower v = ''geoip:private'' then Inr (map (the \<circ> parsePrefix) privatePrefixes)
      else if hasPrefix (toLower v) ''geoip:'' then Inl (UnsupportedIP v)
      else (case parseAddr v of
              Some a \<Rightarrow> Inr [prefixFrom a (bitLen (fst a))]
            | None \<Rightarrow> (case parsePrefix v of None \<Rightarrow> Inl (InvalidIP v) | Some p \<Rightarrow> Inr [p])))"

text \<open>A match of a domain rule: the prefixes domain: and full: are dropped, and an empty match
  is skipped.\<close>

definition compileDomain :: "string \<Rightarrow> string option" where
  "compileDomain m =
     (let v = trimSpace (trimPrefix (trimPrefix m ''domain:'') ''full:'') in
      if v = [] then None else Some (toLower (trimSuffix v ''.'')))"

definition compilePort :: "string \<Rightarrow> routeError + (int \<times> int)" where
  "compilePort item =
     (let (a, b) = splitTwo (CHR ''-'') (trimSpace item); (from, ok) = atoi a in
      if \<not> ok \<or> from < 1 \<or> from > 65535 then Inl (InvalidPort item)
      else (case b of
              None \<Rightarrow> Inr (from, from)
            | Some b \<Rightarrow>
                let (to, ok) = atoi b in
                if \<not> ok \<or> to < from \<or> to > 65535 then Inl (InvalidPort item) else Inr (from, to)))"

definition addRoute :: "(string \<Rightarrow> string option) \<Rightarrow> Route \<Rightarrow> sudokuPolicy \<Rightarrow> routeError + sudokuPolicy" where
  "addRoute jsonProtocol r p =
     (let action = toLower (trimSpace (ro_Action r));
          blocked = (if action \<in> {''route'', ''route_ip'', ''default_out''} then routeBlocks jsonProtocol (ro_ActionValue r)
                     else action \<in> {''block'', ''block_ip'', ''block_port''}) in
      if \<not> blocked then Inr p
      else if action \<in> {''block'', ''route''} then
        Inr (p\<lparr>rp_domains := rp_domains p @ List.map_filter compileDomain (ro_Match r)\<rparr>)
      else if action \<in> {''block_ip'', ''route_ip''} then
        bindE (mapE compileIPPrefixes (ro_Match r)) (\<lambda>ps. Inr (p\<lparr>rp_prefixes := rp_prefixes p @ concat ps\<rparr>))
      else if action = ''block_port'' then
        bindE (mapE compilePort (concat (map (splitOn (CHR '','')) (ro_Match r)))) (\<lambda>ports. Inr (p\<lparr>rp_ports := rp_ports p @ ports\<rparr>))
      else if action = ''default_out'' then Inr (p\<lparr>rp_blockAll := True\<rparr>)
      else if action \<noteq> ''protocol'' \<and> action \<noteq> ''dns'' then Inl (UnsupportedAction (ro_Action r))
      else Inr p)"

definition compileRoutePolicy :: "(string \<Rightarrow> string option) \<Rightarrow> Route list \<Rightarrow> routeError + sudokuPolicy" where
  "compileRoutePolicy jsonProtocol routes = compileLoop (addRoute jsonProtocol) emptyPolicy routes"

definition domainMatches :: "string \<Rightarrow> string \<Rightarrow> bool" where
  "domainMatches d h \<longleftrightarrow> h = d \<or> hasSuffix h (''.'' @ d)"

definition blocked :: "sudokuPolicy option \<Rightarrow> string \<Rightarrow> int \<Rightarrow> bool" where
  "blocked p host port =
     (case p of
        None \<Rightarrow> False
      | Some p \<Rightarrow> policyBlocks domainMatches p (toLower (trimSuffix (trimSpace host) ''.'')) port)"

section \<open>What a policy refuses\<close>

definition clause :: "(string \<Rightarrow> string option) \<Rightarrow> Route \<Rightarrow> routeError + sudokuPolicy" where
  "clause jsonProtocol r = addRoute jsonProtocol r emptyPolicy"

interpretation sudoku_routes: route_compiler "addRoute j" "clause j" domainMatches for j
proof
  fix r p
  show "addRoute j r p = bindE (clause j r) (\<lambda>q. Inr (mergePolicy p q))"
    by (cases "mapE compileIPPrefixes (ro_Match r)"; cases "mapE compilePort (concat (map (splitOn (CHR '','')) (ro_Match r)))")
      (simp_all add: addRoute_def clause_def mergePolicy_def emptyPolicy_def Let_def)
qed

text \<open>The meaning of one route, without the compilation.\<close>

definition normHost :: "string \<Rightarrow> string" where
  "normHost host = toLower (trimSuffix (trimSpace host) ''.'')"

definition routeRefuses :: "(string \<Rightarrow> string option) \<Rightarrow> Route \<Rightarrow> string \<Rightarrow> int \<Rightarrow> bool" where
  "routeRefuses j r host port \<longleftrightarrow>
     (let action = toLower (trimSpace (ro_Action r)); outbound = routeBlocks j (ro_ActionValue r) in
      (action = ''block'' \<or> action = ''route'' \<and> outbound)
        \<and> (\<exists>m\<in>set (ro_Match r). \<exists>d. compileDomain m = Some d \<and> domainMatches d (normHost host))
      \<or> (action = ''block_ip'' \<or> action = ''route_ip'' \<and> outbound)
        \<and> (\<exists>m\<in>set (ro_Match r). \<exists>ps x a. compileIPPrefixes m = Inr ps \<and> x \<in> set ps \<and> parseAddr (normHost host) = Some a \<and> prefixContains x a)
      \<or> action = ''block_port''
        \<and> (\<exists>m\<in>set (ro_Match r). \<exists>item\<in>set (splitOn (CHR '','') m). \<exists>from to. compilePort item = Inr (from, to) \<and> from \<le> port \<and> port \<le> to)
      \<or> action = ''default_out'' \<and> outbound)"

lemma map_filter_mem: "d \<in> set (List.map_filter f xs) \<longleftrightarrow> (\<exists>x\<in>set xs. f x = Some d)"
  by (force simp: List.map_filter_def)

lemma clause_refuses:
  assumes "clause j r = Inr q"
  shows "policyBlocks domainMatches q (normHost host) port \<longleftrightarrow> routeRefuses j r host port"
proof -
  let ?a = "toLower (trimSpace (ro_Action r))"
  let ?out = "routeBlocks j (ro_ActionValue r)"
  consider (domain) "?a = ''block'' \<or> ?a = ''route'' \<and> ?out" | (ip) "?a = ''block_ip'' \<or> ?a = ''route_ip'' \<and> ?out"
    | (port) "?a = ''block_port''" | (all) "?a = ''default_out''" "?out"
    | (other) "?a \<notin> {''block'', ''block_ip'', ''block_port''}" "?a \<in> {''route'', ''route_ip'', ''default_out''} \<Longrightarrow> \<not> ?out" by blast
  then show ?thesis
  proof cases
    case domain
    then have "q = emptyPolicy\<lparr>rp_domains := List.map_filter compileDomain (ro_Match r)\<rparr>"
      using assms by (auto simp: clause_def addRoute_def Let_def)
    then show ?thesis using domain by (auto simp: routeRefuses_def Let_def map_filter_mem Bex_def)
  next
    case ip
    then obtain ps where ps: "mapE compileIPPrefixes (ro_Match r) = Inr ps" "q = emptyPolicy\<lparr>rp_prefixes := concat ps\<rparr>"
      using assms by (auto simp: clause_def addRoute_def Let_def bindE_eq_Inr)
    then show ?thesis using ip by (auto simp: routeRefuses_def Let_def mapE_set [OF ps(1)] Bex_def) blast+
  next
    case port
    let ?items = "concat (map (splitOn (CHR '','')) (ro_Match r))"
    from port obtain ps where ps: "mapE compilePort ?items = Inr ps" "q = emptyPolicy\<lparr>rp_ports := ps\<rparr>"
      using assms by (auto simp: clause_def addRoute_def Let_def bindE_eq_Inr)
    then show ?thesis using port by (auto simp: routeRefuses_def Let_def mapE_set [OF ps(1)] Bex_def)
  next
    case all
    then show ?thesis using assms by (auto simp: clause_def addRoute_def Let_def routeRefuses_def)
  next
    case other
    then have "q = emptyPolicy" using assms by (auto simp: clause_def addRoute_def Let_def split: if_splits)
    then show ?thesis using other by (auto simp: routeRefuses_def Let_def)
  qed
qed

text \<open>C25: a target is refused exactly when one of the panel's routes refuses it. Compilation
  regroups the routes by kind; neither that nor their order changes what is blocked.\<close>

theorem sudoku_route_semantics:
  assumes "compileRoutePolicy j routes = Inr p"
  shows "blocked (Some p) host port \<longleftrightarrow> (\<exists>r\<in>set routes. routeRefuses j r host port)"
proof -
  note run = assms [unfolded compileRoutePolicy_def]
  have ok: "\<exists>q. clause j r = Inr q" if "r \<in> set routes" for r
    using sudoku_routes.compile_ok_iff [of j emptyPolicy routes] run that by blast
  have "blocked (Some p) host port \<longleftrightarrow> (\<exists>r\<in>set routes. \<exists>q. clause j r = Inr q \<and> policyBlocks domainMatches q (normHost host) port)"
    using sudoku_routes.compile_blocks [OF run, of "normHost host" port] by (simp add: blocked_def normHost_def)
  also have "\<dots> \<longleftrightarrow> (\<exists>r\<in>set routes. routeRefuses j r host port)" using clause_refuses ok by meson
  finally show ?thesis .
qed

definition demoRoutes :: "Route list" where
  "demoRoutes =
     [\<lparr>ro_Id = 1, ro_Match = [''domain:Example.com.''], ro_Action = ''block'', ro_ActionValue = None\<rparr>,
      \<lparr>ro_Id = 2, ro_Match = [''192.168.0.0/16''], ro_Action = '' Block_IP'', ro_ActionValue = None\<rparr>,
      \<lparr>ro_Id = 3, ro_Match = [''25, 6881-6889''], ro_Action = ''block_port'', ro_ActionValue = None\<rparr>]"

theorem sudoku_route_semantics_witness:
  "\<exists>p. compileRoutePolicy (\<lambda>_. None) demoRoutes = Inr p
     \<and> blocked (Some p) ''WWW.example.com.'' 443 \<and> blocked (Some p) ''192.168.1.7'' 443 \<and> blocked (Some p) ''a.org'' 6885
     \<and> \<not> blocked (Some p) ''badexample.com'' 443
     \<and> (blocked (Some p) ''a.org'' 26 \<longleftrightarrow> (\<exists>r\<in>set demoRoutes. routeRefuses (\<lambda>_. None) r ''a.org'' 26))"
proof -
  have "case compileRoutePolicy (\<lambda>_. None) demoRoutes of Inl e \<Rightarrow> False
    | Inr p \<Rightarrow> blocked (Some p) ''WWW.example.com.'' 443 \<and> blocked (Some p) ''192.168.1.7'' 443 \<and> blocked (Some p) ''a.org'' 6885
        \<and> \<not> blocked (Some p) ''badexample.com'' 443" by code_simp
  then obtain p where p: "compileRoutePolicy (\<lambda>_. None) demoRoutes = Inr p" "blocked (Some p) ''WWW.example.com.'' 443"
      "blocked (Some p) ''192.168.1.7'' 443" "blocked (Some p) ''a.org'' 6885" "\<not> blocked (Some p) ''badexample.com'' 443"
    by (auto split: sum.splits)
  then show ?thesis using sudoku_route_semantics [OF p(1), of "''a.org''" 26] by blast
qed

section \<open>Evading the address rules\<close>

lemmas parseIPv6Loop_num = parseIPv6Loop.simps(2) [of "pred_numeral k" for k, folded numeral_eq_Suc]

lemma replicate_num: "replicate (numeral k) x = x # replicate (pred_numeral k) x"
  by (simp add: numeral_eq_Suc)

lemmas addr_eval = replicate_num parseIPv6_def hexVal_def finishIPv6_def parseIPv6Loop_num parsePrefix_def atoi_def hasPrefix_def bitLen_def prefixFrom_def

lemma privatePrefixes_parsed:
  "map (the \<circ> parsePrefix) privatePrefixes =
     [\<lparr>px_ip = [0, 0, 0, 0], px_bits = 8\<rparr>, \<lparr>px_ip = [10, 0, 0, 0], px_bits = 8\<rparr>, \<lparr>px_ip = [100, 64, 0, 0], px_bits = 10\<rparr>,
      \<lparr>px_ip = [127, 0, 0, 0], px_bits = 8\<rparr>, \<lparr>px_ip = [169, 254, 0, 0], px_bits = 16\<rparr>, \<lparr>px_ip = [172, 16, 0, 0], px_bits = 12\<rparr>,
      \<lparr>px_ip = [192, 0, 0, 0], px_bits = 24\<rparr>, \<lparr>px_ip = [192, 0, 2, 0], px_bits = 24\<rparr>, \<lparr>px_ip = [192, 168, 0, 0], px_bits = 16\<rparr>,
      \<lparr>px_ip = [198, 18, 0, 0], px_bits = 15\<rparr>, \<lparr>px_ip = [198, 51, 100, 0], px_bits = 24\<rparr>, \<lparr>px_ip = [203, 0, 113, 0], px_bits = 24\<rparr>,
      \<lparr>px_ip = [224, 0, 0, 0], px_bits = 4\<rparr>, \<lparr>px_ip = [0, 0, 0, 0, 0, 0, 0, 0, 0, 0, 0, 0, 0, 0, 0, 0], px_bits = 128\<rparr>,
      \<lparr>px_ip = [0, 0, 0, 0, 0, 0, 0, 0, 0, 0, 0, 0, 0, 0, 0, 1], px_bits = 128\<rparr>,
      \<lparr>px_ip = [252, 0, 0, 0, 0, 0, 0, 0, 0, 0, 0, 0, 0, 0, 0, 0], px_bits = 7\<rparr>,
      \<lparr>px_ip = [254, 128, 0, 0, 0, 0, 0, 0, 0, 0, 0, 0, 0, 0, 0, 0], px_bits = 10\<rparr>,
      \<lparr>px_ip = [255, 0, 0, 0, 0, 0, 0, 0, 0, 0, 0, 0, 0, 0, 0, 0], px_bits = 8\<rparr>]"
  by (simp add: privatePrefixes_def go_simps addr_eval Let_def)

text \<open>The bytes of a target address of the domain type that spell an IPv4-mapped address.\<close>

definition mappedTarget :: "byte list" where
  "mappedTarget = 0x03 # 16 # stringBytes ''::ffff:127.0.0.1'' @ [0, 80]"

text \<open>The address rules can be evaded. A node that blocks the private addresses refuses
  127.0.0.1. A client that sends the same address in its IPv4-mapped form, as a target of the
  domain type, gets it past the rule: the host decoded from the request names the same
  address for the dialer, but it is contained in none of the prefixes.\<close>

lemma mapped_address_evades_block:
  "\<exists>p. compileRoutePolicy j [\<lparr>ro_Id = 1, ro_Match = [''geoip:private''], ro_Action = ''block_ip'', ro_ActionValue = None\<rparr>] = Inr p
     \<and> DecodeAddress mappedTarget = Inr (''[::ffff:127.0.0.1]:80'', [])
     \<and> SplitHostPort ''[::ffff:127.0.0.1]:80'' = Inr (''::ffff:127.0.0.1'', ''80'')
     \<and> parseIP ''::ffff:127.0.0.1'' = parseIP ''127.0.0.1''
     \<and> blocked (Some p) ''127.0.0.1'' (mustPort ''80'') \<and> \<not> blocked (Some p) ''::ffff:127.0.0.1'' (mustPort ''80'')"
proof -
  let ?h = "''::ffff:127.0.0.1''"
  define p :: sudokuPolicy where "p = emptyPolicy\<lparr>rp_prefixes := map (the \<circ> parsePrefix) privatePrefixes\<rparr>"
  have c: "compileIPPrefixes ''geoip:private'' = Inr (map (the \<circ> parsePrefix) privatePrefixes)"
    by (simp add: compileIPPrefixes_def trimSpace_def isSpace_def toLower_def toLowerChar_def Let_def)
  have 1: "compileRoutePolicy j [\<lparr>ro_Id = 1, ro_Match = [''geoip:private''], ro_Action = ''block_ip'', ro_ActionValue = None\<rparr>] = Inr p"
    by (simp add: compileRoutePolicy_def addRoute_def c p_def trimSpace_def isSpace_def toLower_def toLowerChar_def Let_def)
  have 2: "DecodeAddress mappedTarget = Inr (''[::ffff:127.0.0.1]:80'', [])" by code_simp
  have 3: "SplitHostPort ''[::ffff:127.0.0.1]:80'' = Inr (?h, ''80'')" by code_simp
  have a: "parseAddr ?h = Some (v4mapped @ [127, 0, 0, 1], [])" by (simp add: go_simps addr_eval Let_def)
  have b: "parseAddr ''127.0.0.1'' = Some ([127, 0, 0, 1], [])" by (simp add: go_simps)
  have 4: "parseIP ?h = parseIP ''127.0.0.1''" by (simp add: parseIP_def a b v4mapped_def)
  have n: "toLower (trimSuffix (trimSpace ?h) ''.'') = ?h" "toLower (trimSuffix (trimSpace ''127.0.0.1'') ''.'') = ''127.0.0.1''" by code_simp+
  have 5: "blocked (Some p) ''127.0.0.1'' (mustPort ''80'')"
    by (simp add: blocked_def n b p_def privatePrefixes_parsed prefixContains_def bitLen_def ipNum_def Let_def)
  have 6: "\<not> blocked (Some p) ?h (mustPort ''80'')"
    by (simp add: blocked_def n a p_def privatePrefixes_parsed prefixContains_def bitLen_def ipNum_def v4mapped_def Let_def replicate_num)
  from 1 2 3 4 5 6 show ?thesis by blast
qed

end
