(* ===== verification/Juicity_Route.thy ===== *)
theory Juicity_Route
  imports Sudoku_Route
begin

text \<open>
  The route policy of the Juicity kernel (core/juicity/route.go), compiled from the same panel
  routes as the Sudoku kernel's. Parameters: jsonProtocol, the protocol field encoding/json
  finds in an outbound object, and compileRegexp, the matcher that the regexp package builds
  from an expression (None for one it refuses).
\<close>

datatype domainRule = Exact string | Suffix string | Keyword string | Regexp "string \<Rightarrow> bool"

type_synonym juicityPolicy = "domainRule routePolicy"

datatype outbound = OutDirect | OutBlock

definition outboundOf :: "string \<Rightarrow> outbound option" where
  "outboundOf v =
     (let normalized = toLower (trimSpace v) in
      if normalized \<in> {''freedom'', ''direct''} then Some OutDirect
      else if normalized \<in> {''blackhole'', ''block''} then Some OutBlock
      else None)"

definition routeOutbound :: "(string \<Rightarrow> string option) \<Rightarrow> string option \<Rightarrow> routeError + outbound" where
  "routeOutbound jsonProtocol value =
     (case value of
        None \<Rightarrow> Inl OutboundEmpty
      | Some v \<Rightarrow>
          if trimSpace v = [] then Inl OutboundEmpty
          else (case outboundOf v of
                  Some out \<Rightarrow> Inr out
                | None \<Rightarrow>
                    (case jsonProtocol v of
                       None \<Rightarrow> Inl OutboundJSON
                     | Some protocol \<Rightarrow>
                         (case outboundOf protocol of Some out \<Rightarrow> Inr out | None \<Rightarrow> Inl (UnsupportedOutbound protocol)))))"

definition normalizeDomain :: "string \<Rightarrow> string" where
  "normalizeDomain v = trimSuffix (toLower (trimSpace v)) ''.''"

definition compileDomainRule :: "(string \<Rightarrow> (string \<Rightarrow> bool) option) \<Rightarrow> string \<Rightarrow> routeError + domainRule option" where
  "compileDomainRule compileRegexp raw =
     (let v = trimSpace raw; lower = toLower v in
      if v = [] then Inr None
      else if hasPrefix lower ''geosite:'' \<or> hasPrefix lower ''ext:'' then Inl (UnsupportedDomain v)
      else if hasPrefix lower ''domain:'' then
        let domain = normalizeDomain (drop 7 v) in if domain = [] then Inl EmptyMatcher else Inr (Some (Suffix domain))
      else if hasPrefix lower ''full:'' then
        let domain = normalizeDomain (drop 5 v) in if domain = [] then Inl EmptyMatcher else Inr (Some (Exact domain))
      else if hasPrefix lower ''regexp:'' then
        (case compileRegexp (drop 7 v) of None \<Rightarrow> Inl (InvalidRegexp (drop 7 v)) | Some re \<Rightarrow> Inr (Some (Regexp re)))
      else if hasPrefix lower ''keyword:'' then
        let keyword = toLower (trimSpace (drop 8 v)) in if keyword = [] then Inl EmptyMatcher else Inr (Some (Keyword keyword))
      else Inr (Some (Keyword lower)))"

definition ruleMatches :: "domainRule \<Rightarrow> string \<Rightarrow> bool" where
  "ruleMatches r host =
     (case r of
        Exact v \<Rightarrow> host = v
      | Suffix v \<Rightarrow> host = v \<or> hasSuffix host (''.'' @ v)
      | Keyword v \<Rightarrow> contains host v
      | Regexp re \<Rightarrow> re host)"

definition juPrivatePrefixes :: "string list" where
  "juPrivatePrefixes = [''10.0.0.0/8'', ''127.0.0.0/8'', ''172.16.0.0/12'', ''192.168.0.0/16'', ''::1/128'', ''fe80::/10'']"

definition juCompileIPPrefixes :: "string \<Rightarrow> routeError + Prefix list" where
  "juCompileIPPrefixes raw =
     (let v = trimSpace raw in
      if v = [] then Inr []
      else if toLower v = ''geoip:private'' then Inr (map (the \<circ> parsePrefix) juPrivatePrefixes)
      else if hasPrefix (toLower v) ''geoip:'' then Inl (UnsupportedIP v)
      else (case parseAddr v of
              Some a \<Rightarrow> Inr [prefixFrom a (bitLen (fst a))]
            | None \<Rightarrow> (case parsePrefix v of None \<Rightarrow> Inl (InvalidIP v) | Some p \<Rightarrow> Inr [p])))"

text \<open>One item of a port list; an empty one is skipped.\<close>

definition juCompilePort :: "string \<Rightarrow> routeError + (int \<times> int) list" where
  "juCompilePort item =
     (let v = trimSpace item in
      if v = [] then Inr []
      else let (a, b) = splitTwo (CHR ''-'') v; (from, ok) = atoi (trimSpace a) in
        if \<not> ok \<or> from < 1 \<or> from > 65535 then Inl (InvalidPort v)
        else (case b of
                None \<Rightarrow> Inr [(from, from)]
              | Some b \<Rightarrow>
                  let (to, ok) = atoi (trimSpace b) in
                  if \<not> ok \<or> to < from \<or> to > 65535 then Inl (InvalidPort v) else Inr [(from, to)]))"

definition compilePortRanges :: "string list \<Rightarrow> routeError + (int \<times> int) list" where
  "compilePortRanges values =
     bindE (mapE juCompilePort (concat (map (splitOn (CHR '','')) values))) (\<lambda>rs. Inr (concat rs))"

definition blocksTarget :: "(string \<Rightarrow> string option) \<Rightarrow> Route \<Rightarrow> routeError + bool" where
  "blocksTarget jsonProtocol r =
     (let action = toLower (trimSpace (ro_Action r)) in
      if action \<in> {''block'', ''block_ip'', ''block_port''} then Inr True
      else if action \<in> {''route'', ''route_ip'', ''default_out''} then
        bindE (routeOutbound jsonProtocol (ro_ActionValue r)) (\<lambda>out. Inr (out = OutBlock))
      else if action \<in> {''protocol'', ''dns''} then Inr False
      else Inl (UnsupportedAction (ro_Action r)))"

definition juAddRoute :: "(string \<Rightarrow> string option) \<Rightarrow> (string \<Rightarrow> (string \<Rightarrow> bool) option) \<Rightarrow> Route \<Rightarrow> juicityPolicy \<Rightarrow> routeError + juicityPolicy" where
  "juAddRoute jsonProtocol compileRegexp r p =
     bindE (blocksTarget jsonProtocol r) (\<lambda>blocks.
       let action = toLower (trimSpace (ro_Action r)) in
       if \<not> blocks then Inr p
       else if action \<in> {''block'', ''route''} then
         bindE (mapE (compileDomainRule compileRegexp) (ro_Match r)) (\<lambda>ds. Inr (p\<lparr>rp_domains := rp_domains p @ List.map_filter id ds\<rparr>))
       else if action \<in> {''block_ip'', ''route_ip''} then
         bindE (mapE juCompileIPPrefixes (ro_Match r)) (\<lambda>ps. Inr (p\<lparr>rp_prefixes := rp_prefixes p @ concat ps\<rparr>))
       else if action = ''block_port'' then
         bindE (compilePortRanges (ro_Match r)) (\<lambda>ports. Inr (p\<lparr>rp_ports := rp_ports p @ ports\<rparr>))
       else if action = ''default_out'' then Inr (p\<lparr>rp_blockAll := True\<rparr>)
       else Inr p)"

definition juCompileRoutePolicy :: "(string \<Rightarrow> string option) \<Rightarrow> (string \<Rightarrow> (string \<Rightarrow> bool) option) \<Rightarrow> Route list \<Rightarrow> routeError + juicityPolicy" where
  "juCompileRoutePolicy jsonProtocol compileRegexp routes = compileLoop (juAddRoute jsonProtocol compileRegexp) emptyPolicy routes"

definition juBlocked :: "juicityPolicy option \<Rightarrow> string \<Rightarrow> int \<Rightarrow> bool" where
  "juBlocked p host port =
     (case p of
        None \<Rightarrow> False
      | Some p \<Rightarrow> policyBlocks ruleMatches p (trimSuffix (toLower (trimSpace host)) ''.'') port)"

section \<open>What a policy refuses\<close>

definition juClause :: "(string \<Rightarrow> string option) \<Rightarrow> (string \<Rightarrow> (string \<Rightarrow> bool) option) \<Rightarrow> Route \<Rightarrow> routeError + juicityPolicy" where
  "juClause j re r = juAddRoute j re r emptyPolicy"

interpretation juicity_routes: route_compiler "juAddRoute j re" "juClause j re" ruleMatches for j re
proof
  fix r p
  show "juAddRoute j re r p = bindE (juClause j re r) (\<lambda>q. Inr (mergePolicy p q))"
    by (cases "blocksTarget j r"; cases "mapE (compileDomainRule re) (ro_Match r)"; cases "mapE juCompileIPPrefixes (ro_Match r)";
        cases "compilePortRanges (ro_Match r)")
      (simp_all add: juAddRoute_def juClause_def mergePolicy_def emptyPolicy_def Let_def)
qed

lemma juicity_route_order:
  assumes "juCompileRoutePolicy j re routes = Inr p" "set routes' = set routes"
  shows "\<exists>p'. juCompileRoutePolicy j re routes' = Inr p' \<and> (\<forall>host port. juBlocked (Some p') host port = juBlocked (Some p) host port)"
  using juicity_routes.compile_order [OF assms(1) [unfolded juCompileRoutePolicy_def] assms(2)]
  unfolding juCompileRoutePolicy_def juBlocked_def by fastforce

section \<open>The two kernels on the same routes\<close>

definition panelRoute :: "string \<Rightarrow> string \<Rightarrow> Route" where
  "panelRoute action match = \<lparr>ro_Id = 1, ro_Match = [match], ro_Action = action, ro_ActionValue = None\<rparr>"

definition sudokuRefuses :: "Route \<Rightarrow> string \<Rightarrow> bool option" where
  "sudokuRefuses r host =
     (case compileRoutePolicy (\<lambda>_. None) [r] of Inl e \<Rightarrow> None | Inr p \<Rightarrow> Some (blocked (Some p) host 443))"

definition juicityRefuses :: "Route \<Rightarrow> string \<Rightarrow> bool option" where
  "juicityRefuses r host =
     (case juCompileRoutePolicy (\<lambda>_. None) (\<lambda>_. None) [r] of Inl e \<Rightarrow> None | Inr p \<Rightarrow> Some (juBlocked (Some p) host 443))"

text \<open>The kernels read the same panel routes differently. A full-domain rule blocks the
  subdomains too in the Sudoku kernel; a plain text is a keyword for Juicity and a domain for
  Sudoku; a geosite rule is refused by Juicity and silently blocks nothing in Sudoku.\<close>

lemma kernels_read_routes_differently:
  "sudokuRefuses (panelRoute ''block'' ''full:a.org'') ''x.a.org'' = Some True
     \<and> juicityRefuses (panelRoute ''block'' ''full:a.org'') ''x.a.org'' = Some False
     \<and> sudokuRefuses (panelRoute ''block'' ''ads'') ''ads.a.org'' = Some False
     \<and> juicityRefuses (panelRoute ''block'' ''ads'') ''ads.a.org'' = Some True
     \<and> sudokuRefuses (panelRoute ''block'' ''geosite:cn'') ''a.cn'' = Some False
     \<and> juicityRefuses (panelRoute ''block'' ''geosite:cn'') ''a.cn'' = None"
  by code_simp

lemma private_prefixes_differ:
  "sudokuRefuses (panelRoute ''block_ip'' ''geoip:private'') ''100.64.0.1'' = Some True
     \<and> juicityRefuses (panelRoute ''block_ip'' ''geoip:private'') ''100.64.0.1'' = Some False"
proof -
  have c: "compileIPPrefixes ''geoip:private'' = Inr (map (the \<circ> parsePrefix) privatePrefixes)"
    "juCompileIPPrefixes ''geoip:private'' = Inr (map (the \<circ> parsePrefix) juPrivatePrefixes)"
    by (simp_all add: compileIPPrefixes_def juCompileIPPrefixes_def trimSpace_def isSpace_def toLower_def toLowerChar_def Let_def)
  have j: "map (the \<circ> parsePrefix) juPrivatePrefixes =
     [\<lparr>px_ip = [10, 0, 0, 0], px_bits = 8\<rparr>, \<lparr>px_ip = [127, 0, 0, 0], px_bits = 8\<rparr>, \<lparr>px_ip = [172, 16, 0, 0], px_bits = 12\<rparr>,
      \<lparr>px_ip = [192, 168, 0, 0], px_bits = 16\<rparr>, \<lparr>px_ip = [0, 0, 0, 0, 0, 0, 0, 0, 0, 0, 0, 0, 0, 0, 0, 1], px_bits = 128\<rparr>,
      \<lparr>px_ip = [254, 128, 0, 0, 0, 0, 0, 0, 0, 0, 0, 0, 0, 0, 0, 0], px_bits = 10\<rparr>]"
    by (simp add: juPrivatePrefixes_def go_simps addr_eval Let_def)
  have a: "parseAddr ''100.64.0.1'' = Some ([100, 64, 0, 1], [])" by (simp add: go_simps)
  have n: "toLower (trimSuffix (trimSpace ''100.64.0.1'') ''.'') = ''100.64.0.1''" "trimSuffix (toLower (trimSpace ''100.64.0.1'')) ''.'' = ''100.64.0.1''"
    by code_simp+
  have act: "toLower (trimSpace ''block_ip'') = ''block_ip''" by code_simp
  show ?thesis
    by (simp add: sudokuRefuses_def juicityRefuses_def panelRoute_def compileRoutePolicy_def juCompileRoutePolicy_def addRoute_def juAddRoute_def
        blocksTarget_def act c j privatePrefixes_parsed blocked_def juBlocked_def n a prefixContains_def bitLen_def ipNum_def Let_def)
qed

end
