(* ===== verification/Mieru_Route.thy ===== *)
theory Mieru_Route
  imports Juicity_Route Node_Users
begin

text \<open>
  The route engine of the Mieru kernel (core/mieru/route.go). Unlike the policies of the other
  kernels it keeps the panel's rules in order and the first that matches decides; rules may
  look at the protocol of the first packet, and DNS rules choose the resolver of a host. The
  addresses of UDP targets are cached.

  Parameters: jsonProtocol and compileRegexp as in Juicity_Route, the lists the GeoIP and GeoSite
  files hold for a code (geodata.go reads and decodes the files), the answer of a resolver, the
  clock, and the entry that the iteration over a full cache meets first.
\<close>

section \<open>Rules\<close>

datatype routeDecision = RouteDirect | RouteBlock

datatype mieruRule =
    RuleDNS "domainRule list" string
  | RuleDomains "domainRule list" routeDecision
  | RuleIP "Prefix list" routeDecision
  | RulePorts "(int \<times> int) list"
  | RuleProtocols "string list"
  | RuleDefault routeDecision

record routeTarget =
  rt_host :: string
  rt_ip :: "byte list option"
  rt_port :: int

record mieruEnv =
  me_json :: "string \<Rightarrow> string option"
  me_regexp :: "string \<Rightarrow> (string \<Rightarrow> bool) option"
  me_geosite :: "string \<Rightarrow> domainRule list option"
  me_geoip :: "string \<Rightarrow> Prefix list option"

datatype mieruError = MieruRoute routeError | GeoSiteError string | GeoIPError string | UnsupportedProtocol string | DNSServerEmpty | DNSServerScheme | DNSServerInvalid

definition decisionOf :: "outbound \<Rightarrow> routeDecision" where
  "decisionOf out = (case out of OutDirect \<Rightarrow> RouteDirect | OutBlock \<Rightarrow> RouteBlock)"

definition routeActionDecision :: "mieruEnv \<Rightarrow> string \<Rightarrow> string option \<Rightarrow> mieruError + routeDecision" where
  "routeActionDecision env action value =
     (if action \<in> {''block'', ''block_ip'', ''block_port'', ''protocol''} then Inr RouteBlock
      else (case value of
          None \<Rightarrow> Inl (MieruRoute OutboundEmpty)
        | Some v \<Rightarrow>
            if trimSpace v = [] then Inl (MieruRoute OutboundEmpty)
            else (case outboundOf v of
                Some out \<Rightarrow> Inr (decisionOf out)
              | None \<Rightarrow>
                  (case me_json env v of
                     None \<Rightarrow> Inl (MieruRoute OutboundJSON)
                   | Some protocol \<Rightarrow>
                       (case outboundOf protocol of
                          Some out \<Rightarrow> Inr (decisionOf out)
                        | None \<Rightarrow> Inl (MieruRoute (UnsupportedOutbound protocol)))))))"

definition compileDomain :: "mieruEnv \<Rightarrow> string \<Rightarrow> mieruError + domainRule list" where
  "compileDomain env raw =
     (let v = trimSpace raw; lower = toLower v in
      if v = [] then Inr []
      else if hasPrefix lower ''geosite:'' then
        (case me_geosite env (drop 8 v) of None \<Rightarrow> Inl (GeoSiteError (drop 8 v)) | Some rules \<Rightarrow> Inr rules)
      else if hasPrefix lower ''domain:'' then Inr [Suffix (trimSuffix (drop 7 lower) ''.'')]
      else if hasPrefix lower ''full:'' then Inr [Exact (trimSuffix (drop 5 lower) ''.'')]
      else if hasPrefix lower ''regexp:'' then
        (case me_regexp env (drop 7 v) of None \<Rightarrow> Inl (MieruRoute (InvalidRegexp (drop 7 v))) | Some re \<Rightarrow> Inr [Regexp re])
      else if hasPrefix lower ''keyword:'' then Inr [Keyword (drop 8 lower)]
      else if hasPrefix lower ''ext:'' then Inl (MieruRoute (UnsupportedDomain v))
      else Inr [Keyword lower])"

definition compileDomains :: "mieruEnv \<Rightarrow> string list \<Rightarrow> mieruError + domainRule list" where
  "compileDomains env values = bindE (mapE (compileDomain env) values) (\<lambda>rs. Inr (concat rs))"

text \<open>A net.IPNet is its network number and the length of its mask; the mask has the width of the
  address that was parsed.\<close>

definition maskByte :: "int \<Rightarrow> byte \<Rightarrow> byte" where
  "maskByte k b = (if k \<ge> 8 then b else if k \<le> 0 then 0 else push_bit (nat (8 - k)) (drop_bit (nat (8 - k)) b))"

definition maskIP :: "int \<Rightarrow> byte list \<Rightarrow> byte list" where
  "maskIP bits ip = map (\<lambda>(i, b). maskByte (bits - 8 * int i) b) (List.enumerate 0 ip)"

definition parseCIDR :: "string \<Rightarrow> Prefix option" where
  "parseCIDR s =
     (case indexByte s (CHR ''/'') of
        None \<Rightarrow> None
      | Some i \<Rightarrow>
          (case parseAddr (take i s) of
             None \<Rightarrow> None
           | Some (ip, zone) \<Rightarrow>
               let mask = drop (i + 1) s; (n, ok) = scanUint 0 mask in
               if zone \<noteq> [] \<or> mask = [] \<or> \<not> ok \<or> n > bitLen ip then None
               else Some \<lparr>px_ip = maskIP n ip, px_bits = n\<rparr>))"

definition ipNetContains :: "Prefix \<Rightarrow> byte list \<Rightarrow> bool" where
  "ipNetContains p ip \<longleftrightarrow>
     (let (nn, bits) = (case to4 (px_ip p) of Some x \<Rightarrow> (x, if length (px_ip p) = 16 then px_bits p - 96 else px_bits p) | None \<Rightarrow> (px_ip p, px_bits p));
          x = (case to4 ip of Some x \<Rightarrow> x | None \<Rightarrow> ip);
          unit = 2 ^ nat (bitLen nn - bits) in
      length x = length nn \<and> ipNum x div unit = ipNum nn div unit)"

definition mieruPrivateRanges :: "string list" where
  "mieruPrivateRanges = [''0.0.0.0/8'', ''10.0.0.0/8'', ''100.64.0.0/10'', ''127.0.0.0/8'', ''169.254.0.0/16'', ''172.16.0.0/12'', ''192.0.0.0/24'',
     ''192.0.2.0/24'', ''192.168.0.0/16'', ''198.18.0.0/15'', ''198.51.100.0/24'', ''203.0.113.0/24'', ''224.0.0.0/4'', ''::/128'', ''::1/128'',
     ''fc00::/7'', ''fe80::/10'', ''ff00::/8'']"

definition privateIPPrefixes :: "Prefix list" where
  "privateIPPrefixes = map (the \<circ> parseCIDR) mieruPrivateRanges"

definition compileIPPrefix :: "mieruEnv \<Rightarrow> string \<Rightarrow> mieruError + Prefix list" where
  "compileIPPrefix env raw =
     (let v = trimSpace raw; lower = toLower v in
      if v = [] then Inr []
      else if lower = ''geoip:private'' then Inr privateIPPrefixes
      else if hasPrefix lower ''geoip:'' then
        (case me_geoip env (drop 6 v) of None \<Rightarrow> Inl (GeoIPError (drop 6 v)) | Some ps \<Rightarrow> Inr ps)
      else (case parseIP v of
          Some ip \<Rightarrow> Inr [case to4 ip of Some x \<Rightarrow> \<lparr>px_ip = x, px_bits = 32\<rparr> | None \<Rightarrow> \<lparr>px_ip = ip, px_bits = 128\<rparr>]
        | None \<Rightarrow> (case parseCIDR v of None \<Rightarrow> Inl (MieruRoute (InvalidIP v)) | Some p \<Rightarrow> Inr [p])))"

definition mieruCompileIPPrefixes :: "mieruEnv \<Rightarrow> string list \<Rightarrow> mieruError + Prefix list" where
  "mieruCompileIPPrefixes env values = bindE (mapE (compileIPPrefix env) values) (\<lambda>rs. Inr (concat rs))"

definition compilePortItem :: "string \<Rightarrow> mieruError + (int \<times> int) list" where
  "compilePortItem item =
     (let v = trimSpace item in
      if v = [] then Inr []
      else let (a, b) = splitTwo (CHR ''-'') v; (from, ok) = atoi (trimSpace a) in
        if \<not> ok then Inl (MieruRoute (InvalidPort v))
        else let (to, ok) = (case b of None \<Rightarrow> (from, True) | Some b \<Rightarrow> atoi (trimSpace b)) in
          if \<not> ok \<or> from < 1 \<or> to > 65535 \<or> from > to then Inl (MieruRoute (InvalidPort v)) else Inr [(from, to)])"

definition compilePorts :: "string list \<Rightarrow> mieruError + (int \<times> int) list" where
  "compilePorts values = bindE (mapE compilePortItem (concat (map (splitOn (CHR '','')) values))) (\<lambda>rs. Inr (concat rs))"

definition compileProtocol :: "string \<Rightarrow> mieruError + string list" where
  "compileProtocol raw =
     (let v = toLower (trimSpace raw) in
      if v = [] then Inr []
      else if v \<in> {''http'', ''tls'', ''quic'', ''bittorrent''} then Inr [v]
      else Inl (UnsupportedProtocol raw))"

definition compileProtocols :: "string list \<Rightarrow> mieruError + string list" where
  "compileProtocols values = bindE (mapE compileProtocol values) (\<lambda>rs. Inr (concat rs))"

definition normalizeDNSServer :: "string \<Rightarrow> mieruError + string" where
  "normalizeDNSServer server =
     (let server = trimSpace server in
      if server = [] then Inl DNSServerEmpty
      else if contains server ''://'' then Inl DNSServerScheme
      else (case SplitHostPort server of
          Inr _ \<Rightarrow> Inr server
        | Inl _ \<Rightarrow>
            (case parseIP server of
               Some ip \<Rightarrow> Inr (JoinHostPort (ipString ip) ''53'')
             | None \<Rightarrow> if contains server '':'' then Inl DNSServerInvalid else Inr (JoinHostPort server ''53''))))"

definition compileRoute :: "mieruEnv \<Rightarrow> Route \<Rightarrow> mieruError + mieruRule" where
  "compileRoute env r =
     (let action = toLower (trimSpace (ro_Action r)) in
      if action = ''dns'' then
        bindE (compileDomains env (ro_Match r)) (\<lambda>ds.
          case ro_ActionValue r of
            None \<Rightarrow> Inl DNSServerEmpty
          | Some v \<Rightarrow> if trimSpace v = [] then Inl DNSServerEmpty else bindE (normalizeDNSServer v) (\<lambda>address. Inr (RuleDNS ds address)))
      else if action = ''block'' \<or> action = ''route'' then
        bindE (compileDomains env (ro_Match r)) (\<lambda>ds. bindE (routeActionDecision env action (ro_ActionValue r)) (\<lambda>d. Inr (RuleDomains ds d)))
      else if action = ''block_ip'' \<or> action = ''route_ip'' then
        bindE (mieruCompileIPPrefixes env (ro_Match r)) (\<lambda>ps. bindE (routeActionDecision env action (ro_ActionValue r)) (\<lambda>d. Inr (RuleIP ps d)))
      else if action = ''block_port'' then bindE (compilePorts (ro_Match r)) (\<lambda>ports. Inr (RulePorts ports))
      else if action = ''protocol'' then bindE (compileProtocols (ro_Match r)) (\<lambda>ps. Inr (RuleProtocols ps))
      else if action = ''default_out'' then bindE (routeActionDecision env action (ro_ActionValue r)) (\<lambda>d. Inr (RuleDefault d))
      else Inl (MieruRoute (UnsupportedAction (ro_Action r))))"

record routeEngine =
  en_rules :: "mieruRule list"
  en_udpDNSCache :: "(string \<times> byte list \<times> int) list"

definition newRouteEngine :: "mieruEnv \<Rightarrow> Route list \<Rightarrow> mieruError + routeEngine" where
  "newRouteEngine env routes = bindE (mapE (compileRoute env) routes) (\<lambda>rules. Inr \<lparr>en_rules = rules, en_udpDNSCache = []\<rparr>)"

section \<open>Decisions\<close>

definition matchesDomain :: "domainRule list \<Rightarrow> string \<Rightarrow> bool" where
  "matchesDomain ds host \<longleftrightarrow>
     ds = [] \<or> (let host = trimSuffix (toLower host) ''.'' in host \<noteq> [] \<and> (\<exists>d\<in>set ds. ruleMatches d host))"

definition mieruMatches :: "mieruRule \<Rightarrow> routeTarget \<Rightarrow> string \<Rightarrow> bool" where
  "mieruMatches r t protocol \<longleftrightarrow>
     (case r of
        RuleDNS ds address \<Rightarrow> False
      | RuleDomains ds d \<Rightarrow> matchesDomain ds (rt_host t)
      | RuleIP ps d \<Rightarrow> (case rt_ip t of None \<Rightarrow> False | Some ip \<Rightarrow> \<exists>p\<in>set ps. ipNetContains p ip)
      | RulePorts ports \<Rightarrow> (\<exists>(from, to)\<in>set ports. from \<le> rt_port t \<and> rt_port t \<le> to)
      | RuleProtocols ps \<Rightarrow> protocol \<noteq> [] \<and> protocol \<in> set ps
      | RuleDefault d \<Rightarrow> True)"

definition ruleDecision :: "mieruRule \<Rightarrow> routeDecision" where
  "ruleDecision r =
     (case r of RuleDNS ds a \<Rightarrow> RouteDirect | RuleDomains ds d \<Rightarrow> d | RuleIP ps d \<Rightarrow> d | RulePorts ps \<Rightarrow> RouteBlock
      | RuleProtocols ps \<Rightarrow> RouteBlock | RuleDefault d \<Rightarrow> d)"

fun decideRules :: "mieruRule list \<Rightarrow> routeTarget \<Rightarrow> string \<Rightarrow> routeDecision" where
  "decideRules [] t protocol = RouteDirect"
| "decideRules (r # rs) t protocol = (if mieruMatches r t protocol then ruleDecision r else decideRules rs t protocol)"

definition decisionWithProtocol :: "routeEngine \<Rightarrow> routeTarget \<Rightarrow> string \<Rightarrow> routeDecision" where
  "decisionWithProtocol e t protocol = decideRules (en_rules e) t protocol"

fun resolverOf :: "mieruRule list \<Rightarrow> string \<Rightarrow> string option" where
  "resolverOf [] host = None"
| "resolverOf (r # rs) host =
     (case r of RuleDNS ds address \<Rightarrow> if matchesDomain ds host then Some address else resolverOf rs host | _ \<Rightarrow> resolverOf rs host)"

definition hasTCPProtocolRules :: "routeEngine \<Rightarrow> bool" where
  "hasTCPProtocolRules e \<longleftrightarrow>
     list_ex (\<lambda>r. case r of RuleProtocols ps \<Rightarrow> list_ex (\<lambda>p. p \<in> set ps) [''http'', ''tls'', ''bittorrent''] | _ \<Rightarrow> False) (en_rules e)"

definition sniffProtocol :: "bool \<Rightarrow> byte list \<Rightarrow> string" where
  "sniffProtocol udp payload =
     (if udp then (if length payload \<ge> 5 \<and> bit (payload ! 0) 6 then ''quic'' else [])
      else if length payload \<ge> 3 \<and> payload ! 1 = 3 \<and> payload ! 0 \<ge> 0x14 \<and> payload ! 0 \<le> 0x17 then ''tls''
      else if length payload \<ge> 20 \<and> payload ! 0 = 19 \<and> bytesString (take 19 (drop 1 payload)) = ''BitTorrent protocol'' then ''bittorrent''
      else if list_ex (hasPrefix (toUpper (bytesString payload)))
        [''GET '', ''POST '', ''PUT '', ''HEAD '', ''DELETE '', ''OPTIONS '', ''PATCH '', ''CONNECT '', ''PRI * HTTP/2.0''] then ''http''
      else [])"

section \<open>The cache of UDP targets\<close>

definition udpDNSCacheTTL :: int where "udpDNSCacheTTL = 300000000000"
definition udpDNSCacheMaxEntries :: nat where "udpDNSCacheMaxEntries = 4096"

definition normalizeDNSCacheHost :: "string \<Rightarrow> string" where
  "normalizeDNSCacheHost host = trimSuffix (toLower (trimSpace host)) ''.''"

definition cachedUDPIP :: "string \<Rightarrow> int \<Rightarrow> routeEngine \<Rightarrow> byte list option \<times> routeEngine" where
  "cachedUDPIP host now e =
     (let key = normalizeDNSCacheHost host in
      if key = [] then (None, e)
      else (case map_of (en_udpDNSCache e) key of
          None \<Rightarrow> (None, e)
        | Some (ip, expiresAt) \<Rightarrow>
            if now \<ge> expiresAt then (None, e\<lparr>en_udpDNSCache := AList.delete key (en_udpDNSCache e)\<rparr>) else (Some ip, e)))"

text \<open>A full cache first loses its expired entries, then the entry its iteration meets first.\<close>

definition makeRoom :: "string \<Rightarrow> int \<Rightarrow> (string \<times> byte list \<times> int) list \<Rightarrow> (string \<times> byte list \<times> int) list" where
  "makeRoom key now cache =
     (if map_of cache key = None \<and> length cache \<ge> udpDNSCacheMaxEntries then
        let cache = filter (\<lambda>(h, ip, expiresAt). now < expiresAt) cache in
        if length cache \<ge> udpDNSCacheMaxEntries then tl cache else cache
      else cache)"

definition storeUDPIP :: "string \<Rightarrow> byte list option \<Rightarrow> int \<Rightarrow> ((string \<times> byte list \<times> int) list \<Rightarrow> (string \<times> byte list \<times> int) list) \<Rightarrow> routeEngine \<Rightarrow> routeEngine" where
  "storeUDPIP host ip now iterate e =
     (let key = normalizeDNSCacheHost host in
      case ip of
        None \<Rightarrow> e
      | Some ip \<Rightarrow>
          if key = [] then e
          else e\<lparr>en_udpDNSCache := AList.update key (ip, now + udpDNSCacheTTL) (makeRoom key now (iterate (en_udpDNSCache e)))\<rparr>)"

text \<open>resolveUDPAddr: lookup is the answer of the resolver, None when it fails. The two readings of
  the clock are arguments.\<close>

datatype udpResult = UdpBlocked | UdpAddr "byte list" int | UdpLookupFailed | UdpNotFound

definition resolveUDPAddr :: "(string option \<Rightarrow> string \<Rightarrow> byte list list option) \<Rightarrow> ((string \<times> byte list \<times> int) list \<Rightarrow> (string \<times> byte list \<times> int) list) \<Rightarrow> int \<Rightarrow> int
    \<Rightarrow> routeTarget \<Rightarrow> byte list \<Rightarrow> routeEngine \<Rightarrow> udpResult \<times> routeEngine" where
  "resolveUDPAddr lookup iterate now1 now2 t payload e =
     (if decisionWithProtocol e t (sniffProtocol True payload) = RouteBlock then (UdpBlocked, e)
      else (case rt_ip t of
          Some ip \<Rightarrow> (UdpAddr ip (rt_port t), e)
        | None \<Rightarrow>
            (case cachedUDPIP (rt_host t) now1 e of
               (Some ip, e) \<Rightarrow> (UdpAddr ip (rt_port t), e)
             | (None, e) \<Rightarrow>
                 (case lookup (resolverOf (en_rules e) (rt_host t)) (rt_host t) of
                    None \<Rightarrow> (UdpLookupFailed, e)
                  | Some [] \<Rightarrow> (UdpNotFound, e)
                  | Some (ip # ips) \<Rightarrow> (UdpAddr ip (rt_port t), storeUDPIP (rt_host t) (Some ip) now2 iterate e)))))"

definition targetFromAddr :: "string \<Rightarrow> byte list option \<Rightarrow> int \<Rightarrow> routeTarget" where
  "targetFromAddr fqdn ip port = \<lparr>rt_host = trimSuffix (toLower fqdn) ''.'', rt_ip = ip, rt_port = port\<rparr>"

text \<open>dialTCP up to the dial: whether it is blocked, and the resolver the dialer gets.\<close>

definition dialTCP :: "routeEngine \<Rightarrow> routeTarget \<Rightarrow> string option option" where
  "dialTCP e t =
     (if decisionWithProtocol e t [] = RouteBlock then None
      else Some (if rt_host t \<noteq> [] then resolverOf (en_rules e) (rt_host t) else None))"

section \<open>The first rule that matches decides\<close>

lemma decideRules_find:
  "decideRules rs t protocol = (case find (\<lambda>r. mieruMatches r t protocol) rs of None \<Rightarrow> RouteDirect | Some r \<Rightarrow> ruleDecision r)"
  by (induction rs) auto

lemma mieru_first_match:
  assumes "newRouteEngine env routes = Inr e"
  shows "decisionWithProtocol e t protocol =
    (case find (\<lambda>r. \<exists>rule. compileRoute env r = Inr rule \<and> mieruMatches rule t protocol) routes of
       None \<Rightarrow> RouteDirect
     | Some r \<Rightarrow> (case compileRoute env r of Inl _ \<Rightarrow> RouteDirect | Inr rule \<Rightarrow> ruleDecision rule))"
proof -
  obtain rules where "mapE (compileRoute env) routes = Inr rules" "en_rules e = rules"
    using assms by (auto simp: newRouteEngine_def bindE_eq_Inr)
  moreover have "mapE (compileRoute env) routes = Inr rules \<Longrightarrow>
    (case find (\<lambda>r. mieruMatches r t protocol) rules of None \<Rightarrow> RouteDirect | Some r \<Rightarrow> ruleDecision r) =
    (case find (\<lambda>r. \<exists>rule. compileRoute env r = Inr rule \<and> mieruMatches rule t protocol) routes of
       None \<Rightarrow> RouteDirect
     | Some r \<Rightarrow> (case compileRoute env r of Inl _ \<Rightarrow> RouteDirect | Inr rule \<Rightarrow> ruleDecision rule))" for rules
    by (induction routes arbitrary: rules) (auto simp: bindE_eq_Inr)
  ultimately show ?thesis by (simp add: decisionWithProtocol_def decideRules_find)
qed

text \<open>A block rule without any value matches every target.\<close>

lemma empty_block_rule_blocks_all:
  "newRouteEngine env [\<lparr>ro_Id = i, ro_Match = [], ro_Action = ''block'', ro_ActionValue = v\<rparr>] = Inr e \<Longrightarrow> decisionWithProtocol e t p = RouteBlock"
  by (auto simp: newRouteEngine_def compileRoute_def compileDomains_def routeActionDecision_def decisionWithProtocol_def mieruMatches_def
      matchesDomain_def ruleDecision_def Let_def bindE_eq_Inr toLower_def trimSpace_def isSpace_def toLowerChar_def)

section \<open>What the cache answers\<close>

datatype cacheEv = CacheStore string "byte list option" int "(string \<times> byte list \<times> int) list \<Rightarrow> (string \<times> byte list \<times> int) list" | CacheGet string int

fun cacheStep :: "cacheEv \<Rightarrow> routeEngine \<Rightarrow> routeEngine" where
  "cacheStep (CacheStore host ip now iterate) e = storeUDPIP host ip now iterate e"
| "cacheStep (CacheGet host now) e = snd (cachedUDPIP host now e)"

text \<open>The address and the time of the last store for a host.\<close>

fun lastStore :: "string \<Rightarrow> cacheEv list \<Rightarrow> (byte list \<times> int) option \<Rightarrow> (byte list \<times> int) option" where
  "lastStore key [] acc = acc"
| "lastStore key (CacheStore host (Some ip) now iterate # evs) acc = lastStore key evs (if key \<noteq> [] \<and> normalizeDNSCacheHost host = key then Some (ip, now) else acc)"
| "lastStore key (_ # evs) acc = lastStore key evs acc"

fun iteratesAll :: "cacheEv \<Rightarrow> bool" where
  "iteratesAll (CacheStore host ip now iterate) \<longleftrightarrow> (\<forall>c. mset (iterate c) = mset c)"
| "iteratesAll (CacheGet host now) \<longleftrightarrow> True"

definition cacheInv :: "(string \<Rightarrow> (byte list \<times> int) option) \<Rightarrow> (string \<times> byte list \<times> int) list \<Rightarrow> bool" where
  "cacheInv stored cache \<longleftrightarrow> length cache \<le> udpDNSCacheMaxEntries \<and> distinct (map fst cache)
     \<and> (\<forall>(k, ip, expiresAt)\<in>set cache. stored k = Some (ip, expiresAt - udpDNSCacheTTL))"

lemma cacheInv_sub:
  assumes "cacheInv stored c" "set c' \<subseteq> set c" "distinct (map fst c')" "length c' \<le> length c"
  shows "cacheInv stored c'"
proof -
  have "length c' \<le> udpDNSCacheMaxEntries" using assms(1,4) by (simp add: cacheInv_def)
  moreover have "\<forall>x\<in>set c'. case x of (k, ip, expiresAt) \<Rightarrow> stored k = Some (ip, expiresAt - udpDNSCacheTTL)"
    using assms(1,2) unfolding cacheInv_def by blast
  ultimately show ?thesis using assms(3) by (simp add: cacheInv_def)
qed

lemma cacheInv_filter: "cacheInv stored c \<Longrightarrow> cacheInv stored (filter P c)"
  by (rule cacheInv_sub) (auto simp: cacheInv_def distinct_map_filter)

lemma cacheInv_delete: "cacheInv stored c \<Longrightarrow> cacheInv stored (AList.delete k c)"
  by (simp add: AList.delete_eq cacheInv_filter)

lemma cacheInv_tl: "cacheInv stored c \<Longrightarrow> cacheInv stored (tl c)"
  by (rule cacheInv_sub, assumption, cases c) (auto simp: cacheInv_def map_tl distinct_tl)

lemma cacheInv_perm:
  assumes "cacheInv stored c" "mset c' = mset c"
  shows "cacheInv stored c'"
proof (rule cacheInv_sub [OF assms(1)])
  have "mset (map fst c') = mset (map fst c)" using assms(2) by simp
  then show "distinct (map fst c')" using assms(1) mset_eq_imp_distinct_iff unfolding cacheInv_def by blast
qed (use mset_eq_setD [OF assms(2)] mset_eq_length [OF assms(2)] in auto)

lemma cacheInv_makeRoom: "cacheInv stored c \<Longrightarrow> cacheInv stored (makeRoom k now c)"
  by (simp add: makeRoom_def Let_def cacheInv_filter cacheInv_tl)

lemma makeRoom_room:
  assumes "cacheInv stored c" "map_of (makeRoom k now c) k = None"
  shows "length (makeRoom k now c) < udpDNSCacheMaxEntries"
proof (cases "map_of c k = None \<and> length c \<ge> udpDNSCacheMaxEntries")
  case True
  let ?f = "filter (\<lambda>(h, ip, expiresAt). now < expiresAt) c"
  have "length ?f \<le> udpDNSCacheMaxEntries" using cacheInv_filter [OF assms(1)] by (simp add: cacheInv_def)
  moreover have "0 < udpDNSCacheMaxEntries" by (simp add: udpDNSCacheMaxEntries_def)
  ultimately show ?thesis using True by (auto simp: makeRoom_def Let_def)
next
  case False
  then show ?thesis using assms(2) by (auto simp: makeRoom_def)
qed

lemma cacheInv_update:
  assumes "cacheInv stored c" "map_of c k = None \<Longrightarrow> length c < udpDNSCacheMaxEntries"
  shows "cacheInv (stored(k \<mapsto> (ip, now))) (AList.update k (ip, now + udpDNSCacheTTL) c)"
proof -
  have d: "distinct (map fst c)" "length c \<le> udpDNSCacheMaxEntries" using assms(1) by (auto simp: cacheInv_def)
  have "length (AList.update k v c) = (if map_of c k = None then Suc (length c) else length c)" for v
    by (induction c) auto
  then have len: "length (AList.update k (ip, now + udpDNSCacheTTL) c) \<le> udpDNSCacheMaxEntries" using assms(2) d(2) by auto
  have dist: "distinct (map fst (AList.update k (ip, now + udpDNSCacheTTL) c))" using d(1) by (rule distinct_update)
  have "case x of (h, i, e) \<Rightarrow> (stored(k \<mapsto> (ip, now))) h = Some (i, e - udpDNSCacheTTL)"
    if x: "x \<in> set (AList.update k (ip, now + udpDNSCacheTTL) c)" for x
  proof -
    obtain h i e where hie: "x = (h, i, e)" by (cases x)
    then have m: "map_of (AList.update k (ip, now + udpDNSCacheTTL) c) h = Some (i, e)" using x map_of_is_SomeI [OF dist] by blast
    show ?thesis
    proof (cases "h = k")
      case False
      then have "(h, i, e) \<in> set c" using m by (simp add: update_conv' map_of_SomeD)
      then show ?thesis using assms(1) False hie by (auto simp: cacheInv_def)
    qed (use m hie in \<open>simp add: update_conv'\<close>)
  qed
  then show ?thesis using len dist unfolding cacheInv_def by blast
qed

definition storedBy :: "cacheEv \<Rightarrow> (string \<Rightarrow> (byte list \<times> int) option) \<Rightarrow> string \<Rightarrow> (byte list \<times> int) option" where
  "storedBy ev stored k = lastStore k [ev] (stored k)"

lemma cacheInv_step:
  assumes "cacheInv stored (en_udpDNSCache e)" "iteratesAll ev"
  shows "cacheInv (storedBy ev stored) (en_udpDNSCache (cacheStep ev e))"
proof (cases ev)
  case (CacheGet host now)
  then have "storedBy ev stored = stored" by (simp add: storedBy_def fun_eq_iff)
  then show ?thesis using assms CacheGet by (auto simp: cachedUDPIP_def Let_def cacheInv_delete split: option.split)
next
  case (CacheStore host ip now iterate)
  show ?thesis
  proof (cases ip)
    case None
    then have "storedBy ev stored = stored" using CacheStore by (simp add: storedBy_def fun_eq_iff)
    then show ?thesis using assms CacheStore None by (simp add: storeUDPIP_def)
  next
    case (Some a)
    let ?k = "normalizeDNSCacheHost host"
    let ?c = "makeRoom ?k now (iterate (en_udpDNSCache e))"
    have stored: "storedBy ev stored = (if ?k = [] then stored else stored(?k \<mapsto> (a, now)))"
      using CacheStore Some by (auto simp: storedBy_def fun_eq_iff)
    have perm: "cacheInv stored (iterate (en_udpDNSCache e))" using assms CacheStore by (auto intro: cacheInv_perm)
    show ?thesis
    proof (cases "?k = []")
      case False
      then show ?thesis using cacheInv_update [OF cacheInv_makeRoom [OF perm] makeRoom_room [OF perm]] CacheStore Some stored
        by (simp add: storeUDPIP_def Let_def)
    qed (use assms CacheStore Some stored in \<open>simp add: storeUDPIP_def\<close>)
  qed
qed

lemma lastStore_Cons: "lastStore k (ev # evs) acc = lastStore k evs (lastStore k [ev] acc)"
  by (cases "(k, ev # evs, acc)" rule: lastStore.cases) auto

lemma cacheInv_run:
  "cacheInv stored (en_udpDNSCache e) \<Longrightarrow> \<forall>ev\<in>set evs. iteratesAll ev \<Longrightarrow>
     cacheInv (\<lambda>k. lastStore k evs (stored k)) (en_udpDNSCache (fold cacheStep evs e))"
proof (induction evs arbitrary: e stored)
  case (Cons ev evs)
  then have "cacheInv (\<lambda>k. lastStore k evs (storedBy ev stored k)) (en_udpDNSCache (fold cacheStep evs (cacheStep ev e)))"
    by (intro Cons.IH cacheInv_step) auto
  then show ?case by (simp add: storedBy_def lastStore_Cons [of _ ev evs])
qed simp

text \<open>C24: the cache of UDP targets is bounded and never answers with an old address. After every
  history of stores and lookups, in whatever order a full cache is iterated, it has at most 4096
  entries, and a hit is the address last stored for the host, less than five minutes ago.\<close>

theorem udp_dns_cache_sound:
  assumes "newRouteEngine env routes = Inr e" and "\<forall>ev\<in>set evs. iteratesAll ev" and "e' = fold cacheStep evs e"
  shows "length (en_udpDNSCache e') \<le> 4096
    \<and> (\<forall>host now ip e''. cachedUDPIP host now e' = (Some ip, e'') \<longrightarrow>
          (\<exists>t. lastStore (normalizeDNSCacheHost host) evs None = Some (ip, t) \<and> now < t + 300000000000))"
proof -
  have "cacheInv (\<lambda>_. None) (en_udpDNSCache e)" using assms(1) by (auto simp: newRouteEngine_def bindE_eq_Inr cacheInv_def)
  from cacheInv_run [OF this assms(2)] have inv: "cacheInv (\<lambda>k. lastStore k evs None) (en_udpDNSCache e')" using assms(3) by simp
  have "\<exists>t. lastStore (normalizeDNSCacheHost host) evs None = Some (ip, t) \<and> now < t + 300000000000"
    if hit: "cachedUDPIP host now e' = (Some ip, e'')" for host now ip e''
  proof -
    obtain x where x: "map_of (en_udpDNSCache e') (normalizeDNSCacheHost host) = Some (ip, x)" "now < x"
      using hit by (auto simp: cachedUDPIP_def Let_def split: if_splits option.splits)
    then have "lastStore (normalizeDNSCacheHost host) evs None = Some (ip, x - udpDNSCacheTTL)"
      using inv map_of_SomeD [OF x(1)] by (auto simp: cacheInv_def)
    then show ?thesis using x(2) by (simp add: udpDNSCacheTTL_def)
  qed
  then show ?thesis using inv by (auto simp: cacheInv_def udpDNSCacheMaxEntries_def)
qed

theorem udp_dns_cache_sound_witness:
  "length (en_udpDNSCache (fold cacheStep [CacheStore ''A.b.'' (Some [1, 2, 3, 4]) 0 id, CacheGet ''a.b'' 5] \<lparr>en_rules = [], en_udpDNSCache = []\<rparr>)) \<le> 4096
   \<and> lastStore ''a.b'' [CacheStore ''A.b.'' (Some [1, 2, 3, 4]) 0 id, CacheGet ''a.b'' 5] None = Some ([1, 2, 3, 4], 0)"
proof -
  have e: "newRouteEngine \<lparr>me_json = \<lambda>_. None, me_regexp = \<lambda>_. None, me_geosite = \<lambda>_. None, me_geoip = \<lambda>_. None\<rparr> []
      = Inr \<lparr>en_rules = [], en_udpDNSCache = []\<rparr>" by (simp add: newRouteEngine_def)
  have "normalizeDNSCacheHost ''A.b.'' = ''a.b''" by code_simp
  then show ?thesis using udp_dns_cache_sound [OF e _ refl, of "[CacheStore ''A.b.'' (Some [1, 2, 3, 4]) 0 id, CacheGet ''a.b'' 5]"] by simp
qed

end
