(* ===== verification/Server_Guard.thy ===== *)
theory Server_Guard
  imports Conn_Util Byte_Stream Limiter
begin

text \<open>
  What protects the Sudoku listener (core/sudoku/server.go): the slots for handshakes that are
  not authenticated yet, the cooldown of a source whose handshake failed, the order in which
  the users' keys are tried, and the connection that replays its bytes to every attempt.

  A channel of capacity n is the number of its elements. Every critical section is one step
  and the handlers' steps interleave; the clock is an argument in nanoseconds.
\<close>

section \<open>Handshake slots\<close>

definition maxConcurrentSudokuHandshakes :: nat where "maxConcurrentSudokuHandshakes = 4"

definition maxConcurrentSudokuHandshakesPerSource :: int where "maxConcurrentSudokuHandshakesPerSource = 4"

definition sudokuHandshakeFailureCooldown :: int where "sudokuHandshakeFailureCooldown = 5 * 1000000000"

record serverGuard =
  sg_handshakeSlots :: nat
  sg_handshakesBySource :: "(string \<times> int) list"
  sg_handshakeBlocked :: "(string \<times> int) list"
  sg_done :: bool

text \<open>acquireHandshakeSlot in its three parts: the cooldown, the slot, the count of the source. The
  select may take either case when the server is stopping and a slot is free: preferSlot says
  which.\<close>

definition checkCooldown :: "int \<Rightarrow> string \<Rightarrow> serverGuard \<Rightarrow> bool \<times> serverGuard" where
  "checkCooldown now source s =
     (if source = [] then (True, s)
      else (case map_of (sg_handshakeBlocked s) source of
              None \<Rightarrow> (True, s)
            | Some blockedUntil \<Rightarrow>
                if now < blockedUntil then (False, s)
                else (True, s\<lparr>sg_handshakeBlocked := AList.delete source (sg_handshakeBlocked s)\<rparr>)))"

definition takeSlot :: "bool \<Rightarrow> serverGuard \<Rightarrow> bool \<times> serverGuard" where
  "takeSlot preferSlot s =
     (if sg_handshakeSlots s < maxConcurrentSudokuHandshakes \<and> (preferSlot \<or> \<not> sg_done s)
      then (True, s\<lparr>sg_handshakeSlots := sg_handshakeSlots s + 1\<rparr>) else (False, s))"

definition countSource :: "string \<Rightarrow> serverGuard \<Rightarrow> bool \<times> serverGuard" where
  "countSource source s =
     (let count = mapGet (sg_handshakesBySource s) source 0 in
      if count \<ge> maxConcurrentSudokuHandshakesPerSource then (False, s)
      else (True, s\<lparr>sg_handshakesBySource := AList.update source (count + 1) (sg_handshakesBySource s)\<rparr>))"

text \<open>Receiving from the channel waits (None) while it is empty.\<close>

definition giveSlot :: "serverGuard \<Rightarrow> serverGuard option" where
  "giveSlot s = (if sg_handshakeSlots s = 0 then None else Some (s\<lparr>sg_handshakeSlots := sg_handshakeSlots s - 1\<rparr>))"

definition acquireHandshakeSlot :: "int \<Rightarrow> bool \<Rightarrow> string \<Rightarrow> serverGuard \<Rightarrow> (bool \<times> serverGuard) option" where
  "acquireHandshakeSlot now preferSlot source s =
     (let (ok, s) = checkCooldown now source s in
      if \<not> ok then Some (False, s)
      else let (ok, s) = takeSlot preferSlot s in
        if \<not> ok then Some (False, s)
        else if source = [] then Some (True, s)
        else let (ok, s) = countSource source s in
          if ok then Some (True, s) else map_option (Pair False) (giveSlot s))"

definition uncountSource :: "string \<Rightarrow> serverGuard \<Rightarrow> serverGuard" where
  "uncountSource source s =
     (if source = [] then s
      else let count = mapGet (sg_handshakesBySource s) source 0 in
        s\<lparr>sg_handshakesBySource := (if count \<le> 1 then AList.delete source (sg_handshakesBySource s)
            else AList.update source (count - 1) (sg_handshakesBySource s))\<rparr>)"

definition releaseHandshakeSlot :: "string \<Rightarrow> serverGuard \<Rightarrow> serverGuard option" where
  "releaseHandshakeSlot source s = giveSlot (uncountSource source s)"

definition blockHandshakeSource :: "int \<Rightarrow> string \<Rightarrow> serverGuard \<Rightarrow> serverGuard" where
  "blockHandshakeSource now source s =
     (if source = [] then s
      else let m = sg_handshakeBlocked s;
               m = (if length m \<ge> 4096 then filter (\<lambda>(key, until). now < until) m else m)
           in s\<lparr>sg_handshakeBlocked := AList.update source (now + sudokuHandshakeFailureCooldown) m\<rparr>)"

definition unblockHandshakeSource :: "string \<Rightarrow> serverGuard \<Rightarrow> serverGuard" where
  "unblockHandshakeSource source s =
     (if source = [] then s else s\<lparr>sg_handshakeBlocked := AList.delete source (sg_handshakeBlocked s)\<rparr>)"

section \<open>The handlers as a transition system\<close>

text \<open>Where a handler is in handle: before the cooldown check, before the slot, before the count,
  giving the slot back after a refused count, in the handshake, after the count was released,
  and past the handshake (or refused).\<close>

datatype phase = PStart | PCool | PSlot | PRefused | PHeld | PUncounted | PDone

record guardWorld =
  gw_guard :: serverGuard
  gw_handlers :: "(string \<times> phase) list"

definition setPhase :: "nat \<Rightarrow> phase \<Rightarrow> (string \<times> phase) list \<Rightarrow> (string \<times> phase) list" where
  "setPhase i ph hs = hs[i := (fst (hs ! i), ph)]"

inductive guardStep :: "guardWorld \<Rightarrow> guardWorld \<Rightarrow> bool" where
  accept: "guardStep w (w\<lparr>gw_handlers := gw_handlers w @ [(source, PStart)]\<rparr>)"
| cooldown: "\<lbrakk>i < length (gw_handlers w); gw_handlers w ! i = (source, PStart); checkCooldown now source (gw_guard w) = (ok, s)\<rbrakk> \<Longrightarrow>
     guardStep w \<lparr>gw_guard = s, gw_handlers = setPhase i (if ok then PCool else PDone) (gw_handlers w)\<rparr>"
| slot: "\<lbrakk>i < length (gw_handlers w); gw_handlers w ! i = (source, PCool); takeSlot preferSlot (gw_guard w) = (ok, s)\<rbrakk> \<Longrightarrow>
     guardStep w \<lparr>gw_guard = s, gw_handlers = setPhase i (if \<not> ok then PDone else if source = [] then PHeld else PSlot) (gw_handlers w)\<rparr>"
| source: "\<lbrakk>i < length (gw_handlers w); gw_handlers w ! i = (source, PSlot); countSource source (gw_guard w) = (ok, s)\<rbrakk> \<Longrightarrow>
     guardStep w \<lparr>gw_guard = s, gw_handlers = setPhase i (if ok then PHeld else PRefused) (gw_handlers w)\<rparr>"
| uncount: "\<lbrakk>i < length (gw_handlers w); gw_handlers w ! i = (source, PHeld)\<rbrakk> \<Longrightarrow>
     guardStep w \<lparr>gw_guard = uncountSource source (gw_guard w), gw_handlers = setPhase i PUncounted (gw_handlers w)\<rparr>"
| give: "\<lbrakk>i < length (gw_handlers w); gw_handlers w ! i = (source, ph); ph = PRefused \<or> ph = PUncounted; giveSlot (gw_guard w) = Some s\<rbrakk> \<Longrightarrow>
     guardStep w \<lparr>gw_guard = s, gw_handlers = setPhase i PDone (gw_handlers w)\<rparr>"
| block: "guardStep w (w\<lparr>gw_guard := blockHandshakeSource now source (gw_guard w)\<rparr>)"
| unblock: "guardStep w (w\<lparr>gw_guard := unblockHandshakeSource source (gw_guard w)\<rparr>)"
| stop: "guardStep w (w\<lparr>gw_guard := (gw_guard w)\<lparr>sg_done := True\<rparr>\<rparr>)"

definition newGuard :: serverGuard where
  "newGuard = \<lparr>sg_handshakeSlots = 0, sg_handshakesBySource = [], sg_handshakeBlocked = [], sg_done = False\<rparr>"

definition startWorld :: guardWorld where
  "startWorld = \<lparr>gw_guard = newGuard, gw_handlers = []\<rparr>"

text \<open>The slots are held by exactly the handlers between taking and giving, and a source's count is
  the number of its handlers in the handshake.\<close>

definition holding :: "phase \<Rightarrow> bool" where
  "holding ph \<longleftrightarrow> ph \<in> {PSlot, PRefused, PHeld, PUncounted}"

definition held :: "(string \<times> phase) list \<Rightarrow> nat" where
  "held hs = length (filter (\<lambda>(source, ph). holding ph) hs)"

definition handshaking :: "string \<Rightarrow> (string \<times> phase) list \<Rightarrow> nat" where
  "handshaking source hs = length (filter (\<lambda>(s, ph). s = source \<and> ph = PHeld) hs)"

definition guardInv :: "guardWorld \<Rightarrow> bool" where
  "guardInv w \<longleftrightarrow> sg_handshakeSlots (gw_guard w) = held (gw_handlers w) \<and> held (gw_handlers w) \<le> maxConcurrentSudokuHandshakes
     \<and> (\<forall>source. source \<noteq> [] \<longrightarrow> mapGet (sg_handshakesBySource (gw_guard w)) source 0 = int (handshaking source (gw_handlers w))
          \<and> int (handshaking source (gw_handlers w)) \<le> maxConcurrentSudokuHandshakesPerSource
          \<and> (map_of (sg_handshakesBySource (gw_guard w)) source \<noteq> None \<longrightarrow> 0 < handshaking source (gw_handlers w)))
     \<and> map_of (sg_handshakesBySource (gw_guard w)) [] = None
     \<and> (\<forall>h\<in>set (gw_handlers w). fst h = [] \<longrightarrow> snd h \<notin> {PSlot, PRefused})"

lemma filter_update_count:
  assumes "i < length xs"
  shows "length (filter P (xs[i := y])) + (if P (xs ! i) then 1 else 0) = length (filter P xs) + (if P y then 1 else 0)"
  using assms
proof (induction xs arbitrary: i)
  case (Cons x xs)
  then show ?case by (cases i) auto
qed simp

lemma held_setPhase:
  assumes "i < length hs" "hs ! i = (source, ph)"
  shows "held (setPhase i ph' hs) + (if holding ph then 1 else 0) = held hs + (if holding ph' then 1 else 0)"
  using filter_update_count [OF assms(1), of "\<lambda>(source, ph). holding ph" "(source, ph')"] assms(2)
  by (simp add: held_def setPhase_def)

lemma counted_setPhase:
  assumes "i < length hs" "hs ! i = (source, ph)"
  shows "handshaking t (setPhase i ph' hs) + (if t = source \<and> ph = PHeld then 1 else 0) = handshaking t hs + (if t = source \<and> ph' = PHeld then 1 else 0)"
  using filter_update_count [OF assms(1), of "\<lambda>(s, ph). s = t \<and> ph = PHeld" "(source, ph')"] assms(2)
  by (auto simp: handshaking_def setPhase_def split: if_splits)

lemma set_setPhase: "i < length hs \<Longrightarrow> set (setPhase i ph hs) \<subseteq> insert (fst (hs ! i), ph) (set hs)"
  by (simp add: setPhase_def set_update_subset_insert)

lemma counted_pos: "i < length hs \<Longrightarrow> hs ! i = (source, PHeld) \<Longrightarrow> 0 < handshaking source hs"
  by (force simp: handshaking_def filter_empty_conv in_set_conv_nth)

lemma held_pos: "i < length hs \<Longrightarrow> hs ! i = (source, ph) \<Longrightarrow> holding ph \<Longrightarrow> 0 < held hs"
  by (force simp: held_def filter_empty_conv in_set_conv_nth)

text \<open>A step that moves handler i from one phase to another keeps the invariant when the slots and
  the counts move with it.\<close>

lemma guardInv_move:
  assumes "guardInv w" "i < length (gw_handlers w)" "gw_handlers w ! i = (source, ph)" "w' = \<lparr>gw_guard = s, gw_handlers = setPhase i ph' (gw_handlers w)\<rparr>"
    and "sg_handshakeSlots s + (if holding ph then 1 else 0) = sg_handshakeSlots (gw_guard w) + (if holding ph' then 1 else 0)"
    and "sg_handshakeSlots s \<le> maxConcurrentSudokuHandshakes"
    and "\<And>t. t \<noteq> source \<or> (ph \<noteq> PHeld \<and> ph' \<noteq> PHeld) \<Longrightarrow> map_of (sg_handshakesBySource s) t = map_of (sg_handshakesBySource (gw_guard w)) t"
    and "source = [] \<Longrightarrow> map_of (sg_handshakesBySource s) [] = None"
    and "ph \<noteq> PHeld \<Longrightarrow> ph' = PHeld \<Longrightarrow> source \<noteq> [] \<Longrightarrow> int (handshaking source (gw_handlers w)) < maxConcurrentSudokuHandshakesPerSource
           \<and> map_of (sg_handshakesBySource s) source = Some (int (handshaking source (gw_handlers w)) + 1)"
    and "ph = PHeld \<Longrightarrow> ph' \<noteq> PHeld \<Longrightarrow> source \<noteq> [] \<Longrightarrow> map_of (sg_handshakesBySource s) source =
           (if handshaking source (gw_handlers w) \<le> 1 then None else Some (int (handshaking source (gw_handlers w)) - 1))"
    and "\<not> (ph = PHeld \<and> ph' = PHeld)" "source = [] \<Longrightarrow> ph' \<notin> {PSlot, PRefused}"
  shows "guardInv w'"
proof -
  let ?hs = "gw_handlers w"
  let ?hs' = "setPhase i ph' ?hs"
  have slots: "sg_handshakeSlots s = held ?hs'" using assms(1, 5) held_setPhase [OF assms(2, 3), of ph'] by (simp add: guardInv_def split: if_splits)
  have counts: "handshaking t ?hs' + (if t = source \<and> ph = PHeld then 1 else 0) = handshaking t ?hs + (if t = source \<and> ph' = PHeld then 1 else 0)" for t
    by (rule counted_setPhase [OF assms(2, 3)])
  have old: "mapGet (sg_handshakesBySource (gw_guard w)) t 0 = int (handshaking t ?hs)" "int (handshaking t ?hs) \<le> maxConcurrentSudokuHandshakesPerSource"
      "map_of (sg_handshakesBySource (gw_guard w)) t \<noteq> None \<longrightarrow> 0 < handshaking t ?hs" if "t \<noteq> []" for t
    using assms(1) that by (simp_all add: guardInv_def)
  have new: "mapGet (sg_handshakesBySource s) t 0 = int (handshaking t ?hs') \<and> int (handshaking t ?hs') \<le> maxConcurrentSudokuHandshakesPerSource
      \<and> (map_of (sg_handshakesBySource s) t \<noteq> None \<longrightarrow> 0 < handshaking t ?hs')" if t: "t \<noteq> []" for t
  proof -
    consider (same) "t \<noteq> source \<or> (ph \<noteq> PHeld \<and> ph' \<noteq> PHeld)" | (up) "t = source" "ph \<noteq> PHeld" "ph' = PHeld" | (down) "t = source" "ph = PHeld" "ph' \<noteq> PHeld"
      using assms(11) by blast
    then show ?thesis
    proof cases
      case same
      then have "handshaking t ?hs' = handshaking t ?hs" using counts [of t] by auto
      then show ?thesis using old [OF t] assms(7) [OF same] by (simp add: mapGet_def)
    next
      case up
      then show ?thesis using counts [of t] assms(9) t by (simp add: mapGet_def)
    next
      case down
      have pos: "0 < handshaking source ?hs" using counted_pos [OF assms(2)] assms(3) down(2) by simp
      then show ?thesis using counts [of t] assms(10) old(2) [OF t] t down by (auto simp: mapGet_def)
    qed
  qed
  have none: "map_of (sg_handshakesBySource s) [] = None"
    using assms(1, 8) assms(7) [of "[]"] by (cases "source = []") (simp_all add: guardInv_def)
  have "\<forall>h\<in>set ?hs'. fst h = [] \<longrightarrow> snd h \<notin> {PSlot, PRefused}"
    using assms(1, 3, 12) set_setPhase [OF assms(2), of ph'] unfolding guardInv_def by auto
  then show ?thesis using slots assms(6) new none unfolding assms(4) guardInv_def by simp
qed

lemma checkCooldown_frame:
  "checkCooldown now source g = (ok, s) \<Longrightarrow> sg_handshakeSlots s = sg_handshakeSlots g \<and> sg_handshakesBySource s = sg_handshakesBySource g"
  by (auto simp: checkCooldown_def split: if_splits option.splits)

lemma guardStep_inv:
  assumes "guardStep w w'" "guardInv w"
  shows "guardInv w'"
  using assms
proof (cases rule: guardStep.cases)
  case (accept source)
  then show ?thesis using assms(2) by (auto simp: guardInv_def held_def handshaking_def holding_def)
next
  case (cooldown i source now ok s)
  show ?thesis
    by (rule guardInv_move [OF assms(2) cooldown(2, 3, 1)])
      (use assms(2) checkCooldown_frame [OF cooldown(4)] in \<open>auto simp: holding_def guardInv_def split: if_splits\<close>)
next
  case (slot i source preferSlot ok s)
  show ?thesis
    by (rule guardInv_move [OF assms(2) slot(2, 3, 1)])
      (use assms(2) slot(4) in \<open>auto simp: takeSlot_def holding_def guardInv_def split: if_splits\<close>)
next
  case (source i src ok s)
  have "(src, PSlot) \<in> set (gw_handlers w)" using source(2, 3) by (metis nth_mem)
  then have ne: "src \<noteq> []" using assms(2) unfolding guardInv_def by (metis fst_conv snd_conv insertI1)
  then have c: "mapGet (sg_handshakesBySource (gw_guard w)) src 0 = int (handshaking src (gw_handlers w))" using assms(2) by (simp add: guardInv_def)
  show ?thesis
    by (rule guardInv_move [OF assms(2) source(2, 3, 1)])
      (use assms(2) source(4) ne c in \<open>auto simp: countSource_def holding_def guardInv_def Let_def split: if_splits\<close>)
next
  case (uncount i source)
  have c: "source \<noteq> [] \<Longrightarrow> mapGet (sg_handshakesBySource (gw_guard w)) source 0 = int (handshaking source (gw_handlers w))" using assms(2) by (simp add: guardInv_def)
  have none: "map_of (sg_handshakesBySource (gw_guard w)) [] = None" using assms(2) by (simp add: guardInv_def)
  show ?thesis
    by (rule guardInv_move [OF assms(2) uncount(2, 3, 1)])
      (use assms(2) c none in \<open>auto simp: uncountSource_def holding_def guardInv_def Let_def\<close>)
next
  case (give i source ph s)
  then have "sg_handshakeSlots (gw_guard w) \<noteq> 0" "s = (gw_guard w)\<lparr>sg_handshakeSlots := sg_handshakeSlots (gw_guard w) - 1\<rparr>"
    by (auto simp: giveSlot_def split: if_splits)
  then show ?thesis
    by (intro guardInv_move [OF assms(2) give(2, 3, 1)]) (use assms(2) give(4) in \<open>auto simp: holding_def guardInv_def\<close>)
qed (simp_all add: guardInv_def blockHandshakeSource_def unblockHandshakeSource_def Let_def)

lemma reachable_guardInv: "guardStep\<^sup>*\<^sup>* startWorld w \<Longrightarrow> guardInv w"
proof (induction rule: rtranclp_induct)
  case base
  show ?case by (simp add: guardInv_def startWorld_def newGuard_def held_def handshaking_def mapGet_def maxConcurrentSudokuHandshakesPerSource_def)
next
  case (step w w')
  then show ?case using guardStep_inv by blast
qed

text \<open>C19: the handshake budget. However the handlers interleave, at most four hold a slot and at most
  four of one source are in the handshake; no slot leaks, since the channel holds exactly one
  element for every handler between taking and giving and the counts are exact; giving a slot
  back never waits; and when every handler is past its handshake all slots are free and no
  source is handshaking.\<close>

theorem handshake_slots_exact:
  assumes "guardStep\<^sup>*\<^sup>* startWorld w"
  shows "sg_handshakeSlots (gw_guard w) = held (gw_handlers w) \<and> held (gw_handlers w) \<le> 4
    \<and> (\<forall>source. source \<noteq> [] \<longrightarrow> mapGet (sg_handshakesBySource (gw_guard w)) source 0 = int (handshaking source (gw_handlers w)) \<and> handshaking source (gw_handlers w) \<le> 4)
    \<and> (\<forall>(source, ph)\<in>set (gw_handlers w). holding ph \<longrightarrow> giveSlot (gw_guard w) \<noteq> None)
    \<and> ((\<forall>(source, ph)\<in>set (gw_handlers w). ph = PDone) \<longrightarrow> sg_handshakeSlots (gw_guard w) = 0 \<and> sg_handshakesBySource (gw_guard w) = [])"
proof -
  have inv: "guardInv w" by (rule reachable_guardInv [OF assms])
  have pos: "giveSlot (gw_guard w) \<noteq> None" if mem: "(source, ph) \<in> set (gw_handlers w)" "holding ph" for source ph
  proof -
    obtain i where "i < length (gw_handlers w)" "gw_handlers w ! i = (source, ph)" using mem(1) by (auto simp: in_set_conv_nth)
    then have "0 < held (gw_handlers w)" using held_pos mem(2) by blast
    then show ?thesis using inv by (simp add: giveSlot_def guardInv_def)
  qed
  have idle: "sg_handshakeSlots (gw_guard w) = 0 \<and> sg_handshakesBySource (gw_guard w) = []"
    if fin: "\<forall>(source, ph)\<in>set (gw_handlers w). ph = PDone"
  proof -
    have "held (gw_handlers w) = 0" "handshaking t (gw_handlers w) = 0" for t
      using fin by (auto simp: held_def handshaking_def holding_def filter_empty_conv)
    then have "sg_handshakeSlots (gw_guard w) = 0" "map_of (sg_handshakesBySource (gw_guard w)) t = None" for t
      using inv by (cases "t = []"; auto simp: guardInv_def)+
    then show ?thesis by (metis list.set_intros(1) map_of_eq_None_iff neq_Nil_conv image_eqI)
  qed
  show ?thesis using inv pos idle by (auto simp: guardInv_def maxConcurrentSudokuHandshakes_def maxConcurrentSudokuHandshakesPerSource_def)
qed

theorem handshake_slots_exact_witness:
  "\<exists>w. guardStep\<^sup>*\<^sup>* startWorld w \<and> gw_handlers w = [(''a'', PHeld)] \<and> sg_handshakeSlots (gw_guard w) = held (gw_handlers w)
     \<and> held (gw_handlers w) = 1 \<and> giveSlot (gw_guard w) \<noteq> None"
proof -
  let ?w = "\<lambda>n m ph. \<lparr>gw_guard = newGuard\<lparr>sg_handshakeSlots := n, sg_handshakesBySource := m\<rparr>, gw_handlers = [(''a'', ph)]\<rparr>"
  have 1: "guardStep startWorld (?w 0 [] PStart)"
    using guardStep.accept [of startWorld "''a''"] by (simp add: startWorld_def newGuard_def)
  have 2: "guardStep (?w 0 [] PStart) (?w 0 [] PCool)"
    using guardStep.cooldown [of 0 "?w 0 [] PStart" "''a''" 0 True newGuard] by (simp add: checkCooldown_def newGuard_def setPhase_def)
  have 3: "guardStep (?w 0 [] PCool) (?w 1 [] PSlot)"
    using guardStep.slot [of 0 "?w 0 [] PCool" "''a''" True True] by (simp add: takeSlot_def newGuard_def setPhase_def maxConcurrentSudokuHandshakes_def)
  have 4: "guardStep (?w 1 [] PSlot) (?w 1 [(''a'', 1)] PHeld)"
    using guardStep.source [of 0 "?w 1 [] PSlot" "''a''" True]
    by (simp add: countSource_def newGuard_def setPhase_def mapGet_def maxConcurrentSudokuHandshakesPerSource_def)
  have r: "guardStep\<^sup>*\<^sup>* startWorld (?w 1 [(''a'', 1)] PHeld)" using 1 2 3 4 by (meson rtranclp.rtrancl_into_rtrancl rtranclp.rtrancl_refl)
  show ?thesis using handshake_slots_exact [OF r] r by (intro exI [of _ "?w 1 [(''a'', 1)] PHeld"]) (simp add: holding_def held_def)
qed

section \<open>The cooldown\<close>

datatype cooldownEvent = CdCheck int string | CdBlock int string | CdUnblock string

fun cooldownStep :: "cooldownEvent \<Rightarrow> serverGuard \<Rightarrow> serverGuard" where
  "cooldownStep (CdCheck now source) s = snd (checkCooldown now source s)"
| "cooldownStep (CdBlock now source) s = blockHandshakeSource now source s"
| "cooldownStep (CdUnblock source) s = unblockHandshakeSource source s"

text \<open>An event of the time between t and now that does not end the cooldown of the source.\<close>

fun cooldownEv :: "int \<Rightarrow> int \<Rightarrow> string \<Rightarrow> cooldownEvent \<Rightarrow> bool" where
  "cooldownEv t now source (CdCheck t' source') \<longleftrightarrow> t \<le> t' \<and> t' \<le> now"
| "cooldownEv t now source (CdBlock t' source') \<longleftrightarrow> t \<le> t' \<and> t' \<le> now"
| "cooldownEv t now source (CdUnblock source') \<longleftrightarrow> source' \<noteq> source"

lemma map_of_filter_keep: "map_of m k = Some u \<Longrightarrow> P (k, u) \<Longrightarrow> map_of (filter P m) k = Some u"
  by (induction m) (auto split: if_splits)

lemma cooldownStep_keeps:
  assumes "map_of (sg_handshakeBlocked s) source = Some u" "now < u" "t + sudokuHandshakeFailureCooldown \<le> u" "cooldownEv t now source ev"
    "now < t + sudokuHandshakeFailureCooldown"
  shows "\<exists>u'. map_of (sg_handshakeBlocked (cooldownStep ev s)) source = Some u' \<and> now < u' \<and> t + sudokuHandshakeFailureCooldown \<le> u'"
proof (cases ev)
  case (CdCheck t' source')
  then have "t' < u" using assms by simp
  then show ?thesis using assms(1, 2, 3) CdCheck by (auto simp: checkCooldown_def split: option.split)
next
  case (CdBlock t' source')
  then have "t' < u" "t \<le> t'" using assms by simp_all
  then show ?thesis using assms(1, 2, 3, 5) CdBlock map_of_filter_keep [OF assms(1), of "\<lambda>(key, until). t' < until"]
    by (auto simp: blockHandshakeSource_def Let_def)
next
  case (CdUnblock source')
  then show ?thesis using assms by (auto simp: unblockHandshakeSource_def)
qed

text \<open>C31: a source whose handshake failed is refused for the whole cooldown. Whatever other sources
  do, whatever checks and failures of the same source happen and even when the table of
  blocked sources is cleaned up, no attempt within five seconds of the failure gets to the
  expensive handshake, unless a handshake of the source succeeds.\<close>

theorem cooldown_enforced:
  assumes "source \<noteq> []" "\<forall>ev\<in>set evs. cooldownEv t now source ev" "now < t + sudokuHandshakeFailureCooldown"
  shows "fst (checkCooldown now source (fold cooldownStep evs (blockHandshakeSource t source s))) = False"
proof -
  have run: "\<exists>u. map_of (sg_handshakeBlocked (fold cooldownStep evs s)) source = Some u \<and> now < u"
    if "map_of (sg_handshakeBlocked s) source = Some u" "now < u" "t + sudokuHandshakeFailureCooldown \<le> u" for s u
    using assms(2) that
  proof (induction evs arbitrary: s u)
    case (Cons ev evs)
    have "cooldownEv t now source ev" using Cons.prems(1) by simp
    from cooldownStep_keeps [OF Cons.prems(2, 3, 4) this assms(3)]
    obtain u' where "map_of (sg_handshakeBlocked (cooldownStep ev s)) source = Some u'" "now < u'" "t + sudokuHandshakeFailureCooldown \<le> u'"
      by auto
    from Cons.IH [OF _ this] Cons.prems(1) show ?case by simp
  qed auto
  have "map_of (sg_handshakeBlocked (blockHandshakeSource t source s)) source = Some (t + sudokuHandshakeFailureCooldown)"
    using assms(1) by (simp add: blockHandshakeSource_def Let_def)
  from run [OF this assms(3)] show ?thesis using assms(1) by (auto simp: checkCooldown_def)
qed

theorem cooldown_enforced_witness:
  "fst (checkCooldown 4000000000 ''a'' (fold cooldownStep [CdCheck 1000000000 ''a'', CdBlock 2000000000 ''b'', CdUnblock ''b'']
     (blockHandshakeSource 0 ''a'' newGuard))) = False"
  by (rule cooldown_enforced) (simp_all add: sudokuHandshakeFailureCooldown_def)

end
