(* ===== verification/Replay_Conn.thy ===== *)
theory Replay_Conn
  imports Conn_Util Byte_Stream
begin

text \<open>
  The connection that replays its bytes (core/sudoku/server.go, replayConn): the client's hello
  does not say who it is from, so the server tries the users' keys one after the other and
  every attempt reads the stream from its start.
\<close>

definition maxReplayCacheBytes :: nat where "maxReplayCacheBytes = 256 * 1024"

lemma maxReplayCacheBytes_code [code_unfold]: "n > maxReplayCacheBytes \<longleftrightarrow> int n > 262144"
  by (simp add: maxReplayCacheBytes_def)

record replayConn =
  rc_conn :: source
  rc_cache :: "byte list"
  rc_offset :: nat
  rc_recording :: bool

datatype replayError = ReplayRead ioerr | ReplayExceeded

definition newReplayConn :: "source \<Rightarrow> replayConn" where
  "newReplayConn c = \<lparr>rc_conn = c, rc_cache = [], rc_offset = 0, rc_recording = True\<rparr>"

text \<open>Read with a buffer of length k: the bytes put into it, the error, the connection.\<close>

definition replayRead :: "replayConn \<Rightarrow> nat \<Rightarrow> byte list \<times> replayError option \<times> replayConn" where
  "replayRead r k =
     (if \<not> rc_recording r then
        (case connRead (rc_conn r) k of (b, e, c) \<Rightarrow> (b, map_option ReplayRead e, r\<lparr>rc_conn := c\<rparr>))
      else if rc_offset r < length (rc_cache r) then
        (let b = take k (drop (rc_offset r) (rc_cache r)) in (b, None, r\<lparr>rc_offset := rc_offset r + length b\<rparr>))
      else
        (case connRead (rc_conn r) k of (b, e, c) \<Rightarrow>
           if b = [] then (b, map_option ReplayRead e, r\<lparr>rc_conn := c\<rparr>)
           else if length (rc_cache r) + length b > maxReplayCacheBytes then (b, Some ReplayExceeded, r\<lparr>rc_conn := c\<rparr>)
           else (b, map_option ReplayRead e, r\<lparr>rc_conn := c, rc_cache := rc_cache r @ b, rc_offset := rc_offset r + length b\<rparr>)))"

definition replayReset :: "replayConn \<Rightarrow> replayConn" where
  "replayReset r = (if rc_recording r then r\<lparr>rc_offset := 0\<rparr> else r)"

definition replayCommit :: "replayConn \<Rightarrow> replayConn" where
  "replayCommit r = r\<lparr>rc_recording := False, rc_cache := [], rc_offset := 0\<rparr>"

section \<open>What an attempt reads\<close>

text \<open>A caller that stops at the first error, as the transport's readers do.\<close>

definition replayCall :: "replayConn \<Rightarrow> nat \<Rightarrow> ((replayError + byte list) \<times> replayConn) option" where
  "replayCall r k = (case replayRead r k of (b, e, r) \<Rightarrow> Some (case e of Some err \<Rightarrow> Inl err | None \<Rightarrow> Inr b, r))"

text \<open>The bytes the peer sent, as far as the connection still has them, and those still to be read.\<close>

definition replayAll :: "replayConn \<Rightarrow> byte list" where
  "replayAll r = rc_cache r @ concat (src_chunks (rc_conn r))"

definition replayInv :: "replayConn \<Rightarrow> bool" where
  "replayInv r \<longleftrightarrow> rc_offset r \<le> length (rc_cache r) \<and> [] \<notin> set (src_chunks (rc_conn r))
     \<and> (rc_recording r \<longrightarrow> length (replayAll r) \<le> maxReplayCacheBytes)
     \<and> (\<not> rc_recording r \<longrightarrow> rc_cache r = [])"

definition replayHolds :: "replayConn \<Rightarrow> byte list \<Rightarrow> bool" where
  "replayHolds r q \<longleftrightarrow> replayInv r \<and> q = drop (rc_offset r) (replayAll r)"

lemma connRead_data:
  assumes "src_chunks s \<noteq> []" "[] \<notin> set (src_chunks s)" "0 < k"
  obtains b s' where "connRead s k = (b, None, s')" "b \<noteq> []" "length b \<le> k" "concat (src_chunks s) = b @ concat (src_chunks s')"
    "[] \<notin> set (src_chunks s')" "src_final s' = src_final s"
proof -
  obtain c cs where c: "src_chunks s = c # cs" "c \<noteq> []" using assms(1, 2) by (cases "src_chunks s") auto
  show ?thesis
  proof (cases "length c \<le> k")
    case True
    then show ?thesis using c assms(2) by (intro that [of c "s\<lparr>src_chunks := cs\<rparr>"]) (auto simp: connRead_def)
  next
    case False
    then show ?thesis using c assms(2, 3)
      by (intro that [of "take k c" "s\<lparr>src_chunks := drop k c # cs\<rparr>"]) (auto simp: connRead_def)
  qed
qed

lemma replayCall_data:
  assumes "replayHolds r q" "q \<noteq> []" "0 < k"
  shows "\<exists>o' q' r'. replayCall r k = Some (Inr o', r') \<and> q = o' @ q' \<and> o' \<noteq> [] \<and> length o' \<le> k \<and> replayHolds r' q'
    \<and> src_final (rc_conn r') = src_final (rc_conn r) \<and> rc_recording r' = rc_recording r \<and> (rc_recording r \<longrightarrow> replayAll r' = replayAll r)"
proof -
  have inv: "replayInv r" and q: "q = drop (rc_offset r) (replayAll r)" using assms(1) by (simp_all add: replayHolds_def)
  show ?thesis
  proof (cases "rc_recording r \<and> rc_offset r < length (rc_cache r)")
    case True
    let ?b = "take k (drop (rc_offset r) (rc_cache r))"
    let ?r = "r\<lparr>rc_offset := rc_offset r + length ?b\<rparr>"
    have call: "replayCall r k = Some (Inr ?b, ?r)" using True by (simp add: replayCall_def replayRead_def Let_def)
    have le: "length ?b \<le> length (rc_cache r) - rc_offset r" by simp
    have "q = ?b @ drop (rc_offset r + length ?b) (replayAll r)"
    proof -
      have "take (length ?b) q = ?b" using q True by (simp add: replayAll_def min_def)
      then show ?thesis using append_take_drop_id [of "length ?b" q] q by (simp add: add.commute)
    qed
    moreover have "replayInv ?r" using inv True by (auto simp: replayInv_def replayAll_def)
    ultimately show ?thesis using call True assms(3)
      by (intro exI [of _ ?b] exI [of _ "drop (rc_offset r + length ?b) (replayAll r)"] exI [of _ ?r]) (auto simp: replayHolds_def replayAll_def)
  next
    case False
    then have off: "rc_offset r = length (rc_cache r)" using inv by (auto simp: replayInv_def)
    then have qc: "q = concat (src_chunks (rc_conn r))" using q by (simp add: replayAll_def)
    then have "src_chunks (rc_conn r) \<noteq> []" using assms(2) by auto
    from connRead_data [OF this _ assms(3)] inv obtain b c where b: "connRead (rc_conn r) k = (b, None, c)" "b \<noteq> []" "length b \<le> k"
        "concat (src_chunks (rc_conn r)) = b @ concat (src_chunks c)" "[] \<notin> set (src_chunks c)" "src_final c = src_final (rc_conn r)"
      by (auto simp: replayInv_def)
    show ?thesis
    proof (cases "rc_recording r")
      case True
      let ?r = "r\<lparr>rc_conn := c, rc_cache := rc_cache r @ b, rc_offset := rc_offset r + length b\<rparr>"
      have "length (rc_cache r) + length b \<le> maxReplayCacheBytes" using inv True b(4) by (simp add: replayInv_def replayAll_def)
      then have "replayCall r k = Some (Inr b, ?r)" using True False b(1, 2) by (simp add: replayCall_def replayRead_def)
      moreover have "replayAll ?r = replayAll r" using b(4) by (simp add: replayAll_def)
      moreover have "replayInv ?r" using inv True b(4, 5) by (simp add: replayInv_def replayAll_def)
      ultimately show ?thesis using True b qc off by (auto simp: replayHolds_def replayAll_def)
    next
      case no: False
      let ?r = "r\<lparr>rc_conn := c\<rparr>"
      have "replayCall r k = Some (Inr b, ?r)" using no b(1) by (simp add: replayCall_def replayRead_def)
      moreover have cache: "rc_cache r = []" "rc_offset r = 0" using inv no unfolding replayInv_def by (metis le_zero_eq list.size(3))+
      moreover have "replayInv ?r" using cache no b(5) by (simp add: replayInv_def)
      ultimately show ?thesis using no b qc by (auto simp: replayHolds_def replayAll_def)
    qed
  qed
qed

lemma replayCall_end:
  assumes "replayHolds r []" "0 < k"
  shows "replayCall r k = Some (Inl (ReplayRead (src_final (rc_conn r))), r)"
proof -
  have inv: "replayInv r" and q: "length (replayAll r) \<le> rc_offset r" using assms(1) by (auto simp: replayHolds_def)
  have "rc_offset r \<le> length (rc_cache r)" using inv by (simp add: replayInv_def)
  then have off: "rc_offset r = length (rc_cache r)" "length (concat (src_chunks (rc_conn r))) = 0"
    using q unfolding replayAll_def length_append by linarith+
  then have "src_chunks (rc_conn r) = []" using inv by (cases "src_chunks (rc_conn r)") (auto simp: replayInv_def)
  then show ?thesis using off by (simp add: replayCall_def replayRead_def connRead_def)
qed

interpretation replay: byte_stream replayHolds replayCall "\<lambda>r. ReplayRead (src_final (rc_conn r))"
proof
  fix r q and k :: nat
  assume "replayHolds r q" "q \<noteq> []" "0 < k"
  from replayCall_data [OF this]
  show "\<exists>o' q' r'. replayCall r k = Some (Inr o', r') \<and> q = o' @ q' \<and> o' \<noteq> [] \<and> length o' \<le> k \<and> replayHolds r' q'
    \<and> ReplayRead (src_final (rc_conn r')) = ReplayRead (src_final (rc_conn r))" by blast
next
  fix r and k :: nat
  assume "replayHolds r []" "0 < k"
  from replayCall_end [OF this] show "\<exists>c'. replayCall r k = Some (Inl (ReplayRead (src_final (rc_conn r))), c')" by blast
qed

text \<open>An attempt is a sequence of reads up to the first error; what is sent stays the same while the
  connection is recording.\<close>

lemma attempt_keeps:
  assumes "replayHolds r q" "rc_recording r" "\<forall>k\<in>set ks. 0 < k"
  shows "\<exists>out err r' q'. readAll replayCall r ks = Some (out, err, r') \<and> q = out @ q' \<and> replayHolds r' q' \<and> rc_recording r'
    \<and> replayAll r' = replayAll r \<and> src_final (rc_conn r') = src_final (rc_conn r)"
  using assms
proof (induction ks arbitrary: r q)
  case (Cons k ks)
  show ?case
  proof (cases "q = []")
    case True
    then show ?thesis using replayCall_end [of r k] Cons.prems by auto
  next
    case False
    then obtain o' q' r' where c: "replayCall r k = Some (Inr o', r')" "q = o' @ q'" "replayHolds r' q'" "rc_recording r'"
        "replayAll r' = replayAll r" "src_final (rc_conn r') = src_final (rc_conn r)"
      using replayCall_data [OF Cons.prems(1) False, of k] Cons.prems(2, 3) by auto
    from Cons.IH [OF c(3, 4)] Cons.prems(3) c show ?thesis by fastforce
  qed
qed auto

lemma reset_holds: "replayHolds r q \<Longrightarrow> rc_recording r \<Longrightarrow> replayHolds (replayReset r) (replayAll r)"
  by (simp add: replayHolds_def replayReset_def replayInv_def replayAll_def)

text \<open>The attempts of the users one after the other, with a Reset after each.\<close>

fun attempts :: "nat list list \<Rightarrow> replayConn \<Rightarrow> replayConn option" where
  "attempts [] r = Some r"
| "attempts (ks # kss) r =
     (case readAll replayCall r ks of None \<Rightarrow> None | Some (out, err, r) \<Rightarrow> attempts kss (replayReset r))"

lemma attempts_keep:
  "replayHolds r q \<Longrightarrow> rc_recording r \<Longrightarrow> q = replayAll r \<Longrightarrow> \<forall>ks\<in>set kss. \<forall>k\<in>set ks. 0 < k \<Longrightarrow>
     \<exists>r'. attempts kss r = Some r' \<and> replayHolds r' (replayAll r) \<and> rc_recording r' \<and> src_final (rc_conn r') = src_final (rc_conn r)"
proof (induction kss arbitrary: r q)
  case (Cons ks kss)
  from attempt_keeps [OF Cons.prems(1, 2), of ks] Cons.prems(4)
  obtain out err r' q' where a: "readAll replayCall r ks = Some (out, err, r')" "replayHolds r' q'" "rc_recording r'" "replayAll r' = replayAll r"
      "src_final (rc_conn r') = src_final (rc_conn r)" by auto
  have "replayAll (replayReset r') = replayAll r'" "rc_recording (replayReset r')" "src_final (rc_conn (replayReset r')) = src_final (rc_conn r)"
    using a(3, 5) by (simp_all add: replayReset_def replayAll_def)
  with Cons.IH [OF reset_holds [OF a(2, 3)]] a Cons.prems(4) show ?case by auto
qed (simp add: replayHolds_def)



text \<open>A commit with bytes left in the cache loses them: they were taken from the connection, and the
  cache goes with the commit.\<close>

lemma commit_drops_unread:
  "let (b1, e1, r) = replayRead (newReplayConn \<lparr>src_chunks = [[1, 2, 3], [4]], src_final = EOF\<rparr>) 8;
       (b2, e2, r) = replayRead (replayReset r) 1;
       (b3, e3, r) = replayRead (replayCommit r) 8
   in b2 = [1] \<and> b3 = [4]"
  by code_simp

end
