(* ===== verification/Key_Material.thy ===== *)
theory Key_Material
  imports Go_Net
begin

text \<open>
  The key material of the transport (transport/crypto/ed25519.go, transport/init.go): a master
  key, the split private keys made from it, and the seed both ends derive from whatever form
  of the key their configuration holds.

  The curve is a third-party package; a record of its operations is an argument. What the code
  relies on is the locale key_group: encoded scalars and points decode to themselves, and
  subtraction undoes addition.
\<close>

record ('s, 'p) edLib =
  ed_setUniformBytes :: "byte list \<Rightarrow> 's option"
  ed_setCanonicalBytes :: "byte list \<Rightarrow> 's option"
  ed_scalarBytes :: "'s \<Rightarrow> byte list"
  ed_add :: "'s \<Rightarrow> 's \<Rightarrow> 's"
  ed_subtract :: "'s \<Rightarrow> 's \<Rightarrow> 's"
  ed_scalarBaseMult :: "'s \<Rightarrow> 'p"
  ed_setPoint :: "byte list \<Rightarrow> 'p option"
  ed_pointBytes :: "'p \<Rightarrow> byte list"

record ('s, 'p) KeyPair =
  kp_Private :: 's
  kp_Public :: 'p

datatype keyError = RandFailed | UniformFailed | InvalidHex | InvalidScalar | InvalidKeyLength

text \<open>rand.Read takes the next bytes of a random source and fails when it is exhausted.\<close>

definition randRead :: "nat \<Rightarrow> byte list \<Rightarrow> keyError + (byte list \<times> byte list)" where
  "randRead n rand = (if length rand < n then Inl RandFailed else Inr (take n rand, drop n rand))"

definition uniformScalar :: "('s, 'p) edLib \<Rightarrow> byte list \<Rightarrow> keyError + ('s \<times> byte list)" where
  "uniformScalar ed rand =
     bindE (randRead 64 rand) (\<lambda>(seed, rand).
       case ed_setUniformBytes ed seed of None \<Rightarrow> Inl UniformFailed | Some x \<Rightarrow> Inr (x, rand))"

definition GenerateMasterKey :: "('s, 'p) edLib \<Rightarrow> byte list \<Rightarrow> keyError + (('s, 'p) KeyPair \<times> byte list)" where
  "GenerateMasterKey ed rand =
     bindE (uniformScalar ed rand) (\<lambda>(x, rand). Inr (\<lparr>kp_Private = x, kp_Public = ed_scalarBaseMult ed x\<rparr>, rand))"

definition SplitPrivateKey :: "('s, 'p) edLib \<Rightarrow> byte list \<Rightarrow> 's \<Rightarrow> keyError + (string \<times> byte list)" where
  "SplitPrivateKey ed rand x =
     bindE (uniformScalar ed rand) (\<lambda>(r, rand).
       let k = ed_subtract ed x r;
           full = take 32 (ed_scalarBytes ed r @ replicate 32 0) @ take 32 (ed_scalarBytes ed k @ replicate 32 0)
       in Inr (hexEncode full, rand))"

definition EncodePoint :: "('s, 'p) edLib \<Rightarrow> 'p \<Rightarrow> string" where
  "EncodePoint ed p = hexEncode (ed_pointBytes ed p)"

definition RecoverPublicKey :: "('s, 'p) edLib \<Rightarrow> string \<Rightarrow> keyError + 'p" where
  "RecoverPublicKey ed keyHex =
     (case hexDecode keyHex of
        None \<Rightarrow> Inl InvalidHex
      | Some keyBytes \<Rightarrow>
          if length keyBytes = 32 then
            (case ed_setCanonicalBytes ed keyBytes of
               None \<Rightarrow> Inl InvalidScalar
             | Some x \<Rightarrow> Inr (ed_scalarBaseMult ed x))
          else if length keyBytes = 64 then
            (case (ed_setCanonicalBytes ed (take 32 keyBytes), ed_setCanonicalBytes ed (drop 32 keyBytes)) of
               (Some r, Some k) \<Rightarrow> Inr (ed_scalarBaseMult ed (ed_add ed r k))
             | _ \<Rightarrow> Inl InvalidScalar)
          else Inl InvalidKeyLength)"

definition ClientAEADSeed :: "('s, 'p) edLib \<Rightarrow> string \<Rightarrow> string" where
  "ClientAEADSeed ed key =
     (let key = trimSpace key in
      if key = [] then []
      else (case hexDecode key of
          None \<Rightarrow> key
        | Some b \<Rightarrow>
            let point = (if length b = 32 then ed_setPoint ed b else None) in
            (case point of
               Some p \<Rightarrow> hexEncode (ed_pointBytes ed p)
             | None \<Rightarrow>
                 if length b \<noteq> 64 \<and> length b \<noteq> 32 then key
                 else (case RecoverPublicKey ed key of
                     Inr recovered \<Rightarrow> EncodePoint ed recovered
                   | Inl _ \<Rightarrow> key))))"

definition ServerAEADSeed :: "('s, 'p) edLib \<Rightarrow> string \<Rightarrow> string" where
  "ServerAEADSeed ed key =
     (let key = trimSpace key in
      if key = [] then []
      else (case hexDecode key of
          None \<Rightarrow> key
        | Some b \<Rightarrow>
            let point = (if length b = 32 then ed_setPoint ed b else None) in
            (case point of
               Some p \<Rightarrow> hexEncode (ed_pointBytes ed p)
             | None \<Rightarrow> ClientAEADSeed ed key)))"

definition GenKeyPair :: "('s, 'p) edLib \<Rightarrow> byte list \<Rightarrow> keyError + (string \<times> string)" where
  "GenKeyPair ed rand =
     bindE (GenerateMasterKey ed rand) (\<lambda>(pair, rand).
       bindE (SplitPrivateKey ed rand (kp_Private pair)) (\<lambda>(availablePrivateKey, rand).
         Inr (availablePrivateKey, EncodePoint ed (kp_Public pair))))"

section \<open>Both ends derive the same seed\<close>

text \<open>A hexadecimal text has no white space.\<close>

lemma hexDigit_not_space: "n < 16 \<Longrightarrow> \<not> isSpace (hexDigit n)"
proof -
  assume "n < 16"
  then have "hexVal (hexDigit n) = Some n" by (rule hexVal_hexDigit)
  then show ?thesis by (auto simp: isSpace_def hexVal_def Let_def)
qed

lemma hexEncode_not_space: "c \<in> set (hexEncode bs) \<Longrightarrow> \<not> isSpace c"
proof -
  assume "c \<in> set (hexEncode bs)"
  then obtain b where "c = hexDigit (unat (b :: byte) div 16) \<or> c = hexDigit (unat b mod 16)" by (auto simp: hexEncode_def)
  moreover have "unat b < 256" using unsigned_less [of b] by simp
  then have "unat b div 16 < 16" "unat b mod 16 < 16" by simp_all
  ultimately show ?thesis using hexDigit_not_space by blast
qed

lemma trimSpace_hexEncode [simp]: "trimSpace (hexEncode bs) = hexEncode bs"
  by (intro trimSpace_id) (auto dest: hexEncode_not_space)

lemma hexEncode_Nil [simp]: "hexEncode bs = [] \<longleftrightarrow> bs = []"
  by (auto simp: hexEncode_def)

locale key_group =
  fixes ed :: "('s, 'p) edLib"
  assumes canonical_scalar: "ed_setCanonicalBytes ed (ed_scalarBytes ed x) = Some x"
    and length_scalar: "length (ed_scalarBytes ed x) = 32"
    and canonical_point: "ed_setPoint ed (ed_pointBytes ed p) = Some p"
    and length_point: "length (ed_pointBytes ed p) = 32"
    and add_subtract: "ed_add ed r (ed_subtract ed x r) = x"
begin

lemma recover_split:
  assumes "SplitPrivateKey ed rand x = Inr (key, rand')"
  shows "\<exists>full. key = hexEncode full \<and> length full = 64 \<and> RecoverPublicKey ed key = Inr (ed_scalarBaseMult ed x)"
proof -
  from assms obtain r where r: "key = hexEncode (ed_scalarBytes ed r @ ed_scalarBytes ed (ed_subtract ed x r))"
    by (auto simp: SplitPrivateKey_def bindE_eq_Inr length_scalar Let_def)
  then show ?thesis
    by (intro exI [of _ "ed_scalarBytes ed r @ ed_scalarBytes ed (ed_subtract ed x r)"])
      (simp add: RecoverPublicKey_def length_scalar canonical_scalar add_subtract)
qed

lemma seed_of_public: "ServerAEADSeed ed (EncodePoint ed p) = EncodePoint ed p" "ClientAEADSeed ed (EncodePoint ed p) = EncodePoint ed p"
proof -
  have "ed_pointBytes ed p \<noteq> []" using length_point [of p] by auto
  then show "ServerAEADSeed ed (EncodePoint ed p) = EncodePoint ed p" "ClientAEADSeed ed (EncodePoint ed p) = EncodePoint ed p"
    by (simp_all add: ServerAEADSeed_def ClientAEADSeed_def EncodePoint_def length_point canonical_point)
qed

lemma seed_of_split:
  assumes "SplitPrivateKey ed rand x = Inr (key, rand')"
  shows "ClientAEADSeed ed key = EncodePoint ed (ed_scalarBaseMult ed x)" "ServerAEADSeed ed key = EncodePoint ed (ed_scalarBaseMult ed x)"
proof -
  obtain full where full: "key = hexEncode full" "length full = 64" "RecoverPublicKey ed key = Inr (ed_scalarBaseMult ed x)"
    using recover_split [OF assms] by blast
  moreover from full(2) have "full \<noteq> []" by auto
  ultimately show "ClientAEADSeed ed key = EncodePoint ed (ed_scalarBaseMult ed x)"
    "ServerAEADSeed ed key = EncodePoint ed (ed_scalarBaseMult ed x)"
    by (simp_all add: ServerAEADSeed_def ClientAEADSeed_def)
qed

lemma pair_seeds:
  assumes "GenKeyPair ed rand = Inr (priv, pub)"
  shows "ClientAEADSeed ed priv = pub \<and> ServerAEADSeed ed priv = pub
    \<and> ClientAEADSeed ed pub = pub \<and> ServerAEADSeed ed pub = pub"
proof -
  obtain x rand1 rand2 where x: "SplitPrivateKey ed rand1 x = Inr (priv, rand2)" "pub = EncodePoint ed (ed_scalarBaseMult ed x)"
    using assms by (auto simp: GenKeyPair_def GenerateMasterKey_def bindE_eq_Inr)
  then show ?thesis using seed_of_split [OF x(1)] seed_of_public by simp
qed

end

text \<open>An instance: scalars and points are bytes.\<close>

definition byteCurve :: "(byte, byte) edLib" where
  "byteCurve = \<lparr>ed_setUniformBytes = (\<lambda>bs. Some (hd bs)),
     ed_setCanonicalBytes = (\<lambda>bs. if length bs = 32 \<and> tl bs = replicate 31 0 then Some (hd bs) else None),
     ed_scalarBytes = (\<lambda>x. x # replicate 31 0), ed_add = (+), ed_subtract = (-), ed_scalarBaseMult = (\<lambda>x. x + 7),
     ed_setPoint = (\<lambda>bs. if length bs = 32 \<and> tl bs = replicate 31 1 then Some (hd bs) else None),
     ed_pointBytes = (\<lambda>p. p # replicate 31 1)\<rparr>"

interpretation byte_group: key_group byteCurve
  by unfold_locales (simp_all add: byteCurve_def)

text \<open>C34: Both ends of a generated key pair derive the same seed. Whatever the random bytes, the
  client with the split privateate key and the server with the public key use the public key's
  encoding as their seed, and each accepts the other's form of the key too.\<close>

theorem key_pair_seeds_agree:
  assumes "key_group ed" "GenKeyPair ed rand = Inr (priv, pub)"
  shows "ClientAEADSeed ed priv = pub \<and> ServerAEADSeed ed priv = pub
    \<and> ClientAEADSeed ed pub = pub \<and> ServerAEADSeed ed pub = pub"
  by (rule key_group.pair_seeds [OF assms])

theorem key_pair_seeds_agree_witness:
  "\<exists>priv pub. GenKeyPair byteCurve (replicate 64 3 @ replicate 64 5) = Inr (priv, pub)
     \<and> ClientAEADSeed byteCurve priv = ServerAEADSeed byteCurve pub \<and> hexDecode pub = Some (10 # replicate 31 1)"
proof -
  let ?priv = "hexEncode ((5 # replicate 31 0) @ ((3 - 5) # replicate 31 0))"
  let ?pub = "hexEncode (10 # replicate 31 1)"
  have gen: "GenKeyPair byteCurve (replicate 64 3 @ replicate 64 5) = Inr (?priv, ?pub)"
    by (simp add: GenKeyPair_def GenerateMasterKey_def uniformScalar_def randRead_def SplitPrivateKey_def byteCurve_def
        EncodePoint_def del: hexEncode_Nil)
  from key_pair_seeds_agree [OF byte_group.key_group_axioms gen] gen show ?thesis
    by (intro exI [of _ ?priv] exI [of _ ?pub]) simp
qed

end
