(* ===== verification/Table_Provider.thy ===== *)
theory Table_Provider
  imports Prelude
begin

text \<open>
  The lazy table builder of a user (TableProvider of transport/config.go): the first caller of
  Tables builds, the others wait for it, the result is cached until Release drops it. The
  sequential operations come first, then the goroutines that call Tables concurrently as a
  step relation: a critical section under the provider's lock is one step, a wait on the
  channel of the running build is another.

  The builder is a closure over fixed values, so it is a value here: an error, or a list of
  tables. An absent cache is the empty list and no error, as in the code, where a successful
  build without tables is turned into an error.
\<close>

datatype 'e providerError = BuildError 'e | NoTables | NilProvider

record ('t, 'e) TableProvider =
  tp_build :: "'e + 't list"
  tp_busy :: bool
  tp_ready :: nat
  tp_table :: "'t list"
  tp_err :: "'e providerError option"

definition NewTableProvider :: "'e + 't list \<Rightarrow> ('t, 'e) TableProvider" where
  "NewTableProvider build = \<lparr>tp_build = build, tp_busy = False, tp_ready = 0, tp_table = [], tp_err = None\<rparr>"

text \<open>What a build leaves behind.\<close>

definition buildResult :: "'e + 't list \<Rightarrow> 't list \<times> 'e providerError option" where
  "buildResult build =
     (case build of
        Inl e \<Rightarrow> ([], Some (BuildError e))
      | Inr tables \<Rightarrow> (tables, if tables = [] then Some NoTables else None))"

definition cached :: "('t, 'e) TableProvider \<Rightarrow> bool" where
  "cached p \<longleftrightarrow> tp_table p \<noteq> [] \<or> tp_err p \<noteq> None"

definition providerResult :: "('t, 'e) TableProvider \<Rightarrow> 'e providerError + 't list" where
  "providerResult p = (case tp_err p of Some e \<Rightarrow> Inl e | None \<Rightarrow> Inr (tp_table p))"

text \<open>The critical sections of Tables: a caller that finds no result and no running build claims
  the build and opens a new channel; when the build is done the result is stored and the
  channel closed.\<close>

definition claimBuild :: "('t, 'e) TableProvider \<Rightarrow> ('t, 'e) TableProvider" where
  "claimBuild p = p\<lparr>tp_busy := True, tp_ready := Suc (tp_ready p)\<rparr>"

definition finishBuild :: "('t, 'e) TableProvider \<Rightarrow> ('t, 'e) TableProvider" where
  "finishBuild p = (let (tables, err) = buildResult (tp_build p) in p\<lparr>tp_table := tables, tp_err := err, tp_busy := False\<rparr>)"

definition providerRelease :: "('t, 'e) TableProvider \<Rightarrow> ('t, 'e) TableProvider" where
  "providerRelease p = (if tp_busy p then p else p\<lparr>tp_table := [], tp_err := None\<rparr>)"

text \<open>Tables called by one goroutine with no other around: at most one build.\<close>

definition Tables :: "('t, 'e) TableProvider option \<Rightarrow> ('e providerError + 't list) \<times> ('t, 'e) TableProvider option" where
  "Tables p =
     (case p of
        None \<Rightarrow> (Inl NilProvider, None)
      | Some p \<Rightarrow> let p = (if cached p then p else finishBuild (claimBuild p)) in (providerResult p, Some p))"

lemma tp_build_New [simp]: "tp_build (NewTableProvider b) = b"
  by (simp add: NewTableProvider_def)

lemma Tables_New: "fst (Tables (Some (NewTableProvider b))) = Inr ts \<longleftrightarrow> b = Inr ts \<and> ts \<noteq> []"
  by (cases b) (auto simp: Tables_def NewTableProvider_def cached_def finishBuild_def claimBuild_def buildResult_def providerResult_def Let_def)

section \<open>Concurrent callers\<close>

datatype ('t, 'e) caller = CEnter | CWait nat | CBuild nat | CReturned "'e providerError + 't list"

record ('t, 'e) providerWorld =
  pw_provider :: "('t, 'e) TableProvider"
  pw_open :: "nat set"
  pw_callers :: "('t, 'e) caller list"

definition setCaller :: "nat \<Rightarrow> ('t, 'e) caller \<Rightarrow> ('t, 'e) providerWorld \<Rightarrow> ('t, 'e) providerWorld" where
  "setCaller i c w = w\<lparr>pw_callers := (pw_callers w)[i := c]\<rparr>"

inductive callerStep :: "nat \<Rightarrow> ('t, 'e) providerWorld \<Rightarrow> ('t, 'e) providerWorld \<Rightarrow> bool" where
  hit: "\<lbrakk>i < length (pw_callers w); pw_callers w ! i = CEnter; cached (pw_provider w)\<rbrakk> \<Longrightarrow>
     callerStep i w (setCaller i (CReturned (providerResult (pw_provider w))) w)"
| join: "\<lbrakk>i < length (pw_callers w); pw_callers w ! i = CEnter; \<not> cached (pw_provider w); tp_busy (pw_provider w)\<rbrakk> \<Longrightarrow>
     callerStep i w (setCaller i (CWait (tp_ready (pw_provider w))) w)"
| claim: "\<lbrakk>i < length (pw_callers w); pw_callers w ! i = CEnter; \<not> cached (pw_provider w); \<not> tp_busy (pw_provider w)\<rbrakk> \<Longrightarrow>
     callerStep i w (setCaller i (CBuild (Suc (tp_ready (pw_provider w))))
       (w\<lparr>pw_provider := claimBuild (pw_provider w), pw_open := insert (Suc (tp_ready (pw_provider w))) (pw_open w)\<rparr>))"
| finish: "\<lbrakk>i < length (pw_callers w); pw_callers w ! i = CBuild g\<rbrakk> \<Longrightarrow>
     callerStep i w (setCaller i CEnter (w\<lparr>pw_provider := finishBuild (pw_provider w), pw_open := pw_open w - {g}\<rparr>))"
| wake: "\<lbrakk>i < length (pw_callers w); pw_callers w ! i = CWait g; g \<notin> pw_open w\<rbrakk> \<Longrightarrow>
     callerStep i w (setCaller i CEnter w)"

inductive releaseStep :: "('t, 'e) providerWorld \<Rightarrow> ('t, 'e) providerWorld \<Rightarrow> bool" where
  release: "releaseStep w (w\<lparr>pw_provider := providerRelease (pw_provider w)\<rparr>)"

inductive_cases callerStepE: "callerStep i w w'"
inductive_cases releaseStepE: "releaseStep w w'"

definition startCallers :: "'e + 't list \<Rightarrow> nat \<Rightarrow> ('t, 'e) providerWorld" where
  "startCallers build n = \<lparr>pw_provider = NewTableProvider build, pw_open = {}, pw_callers = replicate n CEnter\<rparr>"

inductive reachableProvider :: "'e + 't list \<Rightarrow> nat \<Rightarrow> ('t, 'e) providerWorld \<Rightarrow> bool" for build n where
  start: "reachableProvider build n (startCallers build n)"
| call: "reachableProvider build n w \<Longrightarrow> callerStep i w w' \<Longrightarrow> reachableProvider build n w'"
| drop: "reachableProvider build n w \<Longrightarrow> releaseStep w w' \<Longrightarrow> reachableProvider build n w'"

section \<open>The invariant\<close>

text \<open>At most one goroutine builds, exactly while the provider is busy, on the newest channel,
  which is the only open one; a cached result is the builder's; whoever returned has it.\<close>

definition builders :: "('t, 'e) caller list \<Rightarrow> nat set" where
  "builders cs = {i. i < length cs \<and> (\<exists>g. cs ! i = CBuild g)}"

definition wantedResult :: "'e + 't list \<Rightarrow> 'e providerError + 't list" where
  "wantedResult build = (case buildResult build of (tables, Some e) \<Rightarrow> Inl e | (tables, None) \<Rightarrow> Inr tables)"

definition providerInv :: "'e + 't list \<Rightarrow> nat \<Rightarrow> ('t, 'e) providerWorld \<Rightarrow> bool" where
  "providerInv build n w \<longleftrightarrow>
     (let p = pw_provider w; cs = pw_callers w in
      tp_build p = build \<and> length cs = n
      \<and> (cached p \<longrightarrow> (tp_table p, tp_err p) = buildResult build \<and> \<not> tp_busy p)
      \<and> pw_open w = (if tp_busy p then {tp_ready p} else {})
      \<and> (\<forall>i g. i < length cs \<longrightarrow> cs ! i = CBuild g \<longrightarrow> tp_busy p \<and> g = tp_ready p)
      \<and> (if tp_busy p then \<exists>i. builders cs = {i} else builders cs = {})
      \<and> (\<forall>i r. i < length cs \<longrightarrow> cs ! i = CReturned r \<longrightarrow> r = wantedResult build))"

lemma providerResult_cached: "(tp_table p, tp_err p) = buildResult build \<Longrightarrow> providerResult p = wantedResult build"
  by (auto simp: providerResult_def wantedResult_def split: prod.splits option.splits)

lemma builders_update:
  assumes "i < length cs"
  shows "builders (cs[i := c]) = (if \<exists>g. c = CBuild g then insert i (builders cs) else builders cs - {i})"
  using assms by (auto simp: builders_def nth_list_update split: if_splits)

lemma buildResult_cached: "buildResult build = (tables, err) \<Longrightarrow> tables \<noteq> [] \<or> err \<noteq> None"
  by (auto simp: buildResult_def split: sum.splits if_splits)

lemma callerStep_inv:
  assumes "callerStep i w w'" "providerInv build n w"
  shows "providerInv build n w'"
  using assms(1)
proof cases
  case hit
  have "providerResult (pw_provider w) = wantedResult build"
    using assms(2) hit(4) by (intro providerResult_cached) (auto simp: providerInv_def Let_def)
  moreover have "builders ((pw_callers w)[i := CReturned (providerResult (pw_provider w))]) = builders (pw_callers w)"
    using hit(2, 3) by (auto simp: builders_update) (auto simp: builders_def)
  ultimately show ?thesis using assms(2) hit(1, 2)
    by (auto simp: providerInv_def setCaller_def Let_def nth_list_update split: if_splits)
next
  case join
  have "builders ((pw_callers w)[i := CWait (tp_ready (pw_provider w))]) = builders (pw_callers w)"
    using join(2, 3) by (auto simp: builders_update) (auto simp: builders_def)
  then show ?thesis using assms(2) join(1, 2, 5)
    by (auto simp: providerInv_def setCaller_def Let_def nth_list_update split: if_splits)
next
  case claim
  have "builders (pw_callers w) = {}" "pw_open w = {}" using assms(2) claim(5) by (auto simp: providerInv_def Let_def)
  then have "builders ((pw_callers w)[i := CBuild (Suc (tp_ready (pw_provider w)))]) = {i}"
    "\<forall>j g. j < length (pw_callers w) \<longrightarrow> pw_callers w ! j \<noteq> CBuild g"
    using claim(2) by (auto simp: builders_update) (auto simp: builders_def)
  then show ?thesis using assms(2) claim(1, 2, 4) \<open>pw_open w = {}\<close>
    by (auto simp: providerInv_def setCaller_def claimBuild_def cached_def Let_def nth_list_update split: if_splits)
next
  case (finish g)
  have busy: "tp_busy (pw_provider w)" "g = tp_ready (pw_provider w)" "tp_build (pw_provider w) = build"
    using assms(2) finish(2, 3) by (auto simp: providerInv_def Let_def)
  moreover have "i \<in> builders (pw_callers w)" using finish(2, 3) by (auto simp: builders_def)
  ultimately have "builders (pw_callers w) = {i}" using assms(2) by (auto simp: providerInv_def Let_def)
  then have b: "builders ((pw_callers w)[i := CEnter]) = {}" using finish(2) by (simp add: builders_update)
  then have "\<forall>j g. j < length (pw_callers w) \<longrightarrow> (pw_callers w)[i := CEnter] ! j \<noteq> CBuild g" by (auto simp: builders_def)
  then show ?thesis using assms(2) finish(1, 2) busy b
    by (auto simp: providerInv_def setCaller_def finishBuild_def Let_def nth_list_update split: if_splits prod.splits)
next
  case (wake g)
  have "builders ((pw_callers w)[i := CEnter]) = builders (pw_callers w)"
    using wake(2, 3) by (auto simp: builders_update) (auto simp: builders_def)
  then show ?thesis using assms(2) wake(1, 2)
    by (auto simp: providerInv_def setCaller_def Let_def nth_list_update split: if_splits)
qed

lemma releaseStep_inv: "releaseStep w w' \<Longrightarrow> providerInv build n w \<Longrightarrow> providerInv build n w'"
  by (elim releaseStepE) (auto simp: providerInv_def providerRelease_def cached_def Let_def)

lemma startCallers_inv: "providerInv build n (startCallers build n)"
  by (auto simp: providerInv_def startCallers_def NewTableProvider_def cached_def builders_def Let_def)

lemma reachable_providerInv: "reachableProvider build n w \<Longrightarrow> providerInv build n w"
  by (induction rule: reachableProvider.induct) (auto intro: startCallers_inv callerStep_inv releaseStep_inv)

section \<open>Progress\<close>

text \<open>A caller that has not returned can step, or waits for one that can.\<close>

lemma caller_progress:
  assumes "providerInv build n w" "i < length (pw_callers w)" "\<nexists>r. pw_callers w ! i = CReturned r"
  shows "\<exists>j w'. callerStep j w w'"
proof (cases "pw_callers w ! i")
  case CEnter
  then show ?thesis using assms(2) callerStep.hit callerStep.join callerStep.claim by metis
next
  case (CWait g)
  show ?thesis
  proof (cases "g \<in> pw_open w")
    case True
    then have "tp_busy (pw_provider w)" using assms(1) by (auto simp: providerInv_def Let_def split: if_splits)
    then obtain j where "builders (pw_callers w) = {j}" using assms(1) by (auto simp: providerInv_def Let_def)
    then obtain g' where "j < length (pw_callers w)" "pw_callers w ! j = CBuild g'" by (auto simp: builders_def)
    then show ?thesis using callerStep.finish by blast
  next
    case False
    then show ?thesis using callerStep.wake [OF assms(2) CWait] by blast
  qed
next
  case (CBuild g)
  then show ?thesis using callerStep.finish assms(2) by blast
next
  case (CReturned r)
  then show ?thesis using assms(3) by blast
qed

text \<open>Between two calls of Release the callers' steps run out. The measure: once a result is cached
  an entering caller returns at once and a waiting one after it woke; before that a caller
  enters, builds or waits for the running build, and a caller that missed a result which was
  dropped again has one more round.\<close>

fun callerRank :: "bool \<Rightarrow> nat set \<Rightarrow> ('t, 'e) caller \<Rightarrow> nat" where
  "callerRank hasResult opened CEnter = (if hasResult then 1 else 4)"
| "callerRank hasResult opened (CWait g) = (if hasResult then 2 else if g \<in> opened then 3 else 5)"
| "callerRank hasResult opened (CBuild g) = 3"
| "callerRank hasResult opened (CReturned r) = 0"

lemma callerRank_mono:
  "(hasResult \<longrightarrow> hasResult') \<Longrightarrow> hasResult' \<or> opened \<subseteq> opened' \<Longrightarrow> callerRank hasResult' opened' c \<le> callerRank hasResult opened c"
  by (cases c) auto

definition providerRank :: "('t, 'e) providerWorld \<Rightarrow> nat" where
  "providerRank w = sum_list (map (callerRank (cached (pw_provider w)) (pw_open w)) (pw_callers w))"

lemma sum_list_update_less:
  assumes "i < length xs" "g c < f (xs ! i)" "\<forall>x\<in>set xs. g x \<le> f x"
  shows "sum_list (map g (xs[i := c])) < (sum_list (map f xs) :: nat)"
  using assms
proof (induction xs arbitrary: i)
  case (Cons x xs)
  have le: "sum_list (map g xs) \<le> sum_list (map f xs)" using Cons.prems(3) by (intro sum_list_mono) auto
  show ?case
  proof (cases i)
    case 0
    then show ?thesis using Cons.prems(2) le by simp
  next
    case (Suc j)
    then have "sum_list (map g (xs[j := c])) < sum_list (map f xs)" using Cons by auto
    moreover have "g x \<le> f x" using Cons.prems(3) by simp
    ultimately show ?thesis using Suc by simp
  qed
qed simp

lemma rank_step:
  fixes w :: "('t, 'e) providerWorld"
  assumes "i < length (pw_callers w)" "w' = setCaller i c (w\<lparr>pw_provider := p, pw_open := opened\<rparr>)"
    and "callerRank (cached p) opened c < callerRank (cached (pw_provider w)) (pw_open w) (pw_callers w ! i)"
    and "\<And>x :: ('t, 'e) caller. callerRank (cached p) opened x \<le> callerRank (cached (pw_provider w)) (pw_open w) x"
  shows "providerRank w' < providerRank w"
  using assms by (simp add: providerRank_def setCaller_def sum_list_update_less)

lemma callerStep_rank:
  assumes "callerStep i w w'" "providerInv build n w"
  shows "providerRank w' < providerRank w"
  using assms(1)
proof cases
  case hit
  then show ?thesis by (intro rank_step [OF hit(2), where p = "pw_provider w" and opened = "pw_open w" and c = "CReturned (providerResult (pw_provider w))"]) simp_all
next
  case join
  have "tp_ready (pw_provider w) \<in> pw_open w" using assms(2) join(5) by (simp add: providerInv_def Let_def)
  with join show ?thesis by (intro rank_step [OF join(2), where p = "pw_provider w" and opened = "pw_open w" and c = "CWait (tp_ready (pw_provider w))"]) simp_all
next
  case claim
  then have "\<not> cached (claimBuild (pw_provider w))" by (simp add: claimBuild_def cached_def)
  with claim show ?thesis by (intro rank_step [OF claim(2) claim(1)] callerRank_mono) auto
next
  case (finish g)
  have "cached (finishBuild (pw_provider w))"
    using buildResult_cached [of "tp_build (pw_provider w)"] by (auto simp: finishBuild_def cached_def split: prod.split)
  moreover have "\<not> cached (pw_provider w)" using assms(2) finish(2, 3) by (auto simp: providerInv_def Let_def)
  ultimately show ?thesis using finish by (intro rank_step [OF finish(2) finish(1)] callerRank_mono) auto
next
  case (wake g)
  then show ?thesis by (intro rank_step [OF wake(2), where p = "pw_provider w" and opened = "pw_open w" and c = CEnter]) simp_all
qed

lemma providerRank_bound:
  fixes w :: "('t, 'e) providerWorld"
  shows "providerRank w \<le> 5 * length (pw_callers w)"
proof -
  have one: "callerRank b opened c \<le> 5" for b opened and c :: "('t, 'e) caller" by (cases c) auto
  have "sum_list (map (callerRank b opened) cs) \<le> 5 * length cs" for b opened and cs :: "('t, 'e) caller list"
  proof (induction cs)
    case (Cons c cs)
    then show ?case using one [of b opened c] by simp
  qed simp
  then show ?thesis by (simp add: providerRank_def)
qed

definition someStep :: "('t, 'e) providerWorld \<Rightarrow> ('t, 'e) providerWorld \<Rightarrow> bool" where
  "someStep w w' \<longleftrightarrow> (\<exists>i. callerStep i w w')"

lemma someSteps_rank:
  "(someStep ^^ k) w w' \<Longrightarrow> providerInv build n w \<Longrightarrow> providerInv build n w' \<and> k + providerRank w' \<le> providerRank w"
proof (induction k arbitrary: w')
  case (Suc k)
  then obtain v where v: "(someStep ^^ k) w v" "someStep v w'" by auto
  then have IH: "providerInv build n v" "k + providerRank v \<le> providerRank w" using Suc by auto
  from v(2) obtain i where "callerStep i v w'" by (auto simp: someStep_def)
  from callerStep_inv [OF this IH(1)] callerStep_rank [OF this IH(1)] IH(2) show ?case by simp
qed simp

text \<open>C17: Concurrent callers of a lazy table provider share one build and all return. In every
  reachable state, with any number of callers and calls of Release before, at most one
  goroutine builds. From there at most five steps per caller are possible until Release is
  called again, and when no step is left every caller has returned the builder's result:
  its tables, its error, or the error for a build without tables. Nobody is left waiting.\<close>

theorem provider_callers_return:
  assumes "reachableProvider build n w" "(someStep ^^ k) w w'"
  shows "card (builders (pw_callers w)) \<le> 1 \<and> k \<le> 5 * n
    \<and> ((\<nexists>w''. someStep w' w'') \<longrightarrow> (\<forall>i<n. pw_callers w' ! i = CReturned (wantedResult build)))"
proof (intro conjI impI allI)
  have inv: "providerInv build n w" using assms(1) by (rule reachable_providerInv)
  note run = someSteps_rank [OF assms(2) inv]
  show "card (builders (pw_callers w)) \<le> 1" using inv by (auto simp: providerInv_def Let_def split: if_splits)
  show "k \<le> 5 * n" using run providerRank_bound [of w] inv by (simp add: providerInv_def Let_def)
  fix i
  assume stuck: "\<nexists>w''. someStep w' w''" and "i < n"
  then have i: "i < length (pw_callers w')" using run by (simp add: providerInv_def Let_def)
  then obtain r where "pw_callers w' ! i = CReturned r" using caller_progress [of build n w' i] run stuck by (auto simp: someStep_def)
  then show "pw_callers w' ! i = CReturned (wantedResult build)" using run i by (auto simp: providerInv_def Let_def)
qed

theorem provider_callers_return_witness:
  "\<exists>w. (someStep ^^ 2) (startCallers (Inr [7::nat]) 1) w \<and> (2::nat) \<le> 5 * 1
     \<and> pw_callers w = [CEnter :: (nat, nat) caller] \<and> tp_table (pw_provider w) = [7]"
proof -
  define w0 where "w0 = (startCallers (Inr [7]) 1 :: (nat, nat) providerWorld)"
  define w1 where "w1 = setCaller 0 (CBuild 1) (w0\<lparr>pw_provider := claimBuild (pw_provider w0), pw_open := {1}\<rparr>)"
  define w2 where "w2 = setCaller 0 CEnter (w1\<lparr>pw_provider := finishBuild (pw_provider w1), pw_open := pw_open w1 - {1}\<rparr>)"
  note defs = w0_def w1_def startCallers_def NewTableProvider_def setCaller_def
  have "callerStep 0 w0 w1" using callerStep.claim [of 0 w0] by (simp add: defs cached_def)
  moreover have "callerStep 0 w1 w2" unfolding w2_def by (rule callerStep.finish) (simp_all add: defs)
  ultimately have run: "(someStep ^^ 2) (startCallers (Inr [7]) 1) w2"
    by (auto simp: numeral_2_eq_2 someStep_def w0_def relcompp_apply)
  from provider_callers_return [OF reachableProvider.start run] run show ?thesis
    by (intro exI [of _ w2]) (simp add: w2_def defs claimBuild_def finishBuild_def buildResult_def)
qed

end
