(* ===== verification/Http_Path.thy ===== *)
theory Http_Path
  imports Route_Match
begin

text \<open>
  The path prefix of the HTTP mask (obfs/httpmask/pathroot.go): one path segment the operator
  may configure, put before every path a client asks for and taken off again by the server.
\<close>

definition trimChar :: "char \<Rightarrow> string \<Rightarrow> string" where
  "trimChar c s = rev (dropWhile (\<lambda>d. d = c) (rev (dropWhile (\<lambda>d. d = c) s)))"

definition isRootChar :: "char \<Rightarrow> bool" where
  "isRootChar c \<longleftrightarrow>
     (let n = (of_char c :: nat) in
      97 \<le> n \<and> n \<le> 122 \<or> 65 \<le> n \<and> n \<le> 90 \<or> 48 \<le> n \<and> n \<le> 57 \<or> c = CHR ''_'' \<or> c = CHR ''-'')"

definition normalizePathRoot :: "string \<Rightarrow> string" where
  "normalizePathRoot root =
     (let root = trimChar (CHR ''/'') (trimSpace root) in
      if root = [] then [] else if \<not> list_all isRootChar root then [] else ''/'' @ root)"

definition joinPathRoot :: "string \<Rightarrow> string \<Rightarrow> string" where
  "joinPathRoot root path =
     (let root = normalizePathRoot root in
      if root = [] then path
      else if path = [] then root
      else if \<not> hasPrefix path ''/'' then root @ ''/'' @ path
      else root @ path)"

definition stripPathRoot :: "string \<Rightarrow> string \<Rightarrow> string option" where
  "stripPathRoot root fullPath =
     (let root = normalizePathRoot root in
      if root = [] then Some fullPath
      else if \<not> hasPrefix fullPath (root @ ''/'') then None
      else Some (trimPrefix fullPath root))"

lemma isRootChar_props: "isRootChar c \<Longrightarrow> c \<noteq> CHR ''/'' \<and> \<not> isSpace c"
  by (auto simp: isRootChar_def isSpace_def Let_def)

lemma dropWhile_none: "c \<notin> set s \<Longrightarrow> dropWhile (\<lambda>d. d = c) s = s"
  by (cases s) auto

lemma root_no_slash: "list_all isRootChar r \<Longrightarrow> CHR ''/'' \<notin> set r"
  by (auto simp: list_all_iff dest: isRootChar_props)

lemma trimChar_root [simp]: "list_all isRootChar r \<Longrightarrow> trimChar (CHR ''/'') r = r"
  using root_no_slash by (simp add: trimChar_def dropWhile_none)

lemma normalizePathRoot_cases:
  obtains "normalizePathRoot root = []" | r where "normalizePathRoot root = ''/'' @ r" "r \<noteq> []" "list_all isRootChar r"
proof -
  define r where "r = trimChar (CHR ''/'') (trimSpace root)"
  then have "normalizePathRoot root = (if r = [] then [] else if \<not> list_all isRootChar r then [] else ''/'' @ r)"
    by (simp add: normalizePathRoot_def)
  then show thesis using that by (cases "r = [] \<or> \<not> list_all isRootChar r") auto
qed

lemma trimSpace_slash_root: "list_all isRootChar r \<Longrightarrow> trimSpace (CHR ''/'' # r) = CHR ''/'' # r"
proof -
  assume "list_all isRootChar r"
  then have "\<forall>c\<in>set r. \<not> isSpace c" using isRootChar_props by (auto simp: list_all_iff)
  then have "\<forall>c\<in>set (CHR ''/'' # r). \<not> isSpace c" by (simp add: isSpace_def)
  then show ?thesis by (rule trimSpace_id)
qed

lemma normalizePathRoot_idem [simp]: "normalizePathRoot (normalizePathRoot root) = normalizePathRoot root"
proof (cases rule: normalizePathRoot_cases [of root])
  case 1
  then show ?thesis by (simp add: normalizePathRoot_def trimChar_def)
next
  case (2 r)
  then have "trimChar (CHR ''/'') (trimSpace (CHR ''/'' # r)) = r"
    using root_no_slash [OF 2(3)] 2(3) by (simp add: trimSpace_slash_root trimChar_def dropWhile_none)
  with 2 show ?thesis by (simp add: normalizePathRoot_def Let_def)
qed

text \<open>The server takes off exactly the prefix the client put before a path. For every
  configured root, valid or not, and every absolute path, stripping the joined path gives the
  path back; and a root that is in use refuses every path that does not start with it.\<close>

lemma path_root_round_trip:
  assumes "hasPrefix path ''/''"
  shows "stripPathRoot root (joinPathRoot root path) = Some path
    \<and> (normalizePathRoot root \<noteq> [] \<longrightarrow> \<not> hasPrefix path (normalizePathRoot root @ ''/'') \<longrightarrow> stripPathRoot root path = None)"
proof (cases rule: normalizePathRoot_cases [of root])
  case 1
  then show ?thesis by (simp add: stripPathRoot_def joinPathRoot_def)
next
  case (2 r)
  obtain p where "path = ''/'' @ p" using assms by (cases path) (auto simp: hasPrefix_def)
  with 2(1) show ?thesis by (simp add: stripPathRoot_def joinPathRoot_def hasPrefix_def trimPrefix_def)
qed

end
