(* ===== verification/Proto_Config.thy ===== *)
theory Proto_Config
  imports Table_Provider Http_Path Sudoku_Layout
begin

text \<open>
  The configuration of one protocol endpoint (transport/config.go): the fields, their validation,
  the modes derived from them, the defaults of padding, and where the candidate tables come
  from. A table that may be a nil pointer is an option; the limiter of the handshake probes is
  the identity of its channel.
\<close>

record ('t, 'e) ProtocolConfig =
  pc_ServerAddress :: string
  pc_Key :: string
  pc_AEADMethod :: string
  pc_Table :: "'t option"
  pc_Tables :: "'t option list"
  pc_TableProvider :: "('t, 'e) TableProvider option"
  pc_TableFallbackProvider :: "('t, 'e) TableProvider option"
  pc_PaddingMin :: int
  pc_PaddingMax :: int
  pc_EnablePureDownlink :: bool
  pc_TargetAddress :: string
  pc_HandshakeTimeoutSeconds :: int
  pc_HandshakeProbeLimiter :: "nat option"
  pc_DisableHTTPMask :: bool
  pc_HTTPMaskMode :: string
  pc_HTTPMaskTLSEnabled :: bool
  pc_HTTPMaskHost :: string
  pc_HTTPMaskPathRoot :: string
  pc_Multiplex :: string
  pc_HTTPMaskMultiplex :: string

datatype configError = TableMissing | TableNil nat | KeyEmpty | InvalidAEADMethod string | PaddingMinRange int | PaddingMaxRange int
  | PaddingOrder int int | TimeoutNegative int | InvalidMaskMode string | PathRootSegment | PathRootChar char
  | InvalidMultiplex string | InvalidMaskMultiplex string | ServerAddressEmpty | TargetAddressEmpty | ConfigNil | NoCandidates

definition NormalizeMultiplexMode :: "string \<Rightarrow> string option" where
  "NormalizeMultiplexMode mode =
     (let m = toLower (trimSpace mode) in
      if m = [] \<or> m = ''off'' then Some ''off''
      else if m = ''auto'' then Some ''auto''
      else if m = ''on'' then Some ''on''
      else None)"

text \<open>The checks on the path root: a single segment of plain characters, if there is one.\<close>

definition validatePathRoot :: "string \<Rightarrow> configError option" where
  "validatePathRoot root =
     (let v = trimSpace root in
      if v = [] then None
      else let v = trimChar (CHR ''/'') v in
        if v = [] \<or> CHR ''/'' \<in> set v then Some PathRootSegment
        else map_option PathRootChar (find (\<lambda>ch. \<not> isRootChar ch) v))"

definition validMaskModes :: "string list" where
  "validMaskModes = [[], ''legacy'', ''stream'', ''poll'', ''auto'', ''ws'']"

definition Validate :: "('t, 'e) ProtocolConfig \<Rightarrow> configError option" where
  "Validate c =
     (if pc_Table c = None \<and> pc_Tables c = [] \<and> pc_TableProvider c = None then Some TableMissing
      else (case find (\<lambda>(i, t). t = None) (List.enumerate 0 (pc_Tables c)) of
          Some (i, t) \<Rightarrow> Some (TableNil i)
        | None \<Rightarrow>
            if pc_Key c = [] then Some KeyEmpty
            else if pc_AEADMethod c \<notin> {''aes-128-gcm'', ''chacha20-poly1305'', ''none''} then Some (InvalidAEADMethod (pc_AEADMethod c))
            else if pc_PaddingMin c < 0 \<or> pc_PaddingMin c > 100 then Some (PaddingMinRange (pc_PaddingMin c))
            else if pc_PaddingMax c < 0 \<or> pc_PaddingMax c > 100 then Some (PaddingMaxRange (pc_PaddingMax c))
            else if pc_PaddingMax c < pc_PaddingMin c then Some (PaddingOrder (pc_PaddingMax c) (pc_PaddingMin c))
            else if pc_HandshakeTimeoutSeconds c < 0 then Some (TimeoutNegative (pc_HandshakeTimeoutSeconds c))
            else if toLower (trimSpace (pc_HTTPMaskMode c)) \<notin> set validMaskModes then Some (InvalidMaskMode (pc_HTTPMaskMode c))
            else (case validatePathRoot (pc_HTTPMaskPathRoot c) of
                Some e \<Rightarrow> Some e
              | None \<Rightarrow>
                  if NormalizeMultiplexMode (pc_Multiplex c) = None then Some (InvalidMultiplex (pc_Multiplex c))
                  else if NormalizeMultiplexMode (pc_HTTPMaskMultiplex c) = None then Some (InvalidMaskMultiplex (pc_HTTPMaskMultiplex c))
                  else None)))"

definition ValidateClient :: "('t, 'e) ProtocolConfig \<Rightarrow> configError option" where
  "ValidateClient c =
     (case Validate c of
        Some e \<Rightarrow> Some e
      | None \<Rightarrow>
          if pc_ServerAddress c = [] then Some ServerAddressEmpty
          else if pc_TargetAddress c = [] then Some TargetAddressEmpty else None)"

definition zeroConfig :: "('t, 'e) ProtocolConfig" where
  "zeroConfig = \<lparr>pc_ServerAddress = [], pc_Key = [], pc_AEADMethod = [], pc_Table = None, pc_Tables = [], pc_TableProvider = None,
     pc_TableFallbackProvider = None, pc_PaddingMin = 0, pc_PaddingMax = 0, pc_EnablePureDownlink = False, pc_TargetAddress = [],
     pc_HandshakeTimeoutSeconds = 0, pc_HandshakeProbeLimiter = None, pc_DisableHTTPMask = False, pc_HTTPMaskMode = [],
     pc_HTTPMaskTLSEnabled = False, pc_HTTPMaskHost = [], pc_HTTPMaskPathRoot = [], pc_Multiplex = [], pc_HTTPMaskMultiplex = []\<rparr>"

definition DefaultConfig :: "('t, 'e) ProtocolConfig" where
  "DefaultConfig = zeroConfig\<lparr>pc_AEADMethod := ''chacha20-poly1305'', pc_PaddingMin := 10, pc_PaddingMax := 30,
     pc_EnablePureDownlink := True, pc_HandshakeTimeoutSeconds := 5, pc_HTTPMaskMode := ''legacy'', pc_Multiplex := ''off''\<rparr>"

text \<open>MultiplexMode: the legacy field wins when both are set; a mode that cannot be read is off.\<close>

fun firstMode :: "string list \<Rightarrow> string" where
  "firstMode [] = ''off''"
| "firstMode (mode # modes) =
     (if trimSpace mode = [] then firstMode modes
      else (case NormalizeMultiplexMode mode of Some normalized \<Rightarrow> normalized | None \<Rightarrow> ''off''))"

definition MultiplexMode :: "('t, 'e) ProtocolConfig option \<Rightarrow> string" where
  "MultiplexMode c = (case c of None \<Rightarrow> ''off'' | Some c \<Rightarrow> firstMode [pc_HTTPMaskMultiplex c, pc_Multiplex c])"

definition SessionMuxEnabled :: "('t, 'e) ProtocolConfig option \<Rightarrow> bool" where
  "SessionMuxEnabled c \<longleftrightarrow> MultiplexMode c = ''on''"

definition DerefInt :: "int option \<Rightarrow> int \<Rightarrow> int" where
  "DerefInt v d = (case v of None \<Rightarrow> d | Some v \<Rightarrow> v)"

definition ResolvePadding :: "int option \<Rightarrow> int option \<Rightarrow> int \<Rightarrow> int \<Rightarrow> int \<times> int" where
  "ResolvePadding mn mx defMin defMax =
     (let paddingMin = DerefInt mn defMin; paddingMax = DerefInt mx defMax in
      if mn = None \<and> mx \<noteq> None \<and> paddingMax < paddingMin then (paddingMax, paddingMax)
      else if mx = None \<and> mn \<noteq> None \<and> paddingMax < paddingMin then (paddingMin, paddingMin)
      else (paddingMin, paddingMax))"

definition NormalizeTableType :: "string \<Rightarrow> layoutError + string" where
  "NormalizeTableType tableType = NormalizeASCIIMode tableType"

text \<open>The candidate tables and what a failed handshake gives back. Asking a provider may fill its
  cache, so the configuration is returned too.\<close>

definition resolveTableCandidates ::
    "('t, 'e) ProtocolConfig option \<Rightarrow> ((configError + 'e providerError) + 't option list) \<times> ('t, 'e) ProtocolConfig option" where
  "resolveTableCandidates c =
     (case c of
        None \<Rightarrow> (Inl (Inl ConfigNil), None)
      | Some c \<Rightarrow>
          if pc_Tables c \<noteq> [] then (Inr (pc_Tables c), Some c)
          else if pc_Table c \<noteq> None then (Inr [pc_Table c], Some c)
          else if pc_TableProvider c \<noteq> None then
            (case Tables (pc_TableProvider c) of
               (Inl e, p) \<Rightarrow> (Inl (Inr e), Some (c\<lparr>pc_TableProvider := p\<rparr>))
             | (Inr ts, p) \<Rightarrow> (Inr (map Some ts), Some (c\<lparr>pc_TableProvider := p\<rparr>)))
          else (Inl (Inl NoCandidates), Some c))"

definition tableCandidates :: "('t, 'e) ProtocolConfig option \<Rightarrow> 't option list \<times> ('t, 'e) ProtocolConfig option" where
  "tableCandidates c =
     (case c of
        None \<Rightarrow> ([], None)
      | Some c \<Rightarrow>
          if pc_Tables c \<noteq> [] then (pc_Tables c, Some c)
          else if pc_Table c \<noteq> None then ([pc_Table c], Some c)
          else if pc_TableProvider c \<noteq> None then
            (case Tables (pc_TableProvider c) of
               (r, p) \<Rightarrow> (case r of Inl e \<Rightarrow> [] | Inr ts \<Rightarrow> map Some ts, Some (c\<lparr>pc_TableProvider := p\<rparr>)))
          else ([], Some c))"

definition ReleaseTableCandidates :: "('t, 'e) ProtocolConfig option \<Rightarrow> ('t, 'e) ProtocolConfig option" where
  "ReleaseTableCandidates c =
     (case c of
        None \<Rightarrow> None
      | Some c \<Rightarrow>
          if pc_Tables c \<noteq> [] \<or> pc_Table c \<noteq> None then Some c
          else Some (c\<lparr>pc_TableProvider := map_option providerRelease (pc_TableProvider c),
                       pc_TableFallbackProvider := map_option providerRelease (pc_TableFallbackProvider c)\<rparr>))"

section \<open>What validation guarantees\<close>

text \<open>A root the configuration accepts is the one the path functions use: it is never silently
  ignored.\<close>

lemma validatePathRoot_iff:
  "validatePathRoot root = None \<longleftrightarrow> trimSpace root = [] \<or> normalizePathRoot root \<noteq> []"
proof -
  let ?v = "trimChar (CHR ''/'') (trimSpace root)"
  have nil: "trimSpace root = [] \<Longrightarrow> ?v = []" by (simp add: trimChar_def)
  have fnd: "find (\<lambda>ch. \<not> isRootChar ch) ?v = None \<longleftrightarrow> list_all isRootChar ?v" by (auto simp: find_None_iff list_all_iff)
  have slash: "list_all isRootChar ?v \<Longrightarrow> CHR ''/'' \<notin> set ?v" by (auto simp: list_all_iff dest: isRootChar_props)
  show ?thesis using nil fnd slash by (auto simp: validatePathRoot_def normalizePathRoot_def Let_def)
qed

lemma Validate_parts:
  assumes "Validate c = None"
  shows "pc_Key c \<noteq> []" "pc_AEADMethod c \<in> {''aes-128-gcm'', ''chacha20-poly1305'', ''none''}"
    "0 \<le> pc_PaddingMin c" "pc_PaddingMin c \<le> pc_PaddingMax c" "pc_PaddingMax c \<le> 100" "None \<notin> set (pc_Tables c)"
    "toLower (trimSpace (pc_HTTPMaskMode c)) \<in> set validMaskModes" "validatePathRoot (pc_HTTPMaskPathRoot c) = None"
    "NormalizeMultiplexMode (pc_Multiplex c) \<noteq> None" "NormalizeMultiplexMode (pc_HTTPMaskMultiplex c) \<noteq> None"
    "pc_Table c \<noteq> None \<or> pc_Tables c \<noteq> [] \<or> pc_TableProvider c \<noteq> None" "0 \<le> pc_HandshakeTimeoutSeconds c"
proof -
  have tabs: "find (\<lambda>(i, t). t = None) (List.enumerate 0 (pc_Tables c)) = None"
    using assms by (auto simp: Validate_def split: if_splits option.splits)
  have "t \<noteq> None" if mem: "t \<in> set (pc_Tables c)" for t
  proof -
    obtain i where "i < length (pc_Tables c)" "pc_Tables c ! i = t" using mem by (metis in_set_conv_nth)
    then have "(i, t) \<in> set (List.enumerate 0 (pc_Tables c))" by (auto simp: in_set_enumerate_eq)
    then show ?thesis using tabs by (cases t) (auto simp: find_None_iff)
  qed
  then show "None \<notin> set (pc_Tables c)" by blast
qed (use assms in \<open>auto simp: Validate_def split: if_splits option.splits\<close>)

text \<open>Validation looks at whether there are tables and a key, not at which.\<close>

lemma Validate_cong:
  assumes "pc_Tables c = pc_Tables d" "(pc_Table c = None) = (pc_Table d = None)" "(pc_TableProvider c = None) = (pc_TableProvider d = None)"
    and "(pc_Key c = []) = (pc_Key d = [])" "pc_AEADMethod c = pc_AEADMethod d" "pc_PaddingMin c = pc_PaddingMin d"
    "pc_PaddingMax c = pc_PaddingMax d" "pc_HandshakeTimeoutSeconds c = pc_HandshakeTimeoutSeconds d" "pc_HTTPMaskMode c = pc_HTTPMaskMode d"
    "pc_HTTPMaskPathRoot c = pc_HTTPMaskPathRoot d" "pc_Multiplex c = pc_Multiplex d" "pc_HTTPMaskMultiplex c = pc_HTTPMaskMultiplex d"
  shows "Validate c = Validate d"
  unfolding Validate_def assms by (rule refl)

lemma NormalizeMultiplexMode_idem: "NormalizeMultiplexMode mode = Some m \<Longrightarrow> NormalizeMultiplexMode m = Some m"
proof -
  have "NormalizeMultiplexMode ''off'' = Some ''off''" "NormalizeMultiplexMode ''auto'' = Some ''auto''" "NormalizeMultiplexMode ''on'' = Some ''on''"
    by (simp_all add: NormalizeMultiplexMode_def toLower_def trimSpace_def isSpace_def toLowerChar_def)
  moreover assume "NormalizeMultiplexMode mode = Some m"
  then have "m = ''off'' \<or> m = ''auto'' \<or> m = ''on''" by (simp add: NormalizeMultiplexMode_def Let_def split: if_splits)
  ultimately show ?thesis by auto
qed

text \<open>Defaults in order stay in order when one side is given, and a given side is kept.\<close>

lemma ResolvePadding_props:
  assumes "ResolvePadding mn mx defMin defMax = (a, b)" "defMin \<le> defMax"
  shows "(mn = None \<or> mx = None) \<longrightarrow> a \<le> b" "mn = Some x \<Longrightarrow> a = x" "mx = Some y \<Longrightarrow> b = y"
  using assms by (auto simp: ResolvePadding_def DerefInt_def Let_def split: if_splits option.splits)

text \<open>Releasing the candidates does not change what they are.\<close>

definition sourcesOf :: "('t, 'e) ProtocolConfig \<Rightarrow> 't option list \<times> 't option \<times> ('e + 't list) option" where
  "sourcesOf c = (pc_Tables c, pc_Table c, map_option tp_build (pc_TableProvider c))"

lemma release_keeps_sources: "ReleaseTableCandidates (Some c) = Some c' \<Longrightarrow> sourcesOf c' = sourcesOf c"
  by (cases "pc_TableProvider c") (auto simp: ReleaseTableCandidates_def sourcesOf_def providerRelease_def split: if_splits)

end
