(* ===== verification/Sudoku_Users.thy ===== *)
theory Sudoku_Users
  imports Proto_Config Sudoku_Table Key_Material Kip Sudoku_Route Limiter
begin

text \<open>
  The user configurations of a Sudoku listener (core/sudoku/server.go): every user of the panel
  gets a protocol configuration with its candidate tables, found by the hash of its key; large
  user lists build their tables lazily; a synchronisation reuses the configurations that did
  not change; the HTTP mask tunnel is one object for all users of the listener.

  A snapshot holds the configurations by value: after the build only the probe limiter and the
  caches of the providers change, which sourcesOf leaves out. The configuration pointer of an
  entry is never nil. Tunnels are shared pointers, indices into a store. Go iterates over the
  map of users in an order of its own, so the users come as a list in that order.
\<close>

section \<open>The panel's node\<close>

record ProtocolSettings =
  ps_AEADMethod :: string
  ps_PaddingMin :: int
  ps_PaddingMax :: int
  ps_TableType :: string
  ps_EnablePureDownlink :: bool
  ps_HTTPMask :: bool
  ps_HTTPMaskMode :: string
  ps_HTTPMaskTLS :: bool
  ps_HTTPMaskHost :: string
  ps_PathRoot :: string
  ps_Multiplex :: string
  ps_CustomTable :: string
  ps_CustomTables :: "string list"

record CommonNode =
  cn_ListenIP :: string
  cn_ServerPort :: int
  cn_TransportProtocol :: string
  cn_ProtocolSettings :: ProtocolSettings
  cn_Routes :: "Route list"

record NodeInfo =
  ni_Type :: string
  ni_Common :: "CommonNode option"

datatype sudokuError = NodeConfigMissing | WrongProtocol string | WrongTransport | WrongPort | WrongTableType layoutError
  | WrongMultiplex string | EmptyUUID int | DuplicateHash | TableBuildFailed int "layoutError providerError"
  | ConfigRejected int configError | RoutesRejected routeError | ListenFailed string | CloseFailed string | StopTimeout

definition validateNodeInfo :: "NodeInfo option \<Rightarrow> sudokuError option" where
  "validateNodeInfo info =
     (case info of
        None \<Rightarrow> Some NodeConfigMissing
      | Some info \<Rightarrow>
          (case ni_Common info of
             None \<Rightarrow> Some NodeConfigMissing
           | Some common \<Rightarrow>
               let transport = toUpper (trimSpace (cn_TransportProtocol common)) in
               if toLower (trimSpace (ni_Type info)) \<noteq> ''sudoku'' then Some (WrongProtocol (ni_Type info))
               else if transport \<noteq> [] \<and> transport \<noteq> ''TCP'' then Some WrongTransport
               else if cn_ServerPort common < 1 \<or> cn_ServerPort common > 65535 then Some WrongPort
               else None))"

section \<open>One user\<close>

type_synonym config = "(LinkedTable, layoutError) ProtocolConfig"

record userConfig =
  uc_user :: UserInfo
  uc_cfg :: config
  uc_tunnel :: "nat option"
  uc_tableFingerprint :: string

record userConfigSnapshot =
  sn_byHash :: "(string \<times> userConfig) list"
  sn_entries :: "userConfig list"

text \<open>What is not in the repository, or random: the draws and fingerprints of the tables, the hash
  function, the seed of a key (Key_Material) over the curve.\<close>

record buildEnv =
  be_draws :: "string \<Rightarrow> nat \<Rightarrow> nat"
  be_fp :: "string \<Rightarrow> u32"
  be_sha256 :: "byte list \<Rightarrow> byte list"
  be_seed :: "string \<Rightarrow> string"

definition eagerSudokuTableUserLimit :: nat where "eagerSudokuTableUserLimit = 8"

text \<open>The settings every user of the node shares.\<close>

record nodeSettings =
  ns_aead :: string
  ns_tableType :: string
  ns_httpMaskMode :: string
  ns_multiplex :: string

definition normalizeSettings :: "ProtocolSettings \<Rightarrow> sudokuError + nodeSettings" where
  "normalizeSettings ps =
     (let aead = toLower (trimSpace (ps_AEADMethod ps));
          aead = (if aead = [] then ''chacha20-poly1305'' else aead);
          tableType = trimSpace (ps_TableType ps);
          tableType = (if tableType = [] then ''prefer_entropy'' else tableType) in
      bindE (mapErr WrongTableType (NormalizeTableType tableType)) (\<lambda>tableType.
        let mode = toLower (trimSpace (ps_HTTPMaskMode ps));
            mode = (if mode = [] then ''legacy'' else if mode = ''split-stream'' then ''stream'' else mode) in
        (case NormalizeMultiplexMode (ps_Multiplex ps) of
           None \<Rightarrow> Inl (WrongMultiplex (ps_Multiplex ps))
         | Some multiplex \<Rightarrow>
             Inr \<lparr>ns_aead = aead, ns_tableType = tableType, ns_httpMaskMode = mode, ns_multiplex = multiplex\<rparr>)))"

definition userBaseConfig :: "ProtocolSettings \<Rightarrow> nodeSettings \<Rightarrow> string \<Rightarrow> config" where
  "userBaseConfig ps ns key = zeroConfig\<lparr>pc_Key := key, pc_AEADMethod := ns_aead ns, pc_PaddingMin := ps_PaddingMin ps,
     pc_PaddingMax := ps_PaddingMax ps, pc_EnablePureDownlink := ps_EnablePureDownlink ps, pc_HandshakeTimeoutSeconds := 5,
     pc_DisableHTTPMask := \<not> ps_HTTPMask ps, pc_HTTPMaskMode := ns_httpMaskMode ns, pc_HTTPMaskTLSEnabled := ps_HTTPMaskTLS ps,
     pc_HTTPMaskHost := ps_HTTPMaskHost ps, pc_HTTPMaskPathRoot := ps_PathRoot ps, pc_Multiplex := ns_multiplex ns,
     pc_HTTPMaskMultiplex := ns_multiplex ns\<rparr>"

definition sudokuTableFingerprint :: "string \<Rightarrow> string \<Rightarrow> string list \<Rightarrow> string" where
  "sudokuTableFingerprint tableType customTable customTables =
     tableType @ concat (map (\<lambda>s. [CHR 0x00] @ s) (trimSpace customTable # customTables))"

definition sameSudokuProtocolConfig :: "config \<Rightarrow> config \<Rightarrow> bool" where
  "sameSudokuProtocolConfig a b \<longleftrightarrow>
     pc_Key a = pc_Key b \<and> pc_AEADMethod a = pc_AEADMethod b \<and> pc_PaddingMin a = pc_PaddingMin b \<and> pc_PaddingMax a = pc_PaddingMax b
     \<and> pc_EnablePureDownlink a = pc_EnablePureDownlink b \<and> pc_HandshakeTimeoutSeconds a = pc_HandshakeTimeoutSeconds b
     \<and> pc_DisableHTTPMask a = pc_DisableHTTPMask b \<and> pc_HTTPMaskMode a = pc_HTTPMaskMode b
     \<and> pc_HTTPMaskTLSEnabled a = pc_HTTPMaskTLSEnabled b \<and> pc_HTTPMaskHost a = pc_HTTPMaskHost b
     \<and> pc_HTTPMaskPathRoot a = pc_HTTPMaskPathRoot b \<and> pc_Multiplex a = pc_Multiplex b
     \<and> pc_HTTPMaskMultiplex a = pc_HTTPMaskMultiplex b"

definition previousUserConfig :: "userConfigSnapshot option \<Rightarrow> string \<Rightarrow> userConfig option" where
  "previousUserConfig snapshot hash = (case snapshot of None \<Rightarrow> None | Some s \<Rightarrow> map_of (sn_byHash s) hash)"

text \<open>The builders of a user's tables: all candidates at once, or the selected table first and the
  compatibility tables in a second provider.\<close>

definition buildTables :: "buildEnv \<Rightarrow> ProtocolSettings \<Rightarrow> string \<Rightarrow> string \<Rightarrow> layoutError + LinkedTable list" where
  "buildTables env ps tableType key =
     NewServerTablesWithCustomPatterns (be_draws env) (be_fp env) (be_seed env key) tableType (ps_CustomTable ps) (ps_CustomTables ps)"

definition buildPrimary :: "buildEnv \<Rightarrow> string \<Rightarrow> string \<Rightarrow> layoutError + LinkedTable list" where
  "buildPrimary env tableType key =
     bindE (NewTableWithCustom (be_draws env) (be_fp env) (be_seed env key) tableType []) (\<lambda>table. Inr [table])"

definition buildFallback :: "buildEnv \<Rightarrow> string \<Rightarrow> string \<Rightarrow> layoutError + LinkedTable list" where
  "buildFallback env tableType key =
     fallbackTables (be_draws env) (be_fp env) (be_seed env key)
       [''prefer_ascii'', ''prefer_entropy'', ''up_ascii_down_entropy'', ''up_entropy_down_ascii''] {toLower tableType}"

definition attachProviders :: "buildEnv \<Rightarrow> ProtocolSettings \<Rightarrow> nat \<Rightarrow> string \<Rightarrow> config \<Rightarrow> config" where
  "attachProviders env ps users tableType cfg =
     (if users > eagerSudokuTableUserLimit \<and> trimSpace (ps_CustomTable ps) = [] \<and> ps_CustomTables ps = []
      then cfg\<lparr>pc_TableProvider := Some (NewTableProvider (buildPrimary env tableType (pc_Key cfg))),
               pc_TableFallbackProvider := Some (NewTableProvider (buildFallback env tableType (pc_Key cfg)))\<rparr>
      else cfg\<lparr>pc_TableProvider := Some (NewTableProvider (buildTables env ps tableType (pc_Key cfg)))\<rparr>)"

definition eagerTables :: "int \<Rightarrow> nat \<Rightarrow> config \<Rightarrow> sudokuError + config" where
  "eagerTables uid users cfg =
     (if users > eagerSudokuTableUserLimit then Inr cfg
      else if pc_TableFallbackProvider cfg \<noteq> None then
        bindE (mapErr (TableBuildFailed uid) (fst (Tables (pc_TableFallbackProvider cfg)))) (\<lambda>fallback.
          bindE (mapErr (TableBuildFailed uid) (fst (Tables (pc_TableProvider cfg)))) (\<lambda>primary.
            Inr (cfg\<lparr>pc_Tables := map Some (primary @ fallback), pc_TableProvider := None, pc_TableFallbackProvider := None\<rparr>)))
      else
        bindE (mapErr (TableBuildFailed uid) (fst (Tables (pc_TableProvider cfg)))) (\<lambda>tables.
          Inr (cfg\<lparr>pc_Tables := map Some tables, pc_TableProvider := None\<rparr>)))"

definition newUserConfig :: "buildEnv \<Rightarrow> ProtocolSettings \<Rightarrow> nodeSettings \<Rightarrow> nat \<Rightarrow> UserInfo \<Rightarrow> string \<Rightarrow> sudokuError + userConfig" where
  "newUserConfig env ps ns users user key =
     bindE (mapErr WrongTableType (NormalizeTableType (ns_tableType ns))) (\<lambda>_.
       bindE (eagerTables (ui_Id user) users (attachProviders env ps users (ns_tableType ns) (userBaseConfig ps ns key))) (\<lambda>cfg.
         case Validate cfg of
           Some e \<Rightarrow> Inl (ConfigRejected (ui_Id user) e)
         | None \<Rightarrow> Inr \<lparr>uc_user = user, uc_cfg = cfg, uc_tunnel = None,
             uc_tableFingerprint = sudokuTableFingerprint (ns_tableType ns) (ps_CustomTable ps) (ps_CustomTables ps)\<rparr>))"

section \<open>The snapshot\<close>

definition userHash :: "buildEnv \<Rightarrow> UserInfo \<Rightarrow> string" where
  "userHash env u = KIPUserHashHexFromKey (be_sha256 env) (ui_Uuid u)"

definition buildUser :: "buildEnv \<Rightarrow> ProtocolSettings \<Rightarrow> nodeSettings \<Rightarrow> nat \<Rightarrow> userConfigSnapshot option \<Rightarrow> UserInfo
    \<Rightarrow> userConfigSnapshot \<Rightarrow> sudokuError + userConfigSnapshot" where
  "buildUser env ps ns users previous user out =
     (let key = trimSpace (ui_Uuid user) in
      if key = [] then Inl (EmptyUUID (ui_Id user))
      else let hash = KIPUserHashHexFromKey (be_sha256 env) key in
        if map_of (sn_byHash out) hash \<noteq> None then Inl DuplicateHash
        else
          let fingerprint = sudokuTableFingerprint (ns_tableType ns) (ps_CustomTable ps) (ps_CustomTables ps);
              reused = (case previousUserConfig previous hash of
                  None \<Rightarrow> None
                | Some e \<Rightarrow> if uc_tableFingerprint e = fingerprint \<and> sameSudokuProtocolConfig (uc_cfg e) (userBaseConfig ps ns key)
                    then Some (e\<lparr>uc_user := user\<rparr>) else None) in
          bindE (case reused of Some e \<Rightarrow> Inr e | None \<Rightarrow> newUserConfig env ps ns users user key) (\<lambda>entry.
            Inr (out\<lparr>sn_byHash := AList.update hash entry (sn_byHash out), sn_entries := sn_entries out @ [entry]\<rparr>)))"

fun buildLoop :: "buildEnv \<Rightarrow> ProtocolSettings \<Rightarrow> nodeSettings \<Rightarrow> nat \<Rightarrow> userConfigSnapshot option \<Rightarrow> UserInfo list
    \<Rightarrow> userConfigSnapshot \<Rightarrow> sudokuError + userConfigSnapshot" where
  "buildLoop env ps ns users previous [] out = Inr out"
| "buildLoop env ps ns users previous (user # rest) out =
     bindE (buildUser env ps ns users previous user out) (buildLoop env ps ns users previous rest)"

text \<open>The tunnels: an object holds the configurations it was made for and whether it is closed.\<close>

record tunnelServer =
  tu_configs :: "config list"
  tu_closed :: bool

definition sameHTTPMaskUserSet :: "buildEnv \<Rightarrow> userConfigSnapshot \<Rightarrow> userConfigSnapshot \<Rightarrow> bool" where
  "sameHTTPMaskUserSet env previous current \<longleftrightarrow>
     length (sn_entries previous) = length (sn_entries current)
     \<and> (\<forall>entry\<in>set (sn_entries current).
          (case map_of (sn_byHash previous) (userHash env (uc_user entry)) of
             None \<Rightarrow> False
           | Some old \<Rightarrow> uc_tunnel old \<noteq> None \<and> sameSudokuProtocolConfig (uc_cfg old) (uc_cfg entry)
               \<and> uc_tableFingerprint old = uc_tableFingerprint entry))"

definition usesTunnel :: "userConfigSnapshot \<Rightarrow> bool" where
  "usesTunnel out \<longleftrightarrow>
     (case sn_entries out of
        [] \<Rightarrow> False
      | e # _ \<Rightarrow> let mode = toLower (trimSpace (pc_HTTPMaskMode (uc_cfg e))) in
          \<not> pc_DisableHTTPMask (uc_cfg e) \<and> mode \<noteq> [] \<and> mode \<noteq> ''legacy'')"

definition chooseTunnel :: "buildEnv \<Rightarrow> userConfigSnapshot option \<Rightarrow> userConfigSnapshot \<Rightarrow> tunnelServer list \<Rightarrow> nat \<times> tunnelServer list" where
  "chooseTunnel env previous out tunnels =
     (let kept = (case previous of
          None \<Rightarrow> None
        | Some p \<Rightarrow> if sameHTTPMaskUserSet env p out then find (\<lambda>t. True) (List.map_filter uc_tunnel (sn_entries p)) else None) in
      case kept of
        Some t \<Rightarrow> (t, tunnels)
      | None \<Rightarrow> (length tunnels, tunnels @ [\<lparr>tu_configs = map uc_cfg (sn_entries out), tu_closed = False\<rparr>]))"

definition installTunnel :: "buildEnv \<Rightarrow> nat \<Rightarrow> userConfigSnapshot \<Rightarrow> userConfigSnapshot" where
  "installTunnel env t out =
     (let entries = map (\<lambda>e. e\<lparr>uc_tunnel := Some t\<rparr>) (sn_entries out)
      in \<lparr>sn_byHash = fold (\<lambda>e. AList.update (userHash env (uc_user e)) e) entries (sn_byHash out), sn_entries = entries\<rparr>)"

definition buildUserConfigsWithPrevious :: "buildEnv \<Rightarrow> NodeInfo option \<Rightarrow> UserInfo list \<Rightarrow> userConfigSnapshot option \<Rightarrow> tunnelServer list
    \<Rightarrow> (sudokuError + userConfigSnapshot) \<times> tunnelServer list" where
  "buildUserConfigsWithPrevious env info users previous tunnels =
     (case validateNodeInfo info of
        Some e \<Rightarrow> (Inl e, tunnels)
      | None \<Rightarrow>
          let ps = cn_ProtocolSettings (the (ni_Common (the info))) in
          (case bindE (normalizeSettings ps) (\<lambda>ns. buildLoop env ps ns (length users) previous users \<lparr>sn_byHash = [], sn_entries = []\<rparr>) of
             Inl e \<Rightarrow> (Inl e, tunnels)
           | Inr out \<Rightarrow>
               if usesTunnel out then (case chooseTunnel env previous out tunnels of (t, tunnels) \<Rightarrow> (Inr (installTunnel env t out), tunnels))
               else (Inr out, tunnels)))"

definition closeTunnel :: "nat \<Rightarrow> tunnelServer list \<Rightarrow> tunnelServer list" where
  "closeTunnel t tunnels = (if t < length tunnels then tunnels[t := (tunnels ! t)\<lparr>tu_closed := True\<rparr>] else tunnels)"

definition closeReplacedHTTPMaskTunnels :: "userConfigSnapshot option \<Rightarrow> userConfigSnapshot option \<Rightarrow> tunnelServer list \<Rightarrow> tunnelServer list" where
  "closeReplacedHTTPMaskTunnels previous current tunnels =
     (case previous of
        None \<Rightarrow> tunnels
      | Some p \<Rightarrow>
          let active = (case current of None \<Rightarrow> [] | Some c \<Rightarrow> List.map_filter uc_tunnel (sn_entries c)) in
          fold closeTunnel (remdups (filter (\<lambda>t. t \<notin> set active) (List.map_filter uc_tunnel (sn_entries p)))) tunnels)"

text \<open>The order in which a handshake tries the users: the last one that succeeded first.\<close>

definition handshakeEntries :: "buildEnv \<Rightarrow> string \<Rightarrow> userConfigSnapshot option \<Rightarrow> userConfig list" where
  "handshakeEntries env preferred snapshot =
     (case snapshot of
        None \<Rightarrow> []
      | Some s \<Rightarrow>
          if sn_entries s = [] then []
          else if preferred = [] then sn_entries s
          else (case map_of (sn_byHash s) preferred of
              None \<Rightarrow> sn_entries s
            | Some entry \<Rightarrow> entry # filter (\<lambda>c. userHash env (uc_user c) \<noteq> preferred) (sn_entries s)))"

definition installHandshakeProbeLimiter :: "nat \<Rightarrow> userConfigSnapshot \<Rightarrow> userConfigSnapshot" where
  "installHandshakeProbeLimiter limiter s =
     (let limit = (\<lambda>e. e\<lparr>uc_cfg := (uc_cfg e)\<lparr>pc_HandshakeProbeLimiter := Some limiter\<rparr>\<rparr>)
      in \<lparr>sn_byHash = map (\<lambda>(h, e). (h, limit e)) (sn_byHash s), sn_entries = map limit (sn_entries s)\<rparr>)"

section \<open>What a snapshot holds\<close>

text \<open>Staging the candidates changes when they are built, not which ones there are.\<close>

definition allCandidates :: "config \<Rightarrow> layoutError + LinkedTable list" where
  "allCandidates c =
     (if pc_Tables c \<noteq> [] then Inr (map the (pc_Tables c))
      else (case pc_TableProvider c of
          None \<Rightarrow> Inr []
        | Some p \<Rightarrow> bindE (tp_build p) (\<lambda>primary.
            case pc_TableFallbackProvider c of
              None \<Rightarrow> Inr primary
            | Some f \<Rightarrow> bindE (tp_build f) (\<lambda>fallback. Inr (primary @ fallback)))))"

lemma NormalizeTableType_values:
  assumes "NormalizeTableType t = Inr tt"
  shows "tt \<in> {''prefer_ascii'', ''prefer_entropy'', ''up_ascii_down_entropy'', ''up_entropy_down_ascii''}"
    "NormalizeTableType tt = Inr tt" "\<exists>m. ParseASCIIMode tt = Inr m" "trimSpace tt = tt"
proof -
  obtain m where m: "ParseASCIIMode t = Inr m" "tt = Canonical m"
    using assms by (auto simp: NormalizeTableType_def NormalizeASCIIMode_def bindE_eq_Inr)
  note canon = ParseASCIIMode_Canonical [OF m(1)]
  show tt: "tt \<in> {''prefer_ascii'', ''prefer_entropy'', ''up_ascii_down_entropy'', ''up_entropy_down_ascii''}"
    using canon m(2) by (auto simp: Canonical_def asciiModeTokenASCII_def asciiModeTokenEntropy_def)
  show "NormalizeTableType tt = Inr tt" using canon assms m(2) by (simp add: NormalizeTableType_def)
  show "\<exists>m. ParseASCIIMode tt = Inr m" using canon m(2) by auto
  show "trimSpace tt = tt" using tt by (auto simp: trimSpace_def isSpace_def)
qed

lemma staged_candidates:
  assumes "NormalizeTableType t = Inr tableType" "trimSpace (ps_CustomTable ps) = []" "ps_CustomTables ps = []"
  shows "buildTables env ps tableType key =
    bindE (buildPrimary env tableType key) (\<lambda>primary. bindE (buildFallback env tableType key) (\<lambda>fallback. Inr (primary @ fallback)))"
proof -
  note tt = NormalizeTableType_values [OF assms(1)]
  obtain m where m: "ParseASCIIMode tableType = Inr m" using tt(3) by blast
  have norm: "normalizeServerCustomPattern (ps_CustomTable ps) = []" "normalizeServerCustomPatterns (ps_CustomTables ps) = []"
    using assms(2, 3) by (simp_all add: normalizeServerCustomPattern_def normalizeServerCustomPatterns_def isValidCustomPattern_def)
  show ?thesis
    by (cases "NewTableWithCustom (be_draws env) (be_fp env) (be_seed env key) tableType []")
      (simp_all add: buildTables_def buildPrimary_def buildFallback_def NewServerTablesWithCustomPatterns_def norm m tt(4) Let_def
        normalizeTablePatterns_def normalizeCustomPatterns_def NewTablesWithCustomPatterns_def)
qed

lemma KIPUserHashHex_trim [simp]: "KIPUserHashHexFromKey sha (trimSpace k) = KIPUserHashHexFromKey sha k"
  by (simp add: KIPUserHashHexFromKey_def kipUserHashFromKey_def)

text \<open>A well-formed entry: the settings of the node with the user's key, accepted by validation,
  and the candidate tables of that key.\<close>

definition entryOk :: "buildEnv \<Rightarrow> ProtocolSettings \<Rightarrow> nodeSettings \<Rightarrow> userConfig \<Rightarrow> bool" where
  "entryOk env ps ns e \<longleftrightarrow>
     (let key = trimSpace (ui_Uuid (uc_user e)) in
      key \<noteq> [] \<and> sameSudokuProtocolConfig (uc_cfg e) (userBaseConfig ps ns key) \<and> Validate (uc_cfg e) = None
      \<and> uc_tableFingerprint e = sudokuTableFingerprint (ns_tableType ns) (ps_CustomTable ps) (ps_CustomTables ps)
      \<and> allCandidates (uc_cfg e) = buildTables env ps (ns_tableType ns) key)"

definition snapshotOk :: "buildEnv \<Rightarrow> ProtocolSettings \<Rightarrow> nodeSettings \<Rightarrow> UserInfo list \<Rightarrow> userConfigSnapshot \<Rightarrow> bool" where
  "snapshotOk env ps ns users s \<longleftrightarrow>
     map uc_user (sn_entries s) = users \<and> (\<forall>e\<in>set (sn_entries s). entryOk env ps ns e)
     \<and> distinct (map (userHash env) users)
     \<and> (\<forall>h. map_of (sn_byHash s) h = find (\<lambda>e. userHash env (uc_user e) = h) (sn_entries s))"

lemma bindE_Inr [simp]: "bindE m Inr = m"
  by (cases m) auto

lemma eagerTables_attach:
  assumes "eagerTables uid users (attachProviders env ps users tableType cfg) = Inr cfg'" "NormalizeTableType t = Inr tableType"
    and "pc_Tables cfg = []" "pc_TableFallbackProvider cfg = None"
  shows "allCandidates cfg' = buildTables env ps tableType (pc_Key cfg)" "sameSudokuProtocolConfig cfg' cfg"
  using assms staged_candidates [OF assms(2), of ps env "pc_Key cfg"]
  by (auto simp: eagerTables_def attachProviders_def bindE_eq_Inr Tables_New allCandidates_def sameSudokuProtocolConfig_def
      comp_def split: if_splits)

lemma newUserConfig_ok:
  assumes "newUserConfig env ps ns users user (trimSpace (ui_Uuid user)) = Inr e" "normalizeSettings ps = Inr ns" "trimSpace (ui_Uuid user) \<noteq> []"
  shows "entryOk env ps ns e" "uc_user e = user" "uc_tunnel e = None"
proof -
  obtain t where t: "NormalizeTableType t = Inr (ns_tableType ns)"
    using assms(2) by (auto simp: normalizeSettings_def bindE_eq_Inr Let_def split: option.splits)
  obtain cfg where cfg: "eagerTables (ui_Id user) users (attachProviders env ps users (ns_tableType ns) (userBaseConfig ps ns (trimSpace (ui_Uuid user)))) = Inr cfg"
    "Validate cfg = None" "e = \<lparr>uc_user = user, uc_cfg = cfg, uc_tunnel = None,
             uc_tableFingerprint = sudokuTableFingerprint (ns_tableType ns) (ps_CustomTable ps) (ps_CustomTables ps)\<rparr>"
    using assms(1) by (auto simp: newUserConfig_def bindE_eq_Inr split: option.splits)
  have base: "pc_Tables (userBaseConfig ps ns key) = []" "pc_TableFallbackProvider (userBaseConfig ps ns key) = None"
    "pc_Key (userBaseConfig ps ns key) = key" for key by (simp_all add: userBaseConfig_def zeroConfig_def)
  from eagerTables_attach [OF cfg(1) t base(1, 2)] base(3) cfg assms(3)
  show "entryOk env ps ns e" "uc_user e = user" "uc_tunnel e = None" by (simp_all add: entryOk_def Let_def)
qed

lemma find_append: "find P (xs @ ys) = (case find P xs of Some x \<Rightarrow> Some x | None \<Rightarrow> find P ys)"
  by (induction xs) auto

lemma buildUser_ok:
  assumes "buildUser env ps ns n previous user out = Inr out'" "normalizeSettings ps = Inr ns" "snapshotOk env ps ns users out"
    and "\<And>p. previous = Some p \<Longrightarrow> \<exists>us. snapshotOk env ps ns us p"
  shows "snapshotOk env ps ns (users @ [user]) out'"
    "\<exists>e. sn_entries out' = sn_entries out @ [e] \<and> (uc_tunnel e = None \<or> (\<exists>p. previous = Some p \<and> uc_tunnel e \<in> uc_tunnel ` set (sn_entries p)))"
proof -
  let ?h = "userHash env user"
  from assms(1) obtain e where key: "trimSpace (ui_Uuid user) \<noteq> []" and fresh: "map_of (sn_byHash out) ?h = None"
    and out': "out' = out\<lparr>sn_byHash := AList.update ?h e (sn_byHash out), sn_entries := sn_entries out @ [e]\<rparr>"
    and e: "newUserConfig env ps ns n user (trimSpace (ui_Uuid user)) = Inr e
      \<or> (\<exists>p e0. previous = Some p \<and> map_of (sn_byHash p) ?h = Some e0 \<and> e = e0\<lparr>uc_user := user\<rparr>
          \<and> uc_tableFingerprint e0 = sudokuTableFingerprint (ns_tableType ns) (ps_CustomTable ps) (ps_CustomTables ps)
          \<and> sameSudokuProtocolConfig (uc_cfg e0) (userBaseConfig ps ns (trimSpace (ui_Uuid user))))"
    by (auto simp: buildUser_def bindE_eq_Inr Let_def userHash_def previousUserConfig_def split: if_splits option.splits)
  have reuse: "entryOk env ps ns e \<and> uc_tunnel e \<in> uc_tunnel ` set (sn_entries p)"
    if p: "previous = Some p" "map_of (sn_byHash p) ?h = Some e0" "e = e0\<lparr>uc_user := user\<rparr>"
      and same: "sameSudokuProtocolConfig (uc_cfg e0) (userBaseConfig ps ns (trimSpace (ui_Uuid user)))" for p e0
  proof -
    obtain us where "snapshotOk env ps ns us p" using assms(4) p(1) by blast
    then have e0: "e0 \<in> set (sn_entries p)" "entryOk env ps ns e0" using p(2) by (auto simp: snapshotOk_def find_Some_iff)
    then have "pc_Key (uc_cfg e0) = trimSpace (ui_Uuid (uc_user e0))"
      by (simp add: entryOk_def sameSudokuProtocolConfig_def userBaseConfig_def Let_def)
    moreover have "pc_Key (uc_cfg e0) = trimSpace (ui_Uuid user)" using same by (simp add: sameSudokuProtocolConfig_def userBaseConfig_def)
    ultimately have "trimSpace (ui_Uuid (uc_user e0)) = trimSpace (ui_Uuid user)" by simp
    then show ?thesis using e0 p(3) by (auto simp: entryOk_def Let_def)
  qed
  have ok: "entryOk env ps ns e" "uc_user e = user" using e newUserConfig_ok(1, 2) [OF _ assms(2) key] reuse by auto
  have nofind: "find (\<lambda>e. userHash env (uc_user e) = ?h) (sn_entries out) = None" using fresh assms(3) by (simp add: snapshotOk_def)
  have "?h \<notin> set (map (userHash env) users)" using nofind assms(3) by (auto simp: snapshotOk_def find_None_iff)
  moreover have "map_of (sn_byHash out') h = find (\<lambda>e. userHash env (uc_user e) = h) (sn_entries out')" for h
    using assms(3) nofind ok(2) by (auto simp: out' snapshotOk_def find_append split: option.split)
  ultimately show "snapshotOk env ps ns (users @ [user]) out'" using assms(3) ok by (auto simp: snapshotOk_def out')
  show "\<exists>e. sn_entries out' = sn_entries out @ [e] \<and> (uc_tunnel e = None \<or> (\<exists>p. previous = Some p \<and> uc_tunnel e \<in> uc_tunnel ` set (sn_entries p)))"
    using e newUserConfig_ok(3) [OF _ assms(2) key] reuse by (auto simp: out')
qed

definition knownTunnels :: "userConfigSnapshot option \<Rightarrow> userConfig list \<Rightarrow> bool" where
  "knownTunnels previous es \<longleftrightarrow>
     (\<forall>e\<in>set es. uc_tunnel e = None \<or> (\<exists>p. previous = Some p \<and> uc_tunnel e \<in> uc_tunnel ` set (sn_entries p)))"

lemma buildLoop_ok:
  "buildLoop env ps ns n previous rest out = Inr out' \<Longrightarrow> normalizeSettings ps = Inr ns \<Longrightarrow> snapshotOk env ps ns users out \<Longrightarrow>
   (\<And>p. previous = Some p \<Longrightarrow> \<exists>us. snapshotOk env ps ns us p) \<Longrightarrow>
   knownTunnels previous (sn_entries out) \<Longrightarrow> snapshotOk env ps ns (users @ rest) out' \<and> knownTunnels previous (sn_entries out')"
proof (induction rest arbitrary: users out)
  case (Cons user rest)
  then obtain out1 where out1: "buildUser env ps ns n previous user out = Inr out1" "buildLoop env ps ns n previous rest out1 = Inr out'"
    by (auto simp: bindE_eq_Inr)
  note step = buildUser_ok [OF out1(1) Cons.prems(2 - 4)]
  have "knownTunnels previous (sn_entries out1)" using step(2) Cons.prems(5) by (auto simp: knownTunnels_def)
  from Cons.IH [OF out1(2) Cons.prems(2) step(1) Cons.prems(4) this] show ?case by simp
qed simp

text \<open>The tunnel of a snapshot: with the HTTP mask on, every entry has the same open tunnel, found
  by the hashes too; without it nobody has one.\<close>

definition maskOn :: "ProtocolSettings \<Rightarrow> nodeSettings \<Rightarrow> bool" where
  "maskOn ps ns \<longleftrightarrow> ps_HTTPMask ps \<and> toLower (trimSpace (ns_httpMaskMode ns)) \<notin> {[], ''legacy''}"

definition tunnelsOk :: "ProtocolSettings \<Rightarrow> nodeSettings \<Rightarrow> userConfigSnapshot \<Rightarrow> tunnelServer list \<Rightarrow> bool" where
  "tunnelsOk ps ns s tunnels \<longleftrightarrow>
     (if maskOn ps ns \<and> sn_entries s \<noteq> []
      then \<exists>t<length tunnels. \<not> tu_closed (tunnels ! t) \<and> (\<forall>e\<in>set (sn_entries s). uc_tunnel e = Some t)
      else \<forall>e\<in>set (sn_entries s). uc_tunnel e = None)"

lemma usesTunnel_iff: "snapshotOk env ps ns users s \<Longrightarrow> usesTunnel s \<longleftrightarrow> maskOn ps ns \<and> sn_entries s \<noteq> []"
  by (cases "sn_entries s") (auto simp: usesTunnel_def maskOn_def snapshotOk_def entryOk_def sameSudokuProtocolConfig_def userBaseConfig_def Let_def)

lemma map_of_fold_update:
  "map_of (fold (\<lambda>e. AList.update (f e) e) es m) h =
     (case find (\<lambda>e. f e = h) (rev es) of Some e \<Rightarrow> Some e | None \<Rightarrow> map_of m h)"
  by (induction es arbitrary: m) (auto simp: find_append split: option.split)

lemma find_key: "distinct (map f es) \<Longrightarrow> find (\<lambda>e. f e = h) es = Some e \<longleftrightarrow> e \<in> set es \<and> f e = h"
  by (induction es) auto

lemma find_rev_distinct:
  assumes "distinct (map f es)"
  shows "find (\<lambda>e. f e = h) (rev es) = find (\<lambda>e. f e = h) es"
proof -
  have "distinct (map f (rev es))" using assms by (simp add: rev_map [symmetric])
  then have "find (\<lambda>e. f e = h) (rev es) = Some e \<longleftrightarrow> find (\<lambda>e. f e = h) es = Some e" for e
    using find_key [of f "rev es" h e] find_key [OF assms, of h e] by simp
  then show ?thesis by (metis option.exhaust)
qed

lemma installTunnel_ok:
  assumes "snapshotOk env ps ns users s"
  shows "snapshotOk env ps ns users (installTunnel env t s)"
proof -
  let ?es = "map (\<lambda>e. e\<lparr>uc_tunnel := Some t\<rparr>) (sn_entries s)"
  have "map (\<lambda>e. userHash env (uc_user e)) ?es = map (userHash env) (map uc_user (sn_entries s))" by simp
  then have d: "distinct (map (\<lambda>e. userHash env (uc_user e)) ?es)" using assms unfolding snapshotOk_def by simp
  have none: "find (\<lambda>e. userHash env (uc_user e) = h) ?es = None \<Longrightarrow> map_of (sn_byHash s) h = None" for h
    using assms by (auto simp: snapshotOk_def find_None_iff)
  have "map_of (sn_byHash (installTunnel env t s)) h = find (\<lambda>e. userHash env (uc_user e) = h) ?es" for h
    using none [of h] by (simp add: installTunnel_def Let_def map_of_fold_update find_rev_distinct [OF d] split: option.split)
  moreover have "entryOk env ps ns e \<Longrightarrow> entryOk env ps ns (e\<lparr>uc_tunnel := Some t\<rparr>)" for e by (simp add: entryOk_def)
  ultimately show ?thesis using assms by (auto simp: snapshotOk_def installTunnel_def Let_def comp_def)
qed

lemma chooseTunnel_ok:
  assumes "chooseTunnel env previous out tunnels = (t, tunnels')" "\<And>p. previous = Some p \<Longrightarrow> tunnelsOk ps ns p tunnels"
    and "maskOn ps ns"
  shows "t < length tunnels'" "\<not> tu_closed (tunnels' ! t)" "\<exists>new. tunnels' = tunnels @ new \<and> (\<forall>x\<in>set new. \<not> tu_closed x)"
proof -
  have "t < length tunnels \<and> \<not> tu_closed (tunnels ! t)" if p: "previous = Some p" and f: "find (\<lambda>t. True) (List.map_filter uc_tunnel (sn_entries p)) = Some t"
    for p t
  proof -
    have "\<exists>e\<in>set (sn_entries p). uc_tunnel e = Some t"
      using f map_filter_mem [of t uc_tunnel "sn_entries p"] by (cases "List.map_filter uc_tunnel (sn_entries p)") auto
    then show ?thesis using assms(2) [OF p] assms(3) by (auto simp: tunnelsOk_def split: if_splits)
  qed
  then show "t < length tunnels'" "\<not> tu_closed (tunnels' ! t)" "\<exists>new. tunnels' = tunnels @ new \<and> (\<forall>x\<in>set new. \<not> tu_closed x)"
    using assms(1) by (auto simp: chooseTunnel_def Let_def split: option.splits if_splits)
qed

lemma build_ok:
  assumes "buildUserConfigsWithPrevious env info users previous tunnels = (Inr s, tunnels')"
    and "info = Some i" "ni_Common i = Some common" "ps = cn_ProtocolSettings common" "normalizeSettings ps = Inr ns"
    and "\<And>p. previous = Some p \<Longrightarrow> (\<exists>us. snapshotOk env ps ns us p) \<and> tunnelsOk ps ns p tunnels"
  shows "snapshotOk env ps ns users s" "tunnelsOk ps ns s tunnels'" "\<exists>new. tunnels' = tunnels @ new \<and> (\<forall>x\<in>set new. \<not> tu_closed x)"
proof -
  from assms(1) obtain out where out: "buildLoop env ps ns (length users) previous users \<lparr>sn_byHash = [], sn_entries = []\<rparr> = Inr out"
    and s: "(s, tunnels') = (if usesTunnel out then (case chooseTunnel env previous out tunnels of (t, tunnels) \<Rightarrow> (installTunnel env t out, tunnels))
                            else (out, tunnels))"
    using assms(2 - 5) by (auto simp: buildUserConfigsWithPrevious_def Let_def split: option.splits sum.splits prod.splits if_splits)
  have "snapshotOk env ps ns [] \<lparr>sn_byHash = [], sn_entries = []\<rparr>" by (simp add: snapshotOk_def)
  from buildLoop_ok [OF out assms(5) this] assms(6)
  have ok: "snapshotOk env ps ns users out"
    and tun: "knownTunnels previous (sn_entries out)" by (auto simp: knownTunnels_def)
  show "snapshotOk env ps ns users s" using s ok installTunnel_ok [OF ok] by (auto split: if_splits prod.splits)
  show "tunnelsOk ps ns s tunnels'" "\<exists>new. tunnels' = tunnels @ new \<and> (\<forall>x\<in>set new. \<not> tu_closed x)"
  proof (atomize (full), cases "usesTunnel out")
    case True
    then have mask: "maskOn ps ns" "sn_entries out \<noteq> []" using usesTunnel_iff [OF ok] by auto
    obtain t where t: "chooseTunnel env previous out tunnels = (t, tunnels')" "s = installTunnel env t out"
      using s True by (auto split: prod.splits)
    from chooseTunnel_ok [OF t(1) _ mask(1)] assms(6) mask t(2)
    show "tunnelsOk ps ns s tunnels' \<and> (\<exists>new. tunnels' = tunnels @ new \<and> (\<forall>x\<in>set new. \<not> tu_closed x))"
      by (auto simp: tunnelsOk_def installTunnel_def Let_def)
  next
    case False
    then have "\<not> maskOn ps ns \<or> sn_entries out = []" "s = out" "tunnels' = tunnels" using usesTunnel_iff [OF ok] s by auto
    then show "tunnelsOk ps ns s tunnels' \<and> (\<exists>new. tunnels' = tunnels @ new \<and> (\<forall>x\<in>set new. \<not> tu_closed x))"
      using tun assms(6) by (auto simp: tunnelsOk_def knownTunnels_def split: if_splits)
  qed
qed

text \<open>A list longer than the eager limit always gets its snapshot, when the settings are valid: no
  table is built, so nothing else can fail.\<close>

definition settingsValid :: "ProtocolSettings \<Rightarrow> nodeSettings \<Rightarrow> bool" where
  "settingsValid ps ns \<longleftrightarrow> Validate ((userBaseConfig ps ns ''key'')\<lparr>pc_TableProvider := Some (NewTableProvider (Inr []))\<rparr>) = None"

lemma newUserConfig_lazy:
  assumes "eagerSudokuTableUserLimit < n" "normalizeSettings ps = Inr ns" "settingsValid ps ns" "key \<noteq> []"
  shows "\<exists>e. newUserConfig env ps ns n user key = Inr e"
proof -
  let ?cfg = "attachProviders env ps n (ns_tableType ns) (userBaseConfig ps ns key)"
  obtain t where "NormalizeTableType t = Inr (ns_tableType ns)"
    using assms(2) by (auto simp: normalizeSettings_def bindE_eq_Inr Let_def split: option.splits)
  then have "NormalizeTableType (ns_tableType ns) = Inr (ns_tableType ns)" by (rule NormalizeTableType_values)
  moreover have "Validate ?cfg = None"
    using assms(3, 4) Validate_cong [of ?cfg "(userBaseConfig ps ns ''key'')\<lparr>pc_TableProvider := Some (NewTableProvider (Inr []))\<rparr>"]
    by (simp add: settingsValid_def attachProviders_def userBaseConfig_def zeroConfig_def)
  ultimately show ?thesis using assms(1) by (simp add: newUserConfig_def eagerTables_def)
qed

lemma buildLoop_total:
  assumes "eagerSudokuTableUserLimit < n" "normalizeSettings ps = Inr ns" "settingsValid ps ns"
  shows "\<lbrakk>snapshotOk env ps ns users out; \<And>p. previous = Some p \<Longrightarrow> \<exists>us. snapshotOk env ps ns us p;
    \<forall>u\<in>set rest. trimSpace (ui_Uuid u) \<noteq> []; distinct (map (userHash env) (users @ rest))\<rbrakk>
    \<Longrightarrow> \<exists>out'. buildLoop env ps ns n previous rest out = Inr out'"
proof (induction rest arbitrary: users out)
  case (Cons user rest)
  have "find (\<lambda>e. userHash env (uc_user e) = userHash env user) (sn_entries out) = None"
    using Cons.prems(1, 4) by (auto simp: snapshotOk_def find_None_iff) (metis imageI)
  then have "map_of (sn_byHash out) (userHash env user) = None" using Cons.prems(1) by (simp add: snapshotOk_def)
  then have "\<exists>out1. buildUser env ps ns n previous user out = Inr out1"
    using newUserConfig_lazy [OF assms, of "trimSpace (ui_Uuid user)" env user] Cons.prems(3)
    by (auto simp: buildUser_def userHash_def Let_def bindE_eq_Inr split: option.split)
  then obtain out1 where out1: "buildUser env ps ns n previous user out = Inr out1" by blast
  have "snapshotOk env ps ns (users @ [user]) out1" using buildUser_ok(1) [OF out1 assms(2) Cons.prems(1, 2)] by blast
  from Cons.IH [OF this Cons.prems(2)] Cons.prems(3, 4) out1 show ?case by auto
qed simp

text \<open>C20: The user snapshot of a listener is well formed. Whatever order Go visits the users in and
  whatever the previous snapshot was, a snapshot that is built has one entry per user in that
  order, found by the hash of its key and by no other; every entry has the node's settings with
  the user's key, passes validation and offers exactly the candidate tables of that key,
  however they are staged; with the HTTP mask on all entries share one open tunnel. And a list
  longer than the eager limit is always built when the settings are valid, no key is empty and
  no two hashes agree.\<close>

theorem user_snapshot_well_formed:
  assumes "validateNodeInfo (Some i) = None" "ni_Common i = Some common" "ps = cn_ProtocolSettings common" "normalizeSettings ps = Inr ns"
    and "\<And>p. previous = Some p \<Longrightarrow> (\<exists>us. snapshotOk env ps ns us p) \<and> tunnelsOk ps ns p tunnels"
  shows "(\<forall>s tunnels'. buildUserConfigsWithPrevious env (Some i) users previous tunnels = (Inr s, tunnels')
      \<longrightarrow> snapshotOk env ps ns users s \<and> tunnelsOk ps ns s tunnels')
    \<and> (eagerSudokuTableUserLimit < length users \<and> settingsValid ps ns \<and> (\<forall>u\<in>set users. trimSpace (ui_Uuid u) \<noteq> [])
        \<and> distinct (map (userHash env) users)
      \<longrightarrow> (\<exists>s tunnels'. buildUserConfigsWithPrevious env (Some i) users previous tunnels = (Inr s, tunnels')))"
proof (intro conjI impI allI)
  fix s tunnels'
  assume "buildUserConfigsWithPrevious env (Some i) users previous tunnels = (Inr s, tunnels')"
  from build_ok [OF this refl assms(2 - 5)] show "snapshotOk env ps ns users s" "tunnelsOk ps ns s tunnels'" by blast+
next
  assume u: "eagerSudokuTableUserLimit < length users \<and> settingsValid ps ns \<and> (\<forall>u\<in>set users. trimSpace (ui_Uuid u) \<noteq> [])
    \<and> distinct (map (userHash env) users)"
  have "snapshotOk env ps ns [] \<lparr>sn_byHash = [], sn_entries = []\<rparr>" by (simp add: snapshotOk_def)
  then have "\<exists>out. buildLoop env ps ns (length users) previous users \<lparr>sn_byHash = [], sn_entries = []\<rparr> = Inr out"
    using buildLoop_total [of "length users" ps ns env "[]" _ previous users] u assms(4, 5) by auto
  then show "\<exists>s tunnels'. buildUserConfigsWithPrevious env (Some i) users previous tunnels = (Inr s, tunnels')"
    using assms(1 - 4) by (auto simp: buildUserConfigsWithPrevious_def Let_def split: prod.split)
qed

definition exampleSettings :: ProtocolSettings where
  "exampleSettings = \<lparr>ps_AEADMethod = [], ps_PaddingMin = 5, ps_PaddingMax = 15, ps_TableType = ''prefer_ascii'',
     ps_EnablePureDownlink = True, ps_HTTPMask = True, ps_HTTPMaskMode = ''poll'', ps_HTTPMaskTLS = False, ps_HTTPMaskHost = [],
     ps_PathRoot = ''abc'', ps_Multiplex = ''on'', ps_CustomTable = [], ps_CustomTables = []\<rparr>"

definition exampleNode :: NodeInfo where
  "exampleNode = \<lparr>ni_Type = ''sudoku'', ni_Common = Some \<lparr>cn_ListenIP = [], cn_ServerPort = 443, cn_TransportProtocol = [],
     cn_ProtocolSettings = exampleSettings, cn_Routes = []\<rparr>\<rparr>"

definition exampleNs :: nodeSettings where
  "exampleNs = \<lparr>ns_aead = ''chacha20-poly1305'', ns_tableType = ''prefer_ascii'', ns_httpMaskMode = ''poll'', ns_multiplex = ''on''\<rparr>"

definition exampleEnv :: buildEnv where
  "exampleEnv = \<lparr>be_draws = (\<lambda>_ _. 0), be_fp = (\<lambda>_. 0), be_sha256 = (\<lambda>b. b), be_seed = (\<lambda>k. k)\<rparr>"

definition exampleUsers :: "UserInfo list" where
  "exampleUsers = map (\<lambda>(n, c). \<lparr>ui_Id = n, ui_Uuid = [CHR ''u'', c], ui_SpeedLimit = 0, ui_DeviceLimit = 0\<rparr>) (zip [1..9] ''123456789'')"

lemma exampleNode_valid: "validateNodeInfo (Some exampleNode) = None"
  by code_simp

lemma exampleSettings_normal: "normalizeSettings exampleSettings = Inr exampleNs"
  by code_simp

lemma exampleSettings_valid: "settingsValid exampleSettings exampleNs"
  by code_simp

lemma exampleUsers_keys: "(\<forall>u\<in>set exampleUsers. trimSpace (ui_Uuid u) \<noteq> []) \<and> distinct (map (userHash exampleEnv) exampleUsers) \<and> length exampleUsers = 9"
  by code_simp

theorem user_snapshot_well_formed_witness:
  "\<exists>s tunnels. buildUserConfigsWithPrevious exampleEnv (Some exampleNode) exampleUsers None [] = (Inr s, tunnels)
     \<and> map uc_user (sn_entries s) = exampleUsers \<and> tunnelsOk exampleSettings exampleNs s tunnels"
proof -
  have common: "ni_Common exampleNode = Some (the (ni_Common exampleNode))" "exampleSettings = cn_ProtocolSettings (the (ni_Common exampleNode))"
    by (simp_all add: exampleNode_def)
  have len: "eagerSudokuTableUserLimit < length exampleUsers" using exampleUsers_keys by (simp add: eagerSudokuTableUserLimit_def)
  from user_snapshot_well_formed [OF exampleNode_valid common exampleSettings_normal, of None exampleEnv "[]" exampleUsers]
  show ?thesis using exampleSettings_valid exampleUsers_keys len by (auto simp: snapshotOk_def)
qed

end
