(* ===== verification/Sudoku_Runtime.thy ===== *)
theory Sudoku_Runtime
  imports Sudoku_Users Node_Tasks
begin

text \<open>
  The lifecycle of the Sudoku kernel (core/sudoku/runtime.go, startServer and Close of
  core/sudoku/server.go): the map of users, the listener with its user snapshot, and the
  transactions that change them. The kernel's part of a user transaction is the parameter
  kernelSync of Node_Tasks, here with its definition.

  What the environment decides is a record of a call: the order in which Go visits the users,
  whether the listener can be opened, how closing it ends (a stop timeout included), and the
  protocol field of a JSON object (Sudoku_Route).
\<close>

record runtimeEnv =
  re_build :: buildEnv
  re_iterate :: "UserInfo list \<Rightarrow> UserInfo list"
  re_jsonProtocol :: "string \<Rightarrow> string option"
  re_listen :: "string \<Rightarrow> string option"
  re_closeErr :: "sudokuError option"

record serverInstance =
  si_router :: sudokuPolicy
  si_users :: userConfigSnapshot
  si_handshakeProbeSlots :: nat

record sudokuRuntime =
  sr_info :: "NodeInfo option"
  sr_instance :: "serverInstance option"
  sr_users :: "(int \<times> UserInfo) list"
  sr_tunnels :: "tunnelServer list"
  sr_channels :: nat

definition NewRuntime :: "NodeInfo option \<Rightarrow> sudokuRuntime" where
  "NewRuntime info = \<lparr>sr_info = info, sr_instance = None, sr_users = [], sr_tunnels = [], sr_channels = 0\<rparr>"

section \<open>Starting and stopping the listener\<close>

definition startServer :: "runtimeEnv \<Rightarrow> NodeInfo option \<Rightarrow> nat \<Rightarrow> userConfigSnapshot \<Rightarrow> sudokuError + serverInstance" where
  "startServer env info channel users =
     (case validateNodeInfo info of
        Some e \<Rightarrow> Inl e
      | None \<Rightarrow>
          let common = the (ni_Common (the info)) in
          bindE (mapErr RoutesRejected (compileRoutePolicy (re_jsonProtocol env) (cn_Routes common))) (\<lambda>router.
            case re_listen env (JoinHostPort (cn_ListenIP common) (itoa (nat (cn_ServerPort common)))) of
              Some e \<Rightarrow> Inl (ListenFailed e)
            | None \<Rightarrow> Inr \<lparr>si_router = router, si_users = installHandshakeProbeLimiter channel users, si_handshakeProbeSlots = channel\<rparr>))"

text \<open>Close of a listener closes the tunnels its users hold.\<close>

definition closeInstance :: "serverInstance \<Rightarrow> tunnelServer list \<Rightarrow> tunnelServer list" where
  "closeInstance inst tunnels = fold closeTunnel (remdups (List.map_filter (uc_tunnel \<circ> snd) (sn_byHash (si_users inst)))) tunnels"

definition stopLocked :: "runtimeEnv \<Rightarrow> sudokuRuntime \<Rightarrow> nodeWorld \<Rightarrow> sudokuError option \<times> sudokuRuntime \<times> nodeWorld" where
  "stopLocked env r w =
     (let w = CloseAllConnections w in
      case sr_instance r of
        None \<Rightarrow> (None, r, w)
      | Some inst \<Rightarrow> (re_closeErr env, r\<lparr>sr_instance := None, sr_tunnels := closeInstance inst (sr_tunnels r)\<rparr>, w))"

definition restartLocked :: "runtimeEnv \<Rightarrow> sudokuRuntime \<Rightarrow> nodeWorld \<Rightarrow> sudokuError option \<times> sudokuRuntime \<times> nodeWorld" where
  "restartLocked env r w =
     (case validateNodeInfo (sr_info r) of
        Some e \<Rightarrow> (Some e, r, w)
      | None \<Rightarrow>
          if sr_users r = [] then stopLocked env r w
          else (case buildUserConfigsWithPrevious (re_build env) (sr_info r) (re_iterate env (map snd (sr_users r))) None (sr_tunnels r) of
              (Inl e, tunnels) \<Rightarrow> (Some e, r\<lparr>sr_tunnels := tunnels\<rparr>, w)
            | (Inr configs, tunnels) \<Rightarrow>
                let r = r\<lparr>sr_tunnels := tunnels, sr_channels := Suc (sr_channels r)\<rparr> in
                (case startServer env (sr_info r) (sr_channels r) configs of
                   Inl e \<Rightarrow> (Some e, r, w)
                 | Inr inst \<Rightarrow>
                     (case stopLocked env r w of
                        (Some e, r, w) \<Rightarrow> (Some e, r\<lparr>sr_tunnels := closeInstance inst (sr_tunnels r)\<rparr>, w)
                      | (None, r, w) \<Rightarrow> (None, r\<lparr>sr_instance := Some inst\<rparr>, w)))))"

definition runtimeStart :: "runtimeEnv \<Rightarrow> sudokuRuntime \<Rightarrow> nodeWorld \<Rightarrow> sudokuError option \<times> sudokuRuntime \<times> nodeWorld" where
  "runtimeStart env r w = (if sr_instance r \<noteq> None then (None, r, w) else restartLocked env r w)"

text \<open>Stop waits for stopLocked; when its time is over the error is a timeout and the work goes on.\<close>

definition runtimeStop :: "runtimeEnv \<Rightarrow> bool \<Rightarrow> sudokuRuntime \<Rightarrow> nodeWorld \<Rightarrow> sudokuError option \<times> sudokuRuntime \<times> nodeWorld" where
  "runtimeStop env timedOut r w =
     (case stopLocked env r w of (err, r, w) \<Rightarrow> (if timedOut then Some StopTimeout else err, r, w))"

section \<open>User transactions\<close>

definition validateUsers :: "(int \<times> UserInfo) list \<Rightarrow> sudokuError option" where
  "validateUsers users = map_option (\<lambda>(i, u). EmptyUUID (ui_Id u)) (find (\<lambda>(i, u). ui_Uuid u = []) users)"

definition runtimeValidate :: "buildEnv \<Rightarrow> (UserInfo list \<Rightarrow> UserInfo list) \<Rightarrow> UserInfo list \<Rightarrow> sudokuRuntime \<Rightarrow> sudokuError option" where
  "runtimeValidate env iterate users r =
     (case validateNodeInfo (sr_info r) of
        Some e \<Rightarrow> Some e
      | None \<Rightarrow>
          let m = fold (\<lambda>u. AList.update (ui_Id u) u) users [] in
          (case buildUserConfigsWithPrevious env (sr_info r) (iterate (map snd m)) None (sr_tunnels r) of
             (Inl e, _) \<Rightarrow> Some e
           | (Inr _, _) \<Rightarrow> None))"

definition changedUsers :: "UserInfo list \<Rightarrow> UserInfo list \<Rightarrow> (int \<times> UserInfo) list \<Rightarrow> (int \<times> UserInfo) list" where
  "changedUsers deleted added users = fold (\<lambda>u. AList.update (ui_Id u) u) added (fold (\<lambda>u. AList.delete (ui_Id u)) deleted users)"

text \<open>SyncUsers up to the call of the shared services: the kernel's part of the transaction.\<close>

definition kernelSyncUsers :: "runtimeEnv \<Rightarrow> UserInfo list \<Rightarrow> UserInfo list \<Rightarrow> sudokuRuntime \<Rightarrow> nodeWorld
    \<Rightarrow> sudokuError option \<times> sudokuRuntime \<times> nodeWorld" where
  "kernelSyncUsers env deleted added r w =
     (let previous = sr_users r; users = changedUsers deleted added previous in
      case validateUsers users of
        Some e \<Rightarrow> (Some e, r, w)
      | None \<Rightarrow>
          let previousConfigs = map_option si_users (sr_instance r) in
          (case buildUserConfigsWithPrevious (re_build env) (sr_info r) (re_iterate env (map snd users)) previousConfigs (sr_tunnels r) of
             (Inl e, tunnels) \<Rightarrow> (Some e, r\<lparr>sr_tunnels := tunnels\<rparr>, w)
           | (Inr configs, tunnels) \<Rightarrow>
               let r = r\<lparr>sr_users := users, sr_tunnels := tunnels\<rparr> in
               if users = [] then
                 (case stopLocked env r w of
                    (Some e, r, w) \<Rightarrow> (Some e, r\<lparr>sr_users := previous\<rparr>, w)
                  | (None, r, w) \<Rightarrow> (None, r, w))
               else
                 (case sr_instance r of
                    None \<Rightarrow>
                      let r = r\<lparr>sr_channels := Suc (sr_channels r)\<rparr> in
                      (case startServer env (sr_info r) (sr_channels r) configs of
                         Inl e \<Rightarrow> (Some e, r\<lparr>sr_users := previous\<rparr>, w)
                       | Inr inst \<Rightarrow> (None, r\<lparr>sr_instance := Some inst\<rparr>, w))
                  | Some inst \<Rightarrow>
                      let configs = installHandshakeProbeLimiter (si_handshakeProbeSlots inst) configs in
                      (None, r\<lparr>sr_instance := Some (inst\<lparr>si_users := configs\<rparr>),
                               sr_tunnels := closeReplacedHTTPMaskTunnels previousConfigs (Some configs) tunnels\<rparr>, w))))"

definition runtimeSyncUsers :: "runtimeEnv \<Rightarrow> UserInfo list \<Rightarrow> UserInfo list \<Rightarrow> sudokuRuntime \<Rightarrow> nodeWorld
    \<Rightarrow> sudokuError option \<times> sudokuRuntime \<times> nodeWorld" where
  "runtimeSyncUsers env deleted added r w =
     (case kernelSyncUsers env deleted added r w of
        (Some e, r, w) \<Rightarrow> (Some e, r, w)
      | (None, r, w) \<Rightarrow> (None, r, SyncUsers deleted added w))"

definition runtimeAddUsers :: "runtimeEnv \<Rightarrow> UserInfo list \<Rightarrow> sudokuRuntime \<Rightarrow> nodeWorld \<Rightarrow> (nat \<times> sudokuError option) \<times> sudokuRuntime \<times> nodeWorld" where
  "runtimeAddUsers env users r w = (case runtimeSyncUsers env [] users r w of (err, r, w) \<Rightarrow> ((length users, err), r, w))"

definition runtimeDelUsers :: "runtimeEnv \<Rightarrow> UserInfo list \<Rightarrow> sudokuRuntime \<Rightarrow> nodeWorld \<Rightarrow> sudokuError option \<times> sudokuRuntime \<times> nodeWorld" where
  "runtimeDelUsers env users r w = runtimeSyncUsers env users [] r w"

section \<open>The invariant\<close>

text \<open>The kernel and the shared services hold the same users under their numbers; a listener is
  open only while there are users, its snapshot is well formed, lists exactly the users, and
  its tunnel is open.\<close>

definition nodeReady :: "NodeInfo option \<Rightarrow> ProtocolSettings \<Rightarrow> nodeSettings \<Rightarrow> bool" where
  "nodeReady info ps ns \<longleftrightarrow>
     (\<exists>i common. info = Some i \<and> ni_Common i = Some common \<and> ps = cn_ProtocolSettings common \<and> normalizeSettings ps = Inr ns)"

definition listenerOk :: "buildEnv \<Rightarrow> NodeInfo option \<Rightarrow> (int \<times> UserInfo) list \<Rightarrow> tunnelServer list \<Rightarrow> serverInstance \<Rightarrow> bool" where
  "listenerOk env info users tunnels inst \<longleftrightarrow>
     (\<exists>ps ns us. nodeReady info ps ns \<and> mset us = mset (map snd users) \<and> us \<noteq> [] \<and> snapshotOk env ps ns us (si_users inst)
        \<and> tunnelsOk ps ns (si_users inst) tunnels)"

definition runtimeInv :: "buildEnv \<Rightarrow> sudokuRuntime \<Rightarrow> nodeWorld \<Rightarrow> bool" where
  "runtimeInv env r w \<longleftrightarrow>
     distinct (map fst (sr_users r)) \<and> (\<forall>(i, u)\<in>set (sr_users r). ui_Id u = i)
     \<and> rs_users (nw_services w) = sr_users r
     \<and> (\<forall>inst. sr_instance r = Some inst \<longrightarrow> listenerOk env (sr_info r) (sr_users r) (sr_tunnels r) inst)"

lemma nodeReady_unique: "nodeReady info ps ns \<Longrightarrow> nodeReady info ps' ns' \<Longrightarrow> ps' = ps \<and> ns' = ns"
  by (auto simp: nodeReady_def)

lemma installLimiter_ok:
  assumes "snapshotOk env ps ns us s"
  shows "snapshotOk env ps ns us (installHandshakeProbeLimiter ch s)"
    "tunnelsOk ps ns (installHandshakeProbeLimiter ch s) tunnels = tunnelsOk ps ns s tunnels"
proof -
  let ?f = "\<lambda>e. e\<lparr>uc_cfg := (uc_cfg e)\<lparr>pc_HandshakeProbeLimiter := Some ch\<rparr>\<rparr>"
  have "sameSudokuProtocolConfig (c\<lparr>pc_HandshakeProbeLimiter := Some ch\<rparr>) d = sameSudokuProtocolConfig c d"
    "allCandidates (c\<lparr>pc_HandshakeProbeLimiter := Some ch\<rparr>) = allCandidates c"
    for c d :: config by (simp_all add: sameSudokuProtocolConfig_def allCandidates_def split: option.split)
  moreover have "Validate (c\<lparr>pc_HandshakeProbeLimiter := Some ch\<rparr>) = Validate c" for c :: config by (rule Validate_cong) simp_all
  ultimately have e: "entryOk env ps ns (?f e) = entryOk env ps ns e" for e by (simp add: entryOk_def)
  have f: "find (\<lambda>e. userHash env (uc_user e) = h) (map ?f es) = map_option ?f (find (\<lambda>e. userHash env (uc_user e) = h) es)" for h es
    by (induction es) auto
  show "snapshotOk env ps ns us (installHandshakeProbeLimiter ch s)"
    using assms e by (auto simp: snapshotOk_def installHandshakeProbeLimiter_def Let_def comp_def f map_of_map)
  show "tunnelsOk ps ns (installHandshakeProbeLimiter ch s) tunnels = tunnelsOk ps ns s tunnels"
    by (simp add: tunnelsOk_def installHandshakeProbeLimiter_def Let_def)
qed

lemma validateNode_common: "validateNodeInfo info = None \<Longrightarrow> \<exists>i common. info = Some i \<and> ni_Common i = Some common"
  by (auto simp: validateNodeInfo_def split: option.splits)

lemma build_ready:
  assumes "buildUserConfigsWithPrevious env info users previous tunnels = (Inr s, tunnels')"
  shows "\<exists>ps ns. nodeReady info ps ns"
proof -
  have valid: "validateNodeInfo info = None" using assms by (auto simp: buildUserConfigsWithPrevious_def split: option.splits)
  then obtain i common where "info = Some i" "ni_Common i = Some common" using validateNode_common by blast
  moreover from this obtain ns where "normalizeSettings (cn_ProtocolSettings common) = Inr ns"
    using assms valid by (cases "normalizeSettings (cn_ProtocolSettings common)") (auto simp: buildUserConfigsWithPrevious_def)
  ultimately show ?thesis by (auto simp: nodeReady_def)
qed

lemma runtime_build_ok:
  assumes "buildUserConfigsWithPrevious env info users previous tunnels = (Inr s, tunnels')"
    and "\<And>p. previous = Some p \<Longrightarrow> \<exists>ps ns us. nodeReady info ps ns \<and> snapshotOk env ps ns us p \<and> tunnelsOk ps ns p tunnels"
  shows "\<exists>ps ns. nodeReady info ps ns \<and> snapshotOk env ps ns users s \<and> tunnelsOk ps ns s tunnels'"
proof -
  obtain ps ns where ready: "nodeReady info ps ns" using build_ready [OF assms(1)] by blast
  then obtain i common where i: "info = Some i" "ni_Common i = Some common" "ps = cn_ProtocolSettings common" "normalizeSettings ps = Inr ns"
    by (auto simp: nodeReady_def)
  have "(\<exists>us. snapshotOk env ps ns us p) \<and> tunnelsOk ps ns p tunnels" if "previous = Some p" for p
    using assms(2) [OF that] ready nodeReady_unique by blast
  from build_ok(1, 2) [OF assms(1) i this] ready show ?thesis by blast
qed

text \<open>Closing tunnels spares the ones that are not named.\<close>

lemma fold_closeTunnel:
  "length (fold closeTunnel ts tunnels) = length tunnels"
  "t \<notin> set ts \<Longrightarrow> fold closeTunnel ts tunnels ! t = tunnels ! t"
  by (induction ts arbitrary: tunnels) (simp_all add: closeTunnel_def)

lemma closeReplaced_ok:
  assumes "tunnelsOk ps ns s tunnels"
  shows "tunnelsOk ps ns s (closeReplacedHTTPMaskTunnels previous (Some s) tunnels)"
proof -
  have "t \<in> set (List.map_filter uc_tunnel (sn_entries s))" if "e \<in> set (sn_entries s)" "uc_tunnel e = Some t" for e t
    using that map_filter_mem [of t uc_tunnel "sn_entries s"] by blast
  then show ?thesis
    using assms by (cases "sn_entries s") (auto simp: tunnelsOk_def closeReplacedHTTPMaskTunnels_def fold_closeTunnel split: option.split if_splits)
qed

lemma changedUsers_keys:
  assumes "distinct (map fst users)" "\<forall>(i, u)\<in>set users. ui_Id u = i"
  shows "distinct (map fst (changedUsers deleted added users)) \<and> (\<forall>(i, u)\<in>set (changedUsers deleted added users). ui_Id u = i)"
proof -
  have del: "distinct (map fst (fold (\<lambda>u. AList.delete (ui_Id u)) deleted users)) \<and> (\<forall>(i, u)\<in>set (fold (\<lambda>u. AList.delete (ui_Id u)) deleted users). ui_Id u = i)"
    using assms
  proof (induction deleted arbitrary: users)
    case (Cons u deleted)
    have "set (AList.delete (ui_Id u) users) \<subseteq> set users" by (auto simp: AList.delete_eq)
    then have "\<forall>(i, v)\<in>set (AList.delete (ui_Id u) users). ui_Id v = i" using Cons.prems by fastforce
    moreover have "distinct (map fst (AList.delete (ui_Id u) users))" using Cons.prems(1) by (rule AList.distinct_delete)
    ultimately show ?case using Cons.IH [of "AList.delete (ui_Id u) users"] by simp
  qed simp
  have "distinct (map fst m) \<and> (\<forall>(i, u)\<in>set m. ui_Id u = i) \<Longrightarrow>
      distinct (map fst (fold (\<lambda>u. AList.update (ui_Id u) u) added m)) \<and> (\<forall>(i, u)\<in>set (fold (\<lambda>u. AList.update (ui_Id u) u) added m). ui_Id u = i)" for m
  proof (induction added arbitrary: m)
    case (Cons u added)
    have "set (AList.update (ui_Id u) u m) \<subseteq> insert (ui_Id u, u) (set m)" by (induction m) auto
    then have "\<forall>(i, v)\<in>set (AList.update (ui_Id u) u m). ui_Id v = i" using Cons.prems by fastforce
    moreover have "distinct (map fst (AList.update (ui_Id u) u m))" using Cons.prems by (simp add: AList.distinct_update)
    ultimately show ?case using Cons.IH [of "AList.update (ui_Id u) u m"] by simp
  qed simp
  with del show ?thesis by (simp add: changedUsers_def)
qed

lemma services_users:
  "rs_users (nw_services (SyncUsers deleted added w)) = changedUsers deleted added (rs_users (nw_services w))"
proof -
  have d: "rs_users (fst (fold syncDelete deleted (s, cs))) = fold (\<lambda>u. AList.delete (ui_Id u)) deleted (rs_users s)" for s cs
    by (induction deleted arbitrary: s cs) (simp_all add: syncDelete_def addTrafficUser_def Let_def)
  have a: "rs_users (fold syncAdd added s) = fold (\<lambda>u. AList.update (ui_Id u) u) added (rs_users s)" for s
    by (induction added arbitrary: s) (simp_all add: syncAdd_def addTrafficUser_def counterLocked_def Let_def)
  show ?thesis using d [of "nw_services w" "[]"] by (auto simp: SyncUsers_def changedUsers_def a split: prod.split)
qed

lemma CloseAll_users [simp]: "rs_users (nw_services (CloseAllConnections w)) = rs_users (nw_services w)"
  by (simp add: CloseAllConnections_def onServices_def)

lemma stopLocked_inv:
  assumes "stopLocked env r w = (err, r', w')"
  shows "sr_instance r' = None" "sr_users r' = sr_users r" "rs_users (nw_services w') = rs_users (nw_services w)" "keepsLimits w w'"
    "sr_info r' = sr_info r"
proof -
  have "keepsLimits w (CloseAllConnections w)"
    using closeSessions_limits [of "onServices (\<lambda>s. s\<lparr>rs_connections := []\<rparr>) w"]
    by (simp add: CloseAllConnections_def keepsLimits_def onServices_def)
  then show "sr_instance r' = None" "sr_users r' = sr_users r" "rs_users (nw_services w') = rs_users (nw_services w)" "keepsLimits w w'"
    "sr_info r' = sr_info r"
    using assms by (auto simp: stopLocked_def Let_def split: option.splits)
qed

lemma startServer_ok: "startServer env info ch users = Inr inst \<Longrightarrow> si_users inst = installHandshakeProbeLimiter ch users"
  by (auto simp: startServer_def bindE_eq_Inr Let_def split: option.splits)

text \<open>A permutation of the users, as Go's map iteration is.\<close>

definition visitsAll :: "runtimeEnv \<Rightarrow> bool" where
  "visitsAll env \<longleftrightarrow> (\<forall>us. mset (re_iterate env us) = mset us)"

lemma listenerOk_build:
  assumes "buildUserConfigsWithPrevious (re_build env) info (re_iterate env (map snd users)) previous tunnels = (Inr s, tunnels')"
    and "\<And>p. previous = Some p \<Longrightarrow> \<exists>ps ns us. nodeReady info ps ns \<and> snapshotOk (re_build env) ps ns us p \<and> tunnelsOk ps ns p tunnels"
    and "visitsAll env" "users \<noteq> []" "si_users inst = installHandshakeProbeLimiter ch s"
    and "tunnels'' = tunnels' \<or> tunnels'' = closeReplacedHTTPMaskTunnels previous (Some (si_users inst)) tunnels'"
  shows "listenerOk (re_build env) info users tunnels'' inst"
proof -
  obtain ps ns where b: "nodeReady info ps ns" "snapshotOk (re_build env) ps ns (re_iterate env (map snd users)) s" "tunnelsOk ps ns s tunnels'"
    using runtime_build_ok [OF assms(1, 2)] by blast
  have m: "mset (re_iterate env (map snd users)) = mset (map snd users)" using assms(3) by (simp add: visitsAll_def)
  then have "re_iterate env (map snd users) \<noteq> []" using assms(4) by (metis map_is_Nil_conv mset_zero_iff)
  moreover have "tunnelsOk ps ns (si_users inst) tunnels'" using b(2, 3) installLimiter_ok(2) assms(5) by simp
  then have "tunnelsOk ps ns (si_users inst) tunnels''" using closeReplaced_ok assms(6) by blast
  ultimately show ?thesis using b installLimiter_ok(1) [OF b(2)] m assms(5) unfolding listenerOk_def by auto
qed

lemma previous_ok:
  assumes "runtimeInv env r w" "map_option si_users (sr_instance r) = Some p"
  shows "\<exists>ps ns us. nodeReady (sr_info r) ps ns \<and> snapshotOk env ps ns us p \<and> tunnelsOk ps ns p (sr_tunnels r)"
proof -
  obtain inst where "sr_instance r = Some inst" "p = si_users inst" using assms(2) by blast
  then show ?thesis using assms(1) unfolding runtimeInv_def listenerOk_def by blast
qed

lemma runtimeInv_services:
  "runtimeInv env r w \<Longrightarrow> rs_users (nw_services w') = rs_users (nw_services w) \<Longrightarrow> runtimeInv env r w'"
  by (simp add: runtimeInv_def)

lemma build_tunnels:
  assumes "buildUserConfigsWithPrevious env info users previous tunnels = (res, tunnels')"
    and "\<And>p. previous = Some p \<Longrightarrow> \<exists>ps ns us. nodeReady info ps ns \<and> snapshotOk env ps ns us p \<and> tunnelsOk ps ns p tunnels"
  shows "\<exists>new. tunnels' = tunnels @ new"
proof (cases res)
  case (Inl e)
  then show ?thesis using assms(1) by (auto simp: buildUserConfigsWithPrevious_def Let_def split: option.splits sum.splits prod.splits if_splits)
next
  case (Inr s)
  obtain ps ns where ready: "nodeReady info ps ns" using build_ready assms(1) Inr by blast
  then obtain i common where i: "info = Some i" "ni_Common i = Some common" "ps = cn_ProtocolSettings common" "normalizeSettings ps = Inr ns"
    by (auto simp: nodeReady_def)
  have "(\<exists>us. snapshotOk env ps ns us p) \<and> tunnelsOk ps ns p tunnels" if "previous = Some p" for p
    using assms(2) [OF that] ready nodeReady_unique by blast
  from build_ok(3) [OF assms(1) [unfolded Inr] i this] show ?thesis by blast
qed

lemma listenerOk_more_tunnels: "listenerOk env info users tunnels inst \<Longrightarrow> listenerOk env info users (tunnels @ new) inst"
proof -
  have "tunnelsOk ps ns s tunnels \<Longrightarrow> tunnelsOk ps ns s (tunnels @ new)" for ps ns s
    by (auto simp: tunnelsOk_def nth_append split: if_splits)
  then show "listenerOk env info users tunnels inst \<Longrightarrow> ?thesis" unfolding listenerOk_def by blast
qed

text \<open>The kernel's part: a refused change leaves users and services alone, a taken one leaves the
  services to the caller and brings the listener to the new users.\<close>

lemma kernelSync_cases:
  assumes "kernelSyncUsers env deleted added r w = (err, r', w')" "runtimeInv (re_build env) r w" "visitsAll env"
  shows "(err \<noteq> None \<and> runtimeInv (re_build env) r' w' \<and> sr_users r' = sr_users r
        \<and> (w' = w \<and> sr_instance r' = sr_instance r \<or> changedUsers deleted added (sr_users r) = [] \<and> sr_instance r' = None))
    \<or> (err = None \<and> rs_users (nw_services w') = rs_users (nw_services w) \<and> keepsLimits w w' \<and> sr_info r' = sr_info r
        \<and> sr_users r' = changedUsers deleted added (sr_users r) \<and> (sr_instance r' = None \<longleftrightarrow> sr_users r' = [])
        \<and> (\<forall>inst. sr_instance r' = Some inst \<longrightarrow> listenerOk (re_build env) (sr_info r') (sr_users r') (sr_tunnels r') inst))"
    (is "?refused \<or> ?taken")
proof -
  let ?users = "changedUsers deleted added (sr_users r)" and ?prev = "map_option si_users (sr_instance r)"
  have refl_limits: "keepsLimits w w" by (simp add: keepsLimits_def)
  show ?thesis
  proof (cases "validateUsers ?users")
    case (Some e)
    then have "err = Some e" "r' = r" "w' = w" using assms(1) by (simp_all add: kernelSyncUsers_def Let_def)
    then have ?refused using assms(2) by simp
    then show ?thesis ..
  next
    case None
    obtain res tunnels where b: "buildUserConfigsWithPrevious (re_build env) (sr_info r) (re_iterate env (map snd ?users)) ?prev (sr_tunnels r) = (res, tunnels)"
      by fastforce
    note prev = previous_ok [OF assms(2)]
    obtain new where new: "tunnels = sr_tunnels r @ new" using build_tunnels [OF b prev] by blast
    have more: "runtimeInv (re_build env) (r\<lparr>sr_tunnels := tunnels, sr_channels := n\<rparr>) w" for n
      using assms(2) listenerOk_more_tunnels by (auto simp: runtimeInv_def new)
    show ?thesis
    proof (cases res)
      case (Inl e)
      then have ?refused using assms(1) None b more [of "sr_channels r"] by (auto simp: kernelSyncUsers_def Let_def)
      then show ?thesis ..
    next
      case (Inr configs)
      let ?r = "r\<lparr>sr_users := ?users, sr_tunnels := tunnels\<rparr>"
      note run = assms(1) [unfolded kernelSyncUsers_def Let_def, simplified None b Inr, simplified]
      note ok = listenerOk_build [OF b [unfolded Inr] prev assms(3)]
      consider "?users = []" | "?users \<noteq> []" "sr_instance r = None" | inst where "?users \<noteq> []" "sr_instance r = Some inst" by fastforce
      then show ?thesis
      proof cases
        case 1
        obtain err1 r1 w1 where stop: "stopLocked env ?r w = (err1, r1, w1)" by (metis prod_cases3)
        note st = stopLocked_inv [OF stop]
        show ?thesis
        proof (cases err1)
          case (Some e)
          then have "err \<noteq> None" "r' = r1\<lparr>sr_users := sr_users r\<rparr>" "w' = w1" using run 1 stop by auto
          then have ?refused using assms(2) st 1 by (auto simp: runtimeInv_def)
          then show ?thesis ..
        next
          case None
          then have "err = None" "r' = r1" "w' = w1" using run 1 stop by auto
          then have ?taken using st 1 by auto
          then show ?thesis ..
        qed
      next
        case 2
        show ?thesis
        proof (cases "startServer env (sr_info r) (Suc (sr_channels r)) configs")
          case (Inl e)
          then have "err \<noteq> None" "r' = r\<lparr>sr_tunnels := tunnels, sr_channels := Suc (sr_channels r)\<rparr>" "w' = w" using run 2 by auto
          then have ?refused using more by auto
          then show ?thesis ..
        next
          case (Inr inst)
          then have r': "err = None" "r' = ?r\<lparr>sr_channels := Suc (sr_channels r), sr_instance := Some inst\<rparr>" "w' = w" using run 2 by auto
          have "listenerOk (re_build env) (sr_info r) ?users tunnels inst"
            by (rule ok [OF _ 2(1) startServer_ok [OF Inr]]) simp_all
          then have ?taken using r' 2 refl_limits by auto
          then show ?thesis ..
        qed
      next
        case (3 inst)
        let ?c = "installHandshakeProbeLimiter (si_handshakeProbeSlots inst) configs"
        have r': "err = None" "w' = w" "r' = ?r\<lparr>sr_instance := Some (inst\<lparr>si_users := ?c\<rparr>),
            sr_tunnels := closeReplacedHTTPMaskTunnels ?prev (Some ?c) tunnels\<rparr>" using run 3 by auto
        have "listenerOk (re_build env) (sr_info r) ?users (closeReplacedHTTPMaskTunnels ?prev (Some ?c) tunnels) (inst\<lparr>si_users := ?c\<rparr>)"
          by (rule ok [OF _ 3(1), where ch = "si_handshakeProbeSlots inst"]) simp_all
        then have ?taken using r' 3 refl_limits by auto
        then show ?thesis ..
      qed
    qed
  qed
qed

lemma runtimeInv_taken:
  assumes "runtimeInv env r w" "rs_users (nw_services w') = changedUsers deleted added (sr_users r)"
    and "sr_users r' = changedUsers deleted added (sr_users r)"
    and "\<forall>inst. sr_instance r' = Some inst \<longrightarrow> listenerOk env (sr_info r') (sr_users r') (sr_tunnels r') inst"
  shows "runtimeInv env r' w'"
  using assms changedUsers_keys [of "sr_users r" deleted added] by (simp add: runtimeInv_def)

text \<open>C13: A user transaction of the Sudoku kernel is atomic. From every state in which the kernel, the
  services and the listener agree it leads to such a state, whatever order Go visits the users
  in and whatever fails on the way. When it succeeds the users are the old ones without the
  deleted and with the added, and a listener is open exactly when there are users. When it
  fails the users are as before; then either nothing changed, or the last user was to be
  removed and the listener is down.\<close>

theorem sudoku_sync_transaction:
  assumes "runtimeSyncUsers env deleted added r w = (err, r', w')" "runtimeInv (re_build env) r w" "visitsAll env"
  shows "runtimeInv (re_build env) r' w'
    \<and> (err = None \<longrightarrow> sr_users r' = changedUsers deleted added (sr_users r) \<and> (sr_instance r' = None \<longleftrightarrow> sr_users r' = []))
    \<and> (err \<noteq> None \<longrightarrow> sr_users r' = sr_users r
        \<and> (w' = w \<and> sr_instance r' = sr_instance r \<or> changedUsers deleted added (sr_users r) = [] \<and> sr_instance r' = None))"
proof -
  obtain err1 r1 w1 where k: "kernelSyncUsers env deleted added r w = (err1, r1, w1)" by (metis prod_cases3)
  from kernelSync_cases [OF k assms(2, 3)] show ?thesis
  proof
    assume "err1 \<noteq> None \<and> runtimeInv (re_build env) r1 w1 \<and> sr_users r1 = sr_users r
      \<and> (w1 = w \<and> sr_instance r1 = sr_instance r \<or> changedUsers deleted added (sr_users r) = [] \<and> sr_instance r1 = None)"
    moreover from this have "err = err1" "r' = r1" "w' = w1" using assms(1) k by (auto simp: runtimeSyncUsers_def)
    ultimately show ?thesis by auto
  next
    assume t: "err1 = None \<and> rs_users (nw_services w1) = rs_users (nw_services w) \<and> keepsLimits w w1 \<and> sr_info r1 = sr_info r
      \<and> sr_users r1 = changedUsers deleted added (sr_users r) \<and> (sr_instance r1 = None \<longleftrightarrow> sr_users r1 = [])
      \<and> (\<forall>inst. sr_instance r1 = Some inst \<longrightarrow> listenerOk (re_build env) (sr_info r1) (sr_users r1) (sr_tunnels r1) inst)"
    then have r': "err = None" "r' = r1" "w' = SyncUsers deleted added w1" using assms(1) k by (auto simp: runtimeSyncUsers_def)
    have "rs_users (nw_services w') = changedUsers deleted added (sr_users r)"
      using r'(3) t services_users assms(2) by (simp add: runtimeInv_def)
    then have "runtimeInv (re_build env) r1 w'" using t by (intro runtimeInv_taken [OF assms(2)]) auto
    then show ?thesis using t r' by simp
  qed
qed

text \<open>Starting and stopping keep the agreement too, and a start that succeeds leaves a listener open
  exactly when there are users.\<close>

lemma runtimeStop_inv:
  assumes "runtimeInv env r w" "runtimeStop renv timedOut r w = (err, r', w')"
  shows "runtimeInv env r' w' \<and> sr_instance r' = None \<and> sr_users r' = sr_users r"
proof -
  obtain err1 where "stopLocked renv r w = (err1, r', w')" using assms(2) by (auto simp: runtimeStop_def split: prod.splits)
  from stopLocked_inv [OF this] assms(1) show ?thesis by (simp add: runtimeInv_def)
qed

lemma runtimeStart_inv:
  assumes "runtimeInv (re_build env) r w" "runtimeStart env r w = (err, r', w')" "visitsAll env"
  shows "runtimeInv (re_build env) r' w' \<and> sr_users r' = sr_users r \<and> (err = None \<longrightarrow> sr_instance r' \<noteq> None \<or> sr_users r' = [])"
proof (cases "sr_instance r \<noteq> None \<or> validateNodeInfo (sr_info r) \<noteq> None")
  case True
  then show ?thesis using assms by (auto simp: runtimeStart_def restartLocked_def split: option.splits if_splits)
next
  case False
  then have r: "sr_instance r = None" "validateNodeInfo (sr_info r) = None" by auto
  note run = assms(2) [unfolded runtimeStart_def restartLocked_def, simplified r, simplified]
  show ?thesis
  proof (cases "sr_users r = []")
    case True
    then have "stopLocked env r w = (err, r', w')" using run by simp
    from stopLocked_inv [OF this] assms(1) True show ?thesis by (simp add: runtimeInv_def)
  next
    case users: False
    obtain res tunnels where b: "buildUserConfigsWithPrevious (re_build env) (sr_info r) (re_iterate env (map snd (sr_users r))) None (sr_tunnels r) = (res, tunnels)"
      by fastforce
    have no: "runtimeInv (re_build env) (r\<lparr>sr_tunnels := t, sr_channels := n\<rparr>) w" for t n using assms(1) r(1) by (simp add: runtimeInv_def)
    show ?thesis
    proof (cases res)
      case (Inl e)
      then show ?thesis using run users b no [where t = tunnels and n = "sr_channels r"] by auto
    next
      case (Inr configs)
      show ?thesis
      proof (cases "startServer env (sr_info r) (Suc (sr_channels r)) configs")
        case (Inl e)
        then show ?thesis using run users b Inr no by auto
      next
        case started: (Inr inst)
        have "listenerOk (re_build env) (sr_info r) (sr_users r) tunnels inst"
          by (rule listenerOk_build [OF b [unfolded Inr] _ assms(3) users startServer_ok [OF started]]) simp_all
        then show ?thesis using run users b Inr started r(1) assms(1) by (auto simp: stopLocked_def runtimeInv_def Let_def)
      qed
    qed
  qed
qed

text \<open>A transaction of the whole node: the controller's task with this kernel, and the runtime after it.\<close>

definition taskErrorOf :: "sudokuError \<Rightarrow> taskError" where
  "taskErrorOf e = (if e = StopTimeout then RuntimeStopTimeout else SyncFailed ''Sudoku'')"

definition kernelOf :: "runtimeEnv \<Rightarrow> sudokuRuntime \<Rightarrow> kernel" where
  "kernelOf env r deleted added w =
     (case kernelSyncUsers env deleted added r w of (err, r, w) \<Rightarrow> (map_option taskErrorOf err, w))"

definition runtimeAfter :: "runtimeEnv \<Rightarrow> controller \<Rightarrow> UserInfo list \<Rightarrow> sudokuRuntime \<Rightarrow> nodeWorld \<Rightarrow> sudokuRuntime" where
  "runtimeAfter env c new r w =
     (let (deleted, added, modified) = compareUserList (ct_userList c) new in
      if deleted \<noteq> [] \<or> added \<noteq> [] then fst (snd (kernelSyncUsers env deleted added r w)) else r)"

lemma kernelOf_core:
  "rs_tag (nw_services w) = tag \<Longrightarrow> runtimeSyncUsers env deleted added r w = (err, r', w') \<Longrightarrow>
     coreSyncUsers (kernelOf env r) tag deleted added w = (map_option taskErrorOf err, w')"
  by (auto simp: coreSyncUsers_def kernelOf_def runtimeSyncUsers_def split: prod.splits option.splits)

lemma runtimeInv_current:
  assumes "runtimeInv env r w"
  shows "userIsCurrent (nw_services w) u \<longleftrightarrow> (\<exists>v\<in>set (map snd (sr_users r)). sameUser v u)"
proof -
  have m: "map_of (sr_users r) (ui_Id u) = Some v \<longleftrightarrow> (ui_Id u, v) \<in> set (sr_users r)" for v
    using assms by (intro map_of_eq_Some_iff) (simp add: runtimeInv_def)
  have i: "(i, v) \<in> set (sr_users r) \<Longrightarrow> ui_Id v = i" for i v using assms unfolding runtimeInv_def by blast
  have "rs_users (nw_services w) = sr_users r" using assms unfolding runtimeInv_def by blast
  then have "userIsCurrent (nw_services w) u \<longleftrightarrow> (\<exists>v. (ui_Id u, v) \<in> set (sr_users r) \<and> ui_Uuid v = ui_Uuid u)"
    by (simp add: current_iff m)
  also have "\<dots> \<longleftrightarrow> (\<exists>p\<in>set (sr_users r). sameUser (snd p) u)"
    using i unfolding sameUser_def by (metis prod.collapse snd_conv)
  finally show ?thesis by simp
qed

lemma listener_users:
  assumes "runtimeInv env r w" "servesUsers us w" "sr_instance r = Some inst"
  shows "(\<exists>e\<in>set (sn_entries (si_users inst)). sameUser (uc_user e) u) \<longleftrightarrow> (\<exists>v\<in>set us. sameUser v u)"
proof -
  obtain ps ns vs where "mset vs = mset (map snd (sr_users r))" "snapshotOk env ps ns vs (si_users inst)"
    using assms(1, 3) unfolding runtimeInv_def listenerOk_def by blast
  then have "uc_user ` set (sn_entries (si_users inst)) = set (map snd (sr_users r))"
    by (metis image_set set_mset_mset snapshotOk_def)
  then have "(\<exists>e\<in>set (sn_entries (si_users inst)). sameUser (uc_user e) u) \<longleftrightarrow> (\<exists>v\<in>set (map snd (sr_users r)). sameUser v u)"
    by (metis (no_types, lifting) image_iff)
  then show ?thesis using runtimeInv_current [OF assms(1)] assms(2) by (simp add: servesUsers_def)
qed


section \<open>A concrete node\<close>

definition exampleRuntimeEnv :: runtimeEnv where
  "exampleRuntimeEnv = \<lparr>re_build = exampleEnv, re_iterate = (\<lambda>us. us), re_jsonProtocol = (\<lambda>_. None), re_listen = (\<lambda>_. None), re_closeErr = None\<rparr>"

definition exampleServices :: nodeWorld where
  "exampleServices = \<lparr>nw_services = NewRuntimeServices ''n'',
     nw_limiters = snd (AddLimiter ''sudoku'' ''n'' 0 [] [] \<lparr>lt_objects = [], lt_limiter = []\<rparr>), nw_committed = []\<rparr>"

lemma exampleRuntime_inv: "runtimeInv (re_build exampleRuntimeEnv) (NewRuntime (Some exampleNode)) exampleServices" "visitsAll exampleRuntimeEnv"
  by (simp_all add: runtimeInv_def NewRuntime_def exampleServices_def NewRuntimeServices_def visitsAll_def exampleRuntimeEnv_def)

lemma exampleUsers_change: "changedUsers [] exampleUsers [] = map (\<lambda>u. (ui_Id u, u)) exampleUsers"
  by code_simp

lemma exampleUsers_valid: "validateUsers (map (\<lambda>u. (ui_Id u, u)) exampleUsers) = None"
  by code_simp

lemma example_build:
  obtains s tunnels where "buildUserConfigsWithPrevious exampleEnv (Some exampleNode) exampleUsers None [] = (Inr s, tunnels)"
proof -
  have common: "ni_Common exampleNode = Some (the (ni_Common exampleNode))" "exampleSettings = cn_ProtocolSettings (the (ni_Common exampleNode))"
    by (simp_all add: exampleNode_def)
  have len: "eagerSudokuTableUserLimit < length exampleUsers" using exampleUsers_keys by (simp add: eagerSudokuTableUserLimit_def)
  have "snapshotOk exampleEnv exampleSettings exampleNs [] \<lparr>sn_byHash = [], sn_entries = []\<rparr>" by (simp add: snapshotOk_def)
  then obtain out where "buildLoop exampleEnv exampleSettings exampleNs (length exampleUsers) None exampleUsers \<lparr>sn_byHash = [], sn_entries = []\<rparr> = Inr out"
    using buildLoop_total [OF len exampleSettings_normal exampleSettings_valid, of exampleEnv "[]" _ None exampleUsers] exampleUsers_keys by auto
  then have "\<exists>s tunnels. buildUserConfigsWithPrevious exampleEnv (Some exampleNode) exampleUsers None [] = (Inr s, tunnels)"
    using exampleNode_valid exampleSettings_normal common(2) by (auto simp: buildUserConfigsWithPrevious_def Let_def split: prod.split)
  then show ?thesis using that by blast
qed

lemma example_started:
  "\<exists>r1. kernelSyncUsers exampleRuntimeEnv [] exampleUsers (NewRuntime (Some exampleNode)) exampleServices = (None, r1, exampleServices)
     \<and> sr_instance r1 \<noteq> None"
proof -
  obtain s tunnels where b: "buildUserConfigsWithPrevious exampleEnv (Some exampleNode) exampleUsers None [] = (Inr s, tunnels)"
    by (rule example_build)
  have ne: "exampleUsers \<noteq> []" using exampleUsers_keys by auto
  have snd: "map (snd \<circ> (\<lambda>u. (ui_Id u, u))) exampleUsers = exampleUsers" by (simp add: comp_def)
  have "\<exists>inst. startServer exampleRuntimeEnv (Some exampleNode) 1 s = Inr inst"
    using exampleNode_valid by (simp add: startServer_def exampleRuntimeEnv_def exampleNode_def compileRoutePolicy_def)
  then show ?thesis using b ne exampleUsers_valid
    by (auto simp: kernelSyncUsers_def NewRuntime_def exampleUsers_change exampleRuntimeEnv_def snd Let_def)
qed

theorem sudoku_sync_transaction_witness:
  "\<exists>r w. runtimeSyncUsers exampleRuntimeEnv [] exampleUsers (NewRuntime (Some exampleNode)) exampleServices = (None, r, w)
     \<and> runtimeInv exampleEnv r w \<and> map snd (sr_users r) = exampleUsers \<and> sr_instance r \<noteq> None"
proof -
  obtain r1 where k: "kernelSyncUsers exampleRuntimeEnv [] exampleUsers (NewRuntime (Some exampleNode)) exampleServices = (None, r1, exampleServices)"
    "sr_instance r1 \<noteq> None" using example_started by blast
  then have run: "runtimeSyncUsers exampleRuntimeEnv [] exampleUsers (NewRuntime (Some exampleNode)) exampleServices
    = (None, r1, SyncUsers [] exampleUsers exampleServices)" by (simp add: runtimeSyncUsers_def)
  from sudoku_sync_transaction [OF run exampleRuntime_inv] run k(2) show ?thesis
    by (auto simp: NewRuntime_def exampleUsers_change exampleRuntimeEnv_def comp_def)
qed


end
