(* ===== verification/Base64.thy ===== *)
theory Base64
  imports Go_Net
begin

text \<open>
  The standard encoding of Go's encoding/base64 with padding, and the lines of the HTTP mask's
  poll mode made of it: the client puts the base64 text of a chunk on every line of a request
  (enqueue in obfs/httpmask/tunnel_conn_poll.go), the server decodes the lines (pollPush of
  tunnel_server.go) and answers in lines too (pollPull).
\<close>

section \<open>The encoding\<close>

definition b64Alphabet :: string where
  "b64Alphabet = ''ABCDEFGHIJKLMNOPQRSTUVWXYZabcdefghijklmnopqrstuvwxyz0123456789+/''"

definition b64Char :: "nat \<Rightarrow> char" where
  "b64Char n = b64Alphabet ! n"

definition b64Val :: "char \<Rightarrow> nat option" where
  "b64Val c = indexByte b64Alphabet c"

text \<open>The four digits of three bytes.\<close>

definition b64Quad :: "nat \<Rightarrow> nat \<Rightarrow> nat \<Rightarrow> nat list" where
  "b64Quad a b c = [a div 4, (a mod 4) * 16 + b div 16, (b mod 16) * 4 + c div 64, c mod 64]"

fun b64Encode :: "byte list \<Rightarrow> string" where
  "b64Encode [] = []"
| "b64Encode [a] = map b64Char (take 2 (b64Quad (unat a) 0 0)) @ ''==''"
| "b64Encode [a, b] = map b64Char (take 3 (b64Quad (unat a) (unat b) 0)) @ ''=''"
| "b64Encode (a # b # c # bs) = map b64Char (b64Quad (unat a) (unat b) (unat c)) @ b64Encode bs"

definition b64Bytes :: "nat \<Rightarrow> nat \<Rightarrow> nat \<Rightarrow> nat \<Rightarrow> byte list" where
  "b64Bytes p q r s = [word_of_nat (p * 4 + q div 16), word_of_nat ((q mod 16) * 16 + r div 4), word_of_nat ((r mod 4) * 64 + s)]"

text \<open>Decode ignores line breaks; the last group may be padded, with nothing after the padding.\<close>

fun b64Groups :: "string \<Rightarrow> byte list option" where
  "b64Groups [] = Some []"
| "b64Groups (c0 # c1 # c2 # c3 # cs) =
     (if c2 = CHR ''='' then
        (if c3 = CHR ''='' \<and> cs = [] then do { p \<leftarrow> b64Val c0; q \<leftarrow> b64Val c1; Some (take 1 (b64Bytes p q 0 0)) } else None)
      else if c3 = CHR ''='' then
        (if cs = [] then do { p \<leftarrow> b64Val c0; q \<leftarrow> b64Val c1; r \<leftarrow> b64Val c2; Some (take 2 (b64Bytes p q r 0)) } else None)
      else do { p \<leftarrow> b64Val c0; q \<leftarrow> b64Val c1; r \<leftarrow> b64Val c2; s \<leftarrow> b64Val c3; bs \<leftarrow> b64Groups cs; Some (b64Bytes p q r s @ bs) })"
| "b64Groups _ = None"

definition b64Decode :: "string \<Rightarrow> byte list option" where
  "b64Decode s = b64Groups (filter (\<lambda>c. c \<noteq> CHR 0x0A \<and> c \<noteq> CHR 0x0D) s)"

lemma b64Val_Char: "n < 64 \<Longrightarrow> b64Val (b64Char n) = Some n"
proof -
  have "\<forall>n\<in>set [0..<64]. b64Val (b64Char n) = Some n" by code_simp
  then show "n < 64 \<Longrightarrow> b64Val (b64Char n) = Some n" by simp
qed

lemma b64Char_plain: "n < 64 \<Longrightarrow> b64Char n \<noteq> CHR ''='' \<and> \<not> isSpace (b64Char n)"
proof -
  have "\<forall>n\<in>set [0..<64]. b64Char n \<noteq> CHR ''='' \<and> \<not> isSpace (b64Char n)" by code_simp
  then show "n < 64 \<Longrightarrow> b64Char n \<noteq> CHR ''='' \<and> \<not> isSpace (b64Char n)" by simp
qed

lemma unat_byte: "unat (b :: byte) < 256"
  using unsigned_less [of b] by simp

lemma b64Quad_less:
  fixes a b c :: byte
  shows "unat a div 4 < 64" "(unat a mod 4) * 16 + unat b div 16 < 64" "(unat b mod 16) * 4 + unat c div 64 < 64"
    "unat c mod 64 < 64" "(unat a mod 4) * 16 < 64" "(unat b mod 16) * 4 < 64"
proof -
  have "unat a div 4 < 64" "unat b div 16 < 16" "unat c div 64 < 4"
    using unat_byte [of a] unat_byte [of b] unat_byte [of c] by (simp_all add: less_mult_imp_div_less)
  moreover have "unat a mod 4 < 4" "unat b mod 16 < 16" by simp_all
  ultimately show "unat a div 4 < 64" "(unat a mod 4) * 16 + unat b div 16 < 64" "(unat b mod 16) * 4 + unat c div 64 < 64"
    "unat c mod 64 < 64" "(unat a mod 4) * 16 < 64" "(unat b mod 16) * 4 < 64" by (linarith | simp)+
qed

lemma b64Encode_set: "set (b64Encode bs) \<subseteq> insert (CHR ''='') (b64Char ` {..<64})"
proof (induction bs rule: b64Encode.induct)
  case (4 a b c bs)
  then show ?case by (simp add: b64Quad_def b64Quad_less)
qed (auto simp: b64Quad_def b64Quad_less)

lemma b64Encode_plain: "c \<in> set (b64Encode bs) \<Longrightarrow> \<not> isSpace c"
proof -
  assume "c \<in> set (b64Encode bs)"
  then consider "c = CHR ''=''" | n where "n < 64" "c = b64Char n" using b64Encode_set by blast
  then show ?thesis by cases (simp_all add: b64Char_plain, simp add: isSpace_def)
qed

lemma b64Bytes_Quad:
  fixes a b c :: byte
  shows "b64Bytes (unat a div 4) ((unat a mod 4) * 16 + unat b div 16) ((unat b mod 16) * 4 + unat c div 64) (unat c mod 64) = [a, b, c]"
proof -
  have "unat b div 16 < 16" "unat c div 64 < 4" using unat_byte [of b] unat_byte [of c] by (simp_all add: less_mult_imp_div_less)
  then have "((unat a mod 4) * 16 + unat b div 16) div 16 = unat a mod 4" "((unat a mod 4) * 16 + unat b div 16) mod 16 = unat b div 16"
    "((unat b mod 16) * 4 + unat c div 64) div 4 = unat b mod 16" "((unat b mod 16) * 4 + unat c div 64) mod 4 = unat c div 64"
    by (simp_all add: div_mult_self3 add.commute)
  then show ?thesis unfolding b64Bytes_def by (simp only: div_mult_mod_eq) simp
qed

lemma b64Groups_Encode: "b64Groups (b64Encode bs) = Some bs"
proof (induction bs rule: b64Encode.induct)
  case (2 a)
  have "take 1 (b64Bytes (unat a div 4) (unat a mod 4 * 16) 0 0) = [a]" using b64Bytes_Quad [of a 0 0] by (simp add: b64Bytes_def)
  then show ?case by (simp add: b64Quad_def b64Quad_less b64Char_plain b64Val_Char)
next
  case (3 a b)
  have "take 2 (b64Bytes (unat a div 4) (unat a mod 4 * 16 + unat b div 16) (unat b mod 16 * 4) 0) = [a, b]"
    using b64Bytes_Quad [of a b 0] by (simp add: b64Bytes_def)
  then show ?case by (simp add: b64Quad_def b64Quad_less b64Char_plain b64Val_Char)
next
  case (4 a b c bs)
  then show ?case by (simp add: b64Quad_def b64Quad_less b64Char_plain b64Val_Char b64Bytes_Quad)
qed simp

lemma b64Decode_Encode [simp]: "b64Decode (b64Encode bs) = Some bs"
proof -
  have "filter (\<lambda>c. c \<noteq> CHR 0x0A \<and> c \<noteq> CHR 0x0D) (b64Encode bs) = b64Encode bs"
    using b64Encode_plain by (auto simp: filter_id_conv isSpace_def)
  then show ?thesis by (simp add: b64Decode_def b64Groups_Encode)
qed

lemma b64Encode_Nil [simp]: "b64Encode bs = [] \<longleftrightarrow> bs = []"
  by (cases bs rule: b64Encode.cases) (auto simp: b64Quad_def)

lemma length_b64Encode: "length (b64Encode bs) = 4 * ((length bs + 2) div 3)"
proof (induction bs rule: b64Encode.induct)
  case (4 a b c bs)
  have "(length bs + 3 + 2) div 3 = Suc ((length bs + 2) div 3)" by presburger
  with 4 show ?case by (simp add: b64Quad_def)
qed (simp_all add: b64Quad_def)

section \<open>Lines\<close>

definition linefeed :: char where "linefeed = CHR 0x0A"

fun splitLines :: "string \<Rightarrow> string list" where
  "splitLines [] = [[]]"
| "splitLines (c # s) =
     (if c = linefeed then [] # splitLines s
      else (case splitLines s of [] \<Rightarrow> [[c]] | p # ps \<Rightarrow> (c # p) # ps))"

text \<open>The loop of pollPush over the lines of a request body.\<close>

fun decodeLines :: "string list \<Rightarrow> byte list option" where
  "decodeLines [] = Some []"
| "decodeLines (line # lines) =
     (let line = trimSpace line in
      if line = [] then decodeLines lines
      else do { bs \<leftarrow> b64Decode line; rest \<leftarrow> decodeLines lines; Some (bs @ rest) })"

definition decodeBody :: "string \<Rightarrow> byte list option" where
  "decodeBody body = decodeLines (splitLines body)"

lemma splitLines_line: "linefeed \<notin> set s \<Longrightarrow> splitLines (s @ [linefeed] @ rest) = s # splitLines rest"
  by (induction s) auto

lemma decodeBody_line: "decodeBody (b64Encode bs @ [linefeed] @ rest) = map_option ((@) bs) (decodeBody rest)"
proof -
  have plain: "linefeed \<notin> set (b64Encode bs)" using b64Encode_plain by (auto simp: isSpace_def linefeed_def)
  have "trimSpace (b64Encode bs) = b64Encode bs" by (rule trimSpace_id) (use b64Encode_plain in blast)
  then show ?thesis using splitLines_line [OF plain, of rest]
    by (cases "decodeLines (splitLines rest)") (simp_all add: decodeBody_def Let_def)
qed

end
