(* ===== verification/Tunnel_Session.thy ===== *)
theory Tunnel_Session
  imports Base64 Http_Path "HOL-Library.AList"
begin

text \<open>
  The sessions of the HTTP mask's tunnel server (obfs/httpmask/tunnel_server.go): a client
  authorises, gets a token, pushes numbered uploads and pulls the downlink in further HTTP
  requests. A session is an object in a store and the table maps tokens to pointers.

  The pipe of a session is code of this package (halfpipe.go): what the uploads wrote into it and
  what the pulls read from it are fields of the session, and whether a write stops early (a
  deadline or a closed pipe, after some bytes) is an argument, as are the outcomes of the reads from it, the writes to the HTTP
  response, the clock, the token's random bytes and the early handshake. A parsed URL is its
  path and query. A critical section under the server's lock is one operation.
\<close>

section \<open>State\<close>

record tunnelSession =
  ts_written :: "byte list"
  ts_read :: "byte list"
  ts_lastActive :: int
  ts_uplinkClosed :: bool
  ts_downlinkClosed :: bool
  ts_closed :: bool
  ts_connClosed :: bool
  ts_nextUploadSeq :: u64
  ts_pull :: "nat option"
  ts_pendingDownlink :: "byte list"

datatype TunnelMode = ModeLegacy | ModeStream | ModePoll | ModeAuto | ModeWS

record TunnelServer =
  tv_mode :: TunnelMode
  tv_pathRoot :: string
  tv_passThroughOnReject :: bool
  tv_sessionTTL :: int
  tv_sessions :: "(string \<times> nat) list"
  tv_store :: "tunnelSession list"
  tv_stopped :: "nat list"
  tv_leases :: nat
  tv_closed :: bool

definition maxTunnelSessions :: nat where "maxTunnelSessions = 256"

definition normalizeTunnelMode :: "string \<Rightarrow> TunnelMode" where
  "normalizeTunnelMode mode =
     (let m = toLower (trimSpace mode) in
      if m = [] \<or> m = ''legacy'' then ModeLegacy
      else if m = ''stream'' then ModeStream
      else if m = ''poll'' then ModePoll
      else if m = ''auto'' then ModeAuto
      else if m = ''ws'' then ModeWS
      else ModeLegacy)"

definition NewTunnelServer :: "string \<Rightarrow> string \<Rightarrow> bool \<Rightarrow> int \<Rightarrow> TunnelServer" where
  "NewTunnelServer mode pathRoot passThroughOnReject ttl =
     \<lparr>tv_mode = normalizeTunnelMode mode, tv_pathRoot = normalizePathRoot pathRoot, tv_passThroughOnReject = passThroughOnReject,
      tv_sessionTTL = (if ttl \<le> 0 then 120000000000 else ttl), tv_sessions = [], tv_store = [], tv_stopped = [], tv_leases = 0, tv_closed = False\<rparr>"

definition newSession :: "int \<Rightarrow> tunnelSession" where
  "newSession now = \<lparr>ts_written = [], ts_read = [], ts_lastActive = now, ts_uplinkClosed = False, ts_downlinkClosed = False, ts_closed = False,
     ts_connClosed = False, ts_nextUploadSeq = 1, ts_pull = None, ts_pendingDownlink = []\<rparr>"

section \<open>The session table\<close>

definition onSession :: "nat \<Rightarrow> (tunnelSession \<Rightarrow> tunnelSession) \<Rightarrow> TunnelServer \<Rightarrow> TunnelServer" where
  "onSession a f s = (if a < length (tv_store s) then s\<lparr>tv_store := (tv_store s)[a := f (tv_store s ! a)]\<rparr> else s)"

definition sessionHas :: "string \<Rightarrow> TunnelServer \<Rightarrow> bool" where
  "sessionHas token s \<longleftrightarrow> map_of (tv_sessions s) token \<noteq> None"

definition sessionGet :: "int \<Rightarrow> string \<Rightarrow> TunnelServer \<Rightarrow> nat option \<times> TunnelServer" where
  "sessionGet now token s =
     (case map_of (tv_sessions s) token of
        None \<Rightarrow> (None, s)
      | Some a \<Rightarrow> (Some a, onSession a (\<lambda>x. x\<lparr>ts_lastActive := now\<rparr>) s))"

definition sessionTouch :: "int \<Rightarrow> string \<Rightarrow> nat \<Rightarrow> TunnelServer \<Rightarrow> bool \<times> TunnelServer" where
  "sessionTouch now token a s =
     (if map_of (tv_sessions s) token \<noteq> Some a then (False, s) else (True, onSession a (\<lambda>x. x\<lparr>ts_lastActive := now\<rparr>) s))"

text \<open>Stopping a lease cancels the pull request that holds it.\<close>

definition stopLease :: "nat option \<Rightarrow> TunnelServer \<Rightarrow> TunnelServer" where
  "stopLease l s = (case l of None \<Rightarrow> s | Some l \<Rightarrow> s\<lparr>tv_stopped := List.insert l (tv_stopped s)\<rparr>)"

definition releaseSession :: "nat \<Rightarrow> TunnelServer \<Rightarrow> TunnelServer" where
  "releaseSession a s =
     onSession a (\<lambda>x. x\<lparr>ts_connClosed := True\<rparr>) (stopLease (ts_pull (tv_store s ! a)) (onSession a (\<lambda>x. x\<lparr>ts_closed := True\<rparr>) s))"

definition tunnelSessionClose :: "string \<Rightarrow> TunnelServer \<Rightarrow> TunnelServer" where
  "tunnelSessionClose token s =
     (case map_of (tv_sessions s) token of
        None \<Rightarrow> s
      | Some a \<Rightarrow> releaseSession a (s\<lparr>tv_sessions := AList.delete token (tv_sessions s)\<rparr>))"

definition serverClose :: "TunnelServer \<Rightarrow> TunnelServer" where
  "serverClose s = fold releaseSession (map snd (tv_sessions s)) (s\<lparr>tv_closed := True, tv_sessions := []\<rparr>)"

text \<open>A half close in a direction; the session goes when both directions are done. The pipe is
  closed when the token is gone afterwards.\<close>

definition sessionHalfClose :: "int \<Rightarrow> string \<Rightarrow> bool \<Rightarrow> TunnelServer \<Rightarrow> TunnelServer" where
  "sessionHalfClose now token uplink s =
     (case map_of (tv_sessions s) token of
        None \<Rightarrow> s
      | Some a \<Rightarrow>
          let s = onSession a (\<lambda>x. (if uplink then x\<lparr>ts_uplinkClosed := True\<rparr> else x\<lparr>ts_downlinkClosed := True\<rparr>)\<lparr>ts_lastActive := now\<rparr>) s;
              x = tv_store s ! a in
          if ts_uplinkClosed x \<and> ts_downlinkClosed x
          then onSession a (\<lambda>x. x\<lparr>ts_closed := True, ts_connClosed := True\<rparr>) (s\<lparr>tv_sessions := AList.delete token (tv_sessions s)\<rparr>)
          else s)"

text \<open>The reaper after its timer: the session is dropped when it was idle for the whole time to
  live. idle is what the reaper measured in the critical section before this one; a request may
  have touched the session since.\<close>

definition reap :: "int \<Rightarrow> string \<Rightarrow> nat \<Rightarrow> TunnelServer \<Rightarrow> TunnelServer" where
  "reap idle token a s =
     (if map_of (tv_sessions s) token \<noteq> Some a then s
      else if idle \<ge> tv_sessionTTL s
      then onSession a (\<lambda>x. x\<lparr>ts_connClosed := True\<rparr>)
             (stopLease (ts_pull (tv_store s ! a)) (s\<lparr>tv_sessions := AList.delete token (tv_sessions s)\<rparr>))
      else s)"

text \<open>What the early handshake made of the payload of an authorise request.\<close>

datatype earlyOutcome = EarlyNone | EarlyFailed | EarlyWrapFailed | EarlyReady string

datatype tunnelReply = Reply nat | Rejected | StartTunnel nat "string option" | ClosedConn | ReplyBroken

definition rejectOrReply :: "nat \<Rightarrow> TunnelServer \<Rightarrow> tunnelReply" where
  "rejectOrReply code s = (if tv_passThroughOnReject s then Rejected else Reply code)"

definition sessionAuthorize :: "int \<Rightarrow> string option \<Rightarrow> earlyOutcome \<Rightarrow> bool \<Rightarrow> TunnelServer \<Rightarrow> tunnelReply \<times> TunnelServer" where
  "sessionAuthorize now token early replyOk s =
     (case token of
        None \<Rightarrow> (Reply 500, s)
      | Some token \<Rightarrow>
          if early = EarlyFailed then (rejectOrReply 404 s, s)
          else if early = EarlyWrapFailed then (Reply 500, s)
          else if tv_closed s then (ClosedConn, s)
          else if length (tv_sessions s) \<ge> maxTunnelSessions then (Reply 429, s)
          else
            let a = length (tv_store s);
                s = s\<lparr>tv_sessions := AList.update token a (tv_sessions s), tv_store := tv_store s @ [newSession now]\<rparr> in
            if replyOk then (StartTunnel a (case early of EarlyReady user \<Rightarrow> Some user | _ \<Rightarrow> None), s)
            else (ReplyBroken, tunnelSessionClose token s))"

section \<open>Uploads\<close>

datatype uploadResult = UploadOk | UploadGap | UploadFailed

text \<open>failure is None when the pipe takes the whole payload, or the number of bytes it took before
  the write failed.\<close>

definition writeSessionUpload :: "int \<Rightarrow> string \<Rightarrow> nat \<Rightarrow> u64 \<Rightarrow> byte list \<Rightarrow> nat option \<Rightarrow> TunnelServer \<Rightarrow> uploadResult \<times> TunnelServer" where
  "writeSessionUpload now token a sequence payload failure s =
     (case sessionTouch now token a s of
        (False, s) \<Rightarrow> (UploadFailed, s)
      | (True, s) \<Rightarrow>
          let next = ts_nextUploadSeq (tv_store s ! a) in
          if sequence < next then (UploadOk, s)
          else if sequence > next then (UploadGap, s)
          else if payload \<noteq> [] \<and> failure \<noteq> None then
            (UploadFailed, onSession a (\<lambda>x. x\<lparr>ts_written := ts_written x @ take (the failure) payload\<rparr>) s)
          else (UploadOk, onSession a (\<lambda>x. x\<lparr>ts_written := ts_written x @ payload, ts_nextUploadSeq := next + 1\<rparr>) s))"

definition uploadCode :: "uploadResult \<Rightarrow> nat" where
  "uploadCode r = (case r of UploadOk \<Rightarrow> 200 | UploadGap \<Rightarrow> 409 | UploadFailed \<Rightarrow> 410)"

definition pushUpload :: "int \<Rightarrow> string \<Rightarrow> nat \<Rightarrow> u64 \<Rightarrow> byte list \<Rightarrow> nat option \<Rightarrow> TunnelServer \<Rightarrow> tunnelReply \<times> TunnelServer" where
  "pushUpload now token a sequence payload failure s =
     (case writeSessionUpload now token a sequence payload failure s of
        (r, s) \<Rightarrow> (Reply (uploadCode r), if r = UploadFailed then tunnelSessionClose token s else s))"

text \<open>The two push requests. body is what the request's body delivers before its end, or None when
  reading it fails. The poll mode reads at most 1 MiB of it.\<close>

definition maxUploadBytes :: nat where "maxUploadBytes = 1048576"

definition streamPush :: "int \<Rightarrow> string \<Rightarrow> u64 \<Rightarrow> byte list option \<Rightarrow> nat option \<Rightarrow> TunnelServer \<Rightarrow> tunnelReply \<times> TunnelServer" where
  "streamPush now token sequence body failure s =
     (case sessionGet now token s of
        (None, s) \<Rightarrow> (Reply 403, s)
      | (Some a, s) \<Rightarrow>
          (case body of
             None \<Rightarrow> (Reply 400, s)
           | Some payload \<Rightarrow>
               if length payload > maxUploadBytes then (Reply 413, s)
               else pushUpload now token a sequence payload failure s))"

definition pollPush :: "int \<Rightarrow> string \<Rightarrow> u64 \<Rightarrow> string option \<Rightarrow> nat option \<Rightarrow> TunnelServer \<Rightarrow> tunnelReply \<times> TunnelServer" where
  "pollPush now token sequence body failure s =
     (case sessionGet now token s of
        (None, s) \<Rightarrow> (Reply 403, s)
      | (Some a, s) \<Rightarrow>
          (case body of
             None \<Rightarrow> (Reply 400, s)
           | Some text \<Rightarrow>
               (case decodeBody (take maxUploadBytes text) of
                  None \<Rightarrow> (Reply 400, s)
                | Some payload \<Rightarrow> pushUpload now token a sequence payload failure s)))"

section \<open>Routing of a request\<close>

type_synonym query = "(string \<times> string) list"

definition queryGet :: "query \<Rightarrow> string \<Rightarrow> string" where
  "queryGet q k = (case map_of q k of None \<Rightarrow> [] | Some v \<Rightarrow> v)"

definition allowedPaths :: "string list" where
  "allowedPaths = [''/api/v1/upload'', ''/data/sync'', ''/uploads/raw'', ''/api/report'', ''/feed/update'', ''/v2/events'',
     ''/v1/telemetry'', ''/session'', ''/stream'', ''/ws'']"

definition isAllowedBasePath :: "string \<Rightarrow> bool" where
  "isAllowedBasePath path \<longleftrightarrow> path \<in> set allowedPaths"

text \<open>parseUploadSequence: a decimal number of 64 bits that is not zero.\<close>

definition parseUploadSequence :: "query \<Rightarrow> u64 option" where
  "parseUploadSequence q =
     (let raw = trimSpace (queryGet q ''seq''); (v, ok) = scanUint 0 raw in
      if raw = [] then None else if \<not> ok \<or> v = 0 then None else Some (word_of_int v))"

datatype tunnelAction = Answer tunnelReply | Authorize | Pull string | Push string u64 | CloseSession string | FinSession string | StreamOne

text \<open>handleStream and handlePoll up to the operation they call: bodyOk tells whether the length
  headers of the request can be read.\<close>

definition handleStream :: "(string \<times> query) option \<Rightarrow> string \<Rightarrow> bool \<Rightarrow> bool \<Rightarrow> TunnelServer \<Rightarrow> tunnelAction" where
  "handleStream url requestMethod earlyOk bodyOk s =
     (case url of
        None \<Rightarrow> Answer (rejectOrReply 400 s)
      | Some (fullPath, q) \<Rightarrow>
          (case stripPathRoot (tv_pathRoot s) fullPath of
             None \<Rightarrow> Answer (rejectOrReply 404 s)
           | Some path \<Rightarrow>
               let token = queryGet q ''token''; verb = toUpper requestMethod in
               if \<not> isAllowedBasePath path then Answer (rejectOrReply 404 s)
               else if verb = ''GET'' then
                 (if token = [] \<and> path = ''/session'' then (if earlyOk then Authorize else Answer (rejectOrReply 400 s))
                  else if token \<noteq> [] \<and> path = ''/stream'' then
                    (if tv_passThroughOnReject s \<and> \<not> sessionHas token s then Answer (rejectOrReply 404 s) else Pull token)
                  else Answer (rejectOrReply 400 s))
               else if verb = ''POST'' then
                 (if token \<noteq> [] \<and> path = ''/api/v1/upload'' then
                    (if queryGet q ''close'' = ''1'' then CloseSession token
                     else if queryGet q ''fin'' = ''1'' then FinSession token
                     else if tv_passThroughOnReject s \<and> \<not> sessionHas token s then Answer (rejectOrReply 404 s)
                     else if \<not> bodyOk then Answer (Reply 400)
                     else (case parseUploadSequence q of None \<Rightarrow> Answer (rejectOrReply 400 s) | Some sequence \<Rightarrow> Push token sequence))
                  else StreamOne)
               else Answer (rejectOrReply 400 s)))"

definition handlePoll :: "(string \<times> query) option \<Rightarrow> string \<Rightarrow> bool \<Rightarrow> bool \<Rightarrow> TunnelServer \<Rightarrow> tunnelAction" where
  "handlePoll url requestMethod earlyOk bodyOk s =
     (case url of
        None \<Rightarrow> Answer (rejectOrReply 400 s)
      | Some (fullPath, q) \<Rightarrow>
          (case stripPathRoot (tv_pathRoot s) fullPath of
             None \<Rightarrow> Answer (rejectOrReply 404 s)
           | Some path \<Rightarrow>
               let token = queryGet q ''token''; verb = toUpper requestMethod in
               if \<not> isAllowedBasePath path then Answer (rejectOrReply 404 s)
               else if verb = ''GET'' then
                 (if token = [] \<and> path = ''/session'' then (if earlyOk then Authorize else Answer (rejectOrReply 400 s))
                  else if path = ''/stream'' then
                    (if tv_passThroughOnReject s \<and> \<not> sessionHas token s then Answer (rejectOrReply 404 s) else Pull token)
                  else Answer (rejectOrReply 400 s))
               else if verb = ''POST'' then
                 (if path \<noteq> ''/api/v1/upload'' then Answer (rejectOrReply 400 s)
                  else if token = [] then Answer (rejectOrReply 400 s)
                  else if queryGet q ''close'' = ''1'' then CloseSession token
                  else if queryGet q ''fin'' = ''1'' then FinSession token
                  else if tv_passThroughOnReject s \<and> \<not> sessionHas token s then Answer (rejectOrReply 404 s)
                  else if \<not> bodyOk then Answer (rejectOrReply 400 s)
                  else (case parseUploadSequence q of None \<Rightarrow> Answer (rejectOrReply 400 s) | Some sequence \<Rightarrow> Push token sequence))
               else Answer (rejectOrReply 400 s)))"

section \<open>Downloads\<close>

text \<open>A pull request leases the session: only its holder reads the pipe. beginSessionPull is one turn
  of its loop; a turn that finds a lease stops it and waits for its holder to end.\<close>

datatype beginPull = PullRefused | PullLease nat | PullWait nat

definition beginSessionPull :: "int \<Rightarrow> string \<Rightarrow> nat \<Rightarrow> TunnelServer \<Rightarrow> beginPull \<times> TunnelServer" where
  "beginSessionPull now token a s =
     (case sessionTouch now token a s of
        (False, s) \<Rightarrow> (PullRefused, s)
      | (True, s) \<Rightarrow>
          (case ts_pull (tv_store s ! a) of
             None \<Rightarrow> (PullLease (tv_leases s), onSession a (\<lambda>x. x\<lparr>ts_pull := Some (tv_leases s)\<rparr>) (s\<lparr>tv_leases := tv_leases s + 1\<rparr>))
           | Some l \<Rightarrow> (PullWait l, stopLease (Some l) s)))"

definition endSessionPull :: "nat \<Rightarrow> nat \<Rightarrow> TunnelServer \<Rightarrow> TunnelServer" where
  "endSessionPull a lease s = onSession a (\<lambda>x. if ts_pull x = Some lease then x\<lparr>ts_pull := None\<rparr> else x) s"

definition storeDownlink :: "nat \<Rightarrow> byte list \<Rightarrow> TunnelServer \<Rightarrow> TunnelServer" where
  "storeDownlink a payload s = onSession a (\<lambda>x. if ts_pendingDownlink x = [] then x\<lparr>ts_pendingDownlink := payload\<rparr> else x) s"

definition acknowledgeDownlink :: "nat \<Rightarrow> nat \<Rightarrow> TunnelServer \<Rightarrow> TunnelServer" where
  "acknowledgeDownlink a n s = onSession a (\<lambda>x. x\<lparr>ts_pendingDownlink := drop n (ts_pendingDownlink x)\<rparr>) s"

datatype pipeErr = PipeDeadline | PipeEOF | PipeClosed

text \<open>What a turn of the pull loop meets: the lease was cancelled, or what the read from the pipe
  returns (it is made only when nothing is pending) and after how many bytes of the payload the
  response fails, if it does.\<close>

datatype pullTurn = PullCancelled | PullTurn int "byte list" "pipeErr option" "nat option"

datatype pullEnd = PullMore | PullStopped | PullStreamEOF

definition pullFinish :: "bool \<Rightarrow> int \<Rightarrow> string \<Rightarrow> nat \<Rightarrow> pipeErr option \<Rightarrow> TunnelServer \<Rightarrow> pullEnd \<times> TunnelServer" where
  "pullFinish keepalive now token a err s =
     (case err of
        None \<Rightarrow> (PullMore, s)
      | Some PipeDeadline \<Rightarrow> (PullStopped, if keepalive then snd (sessionTouch now token a s) else s)
      | Some PipeEOF \<Rightarrow> (PullStreamEOF, sessionHalfClose now token False s)
      | Some PipeClosed \<Rightarrow> (PullStopped, tunnelSessionClose token s))"

definition pullSend :: "bool \<Rightarrow> int \<Rightarrow> string \<Rightarrow> nat \<Rightarrow> pipeErr option \<Rightarrow> nat option \<Rightarrow> TunnelServer \<Rightarrow> byte list \<times> pullEnd \<times> TunnelServer" where
  "pullSend keepalive now token a err broken s =
     (let payload = ts_pendingDownlink (tv_store s ! a) in
      if payload = [] then ([], pullFinish keepalive now token a err s)
      else (case sessionTouch now token a s of
              (False, s) \<Rightarrow> ([], PullStopped, s)
            | (True, s) \<Rightarrow>
                (case broken of
                   Some n \<Rightarrow> (take n payload, PullStopped, s)
                 | None \<Rightarrow> (payload, pullFinish keepalive now token a err (acknowledgeDownlink a (length payload) s)))))"

fun pullIteration :: "bool \<Rightarrow> string \<Rightarrow> nat \<Rightarrow> pullTurn \<Rightarrow> TunnelServer \<Rightarrow> byte list \<times> pullEnd \<times> TunnelServer" where
  "pullIteration keepalive token a PullCancelled s = ([], PullStopped, s)"
| "pullIteration keepalive token a (PullTurn now bs err broken) s =
     (if ts_pendingDownlink (tv_store s ! a) = [] then
        pullSend keepalive now token a err broken
          (if bs \<noteq> [] then storeDownlink a bs (onSession a (\<lambda>x. x\<lparr>ts_read := ts_read x @ bs\<rparr>) s) else s)
      else pullSend keepalive now token a None broken s)"

text \<open>sessionPull after the lease was granted: the bytes of the payloads that went into the response,
  and how it ended (PullMore: it still runs).\<close>

fun sessionPull :: "bool \<Rightarrow> string \<Rightarrow> nat \<Rightarrow> pullTurn list \<Rightarrow> TunnelServer \<Rightarrow> byte list \<times> pullEnd \<times> TunnelServer" where
  "sessionPull keepalive token a [] s = ([], PullMore, s)"
| "sessionPull keepalive token a (t # ts) s =
     (case pullIteration keepalive token a t s of
        (out, PullMore, s) \<Rightarrow> (case sessionPull keepalive token a ts s of (rest, r, s) \<Rightarrow> (out @ rest, r, s))
      | (out, r, s) \<Rightarrow> (out, r, s))"

section \<open>Interleavings\<close>

text \<open>The atomic steps of the server, in any order: the requests, the reapers and the shutdown of
  the runtime interleave.\<close>

datatype tunnelEv =
    EvAuthorize int "string option" earlyOutcome bool
  | EvGet int string
  | EvUpload int string nat u64 "byte list" "nat option"
  | EvClose string
  | EvHalfClose int string bool
  | EvReap int string nat
  | EvBeginPull int string nat
  | EvEndPull nat nat
  | EvPull bool string nat pullTurn
  | EvServerClose

fun tunnelStep :: "tunnelEv \<Rightarrow> TunnelServer \<Rightarrow> TunnelServer" where
  "tunnelStep (EvAuthorize now token early replyOk) s = snd (sessionAuthorize now token early replyOk s)"
| "tunnelStep (EvGet now token) s = snd (sessionGet now token s)"
| "tunnelStep (EvUpload now token a sequence payload failure) s = snd (writeSessionUpload now token a sequence payload failure s)"
| "tunnelStep (EvClose token) s = tunnelSessionClose token s"
| "tunnelStep (EvHalfClose now token uplink) s = sessionHalfClose now token uplink s"
| "tunnelStep (EvReap idle token a) s = reap idle token a s"
| "tunnelStep (EvBeginPull now token a) s = snd (beginSessionPull now token a s)"
| "tunnelStep (EvEndPull a lease) s = endSessionPull a lease s"
| "tunnelStep (EvPull keepalive token a t) s = (if a < length (tv_store s) then snd (snd (pullIteration keepalive token a t s)) else s)"
| "tunnelStep EvServerClose s = serverClose s"

definition tunnelRun :: "tunnelEv list \<Rightarrow> TunnelServer \<Rightarrow> TunnelServer" where
  "tunnelRun evs s = fold tunnelStep evs s"

section \<open>The table and the pipes\<close>

text \<open>The invariant: a session is in the table exactly as long as its pipe is open, under one token,
  and the table is bounded and empty after the shutdown.\<close>

definition sessionsInv :: "(string \<times> nat) list \<Rightarrow> bool list \<Rightarrow> bool \<Rightarrow> bool" where
  "sessionsInv sessions pipes closed \<longleftrightarrow>
     distinct (map fst sessions) \<and> distinct (map snd sessions) \<and> length sessions \<le> maxTunnelSessions
     \<and> (closed \<longrightarrow> sessions = []) \<and> (\<forall>a\<in>set (map snd sessions). a < length pipes)
     \<and> (\<forall>a<length pipes. pipes ! a \<longleftrightarrow> a \<notin> set (map snd sessions))"

definition tunnelInv :: "TunnelServer \<Rightarrow> bool" where
  "tunnelInv s \<longleftrightarrow> sessionsInv (tv_sessions s) (map ts_connClosed (tv_store s)) (tv_closed s)"

lemma sessionsInv_delete:
  assumes inv: "sessionsInv ss ps c" and t: "map_of ss t = Some a"
  shows "sessionsInv (AList.delete t ss) (ps[a := True]) c"
proof -
  have d: "distinct (map fst ss)" "distinct (map snd ss)" and ta: "(t, a) \<in> set ss"
    using inv t by (auto simp: sessionsInv_def dest: map_of_SomeD)
  have only: "b = a" if "(t, b) \<in> set ss" for b using d(1) that ta by (metis map_of_is_SomeI option.inject)
  have uniq: "u = t" if "(u, a) \<in> set ss" for u
    using d(2) that ta by (auto simp: distinct_map inj_on_def) (metis prod.inject snd_conv)
  have snds: "set (map snd (AList.delete t ss)) = set (map snd ss) - {a}"
  proof (rule set_eqI)
    fix b
    show "b \<in> set (map snd (AList.delete t ss)) \<longleftrightarrow> b \<in> set (map snd ss) - {a}"
      using only uniq by (auto simp: AList.delete_eq image_iff Bex_def)
  qed
  have "distinct (map fst (AList.delete t ss))" "distinct (map snd (AList.delete t ss))"
    using d by (simp_all add: AList.delete_eq distinct_map_filter)
  moreover have "length (AList.delete t ss) \<le> maxTunnelSessions"
    using inv length_filter_le unfolding sessionsInv_def AList.delete_eq by (meson le_trans)
  moreover have "ps[a := True] ! b \<longleftrightarrow> b \<notin> set (map snd (AList.delete t ss))" if "b < length ps" for b
    unfolding snds using inv that by (cases "a = b") (auto simp: sessionsInv_def)
  moreover have "\<forall>b\<in>set (map snd (AList.delete t ss)). b < length (ps[a := True])" "c \<longrightarrow> AList.delete t ss = []"
    unfolding snds using inv by (auto simp: sessionsInv_def)
  ultimately show ?thesis by (simp add: sessionsInv_def)
qed

lemma sessionsInv_add:
  assumes "sessionsInv ss ps False" "length ss < maxTunnelSessions" "map_of ss t = None"
  shows "sessionsInv (AList.update t (length ps) ss) (ps @ [False]) False"
proof -
  have upd: "AList.update t (length ps) ss = ss @ [(t, length ps)]"
    using assms(3) by (induction ss) (auto split: if_splits)
  have "length ps \<notin> set (map snd ss)" using assms(1) by (auto simp: sessionsInv_def)
  then show ?thesis using assms by (auto simp: sessionsInv_def upd nth_append map_of_eq_None_iff less_Suc_eq)
qed

lemma onSession_simps [simp]:
  "tv_sessions (onSession a f s) = tv_sessions s" "tv_closed (onSession a f s) = tv_closed s"
  "length (tv_store (onSession a f s)) = length (tv_store s)" "tv_sessionTTL (onSession a f s) = tv_sessionTTL s"
  by (simp_all add: onSession_def)

lemma nth_onSession: "b < length (tv_store s) \<Longrightarrow> tv_store (onSession a f s) ! b = (if a = b then f (tv_store s ! b) else tv_store s ! b)"
  by (simp add: onSession_def)

lemma stopLease_simps [simp]:
  "tv_sessions (stopLease l s) = tv_sessions s" "tv_closed (stopLease l s) = tv_closed s" "tv_store (stopLease l s) = tv_store s"
  by (cases l; simp add: stopLease_def)+

lemma pipes_onSession: "(\<And>x. ts_connClosed (f x) = ts_connClosed x) \<Longrightarrow> map ts_connClosed (tv_store (onSession a f s)) = map ts_connClosed (tv_store s)"
  by (simp add: onSession_def map_update) (metis length_map list_update_id nth_map)

lemma pipes_close: "(\<And>x. ts_connClosed (f x)) \<Longrightarrow> map ts_connClosed (tv_store (onSession a f s)) = (map ts_connClosed (tv_store s))[a := True]"
  by (auto simp: onSession_def map_update list_update_beyond)

lemma tunnelInv_on: "(\<And>x. ts_connClosed (f x) = ts_connClosed x) \<Longrightarrow> tunnelInv (onSession a f s) = tunnelInv s"
  by (simp add: tunnelInv_def pipes_onSession)

lemma tunnelInv_stop [simp]: "tunnelInv (stopLease l s) = tunnelInv s"
  by (simp add: tunnelInv_def)

lemma tunnelInv_unregister:
  "tunnelInv s \<Longrightarrow> map_of (tv_sessions s) t = Some a \<Longrightarrow> tv_sessions s' = AList.delete t (tv_sessions s)
   \<Longrightarrow> map ts_connClosed (tv_store s') = (map ts_connClosed (tv_store s))[a := True] \<Longrightarrow> tv_closed s' = tv_closed s \<Longrightarrow> tunnelInv s'"
  unfolding tunnelInv_def by (simp add: sessionsInv_delete)

lemma releaseSession_simps [simp]:
  "tv_sessions (releaseSession a s) = tv_sessions s" "tv_closed (releaseSession a s) = tv_closed s"
  "map ts_connClosed (tv_store (releaseSession a s)) = (map ts_connClosed (tv_store s))[a := True]"
  by (simp_all add: releaseSession_def pipes_close pipes_onSession)

lemma tunnelInv_close: "tunnelInv s \<Longrightarrow> tunnelInv (tunnelSessionClose t s)"
  by (auto simp: tunnelSessionClose_def split: option.split elim!: tunnelInv_unregister)

lemma tunnelInv_reap: "tunnelInv s \<Longrightarrow> tunnelInv (reap idle t a s)"
  by (auto simp: reap_def pipes_close elim!: tunnelInv_unregister)

lemma tunnelInv_halfClose: "tunnelInv s \<Longrightarrow> tunnelInv (sessionHalfClose now t uplink s)"
  by (auto simp: sessionHalfClose_def Let_def pipes_close pipes_onSession tunnelInv_on split: option.split elim!: tunnelInv_unregister)

lemma tunnelInv_touch: "tunnelInv s \<Longrightarrow> tunnelInv (snd (sessionTouch now t a s))"
  by (simp add: sessionTouch_def tunnelInv_on)

lemma tunnelInv_get: "tunnelInv s \<Longrightarrow> tunnelInv (snd (sessionGet now t s))"
  by (auto simp: sessionGet_def tunnelInv_on split: option.split)

lemma tunnelInv_authorize:
  assumes "tunnelInv s" and "\<And>t. token = Some t \<Longrightarrow> map_of (tv_sessions s) t = None"
  shows "tunnelInv (snd (sessionAuthorize now token early replyOk s))"
proof (cases "\<exists>t. token = Some t \<and> early \<noteq> EarlyFailed \<and> early \<noteq> EarlyWrapFailed \<and> \<not> tv_closed s \<and> length (tv_sessions s) < maxTunnelSessions")
  case True
  then obtain t where t: "token = Some t" "early \<noteq> EarlyFailed" "early \<noteq> EarlyWrapFailed" "\<not> tv_closed s" "length (tv_sessions s) < maxTunnelSessions"
    by auto
  let ?s = "s\<lparr>tv_sessions := AList.update t (length (tv_store s)) (tv_sessions s), tv_store := tv_store s @ [newSession now]\<rparr>"
  have "tunnelInv ?s"
    using assms t sessionsInv_add [of "tv_sessions s" "map ts_connClosed (tv_store s)" t] by (simp add: tunnelInv_def newSession_def)
  then show ?thesis using t by (simp add: sessionAuthorize_def Let_def tunnelInv_close)
next
  case False
  then show ?thesis using assms(1) by (auto simp: sessionAuthorize_def Let_def split: option.split)
qed

lemma pipes_release_fold:
  "map ts_connClosed (tv_store (fold releaseSession as s)) = fold (\<lambda>a ps. ps[a := True]) as (map ts_connClosed (tv_store s))"
  by (induction as arbitrary: s) (simp_all del: map_update)

lemma fold_release_simps [simp]:
  "tv_sessions (fold releaseSession as s) = tv_sessions s" "tv_closed (fold releaseSession as s) = tv_closed s"
  by (induction as arbitrary: s) simp_all

lemma fold_true: "length (fold (\<lambda>a ps. ps[a := True]) as ps) = length ps
  \<and> (b < length ps \<longrightarrow> fold (\<lambda>a ps. ps[a := True]) as ps ! b \<longleftrightarrow> ps ! b \<or> b \<in> set as)"
  proof (induction as arbitrary: ps)
  case (Cons a as)
  from Cons.IH [of "ps[a := True]"] show ?case by (cases "a = b") (auto simp: nth_list_update)
qed simp

lemma tunnelInv_serverClose: "tunnelInv s \<Longrightarrow> tunnelInv (serverClose s)"
  using fold_true [of "map snd (tv_sessions s)" "map ts_connClosed (tv_store s)"]
  by (auto simp: tunnelInv_def serverClose_def sessionsInv_def pipes_release_fold)

lemma tunnelInv_upload: "tunnelInv s \<Longrightarrow> tunnelInv (snd (writeSessionUpload now t a k p f s))"
  using tunnelInv_touch [of s now t a]
  by (auto simp: writeSessionUpload_def Let_def tunnelInv_on split: prod.split bool.split)

lemma tunnelInv_pullFinish: "tunnelInv s \<Longrightarrow> tunnelInv (snd (pullFinish keepalive now t a err s))"
  by (auto simp: pullFinish_def tunnelInv_touch tunnelInv_halfClose tunnelInv_close split: option.split pipeErr.split)

lemma tunnelInv_ack [simp]: "tunnelInv (acknowledgeDownlink a n s) = tunnelInv s" "tunnelInv (storeDownlink a bs s) = tunnelInv s"
  by (simp_all add: acknowledgeDownlink_def storeDownlink_def tunnelInv_on)

lemma tunnelInv_pullSend: "tunnelInv s \<Longrightarrow> tunnelInv (snd (snd (pullSend keepalive now t a err broken s)))"
  by (auto simp: pullSend_def Let_def sessionTouch_def tunnelInv_on tunnelInv_pullFinish split: option.split)

lemma tunnelInv_pull: "tunnelInv s \<Longrightarrow> tunnelInv (snd (snd (pullIteration keepalive t a turn s)))"
  by (cases turn) (simp_all add: tunnelInv_pullSend tunnelInv_on)

lemma tunnelInv_beginPull: "tunnelInv s \<Longrightarrow> tunnelInv (snd (beginSessionPull now t a s))"
  using tunnelInv_touch [of s now t a]
  by (auto simp: beginSessionPull_def tunnelInv_on tunnelInv_def pipes_onSession split: prod.split bool.split option.split)

text \<open>A history in which the random token of every authorise request is one the table does not
  hold.\<close>

fun freshTokens :: "tunnelEv list \<Rightarrow> TunnelServer \<Rightarrow> bool" where
  "freshTokens [] s \<longleftrightarrow> True"
| "freshTokens (ev # evs) s \<longleftrightarrow>
     (case ev of EvAuthorize now (Some t) early replyOk \<Rightarrow> map_of (tv_sessions s) t = None | _ \<Rightarrow> True) \<and> freshTokens evs (tunnelStep ev s)"

lemma tunnelInv_step:
  assumes "tunnelInv s" "freshTokens [ev] s"
  shows "tunnelInv (tunnelStep ev s)"
proof (cases ev)
  case (EvAuthorize now token early replyOk)
  then show ?thesis using assms by (auto split: option.splits intro: tunnelInv_authorize)
qed (use assms(1) in \<open>simp_all add: tunnelInv_close tunnelInv_reap tunnelInv_halfClose tunnelInv_get tunnelInv_serverClose
       tunnelInv_upload tunnelInv_pull tunnelInv_beginPull endSessionPull_def tunnelInv_on\<close>)

lemma tunnelInv_run: "tunnelInv s \<Longrightarrow> freshTokens evs s \<Longrightarrow> tunnelInv (tunnelRun evs s)"
proof (induction evs arbitrary: s)
  case (Cons ev evs)
  then have "freshTokens [ev] s" "freshTokens evs (tunnelStep ev s)" by auto
  with Cons tunnelInv_step show ?case by (simp add: tunnelRun_def)
qed (simp add: tunnelRun_def)

lemma tunnelInv_new: "tunnelInv (NewTunnelServer mode root pass ttl)"
  by (simp add: tunnelInv_def NewTunnelServer_def sessionsInv_def)

section \<open>The uplink\<close>

text \<open>What the uploads change of a session.\<close>

definition uplink :: "tunnelSession \<Rightarrow> byte list \<times> u64" where
  "uplink x = (ts_written x, ts_nextUploadSeq x)"

definition uplinks :: "TunnelServer \<Rightarrow> (byte list \<times> u64) list" where
  "uplinks s = map uplink (tv_store s)"

lemma uplinks_on: "(\<And>x. uplink (f x) = uplink x) \<Longrightarrow> uplinks (onSession a f s) = uplinks s"
  by (simp add: onSession_def uplinks_def map_update) (metis length_map list_update_id nth_map)

lemma uplinks_stop [simp]: "uplinks (stopLease l s) = uplinks s" "uplinks (s\<lparr>tv_sessions := ss\<rparr>) = uplinks s"
  "uplinks (s\<lparr>tv_leases := n\<rparr>) = uplinks s" "uplinks (s\<lparr>tv_closed := c\<rparr>) = uplinks s"
  by (simp_all add: uplinks_def)

lemma uplink_release [simp]: "uplinks (releaseSession a s) = uplinks s"
  by (simp add: releaseSession_def uplinks_on uplink_def)

lemma uplink_releases [simp]: "uplinks (fold releaseSession as s) = uplinks s"
  by (induction as arbitrary: s) simp_all

lemma uplink_ops [simp]:
  "uplinks (tunnelSessionClose t s) = uplinks s" "uplinks (reap idle t a s) = uplinks s" "uplinks (serverClose s) = uplinks s"
  "uplinks (snd (sessionTouch now t a s)) = uplinks s" "uplinks (snd (sessionGet now t s)) = uplinks s"
  "uplinks (endSessionPull a lease s) = uplinks s" "uplinks (storeDownlink a bs s) = uplinks s"
  "uplinks (acknowledgeDownlink a n s) = uplinks s"
  by (simp_all add: tunnelSessionClose_def reap_def serverClose_def sessionTouch_def sessionGet_def endSessionPull_def storeDownlink_def
      acknowledgeDownlink_def uplinks_on uplink_def split: option.split)

lemma uplink_halfClose [simp]: "uplinks (sessionHalfClose now t up s) = uplinks s"
  by (auto simp: sessionHalfClose_def Let_def uplinks_on uplink_def split: option.split)

lemma uplink_beginPull [simp]: "uplinks (snd (beginSessionPull now t a s)) = uplinks s"
  by (auto simp: beginSessionPull_def sessionTouch_def uplinks_on uplink_def split: option.split)

lemma uplink_pullFinish [simp]: "uplinks (snd (pullFinish keepalive now t a err s)) = uplinks s"
  by (simp add: pullFinish_def split: option.split pipeErr.split)

lemma uplink_pull [simp]: "uplinks (snd (snd (pullIteration keepalive t a turn s))) = uplinks s"
proof -
  have "uplinks (snd (snd (pullSend keepalive now t a err broken u))) = uplinks u" for now err broken u
    by (auto simp: pullSend_def Let_def sessionTouch_def uplinks_on uplink_def split: option.split)
  then show ?thesis by (cases turn) (simp_all add: uplinks_on uplink_def)
qed

lemma uplink_authorize:
  "uplinks (snd (sessionAuthorize now token early replyOk s)) \<in> {uplinks s, uplinks s @ [([], 1)]}"
  by (auto simp: sessionAuthorize_def Let_def split: option.split) (auto simp: uplinks_def newSession_def uplink_def)

lemma uplink_upload:
  "uplinks (snd (writeSessionUpload now t a k p f s)) =
     (case uplinks s ! a of (w, n) \<Rightarrow>
        if map_of (tv_sessions s) t = Some a \<and> a < length (tv_store s) \<and> k = n
        then (uplinks s)[a := if p \<noteq> [] \<and> f \<noteq> None then (w @ take (the f) p, n) else (w @ p, n + 1)]
        else uplinks s)"
proof (cases "map_of (tv_sessions s) t = Some a \<and> a < length (tv_store s)")
  case True
  then have "(map uplink (tv_store s))[a := (ts_written (tv_store s ! a), ts_nextUploadSeq (tv_store s ! a))] = map uplink (tv_store s)"
    by (metis list_update_id nth_map uplink_def)
  with True show ?thesis
    by (auto simp: writeSessionUpload_def sessionTouch_def Let_def onSession_def uplinks_def uplink_def map_update)
next
  case False
  then show ?thesis
    by (auto simp: writeSessionUpload_def sessionTouch_def Let_def onSession_def uplinks_def split: prod.split)
qed

text \<open>The uploads to the session a in a history carry the numbered batches of its client; a retry carries
  the same bytes again (flush in tunnel\_conn\_poll.go and tunnel\_conn\_stream.go).\<close>

fun carries :: "nat \<Rightarrow> (nat \<Rightarrow> byte list) \<Rightarrow> tunnelEv \<Rightarrow> bool" where
  "carries a batch (EvUpload now t b k p f) \<longleftrightarrow> b = a \<longrightarrow> p = batch (unat k)"
| "carries a batch _ \<longleftrightarrow> True"

text \<open>An upload to the session a whose write into the pipe fails.\<close>

fun failsOn :: "nat \<Rightarrow> tunnelEv \<Rightarrow> bool" where
  "failsOn a (EvUpload now t b k p f) \<longleftrightarrow> b = a \<and> f \<noteq> None"
| "failsOn a _ \<longleftrightarrow> False"

definition deliveredUpTo :: "(nat \<Rightarrow> byte list) \<Rightarrow> nat \<Rightarrow> byte list \<times> u64 \<Rightarrow> bool" where
  "deliveredUpTo batch m x \<longleftrightarrow> fst x = concat (map batch [1..<unat (snd x)]) \<and> 1 \<le> unat (snd x) \<and> unat (snd x) \<le> m"

lemma deliveredUpTo_mono: "deliveredUpTo batch m x \<Longrightarrow> m \<le> m' \<Longrightarrow> deliveredUpTo batch m' x"
  by (auto simp: deliveredUpTo_def)

lemma deliveredUpTo_next:
  assumes "deliveredUpTo batch m (w, n)" "m < 2 ^ 64 - 1"
  shows "deliveredUpTo batch (m + 1) (w @ batch (unat n), n + 1)"
proof -
  have "unat (n + 1) = unat n + 1" using assms unat_add_lem [of n 1] by (auto simp: deliveredUpTo_def)
  then show ?thesis using assms(1) by (auto simp: deliveredUpTo_def)
qed

lemma delivered_step:
  assumes inv: "\<And>x. a < length (uplinks s) \<Longrightarrow> x = uplinks s ! a \<Longrightarrow> deliveredUpTo batch m x" and m: "1 \<le> m" "m < 2 ^ 64 - 1"
    and ev: "carries a batch ev" "\<not> failsOn a ev" and a: "a < length (uplinks (tunnelStep ev s))"
  shows "deliveredUpTo batch (m + 1) (uplinks (tunnelStep ev s) ! a)"
proof -
  have old: "deliveredUpTo batch (m + 1) (uplinks s ! a)" if "a < length (uplinks s)"
    using inv [OF that] by (auto intro: deliveredUpTo_mono)
  show ?thesis
  proof (cases ev)
    case (EvAuthorize now token early replyOk)
    then consider "uplinks (tunnelStep ev s) = uplinks s" | "uplinks (tunnelStep ev s) = uplinks s @ [([], 1)]"
      using uplink_authorize [of now token early replyOk s] by auto
    then show ?thesis
    proof cases
      case 2
      with a old show ?thesis by (cases "a < length (uplinks s)") (auto simp: nth_append deliveredUpTo_def less_Suc_eq)
    qed (use a old in simp)
  next
    case (EvUpload now t b k p f)
    obtain w n where wn: "uplinks s ! b = (w, n)" by force
    show ?thesis
    proof (cases "map_of (tv_sessions s) t = Some b \<and> b < length (tv_store s) \<and> k = n \<and> b = a")
      case True
      then have "f = None" "p = batch (unat n)" "a < length (uplinks s)" using ev EvUpload by (auto simp: uplinks_def)
      then show ?thesis using True EvUpload wn inv deliveredUpTo_next [of batch m w n] m
        by (auto simp: uplink_upload simp del: One_nat_def)
    next
      case False
      then have "length (uplinks (tunnelStep ev s)) = length (uplinks s)" "uplinks (tunnelStep ev s) ! a = uplinks s ! a"
        using EvUpload wn by (auto simp: uplink_upload)
      then show ?thesis using a old by simp
    qed
  qed (use a old in \<open>simp_all split: if_splits\<close>)
qed

lemma delivered_run:
  assumes "\<And>x. a < length (uplinks s) \<Longrightarrow> x = uplinks s ! a \<Longrightarrow> deliveredUpTo batch m x" "1 \<le> m" "m + length evs < 2 ^ 64"
    and "\<forall>ev\<in>set evs. carries a batch ev \<and> \<not> failsOn a ev" "a < length (uplinks (tunnelRun evs s))"
  shows "deliveredUpTo batch (m + length evs) (uplinks (tunnelRun evs s) ! a)"
  using assms
proof (induction evs arbitrary: s m)
  case (Cons ev evs)
  have "deliveredUpTo batch (m + 1) x" if "a < length (uplinks (tunnelStep ev s))" "x = uplinks (tunnelStep ev s) ! a" for x
    using delivered_step [of a s batch m ev] Cons.prems that by auto
  then have "deliveredUpTo batch (m + 1 + length evs) (uplinks (tunnelRun evs (tunnelStep ev s)) ! a)"
    using Cons.prems by (intro Cons.IH) (auto simp: tunnelRun_def)
  then show ?case by (simp add: tunnelRun_def)
qed (simp add: tunnelRun_def)

text \<open>A whole push request is the lookup of its session, the upload and, when the upload failed, the
  close.\<close>

lemma pushUpload_steps:
  "snd (pushUpload now t a k p f s) =
     tunnelRun (EvUpload now t a k p f # (if fst (writeSessionUpload now t a k p f s) = UploadFailed then [EvClose t] else [])) s"
  by (simp add: pushUpload_def tunnelRun_def split: prod.split)

lemma streamPush_steps: "\<exists>evs. snd (streamPush now t k body f s) = tunnelRun (EvGet now t # evs) s
  \<and> (\<forall>a k' p f' now'. EvUpload now' t a k' p f' \<in> set evs \<longrightarrow> k' = k \<and> body = Some p \<and> map_of (tv_sessions s) t = Some a)"
proof (cases "map_of (tv_sessions s) t")
  case (Some a)
  let ?s = "snd (sessionGet now t s)"
  show ?thesis
  proof (cases body)
    case (Some p)
    show ?thesis
    proof (cases "length p > maxUploadBytes")
      case False
      let ?evs = "EvUpload now t a k p f # (if fst (writeSessionUpload now t a k p f ?s) = UploadFailed then [EvClose t] else [])"
      have "snd (streamPush now t k body f s) = tunnelRun (EvGet now t # ?evs) s"
        using Some \<open>map_of _ _ = _\<close> False pushUpload_steps [of now t a k p f ?s] by (simp add: streamPush_def sessionGet_def tunnelRun_def)
      then show ?thesis using Some \<open>map_of _ _ = _\<close> by (intro exI [of _ ?evs]) (auto split: if_splits)
    qed (use Some \<open>map_of _ _ = _\<close> in \<open>auto simp: streamPush_def sessionGet_def tunnelRun_def intro!: exI [of _ "[]"]\<close>)
  qed (use Some in \<open>auto simp: streamPush_def sessionGet_def tunnelRun_def intro!: exI [of _ "[]"]\<close>)
qed (auto simp: streamPush_def sessionGet_def tunnelRun_def intro!: exI [of _ "[]"])

lemma upload_ok:
  assumes "writeSessionUpload now t a k p f s = (UploadOk, s')" "a < length (tv_store s)" "unat (ts_nextUploadSeq (tv_store s ! a)) < 2 ^ 64 - 1"
  shows "s' = snd (writeSessionUpload now t a k p None s)" "k < ts_nextUploadSeq (tv_store s' ! a)"
proof -
  let ?n = "ts_nextUploadSeq (tv_store s ! a)"
  have "?n < ?n + 1" using assms(3) unat_add_lem [of ?n 1] by (simp add: word_less_nat_alt)
  then show "s' = snd (writeSessionUpload now t a k p None s)" "k < ts_nextUploadSeq (tv_store s' ! a)"
    using assms(1,2) by (auto simp: writeSessionUpload_def sessionTouch_def Let_def onSession_def split: if_splits)
qed

lemma uplinks_nth: "a < length (tv_store s) \<Longrightarrow> uplinks s ! a = (ts_written (tv_store s ! a), ts_nextUploadSeq (tv_store s ! a))"
  by (simp add: uplinks_def uplink_def)

text \<open>C11: the uplink of a tunnel session delivers every batch once and in order. In every interleaving
  of requests, retries, reapers and the shutdown in which the uploads to a session carry the
  numbered batches of its client and none of its pipe writes failed, the session has received
  exactly the batches below the next number, and an upload is acknowledged only when its batch is among them.\<close>

theorem upload_exactly_once:
  assumes "\<forall>ev\<in>set evs. carries a batch ev \<and> \<not> failsOn a ev" and "length evs < 2 ^ 64 - 2"
    and "s = tunnelRun evs (NewTunnelServer mode root pass ttl)" and "a < length (tv_store s)"
  shows "ts_written (tv_store s ! a) = concat (map batch [1..<unat (ts_nextUploadSeq (tv_store s ! a))])
    \<and> (\<forall>now t k f s'. writeSessionUpload now t a k (batch (unat k)) f s = (UploadOk, s') \<longrightarrow>
          k < ts_nextUploadSeq (tv_store s' ! a)
          \<and> ts_written (tv_store s' ! a) = concat (map batch [1..<unat (ts_nextUploadSeq (tv_store s' ! a))]))"
proof -
  have now: "deliveredUpTo batch (1 + length evs) (uplinks s ! a)"
    using assms unfolding assms(3) by (intro delivered_run) (auto simp: NewTunnelServer_def uplinks_def)
  have "k < ts_nextUploadSeq (tv_store s' ! a)
      \<and> ts_written (tv_store s' ! a) = concat (map batch [1..<unat (ts_nextUploadSeq (tv_store s' ! a))])"
    if ok: "writeSessionUpload now t a k (batch (unat k)) f s = (UploadOk, s')" for now t k f s'
  proof -
    have small: "unat (ts_nextUploadSeq (tv_store s ! a)) < 2 ^ 64 - 1" using now assms(2,4) by (simp add: uplinks_nth deliveredUpTo_def)
    let ?ev = "EvUpload now t a k (batch (unat k)) None"
    have s': "s' = tunnelStep ?ev s" using upload_ok(1) [OF ok assms(4) small] by simp
    have len: "length (uplinks s') = length (uplinks s)" unfolding s' by (auto simp: uplink_upload split: prod.split)
    then have a: "a < length (tv_store s')" using assms(4) by (simp add: uplinks_def)
    have "deliveredUpTo batch (1 + length evs + 1) (uplinks s' ! a)"
      using now assms(2,4) len unfolding s' by (intro delivered_step) (auto simp: uplinks_def)
    then show ?thesis using upload_ok(2) [OF ok assms(4) small] a by (simp add: uplinks_nth deliveredUpTo_def)
  qed
  with now assms(4) show ?thesis by (auto simp: uplinks_nth deliveredUpTo_def)
qed

theorem upload_exactly_once_witness:
  "ts_written (tv_store (tunnelRun [EvAuthorize 0 (Some ''t'') EarlyNone True, EvUpload 1 ''t'' 0 2 [2, 0] None, EvUpload 2 ''t'' 0 1 [1, 0] None,
      EvUpload 3 ''t'' 0 1 [1, 0] None, EvUpload 4 ''t'' 0 2 [2, 0] None] (NewTunnelServer ''auto'' [] False 0)) ! 0) = [1, 0, 2, 0]"
  using upload_exactly_once [of "[EvAuthorize 0 (Some ''t'') EarlyNone True, EvUpload 1 ''t'' 0 2 [2, 0] None, EvUpload 2 ''t'' 0 1 [1, 0] None,
      EvUpload 3 ''t'' 0 1 [1, 0] None, EvUpload 4 ''t'' 0 2 [2, 0] None]" 0 "\<lambda>k. [word_of_nat k, 0]" _ "''auto''" "[]" False 0, OF _ _ refl]
  by (simp add: tunnelRun_def NewTunnelServer_def sessionAuthorize_def maxTunnelSessions_def newSession_def writeSessionUpload_def
      sessionTouch_def onSession_def Let_def upt_conv_Cons)

lemma closed_stays: "tv_closed s \<Longrightarrow> tv_closed (tunnelStep ev s)"
proof (cases ev)
  case (EvPull keepalive t a turn)
  have "tv_closed (snd (pullFinish keepalive now t a err u)) = tv_closed u" for now err u
    by (simp add: pullFinish_def sessionTouch_def sessionHalfClose_def tunnelSessionClose_def Let_def split: option.split pipeErr.split)
  then have "tv_closed (snd (snd (pullSend keepalive now t a err broken u))) = tv_closed u" for now err broken u
    by (auto simp: pullSend_def Let_def sessionTouch_def acknowledgeDownlink_def split: option.split)
  moreover assume "tv_closed s"
  ultimately show ?thesis using EvPull by (cases turn) (auto simp: storeDownlink_def)
qed (auto simp: sessionAuthorize_def sessionGet_def writeSessionUpload_def sessionTouch_def Let_def tunnelSessionClose_def sessionHalfClose_def
    reap_def beginSessionPull_def endSessionPull_def serverClose_def split: option.split)

lemma closed_run: "tv_closed s \<or> EvServerClose \<in> set evs \<Longrightarrow> tv_closed (tunnelRun evs s)"
proof (induction evs arbitrary: s)
  case (Cons ev evs)
  then have "tv_closed (tunnelStep ev s) \<or> EvServerClose \<in> set evs" by (auto simp: serverClose_def intro: closed_stays)
  then have "tv_closed (tunnelRun evs (tunnelStep ev s))" by (rule Cons.IH)
  then show ?case by (simp add: tunnelRun_def)
qed (simp add: tunnelRun_def)

text \<open>C23: no pipe survives its token. In every interleaving of the server's operations (with tokens
  that are not in use when they are drawn) there are at most 256 sessions, every session of the
  table has a token of its own and an open pipe, every other session ever created has a closed
  one, and after a shutdown all of them are closed and stay so.\<close>

theorem session_pipes_closed:
  assumes "freshTokens evs (NewTunnelServer mode root pass ttl)" and "s = tunnelRun evs (NewTunnelServer mode root pass ttl)"
  shows "length (tv_sessions s) \<le> 256 \<and> distinct (map fst (tv_sessions s)) \<and> distinct (map snd (tv_sessions s))
    \<and> (\<forall>a\<in>snd ` set (tv_sessions s). a < length (tv_store s))
    \<and> (\<forall>a<length (tv_store s). ts_connClosed (tv_store s ! a) \<longleftrightarrow> a \<notin> snd ` set (tv_sessions s))
    \<and> (EvServerClose \<in> set evs \<longrightarrow> tv_sessions s = [] \<and> (\<forall>x\<in>set (tv_store s). ts_connClosed x))"
proof -
  have inv: "tunnelInv s" using tunnelInv_run [OF tunnelInv_new assms(1)] assms(2) by simp
  moreover have "EvServerClose \<in> set evs \<Longrightarrow> tv_closed s" using closed_run assms(2) by blast
  ultimately show ?thesis by (auto simp: tunnelInv_def sessionsInv_def maxTunnelSessions_def in_set_conv_nth)
qed

theorem session_pipes_closed_witness:
  "ts_connClosed (tv_store (tunnelRun [EvAuthorize 0 (Some ''t'') EarlyNone True, EvAuthorize 0 (Some ''u'') EarlyNone True, EvClose ''u'']
     (NewTunnelServer ''auto'' [] False 0)) ! 1)"
  using session_pipes_closed [of "[EvAuthorize 0 (Some ''t'') EarlyNone True, EvAuthorize 0 (Some ''u'') EarlyNone True, EvClose ''u'']" "''auto''" "[]" False 0, OF _ refl]
  by (simp add: tunnelRun_def NewTunnelServer_def sessionAuthorize_def maxTunnelSessions_def newSession_def tunnelSessionClose_def releaseSession_def
      stopLease_def onSession_def Let_def)

section \<open>The downlink\<close>

definition downlink :: "nat \<Rightarrow> TunnelServer \<Rightarrow> byte list \<times> byte list" where
  "downlink a s = (ts_read (tv_store s ! a), ts_pendingDownlink (tv_store s ! a))"

lemma downlink_on: "(\<And>x. ts_read (f x) = ts_read x \<and> ts_pendingDownlink (f x) = ts_pendingDownlink x) \<Longrightarrow> downlink a (onSession b f s) = downlink a s"
  by (cases "a < length (tv_store s)") (auto simp: downlink_def onSession_def nth_list_update)

lemma downlink_simps [simp]: "downlink a (stopLease l s) = downlink a s" "downlink a (s\<lparr>tv_sessions := ss\<rparr>) = downlink a s"
  by (simp_all add: downlink_def)

lemma downlink_finish [simp]: "downlink a (snd (pullFinish keepalive now t b err s)) = downlink a s"
  by (auto simp: pullFinish_def sessionTouch_def sessionHalfClose_def tunnelSessionClose_def releaseSession_def Let_def downlink_on
      split: option.split pipeErr.split)

fun unbroken :: "pullTurn \<Rightarrow> bool" where
  "unbroken PullCancelled \<longleftrightarrow> True"
| "unbroken (PullTurn now bs err broken) \<longleftrightarrow> broken = None"

lemma pullSend_conserves:
  assumes "a < length (tv_store s)" "sent @ snd (downlink a s) = fst (downlink a s)"
  shows "(sent @ fst (pullSend keepalive now t a err None s)) @ snd (downlink a (snd (snd (pullSend keepalive now t a err None s))))
     = fst (downlink a (snd (snd (pullSend keepalive now t a err None s))))"
proof -
  let ?u = "onSession a (\<lambda>x. x\<lparr>ts_lastActive := now\<rparr>) s"
  have "downlink a (acknowledgeDownlink a (length (snd (downlink a s))) ?u) = (fst (downlink a s), [])"
    using assms(1) by (simp add: acknowledgeDownlink_def downlink_def nth_onSession)
  then show ?thesis using assms(2) by (auto simp: pullSend_def Let_def sessionTouch_def) (auto simp: downlink_def)
qed

lemma pull_conserves:
  assumes "unbroken turn" "a < length (tv_store s)" "sent @ snd (downlink a s) = fst (downlink a s)"
    and "pullIteration keepalive t a turn s = (out, r, s')"
  shows "(sent @ out) @ snd (downlink a s') = fst (downlink a s')" "a < length (tv_store s')"
proof -
  have "length (uplinks s') = length (uplinks s)" using uplink_pull [of keepalive t a turn s] assms(4) by simp
  then show "a < length (tv_store s')" using assms(2) by (simp add: uplinks_def)
  show "(sent @ out) @ snd (downlink a s') = fst (downlink a s')"
  proof (cases turn)
    case (PullTurn now bs err broken)
    let ?u = "if bs \<noteq> [] then storeDownlink a bs (onSession a (\<lambda>x. x\<lparr>ts_read := ts_read x @ bs\<rparr>) s) else s"
    have "a < length (tv_store ?u)" "ts_pendingDownlink (tv_store s ! a) = [] \<Longrightarrow> sent @ snd (downlink a ?u) = fst (downlink a ?u)"
      using assms(2,3) by (auto simp: storeDownlink_def nth_onSession downlink_def)
    then show ?thesis using PullTurn assms pullSend_conserves [of a ?u sent keepalive now t err] pullSend_conserves [of a s sent keepalive now t None]
      by (auto split: if_splits)
  qed (use assms in simp)
qed

text \<open>The payload bytes a history puts into the responses of the pulls of a session.\<close>

fun stepOutput :: "nat \<Rightarrow> tunnelEv \<Rightarrow> TunnelServer \<Rightarrow> byte list" where
  "stepOutput a (EvPull keepalive token b t) s = (if b = a \<and> a < length (tv_store s) then fst (pullIteration keepalive token b t s) else [])"
| "stepOutput a _ s = []"

fun pullOutput :: "nat \<Rightarrow> tunnelEv list \<Rightarrow> TunnelServer \<Rightarrow> byte list" where
  "pullOutput a [] s = []"
| "pullOutput a (ev # evs) s = stepOutput a ev s @ pullOutput a evs (tunnelStep ev s)"

fun breaksOn :: "nat \<Rightarrow> tunnelEv \<Rightarrow> bool" where
  "breaksOn a (EvPull keepalive token b t) \<longleftrightarrow> b = a \<and> \<not> unbroken t"
| "breaksOn a _ \<longleftrightarrow> False"

definition sentInOrder :: "nat \<Rightarrow> byte list \<Rightarrow> TunnelServer \<Rightarrow> bool" where
  "sentInOrder a sent s \<longleftrightarrow> (if a < length (tv_store s) then sent @ snd (downlink a s) = fst (downlink a s) else sent = [])"

lemma downlink_other: "b \<noteq> a \<Longrightarrow> downlink a (snd (snd (pullIteration keepalive t b turn s))) = downlink a s"
proof -
  assume "b \<noteq> a"
  then have on: "downlink a (onSession b f u) = downlink a u" for f u by (simp add: downlink_def onSession_def)
  then have "downlink a (snd (snd (pullSend keepalive now t b err broken u))) = downlink a u" for now err broken u
    by (auto simp: pullSend_def Let_def sessionTouch_def acknowledgeDownlink_def split: option.split)
  then show ?thesis by (cases turn) (simp_all add: on storeDownlink_def)
qed

lemma downlink_releases [simp]: "downlink a (fold releaseSession as s) = downlink a s"
  by (induction as arbitrary: s) (simp_all add: releaseSession_def downlink_on)

lemma downlink_close [simp]: "downlink a (tunnelSessionClose t s) = downlink a s"
  by (auto simp: tunnelSessionClose_def releaseSession_def downlink_on split: option.split)

lemma downlink_quiet:
  assumes "\<forall>keepalive t turn. ev \<noteq> EvPull keepalive t a turn" "a < length (tv_store s)"
  shows "downlink a (tunnelStep ev s) = downlink a s"
proof (cases ev)
  case (EvAuthorize now token early replyOk)
  then show ?thesis using assms(2) by (auto simp: sessionAuthorize_def Let_def split: option.split) (auto simp: downlink_def nth_append)
next
  case EvServerClose
  have "downlink a (s\<lparr>tv_closed := True, tv_sessions := []\<rparr>) = downlink a s" by (simp add: downlink_def)
  with EvServerClose show ?thesis by (simp add: serverClose_def)
next
  case (EvBeginPull now t b)
  have "downlink a (s\<lparr>tv_leases := n\<rparr>) = downlink a s" for s n by (simp add: downlink_def)
  with EvBeginPull show ?thesis by (auto simp: beginSessionPull_def sessionTouch_def downlink_on split: option.split)
qed (use assms in \<open>auto simp: sessionGet_def writeSessionUpload_def sessionTouch_def Let_def sessionHalfClose_def reap_def endSessionPull_def
       downlink_on downlink_other split: option.split\<close>)

lemma length_step: "length (tv_store s) \<le> length (tv_store (tunnelStep ev s))"
proof -
  have "length (uplinks s) \<le> length (uplinks (tunnelStep ev s))"
  proof (cases ev)
    case (EvAuthorize now token early replyOk)
    then show ?thesis using uplink_authorize [of now token early replyOk s] by auto
  qed (simp_all add: uplink_upload split: prod.split)
  then show ?thesis by (simp add: uplinks_def)
qed

lemma downlink_new:
  assumes "length (tv_store s) \<le> a" "a < length (tv_store (tunnelStep ev s))"
  shows "downlink a (tunnelStep ev s) = ([], [])"
proof (cases ev)
  case (EvAuthorize now token early replyOk)
  let ?s = "\<lambda>t. s\<lparr>tv_sessions := AList.update t (length (tv_store s)) (tv_sessions s), tv_store := tv_store s @ [newSession now]\<rparr>"
  have new: "downlink (length (tv_store s)) (?s t) = ([], [])" for t by (simp add: downlink_def newSession_def)
  have len: "length (tv_store (tunnelSessionClose t u)) = length (tv_store u)" for t u
    using uplink_ops(1) [of t u] by (simp add: uplinks_def) (metis length_map)
  show ?thesis using EvAuthorize assms new len
    by (auto simp: sessionAuthorize_def Let_def less_Suc_eq split: option.splits if_splits)
next
  case (EvUpload now t b k p f)
  then have "length (uplinks (tunnelStep ev s)) = length (uplinks s)" by (simp add: uplink_upload split: prod.split)
  with assms show ?thesis by (simp add: uplinks_def)
qed (use assms uplinks_def [of s] uplinks_def [of "tunnelStep ev s"] in
     \<open>metis length_map not_less tunnelStep.simps uplink_ops uplink_halfClose uplink_beginPull uplink_pull\<close>)+

lemma sentInOrder_step:
  assumes "\<not> breaksOn a ev" "sentInOrder a sent s"
  shows "sentInOrder a (sent @ stepOutput a ev s) (tunnelStep ev s)"
proof (cases "a < length (tv_store s)")
  case True
  then have a: "a < length (tv_store (tunnelStep ev s))" using length_step [of s ev] by simp
  show ?thesis
  proof (cases "\<exists>keepalive t turn. ev = EvPull keepalive t a turn")
    case True
    then obtain keepalive t turn where ev: "ev = EvPull keepalive t a turn" by auto
    obtain out r s' where it: "pullIteration keepalive t a turn s = (out, r, s')" by (metis prod_cases3)
    then show ?thesis using assms \<open>a < length (tv_store s)\<close> ev pull_conserves [of turn a s sent keepalive t out r s'] by (simp add: sentInOrder_def)
  next
    case False
    then have "stepOutput a ev s = []" by (cases ev) auto
    then show ?thesis using a assms(2) \<open>a < length (tv_store s)\<close> False downlink_quiet [of ev a s] by (simp add: sentInOrder_def)
  qed
next
  case False
  then have "sent = []" "stepOutput a ev s = []" using assms(2) by (cases ev; simp add: sentInOrder_def)+
  then show ?thesis using False downlink_new [of s a ev] by (simp add: sentInOrder_def)
qed

lemma sentInOrder_run:
  "\<forall>ev\<in>set evs. \<not> breaksOn a ev \<Longrightarrow> sentInOrder a sent s \<Longrightarrow> sentInOrder a (sent @ pullOutput a evs s) (tunnelRun evs s)"
proof (induction evs arbitrary: s sent)
  case (Cons ev evs)
  then have "sentInOrder a ((sent @ stepOutput a ev s) @ pullOutput a evs (tunnelStep ev s)) (tunnelRun evs (tunnelStep ev s))"
    by (intro Cons.IH) (auto intro: sentInOrder_step)
  then show ?case by (simp add: tunnelRun_def)
qed (simp add: tunnelRun_def)

text \<open>C22: the downlink of a tunnel session loses and reorders nothing across its pull requests. In
  every interleaving in which no response of the session breaks, the payloads put into its
  responses, followed by the one kept for the next pull, are exactly the bytes read from its
  pipe: pulls that take over from one another, idle timeouts and failed touches included.\<close>

theorem downlink_in_order:
  assumes "\<forall>ev\<in>set evs. \<not> breaksOn a ev" and "s = tunnelRun evs (NewTunnelServer mode root pass ttl)" and "a < length (tv_store s)"
  shows "pullOutput a evs (NewTunnelServer mode root pass ttl) @ ts_pendingDownlink (tv_store s ! a) = ts_read (tv_store s ! a)"
  using sentInOrder_run [OF assms(1), of "[]" "NewTunnelServer mode root pass ttl"] assms(2,3)
  by (simp add: sentInOrder_def downlink_def NewTunnelServer_def)

theorem downlink_in_order_witness:
  "ts_read (tv_store (tunnelRun [EvAuthorize 0 (Some ''t'') EarlyNone True, EvPull False ''t'' 0 (PullTurn 1 [7, 8] None None), EvPull False ''t'' 0 PullCancelled,
      EvPull False ''t'' 0 (PullTurn 2 [9] None None)] (NewTunnelServer ''auto'' [] False 0)) ! 0) = [7, 8, 9]"
  using downlink_in_order [of "[EvAuthorize 0 (Some ''t'') EarlyNone True, EvPull False ''t'' 0 (PullTurn 1 [7, 8] None None), EvPull False ''t'' 0 PullCancelled,
      EvPull False ''t'' 0 (PullTurn 2 [9] None None)]" 0 _ "''auto''" "[]" False 0, OF _ refl]
  by (simp add: tunnelRun_def NewTunnelServer_def sessionAuthorize_def maxTunnelSessions_def newSession_def pullSend_def pullFinish_def
      storeDownlink_def acknowledgeDownlink_def sessionTouch_def onSession_def Let_def)

text \<open>C39: a broken response duplicates bytes. When the response of a pull fails after j bytes of a
  payload, the next pull puts the whole payload into its response: the client, which hands on
  the bytes of the broken response as they arrive and then pulls again, sees the first j bytes
  twice, although the pipe delivered them once.\<close>

theorem broken_pull_duplicates:
  assumes "map_of (tv_sessions s) token = Some a" and "a < length (tv_store s)" and "ts_pendingDownlink (tv_store s ! a) = []"
    and "bs \<noteq> []"
    and "sessionPull keepalive token a [PullTurn t1 bs None (Some j)] s = (out1, r1, s1)"
    and "sessionPull keepalive token a [PullTurn t2 bs2 err None] s1 = (out2, r2, s2)"
  shows "r1 = PullStopped \<and> out1 @ out2 = take j bs @ bs \<and> ts_read (tv_store s1 ! a) = ts_read (tv_store s ! a) @ bs
    \<and> ts_pendingDownlink (tv_store s2 ! a) = []"
proof -
  let ?u = "storeDownlink a bs (onSession a (\<lambda>x. x\<lparr>ts_read := ts_read x @ bs\<rparr>) s)"
  have one: "out1 = take j bs" "r1 = PullStopped" "s1 = onSession a (\<lambda>x. x\<lparr>ts_lastActive := t1\<rparr>) ?u"
    using assms by (auto simp: pullSend_def Let_def sessionTouch_def storeDownlink_def nth_onSession)
  have s1: "ts_pendingDownlink (tv_store s1 ! a) = bs" "ts_read (tv_store s1 ! a) = ts_read (tv_store s ! a) @ bs"
    "map_of (tv_sessions s1) token = Some a" "a < length (tv_store s1)"
    using assms(1-4) by (simp_all add: one(3) storeDownlink_def nth_onSession)
  let ?v = "acknowledgeDownlink a (length bs) (onSession a (\<lambda>x. x\<lparr>ts_lastActive := t2\<rparr>) s1)"
  have "out2 = bs" "s2 = ?v"
    using assms(4,6) s1 by (auto simp: pullSend_def Let_def sessionTouch_def pullFinish_def)
  then show ?thesis using one s1 by (simp add: acknowledgeDownlink_def nth_onSession)
qed

theorem broken_pull_duplicates_witness:
  "\<exists>out1 r1 s1 out2 r2 s2.
     sessionPull False ''t'' 0 [PullTurn 1 [7, 8] None (Some 1)] (tunnelRun [EvAuthorize 0 (Some ''t'') EarlyNone True] (NewTunnelServer ''auto'' [] False 0))
       = (out1, r1, s1)
     \<and> sessionPull False ''t'' 0 [PullTurn 2 [] None None] s1 = (out2, r2, s2) \<and> out1 @ out2 = [7, 7, 8]"
proof -
  let ?s = "tunnelRun [EvAuthorize 0 (Some ''t'') EarlyNone True] (NewTunnelServer ''auto'' [] False 0)"
  obtain out1 r1 s1 where one: "sessionPull False ''t'' 0 [PullTurn 1 [7, 8] None (Some 1)] ?s = (out1, r1, s1)" by (metis prod_cases3)
  obtain out2 r2 s2 where two: "sessionPull False ''t'' 0 [PullTurn 2 [] None None] s1 = (out2, r2, s2)" by (metis prod_cases3)
  have "map_of (tv_sessions ?s) ''t'' = Some 0" "0 < length (tv_store ?s)" "ts_pendingDownlink (tv_store ?s ! 0) = []"
    by (simp_all add: tunnelRun_def NewTunnelServer_def sessionAuthorize_def maxTunnelSessions_def newSession_def Let_def)
  then have "out1 @ out2 = [7, 7, 8]" using broken_pull_duplicates [OF _ _ _ _ one two] by simp
  with one two show ?thesis by blast
qed


end
