(* ===== verification/Tunnel_Client.thy ===== *)
theory Tunnel_Client
  imports Tunnel_Session "HOL-Library.Sublist"
begin

text \<open>
  The uplink of the HTTP mask's client (pushLoop in obfs/httpmask/tunnel\_conn\_poll.go and
  tunnel\_conn\_stream.go): the bytes written to the connection are batched, every batch gets a
  number and is uploaded by one request, which is retried until the server acknowledges it. The
  poll mode writes the batch as lines of base64.

  A turn of the select statement is an event of the loop. Whether the server acknowledges a
  request in the end (retryPersistent returned no error) comes from a script; a script that is
  used up acknowledges everything. The bytes taken from the write channel and the requests made
  are fields of the state. The push URL is one that parses.
\<close>

section \<open>State\<close>

record 'b pushState =
  pu_buf :: "'b list"
  pu_pendingRaw :: nat
  pu_seq :: u64
  pu_requests :: "(u64 \<times> 'b list) list"
  pu_taken :: "byte list"
  pu_script :: "bool list"

datatype pushEnd = PushRunning | PushFinished | PushFailed | PushClosed

text \<open>A payload from the write channel, the timer, CloseWrite with the payloads the channel still
  holds and whether the FIN request succeeds, and the close of the connection.\<close>

datatype pushEv = PushWrite "byte list" | PushTick | PushCloseWrite "byte list list" bool | PushStop

definition newPush :: "bool list \<Rightarrow> 'b pushState" where
  "newPush script = \<lparr>pu_buf = [], pu_pendingRaw = 0, pu_seq = 0, pu_requests = [], pu_taken = [], pu_script = script\<rparr>"

definition flushBatch :: "'b pushState \<Rightarrow> bool \<times> 'b pushState" where
  "flushBatch st =
     (if pu_buf st = [] then (True, st)
      else
        let sequence = pu_seq st + 1;
            st = st\<lparr>pu_seq := sequence, pu_requests := pu_requests st @ [(sequence, pu_buf st)]\<rparr> in
        case pu_script st of
          [] \<Rightarrow> (True, st\<lparr>pu_buf := [], pu_pendingRaw := 0\<rparr>)
        | ok # rest \<Rightarrow>
            if ok then (True, st\<lparr>pu_buf := [], pu_pendingRaw := 0, pu_script := rest\<rparr>) else (False, st\<lparr>pu_script := rest\<rparr>))"

definition flushOrFail :: "'b pushState \<Rightarrow> pushEnd \<times> 'b pushState" where
  "flushOrFail st = (case flushBatch st of (ok, st) \<Rightarrow> (if ok then PushRunning else PushFailed, st))"

definition finishPush :: "bool \<Rightarrow> 'b pushState \<Rightarrow> pushEnd \<times> 'b pushState" where
  "finishPush fin st =
     (case flushBatch st of (ok, st) \<Rightarrow> (if \<not> ok then PushFailed else if fin then PushFinished else PushFailed, st))"

definition take_in :: "byte list \<Rightarrow> 'b pushState \<Rightarrow> 'b pushState" where
  "take_in b st = st\<lparr>pu_taken := pu_taken st @ b\<rparr>"

section \<open>The poll mode\<close>

definition pollMaxBatchBytes :: nat where "pollMaxBatchBytes = 64 * 1024"
definition maxLineRawBytes :: nat where "maxLineRawBytes = 16 * 1024"

definition encLine :: "byte list \<Rightarrow> string" where
  "encLine chunk = b64Encode chunk @ [linefeed]"

function pollEnqueue :: "byte list \<Rightarrow> char pushState \<Rightarrow> bool \<times> char pushState" where
  "pollEnqueue b st =
     (if b = [] then (True, st)
      else
        let chunk = take maxLineRawBytes b;
            (ok, st) =
              (if pu_pendingRaw st + length chunk > pollMaxBatchBytes \<or> length (pu_buf st) + length (b64Encode chunk) + 1 > pollMaxBatchBytes * 2
               then flushBatch st else (True, st)) in
        if \<not> ok then (False, st)
        else pollEnqueue (drop maxLineRawBytes b)
               (st\<lparr>pu_buf := pu_buf st @ encLine chunk, pu_pendingRaw := pu_pendingRaw st + length chunk\<rparr>))"
  by pat_completeness auto
termination
  by (relation "measure (\<lambda>(b, st). length b)") (auto simp: maxLineRawBytes_def)

declare pollEnqueue.simps [simp del]

fun pollDrain :: "byte list list \<Rightarrow> char pushState \<Rightarrow> bool \<times> char pushState" where
  "pollDrain [] st = (True, st)"
| "pollDrain (b # bs) st =
     (if b = [] then pollDrain bs st
      else case pollEnqueue b (take_in b st) of (ok, st) \<Rightarrow> if ok then pollDrain bs st else (False, st))"

fun pollTurn :: "pushEv \<Rightarrow> char pushState \<Rightarrow> pushEnd \<times> char pushState" where
  "pollTurn (PushWrite b) st =
     (if b = [] then (PushRunning, st)
      else case pollEnqueue b (take_in b st) of
             (ok, st) \<Rightarrow> if \<not> ok then (PushFailed, st)
                        else if pu_pendingRaw st \<ge> pollMaxBatchBytes then flushOrFail st else (PushRunning, st))"
| "pollTurn PushTick st = flushOrFail st"
| "pollTurn (PushCloseWrite bs fin) st =
     (case pollDrain bs st of (ok, st) \<Rightarrow> if ok then finishPush fin st else (PushFailed, st))"
| "pollTurn PushStop st = (PushClosed, st)"

section \<open>The stream mode\<close>

definition streamMaxBatchBytes :: nat where "streamMaxBatchBytes = 256 * 1024"

definition streamAppend :: "byte list \<Rightarrow> byte pushState \<Rightarrow> bool \<times> byte pushState" where
  "streamAppend b st =
     (case (if length (pu_buf st) + length b > streamMaxBatchBytes then flushBatch st else (True, st)) of
        (ok, st) \<Rightarrow> if ok then (True, st\<lparr>pu_buf := pu_buf st @ b\<rparr>) else (False, st))"

fun streamDrain :: "byte list list \<Rightarrow> byte pushState \<Rightarrow> bool \<times> byte pushState" where
  "streamDrain [] st = (True, st)"
| "streamDrain (b # bs) st =
     (if b = [] then streamDrain bs st
      else case streamAppend b (take_in b st) of (ok, st) \<Rightarrow> if ok then streamDrain bs st else (False, st))"

fun streamTurn :: "pushEv \<Rightarrow> byte pushState \<Rightarrow> pushEnd \<times> byte pushState" where
  "streamTurn (PushWrite b) st =
     (if b = [] then (PushRunning, st)
      else case streamAppend b (take_in b st) of
             (ok, st) \<Rightarrow> if \<not> ok then (PushFailed, st)
                        else if length (pu_buf st) \<ge> streamMaxBatchBytes then flushOrFail st else (PushRunning, st))"
| "streamTurn PushTick st = flushOrFail st"
| "streamTurn (PushCloseWrite bs fin) st =
     (case streamDrain bs st of (ok, st) \<Rightarrow> if ok then finishPush fin st else (PushFailed, st))"
| "streamTurn PushStop st = (PushClosed, st)"

section \<open>The loop\<close>

fun pushLoop :: "(pushEv \<Rightarrow> 'b pushState \<Rightarrow> pushEnd \<times> 'b pushState) \<Rightarrow> pushEv list \<Rightarrow> 'b pushState \<Rightarrow> pushEnd \<times> 'b pushState" where
  "pushLoop turn [] st = (PushRunning, st)"
| "pushLoop turn (ev # evs) st = (case turn ev st of (PushRunning, st) \<Rightarrow> pushLoop turn evs st | (r, st) \<Rightarrow> (r, st))"

definition pollPushLoop :: "pushEv list \<Rightarrow> bool list \<Rightarrow> pushEnd \<times> char pushState" where
  "pollPushLoop evs script = pushLoop pollTurn evs (newPush script)"

definition streamPushLoop :: "pushEv list \<Rightarrow> bool list \<Rightarrow> pushEnd \<times> byte pushState" where
  "streamPushLoop evs script = pushLoop streamTurn evs (newPush script)"

text \<open>What the server makes of a request's body: pollPush decodes at most a mebibyte of lines,
  streamPush refuses more than that.\<close>

definition pollDecode :: "string \<Rightarrow> byte list option" where
  "pollDecode body = decodeBody (take maxUploadBytes body)"

definition streamDecode :: "byte list \<Rightarrow> byte list option" where
  "streamDecode body = (if length body > maxUploadBytes then None else Some body)"

section \<open>The contract of an uplink\<close>

definition numbered :: "'b pushState \<Rightarrow> bool" where
  "numbered st \<longleftrightarrow> pu_seq st = word_of_nat (length (pu_requests st))
     \<and> map fst (pu_requests st) = map (\<lambda>i. word_of_nat (Suc i)) [0..<length (pu_requests st)]"

text \<open>The requests and the buffer hold, in order, all bytes taken but the rest.\<close>

definition pushInv :: "('b list \<Rightarrow> byte list \<Rightarrow> bool) \<Rightarrow> byte list \<Rightarrow> 'b pushState \<Rightarrow> bool" where
  "pushInv holds rest st \<longleftrightarrow> numbered st
     \<and> (\<exists>ps p. list_all2 holds (map snd (pu_requests st)) ps \<and> holds (pu_buf st) p \<and> concat ps @ p @ rest = pu_taken st)"

definition sentInv :: "('b list \<Rightarrow> byte list \<Rightarrow> bool) \<Rightarrow> 'b pushState \<Rightarrow> bool" where
  "sentInv holds st \<longleftrightarrow> numbered st \<and> (\<exists>ps. list_all2 holds (map snd (pu_requests st)) ps \<and> prefix (concat ps) (pu_taken st))"

definition completeInv :: "('b list \<Rightarrow> byte list \<Rightarrow> bool) \<Rightarrow> 'b pushState \<Rightarrow> bool" where
  "completeInv holds st \<longleftrightarrow> (\<exists>ps. list_all2 holds (map snd (pu_requests st)) ps \<and> concat ps = pu_taken st)"

lemma pushInv_sent: "pushInv holds rest st \<Longrightarrow> sentInv holds st"
  unfolding pushInv_def sentInv_def by (metis prefixI)

lemma numbered_snoc: "numbered st \<Longrightarrow> numbered (st\<lparr>pu_seq := pu_seq st + 1, pu_requests := pu_requests st @ [(pu_seq st + 1, b)]\<rparr>)"
  by (simp add: numbered_def add.commute)

lemma numbered_simps [simp]:
  "numbered (st\<lparr>pu_buf := b\<rparr>) = numbered st" "numbered (st\<lparr>pu_pendingRaw := n\<rparr>) = numbered st"
  "numbered (st\<lparr>pu_script := sc\<rparr>) = numbered st" "numbered (st\<lparr>pu_taken := t\<rparr>) = numbered st"
  by (simp_all add: numbered_def)

lemma pushInv_take_in: "pushInv holds [] st \<Longrightarrow> pushInv holds b (take_in b st)"
  by (auto simp: pushInv_def take_in_def)

lemma pushInv_new: "holds [] [] \<Longrightarrow> pushInv holds [] (newPush script)"
  by (auto simp: pushInv_def newPush_def numbered_def)

text \<open>A buffer holds raw bytes, and the server decodes a request's body to the bytes it holds.\<close>

locale upload_buffer =
  fixes holds :: "'b list \<Rightarrow> byte list \<Rightarrow> bool" and decode :: "'b list \<Rightarrow> byte list option"
  assumes holds_empty: "holds [] []"
    and holds_decode: "holds b p \<Longrightarrow> decode b = Some p"
begin

lemma holds_Nil: "holds [] p \<Longrightarrow> p = []"
  using holds_empty holds_decode by (metis option.inject)

lemma flush_ok:
  assumes "pushInv holds rest st" "flushBatch st = (True, st')"
  shows "pushInv holds rest st'" "pu_buf st' = []"
proof -
  show buf: "pu_buf st' = []" using assms(2) by (auto simp: flushBatch_def Let_def split: if_splits list.splits)
  obtain ps p where ps: "list_all2 holds (map snd (pu_requests st)) ps" "holds (pu_buf st) p" "concat ps @ p @ rest = pu_taken st" "numbered st"
    using assms(1) by (auto simp: pushInv_def)
  show "pushInv holds rest st'"
  proof (cases "pu_buf st = []")
    case False
    have "numbered st'" "pu_requests st' = pu_requests st @ [(pu_seq st + 1, pu_buf st)]" "pu_taken st' = pu_taken st"
      using assms(2) False numbered_snoc [OF ps(4)] by (auto simp: flushBatch_def Let_def split: if_splits list.splits)
    moreover have "list_all2 holds (map snd (pu_requests st) @ [pu_buf st]) (ps @ [p])" using ps by (simp add: list_all2_appendI)
    ultimately show ?thesis using buf ps(3) holds_empty unfolding pushInv_def
      by (intro conjI exI [of _ "ps @ [p]"] exI [of _ "[]"]) simp_all
  qed (use assms in \<open>simp add: flushBatch_def\<close>)
qed

lemma flush_fail:
  assumes "pushInv holds rest st" "flushBatch st = (False, st')"
  shows "sentInv holds st'"
proof -
  obtain ps p where ps: "list_all2 holds (map snd (pu_requests st)) ps" "holds (pu_buf st) p" "concat ps @ p @ rest = pu_taken st" "numbered st"
    using assms(1) by (auto simp: pushInv_def)
  have "numbered st'" "pu_requests st' = pu_requests st @ [(pu_seq st + 1, pu_buf st)]" "pu_taken st' = pu_taken st"
    using assms(2) numbered_snoc [OF ps(4)] by (auto simp: flushBatch_def Let_def split: if_splits list.splits)
  moreover have "list_all2 holds (map snd (pu_requests st) @ [pu_buf st]) (ps @ [p])" using ps by (simp add: list_all2_appendI)
  moreover have "prefix (concat (ps @ [p])) (pu_taken st)" unfolding ps(3) [symmetric] by simp
  ultimately show ?thesis unfolding sentInv_def by (intro conjI exI [of _ "ps @ [p]"]) simp_all
qed

lemma flushOrFail_law:
  assumes "pushInv holds [] st" "flushOrFail st = (r, st')"
  shows "(r = PushRunning \<longrightarrow> pushInv holds [] st') \<and> sentInv holds st' \<and> r \<noteq> PushFinished"
proof (cases "flushBatch st")
  case (Pair ok u)
  then show ?thesis using assms flush_ok(1) [of "[]" st u] flush_fail [of "[]" st u] pushInv_sent
    by (cases ok) (auto simp: flushOrFail_def)
qed

lemma finishPush_law:
  assumes "pushInv holds [] st" "finishPush fin st = (r, st')"
  shows "r \<noteq> PushRunning \<and> sentInv holds st' \<and> (r = PushFinished \<longrightarrow> completeInv holds st')"
proof (cases "flushBatch st")
  case (Pair ok u)
  show ?thesis
  proof (cases ok)
    case True
    then have u: "pushInv holds [] u" "pu_buf u = []" using flush_ok [OF assms(1), of u] Pair by auto
    then obtain ps p where "list_all2 holds (map snd (pu_requests u)) ps" "holds [] p" "concat ps @ p @ [] = pu_taken u" by (auto simp: pushInv_def)
    then have "completeInv holds u" using holds_Nil [of p] by (auto simp: completeInv_def)
    then show ?thesis using True Pair u assms(2) pushInv_sent by (auto simp: finishPush_def split: if_splits)
  qed (use assms Pair flush_fail [OF assms(1), of u] in \<open>auto simp: finishPush_def split: if_splits\<close>)
qed

end

text \<open>The uploads to the session a in a history of the server are requests of the client.\<close>

fun fromClient :: "nat \<Rightarrow> ('b list \<Rightarrow> byte list option) \<Rightarrow> (u64 \<times> 'b list) list \<Rightarrow> tunnelEv \<Rightarrow> bool" where
  "fromClient a decode reqs (EvUpload now t b k p f) \<longleftrightarrow> b = a \<longrightarrow> (\<exists>body. (k, body) \<in> set reqs \<and> decode body = Some p)"
| "fromClient a decode reqs _ \<longleftrightarrow> True"

text \<open>A loop keeps the contract when each of its turns does.\<close>

locale upload_loop = upload_buffer +
  fixes turn :: "pushEv \<Rightarrow> 'a pushState \<Rightarrow> pushEnd \<times> 'a pushState" and admits :: "pushEv \<Rightarrow> bool"
  assumes turn_law: "pushInv holds [] st \<Longrightarrow> admits ev \<Longrightarrow> turn ev st = (r, st')
    \<Longrightarrow> (r = PushRunning \<longrightarrow> pushInv holds [] st') \<and> sentInv holds st' \<and> (r = PushFinished \<longrightarrow> completeInv holds st')"
begin

lemma loop_law:
  "pushInv holds [] st \<Longrightarrow> \<forall>ev\<in>set evs. admits ev \<Longrightarrow> pushLoop turn evs st = (r, st')
   \<Longrightarrow> sentInv holds st' \<and> (r = PushFinished \<longrightarrow> completeInv holds st')"
proof (induction evs arbitrary: st)
  case (Cons ev evs)
  obtain r1 u where t: "turn ev st = (r1, u)" by force
  then have law: "(r1 = PushRunning \<longrightarrow> pushInv holds [] u) \<and> sentInv holds u \<and> (r1 = PushFinished \<longrightarrow> completeInv holds u)"
    using turn_law [OF Cons.prems(1) _ t] Cons.prems(2) by simp
  show ?case
  proof (cases "r1 = PushRunning")
    case True
    then show ?thesis using Cons.IH [of u] Cons.prems t law by simp
  next
    case False
    then have "r = r1" "st' = u" using Cons.prems(3) t by (cases r1; simp)+
    then show ?thesis using law by simp
  qed
qed (auto dest: pushInv_sent)

lemma batches_unique: "list_all2 holds bs ps \<Longrightarrow> list_all2 holds bs qs \<Longrightarrow> ps = qs"
proof (induction bs arbitrary: ps qs)
  case (Cons b bs)
  then obtain p ps' q qs' where "ps = p # ps'" "qs = q # qs'" "holds b p" "holds b q" "list_all2 holds bs ps'" "list_all2 holds bs qs'"
    by (auto simp: list_all2_Cons1)
  then show ?case using Cons.IH holds_decode by (metis option.inject)
qed simp

lemma request_batch:
  assumes "numbered st" "list_all2 holds (map snd (pu_requests st)) ps" "length (pu_requests st) < 2 ^ 64"
    and "(k, body) \<in> set (pu_requests st)" "decode body = Some p"
  shows "unat k \<noteq> 0 \<and> unat k \<le> length ps \<and> p = ps ! (unat k - 1)"
proof -
  obtain i where i: "i < length (pu_requests st)" "pu_requests st ! i = (k, body)" using assms(4) by (auto simp: in_set_conv_nth)
  then have "k = map fst (pu_requests st) ! i" by simp
  also have "\<dots> = word_of_nat (Suc i)" using assms(1) i(1) by (simp only: numbered_def nth_map length_upt diff_zero nth_upt add_0)
  finally have "k = word_of_nat (Suc i)" .
  moreover have "Suc i < 2 ^ 64" using i(1) assms(3) by simp
  then have small: "take_bit 64 (Suc i) = Suc i" by (rule take_bit_nat_eq_self)
  ultimately have "unat k = Suc i" by (simp only: unsigned_of_nat) (simp del: of_nat_Suc)
  moreover have "holds body (ps ! i)" "length ps = length (pu_requests st)"
    using assms(2) i list_all2_nthD2 [of holds "map snd (pu_requests st)" ps i] list_all2_lengthD [OF assms(2)] by auto
  ultimately show ?thesis using assms(5) i(1) holds_decode by auto
qed

lemma server_receives:
  assumes loop: "pushLoop turn pevs (newPush script) = (r, st)" "\<forall>ev\<in>set pevs. admits ev" "length (pu_requests st) < 2 ^ 64"
    and srv: "s = tunnelRun evs (NewTunnelServer mode root pass ttl)" "a < length (tv_store s)" "length evs < 2 ^ 64 - 2"
    and evs: "\<forall>ev\<in>set evs. fromClient a decode (pu_requests st) ev \<and> \<not> failsOn a ev"
  shows "prefix (ts_written (tv_store s ! a)) (pu_taken st)
    \<and> (r = PushFinished \<and> length (pu_requests st) < unat (ts_nextUploadSeq (tv_store s ! a)) \<longrightarrow> ts_written (tv_store s ! a) = pu_taken st)"
proof -
  have laws: "sentInv holds st" "r = PushFinished \<longrightarrow> completeInv holds st"
    using loop_law [OF pushInv_new [of holds script, OF holds_empty] loop(2,1)] by auto
  then obtain ps where ps: "list_all2 holds (map snd (pu_requests st)) ps" "prefix (concat ps) (pu_taken st)" and num: "numbered st"
    by (auto simp: sentInv_def)
  let ?batch = "\<lambda>k. if k \<noteq> 0 \<and> k \<le> length ps then ps ! (k - 1) else []"
  have "carries a ?batch ev \<and> \<not> failsOn a ev" if "ev \<in> set evs" for ev
  proof -
    have "fromClient a decode (pu_requests st) ev" "\<not> failsOn a ev" using evs that by auto
    then show ?thesis using request_batch [OF num ps(1) loop(3)] by (cases ev) fastforce+
  qed
  then have "deliveredUpTo ?batch (1 + length evs) (uplinks s ! a)"
    using srv unfolding srv(1) by (intro delivered_run) (auto simp: NewTunnelServer_def uplinks_def)
  then have w: "ts_written (tv_store s ! a) = concat (map ?batch [1..<unat (ts_nextUploadSeq (tv_store s ! a))])"
    using srv(2) by (simp add: uplinks_nth deliveredUpTo_def)
  have batches: "concat (map ?batch [1..<Suc n]) = concat (take n ps)" for n
    by (induction n) (auto simp: take_Suc_conv_app_nth)
  let ?n = "unat (ts_nextUploadSeq (tv_store s ! a))"
  have written: "ts_written (tv_store s ! a) = concat (take (?n - 1) ps)"
    using w batches [of "?n - 1"] by (cases ?n) auto
  have "prefix (concat (take m ps)) (concat ps)" for m
    by (metis append_take_drop_id concat_append prefixI)
  moreover have "ts_written (tv_store s ! a) = pu_taken st" if "r = PushFinished" "length (pu_requests st) < ?n"
  proof -
    obtain qs where qs: "list_all2 holds (map snd (pu_requests st)) qs" "concat qs = pu_taken st"
      using laws(2) \<open>r = PushFinished\<close> by (auto simp: completeInv_def)
    have "length ps = length (pu_requests st)" using list_all2_lengthD [OF ps(1)] by simp
    then have "take (?n - 1) ps = ps" using that(2) by simp
    with written qs batches_unique [OF ps(1) qs(1)] show ?thesis by simp
  qed
  ultimately show ?thesis using written ps(2) by (metis prefix_order.trans)
qed

end

section \<open>The two modes\<close>

definition pollHolds :: "string \<Rightarrow> byte list \<Rightarrow> bool" where
  "pollHolds buf p \<longleftrightarrow> (\<exists>cs. buf = concat (map encLine cs) \<and> p = concat cs) \<and> length buf \<le> pollMaxBatchBytes * 2"

definition streamHolds :: "byte list \<Rightarrow> byte list \<Rightarrow> bool" where
  "streamHolds buf p \<longleftrightarrow> buf = p \<and> length buf \<le> maxUploadBytes"

lemma decodeBody_lines: "decodeBody (concat (map encLine cs)) = Some (concat cs)"
proof (induction cs)
  case Nil
  then show ?case by (simp add: decodeBody_def trimSpace_id Let_def)
next
  case (Cons c cs)
  have "concat (map encLine (c # cs)) = b64Encode c @ [linefeed] @ concat (map encLine cs)" by (simp add: encLine_def)
  with Cons show ?case using decodeBody_line [of c "concat (map encLine cs)"] by simp
qed

interpretation poll_buffer: upload_buffer pollHolds pollDecode
proof
  show "pollHolds [] []" by (auto simp: pollHolds_def intro: exI [of _ "[]"])
  show "pollDecode b = Some p" if "pollHolds b p" for b p
    using that by (auto simp: pollHolds_def pollDecode_def decodeBody_lines pollMaxBatchBytes_def maxUploadBytes_def)
qed

interpretation stream_buffer: upload_buffer streamHolds streamDecode
  by standard (auto simp: streamHolds_def streamDecode_def)

lemma pollHolds_line:
  assumes "pollHolds buf p" "length buf + length (b64Encode c) + 1 \<le> pollMaxBatchBytes * 2"
  shows "pollHolds (buf @ encLine c) (p @ c)"
proof -
  obtain cs where "buf = concat (map encLine cs)" "p = concat cs" using assms(1) by (auto simp: pollHolds_def)
  then show ?thesis using assms(2) unfolding pollHolds_def
    by (intro conjI exI [of _ "cs @ [c]"]) (simp_all add: encLine_def)
qed

lemma pushInv_line:
  assumes "pushInv pollHolds (c @ rest) st" "length (pu_buf st) + length (b64Encode c) + 1 \<le> pollMaxBatchBytes * 2"
  shows "pushInv pollHolds rest (st\<lparr>pu_buf := pu_buf st @ encLine c, pu_pendingRaw := n\<rparr>)"
proof -
  obtain ps p where "list_all2 pollHolds (map snd (pu_requests st)) ps" "pollHolds (pu_buf st) p" "concat ps @ p @ c @ rest = pu_taken st" "numbered st"
    using assms(1) by (auto simp: pushInv_def)
  then show ?thesis using pollHolds_line [OF _ assms(2), of p] unfolding pushInv_def
    by (intro conjI exI [of _ ps] exI [of _ "p @ c"]) simp_all
qed

lemma pollEnqueue_law:
  "pushInv pollHolds b st \<Longrightarrow> pollEnqueue b st = (ok, st') \<Longrightarrow> (ok \<longrightarrow> pushInv pollHolds [] st') \<and> sentInv pollHolds st'"
proof (induction b st rule: pollEnqueue.induct)
  case (1 b st)
  show ?case
  proof (cases "b = []")
    case True
    then show ?thesis using 1 pushInv_sent by (auto simp: pollEnqueue.simps)
  next
    case False
    let ?c = "take maxLineRawBytes b"
    let ?full = "pu_pendingRaw st + length ?c > pollMaxBatchBytes \<or> length (pu_buf st) + length (b64Encode ?c) + 1 > pollMaxBatchBytes * 2"
    obtain ok1 u where u: "(if ?full then flushBatch st else (True, st)) = (ok1, u)" by force
    show ?thesis
    proof (cases ok1)
      case False
      then have "flushBatch st = (False, u)" using u by (auto split: if_splits)
      then have "sentInv pollHolds u" using poll_buffer.flush_fail 1(2) by blast
      then show ?thesis using 1(3) \<open>b \<noteq> []\<close> False u by (subst (asm) pollEnqueue.simps) (auto simp: Let_def)
    next
      case True
      have line: "length (b64Encode ?c) + 1 \<le> pollMaxBatchBytes * 2"
        by (simp add: length_b64Encode maxLineRawBytes_def pollMaxBatchBytes_def)
      have "pushInv pollHolds (?c @ drop maxLineRawBytes b) u \<and> length (pu_buf u) + length (b64Encode ?c) + 1 \<le> pollMaxBatchBytes * 2"
      proof (cases ?full)
        case True
        then have "flushBatch st = (True, u)" using u \<open>ok1\<close> by simp
        then show ?thesis using poll_buffer.flush_ok [OF 1(2)] line by simp
      qed (use u 1(2) in auto)
      then have "pushInv pollHolds (drop maxLineRawBytes b) (u\<lparr>pu_buf := pu_buf u @ encLine ?c, pu_pendingRaw := pu_pendingRaw u + length ?c\<rparr>)"
        using pushInv_line by blast
      moreover have "pollEnqueue (drop maxLineRawBytes b) (u\<lparr>pu_buf := pu_buf u @ encLine ?c, pu_pendingRaw := pu_pendingRaw u + length ?c\<rparr>) = (ok, st')"
        using 1(3) False True u by (subst (asm) pollEnqueue.simps) (auto simp: Let_def)
      ultimately show ?thesis using 1(1) [OF False refl u [symmetric] refl] True by blast
    qed
  qed
qed

lemma pollDrain_law:
  "pushInv pollHolds [] st \<Longrightarrow> pollDrain bs st = (ok, st') \<Longrightarrow> (ok \<longrightarrow> pushInv pollHolds [] st') \<and> sentInv pollHolds st'"
proof (induction bs arbitrary: st)
  case (Cons b bs)
  obtain ok1 u where u: "pollEnqueue b (take_in b st) = (ok1, u)" by force
  then have "(ok1 \<longrightarrow> pushInv pollHolds [] u) \<and> sentInv pollHolds u" using pollEnqueue_law [OF pushInv_take_in [OF Cons.prems(1)]] by blast
  then show ?case using Cons.IH [of u] Cons.IH [of st] Cons.prems u by (auto split: if_splits)
qed (auto dest: pushInv_sent)

lemma pollTurn_law:
  assumes "pushInv pollHolds [] st" "pollTurn ev st = (r, st')"
  shows "(r = PushRunning \<longrightarrow> pushInv pollHolds [] st') \<and> sentInv pollHolds st' \<and> (r = PushFinished \<longrightarrow> completeInv pollHolds st')"
proof (cases ev)
  case (PushWrite b)
  obtain ok u where u: "pollEnqueue b (take_in b st) = (ok, u)" by force
  have "(ok \<longrightarrow> pushInv pollHolds [] u) \<and> sentInv pollHolds u" using pollEnqueue_law [OF pushInv_take_in [OF assms(1)] u] .
  then show ?thesis using PushWrite u assms poll_buffer.flushOrFail_law [of u r st'] pushInv_sent [OF assms(1)] by (auto split: if_splits)
next
  case PushTick
  then show ?thesis using assms poll_buffer.flushOrFail_law [of st r st'] by auto
next
  case (PushCloseWrite bs fin)
  obtain ok u where u: "pollDrain bs st = (ok, u)" by force
  then show ?thesis using PushCloseWrite assms pollDrain_law [OF assms(1) u] poll_buffer.finishPush_law [of u fin r st'] by (auto split: if_splits)
qed (use assms pushInv_sent in auto)

interpretation poll_loop: upload_loop pollHolds pollDecode pollTurn "\<lambda>_. True"
  by standard (rule pollTurn_law)

text \<open>The stream mode uploads a single write that is larger than a batch as one request, which the
  server accepts up to a mebibyte.\<close>

fun fitsUpload :: "pushEv \<Rightarrow> bool" where
  "fitsUpload (PushWrite b) \<longleftrightarrow> length b \<le> maxUploadBytes"
| "fitsUpload (PushCloseWrite bs fin) \<longleftrightarrow> (\<forall>b\<in>set bs. length b \<le> maxUploadBytes)"
| "fitsUpload _ \<longleftrightarrow> True"

lemma streamAppend_law:
  assumes "pushInv streamHolds b st" "length b \<le> maxUploadBytes" "streamAppend b st = (ok, st')"
  shows "(ok \<longrightarrow> pushInv streamHolds [] st') \<and> sentInv streamHolds st'"
proof -
  let ?full = "length (pu_buf st) + length b > streamMaxBatchBytes"
  obtain ok1 u where u: "(if ?full then flushBatch st else (True, st)) = (ok1, u)" by force
  show ?thesis
  proof (cases ok1)
    case False
    then have "flushBatch st = (False, u)" using u by (auto split: if_splits)
    then show ?thesis using stream_buffer.flush_fail [OF assms(1)] u False assms(3) by (auto simp: streamAppend_def)
  next
    case True
    have inv: "pushInv streamHolds b u \<and> length (pu_buf u) + length b \<le> maxUploadBytes"
    proof (cases ?full)
      case True
      then have "flushBatch st = (True, u)" using u \<open>ok1\<close> by simp
      then show ?thesis using stream_buffer.flush_ok [OF assms(1)] assms(2) by simp
    qed (use u assms(1) in \<open>auto simp: streamMaxBatchBytes_def maxUploadBytes_def\<close>)
    then have "pushInv streamHolds [] (u\<lparr>pu_buf := pu_buf u @ b\<rparr>)" by (auto simp: pushInv_def streamHolds_def)
    then show ?thesis using True u assms(3) pushInv_sent by (auto simp: streamAppend_def)
  qed
qed

lemma streamDrain_law:
  "pushInv streamHolds [] st \<Longrightarrow> \<forall>b\<in>set bs. length b \<le> maxUploadBytes \<Longrightarrow> streamDrain bs st = (ok, st')
   \<Longrightarrow> (ok \<longrightarrow> pushInv streamHolds [] st') \<and> sentInv streamHolds st'"
proof (induction bs arbitrary: st)
  case (Cons b bs)
  obtain ok1 u where u: "streamAppend b (take_in b st) = (ok1, u)" by force
  then have "(ok1 \<longrightarrow> pushInv streamHolds [] u) \<and> sentInv streamHolds u"
    using streamAppend_law [OF pushInv_take_in [OF Cons.prems(1)]] Cons.prems(2) by auto
  then show ?case using Cons.IH [of u] Cons.IH [of st] Cons.prems u by (auto split: if_splits)
qed (auto dest: pushInv_sent)

lemma streamTurn_law:
  assumes "pushInv streamHolds [] st" "fitsUpload ev" "streamTurn ev st = (r, st')"
  shows "(r = PushRunning \<longrightarrow> pushInv streamHolds [] st') \<and> sentInv streamHolds st' \<and> (r = PushFinished \<longrightarrow> completeInv streamHolds st')"
proof (cases ev)
  case (PushWrite b)
  obtain ok u where u: "streamAppend b (take_in b st) = (ok, u)" by force
  have "(ok \<longrightarrow> pushInv streamHolds [] u) \<and> sentInv streamHolds u"
    using streamAppend_law [OF pushInv_take_in [OF assms(1)] _ u] PushWrite assms(2) by simp
  then show ?thesis using PushWrite u assms stream_buffer.flushOrFail_law [of u r st'] pushInv_sent [OF assms(1)] by (auto split: if_splits)
next
  case PushTick
  then show ?thesis using assms stream_buffer.flushOrFail_law [of st r st'] by auto
next
  case (PushCloseWrite bs fin)
  obtain ok u where u: "streamDrain bs st = (ok, u)" by force
  then show ?thesis using PushCloseWrite assms streamDrain_law [OF assms(1) _ u] stream_buffer.finishPush_law [of u fin r st'] by (auto split: if_splits)
qed (use assms pushInv_sent in auto)

interpretation stream_loop: upload_loop streamHolds streamDecode streamTurn fitsUpload
  by standard (rule streamTurn_law)



text \<open>The stream mode's uplink keeps the same promise for writes of at most a mebibyte.\<close>

lemma stream_uplink_delivers:
  assumes "streamPushLoop pevs script = (r, st)" and "\<forall>ev\<in>set pevs. fitsUpload ev" and "length (pu_requests st) < 2 ^ 64"
    and "s = tunnelRun evs (NewTunnelServer mode root pass ttl)" and "a < length (tv_store s)" and "length evs < 2 ^ 64 - 2"
    and "\<forall>ev\<in>set evs. fromClient a streamDecode (pu_requests st) ev \<and> \<not> failsOn a ev"
  shows "prefix (ts_written (tv_store s ! a)) (pu_taken st)
    \<and> (r = PushFinished \<and> length (pu_requests st) < unat (ts_nextUploadSeq (tv_store s ! a)) \<longrightarrow> ts_written (tv_store s ! a) = pu_taken st)"
  using assms by (intro stream_loop.server_receives) (auto simp: streamPushLoop_def)

end
