(* ===== verification/Http_Header.thy ===== *)
theory Http_Header
  imports Tunnel_Session Record_Conn Sudoku_Classic "HOL-Library.Sublist"
begin

text \<open>
  The front of the HTTP mask's server (HandleConn, readHTTPHeader and the replayed connections of
  obfs/httpmask/tunnel\_server.go, LooksLikeHTTPRequestStart of masker.go and
  looksLikeWebSocketUpgrade of tunnel\_ws\_server.go): it reads the head of a connection and hands
  a connection that is not for the tunnel on, with the bytes it took put back in front.

  The connection is a source of Conn\_Util; a connection with bytes put back is the source with
  one more chunk. Deadlines are part of the source's final error.
\<close>

section \<open>Buffered reading of lines\<close>

record bufReader =
  br_buf :: "byte list"
  br_err :: "ioerr option"
  br_src :: source

definition defaultBufSize :: nat where "defaultBufSize = 4096"

definition brFill :: "bufReader \<Rightarrow> bufReader" where
  "brFill r =
     (case bufioFill (defaultBufSize - length (br_buf r)) 100 (br_src r) of
        (b, err, s) \<Rightarrow> \<lparr>br_buf = br_buf r @ b, br_err = err, br_src = s\<rparr>)"

datatype lineErr = LineIO ioerr | LineBufferFull | LineTooLarge

definition newlineByte :: byte where "newlineByte = 10"

lemma bufioFill_bound: "bufioFill sz i s = (b, err, s') \<Longrightarrow> length b \<le> sz \<and> (b \<noteq> [] \<or> err \<noteq> None)"
proof (induction sz i s rule: bufioFill.induct)
  case (2 sz i s)
  obtain b1 err1 s1 where c: "connRead s sz = (b1, err1, s1)" by (metis prod.exhaust)
  then have "length b1 \<le> sz" by (auto simp: connRead_def split: list.splits if_splits)
  then show ?case using 2 c by (auto split: if_splits)
qed auto

function ReadSlice :: "bufReader \<Rightarrow> byte list \<times> lineErr option \<times> bufReader" where
  "ReadSlice r =
     (let buf = br_buf r; line = takeWhile (\<lambda>c. c \<noteq> newlineByte) buf @ [newlineByte] in
      if newlineByte \<in> set buf then (line, None, r\<lparr>br_buf := drop (length line) buf\<rparr>)
      else (case br_err r of
              Some e \<Rightarrow> (buf, Some (LineIO e), r\<lparr>br_buf := [], br_err := None\<rparr>)
            | None \<Rightarrow>
                if length buf \<ge> defaultBufSize then (buf, Some LineBufferFull, r\<lparr>br_buf := []\<rparr>)
                else ReadSlice (brFill r)))"
  by pat_completeness auto
termination
proof (relation "measure (\<lambda>r. (if br_err r = None then 1 else 0) + (defaultBufSize - length (br_buf r)))", goal_cases)
  case (2 r buf line)
  obtain b err s where f: "bufioFill (defaultBufSize - length (br_buf r)) 100 (br_src r) = (b, err, s)" by (metis prod_cases3)
  then show ?case using 2 bufioFill_bound [OF f] by (cases b) (auto simp: brFill_def)
qed simp

declare ReadSlice.simps [simp del]

section \<open>The header\<close>

record httpRequestHeader =
  rq_method :: string
  rq_target :: string
  rq_proto :: string
  rq_headers :: "(string \<times> string) list"

definition maxHeaderBytes :: nat where "maxHeaderBytes = 32 * 1024"

definition readLine :: "byte list \<Rightarrow> bufReader \<Rightarrow> byte list \<times> lineErr option \<times> byte list \<times> bufReader" where
  "readLine consumed r =
     (case ReadSlice r of (line, err, r) \<Rightarrow>
        if line \<noteq> [] then
          (if length consumed + length line > maxHeaderBytes then (line, Some LineTooLarge, consumed, r)
           else (line, err, consumed @ line, r))
        else (line, err, consumed, r))"

definition isLineBreak :: "char \<Rightarrow> bool" where
  "isLineBreak c \<longleftrightarrow> c = CHR 0x0D \<or> c = CHR 0x0A"

definition trimRightBreaks :: "string \<Rightarrow> string" where
  "trimRightBreaks s = rev (dropWhile isLineBreak (rev s))"

text \<open>strings.SplitN(s, " ", 3), when it has three parts.\<close>

definition splitThree :: "string \<Rightarrow> (string \<times> string \<times> string) option" where
  "splitThree s =
     (case splitTwo (CHR '' '') s of
        (a, Some rest) \<Rightarrow> (case splitTwo (CHR '' '') rest of (b, Some c) \<Rightarrow> Some (a, b, c) | (b, None) \<Rightarrow> None)
      | (a, None) \<Rightarrow> None)"

definition addHeader :: "string \<Rightarrow> httpRequestHeader \<Rightarrow> httpRequestHeader" where
  "addHeader text req =
     (case splitTwo (CHR '':'') text of
        (k, None) \<Rightarrow> req
      | (k, Some v) \<Rightarrow>
          let k = toLower (trimSpace k); v = trimSpace v in
          if k = [] then req
          else if map_of (rq_headers req) k = None then req\<lparr>rq_headers := rq_headers req @ [(k, v)]\<rparr>
          else req)"

text \<open>The bytes readAllBuffered copies are the buffer of the reader.\<close>

datatype headerErr = HeaderLine lineErr | InvalidRequestLine

type_synonym headerResult = "(headerErr + httpRequestHeader) \<times> byte list \<times> bufReader"

lemma readLine_grows:
  "readLine consumed r = (line, None, consumed', r') \<Longrightarrow> consumed' = consumed @ line \<and> line \<noteq> [] \<and> length consumed' \<le> maxHeaderBytes"
proof -
  have some: "line \<noteq> []" if "ReadSlice r = (line, None, r')" for line r r'
    using that
  proof (induction r rule: ReadSlice.induct)
    case (1 r)
    then show ?case by (subst (asm) (2) ReadSlice.simps) (auto simp: Let_def split: if_splits option.splits)
  qed
  assume "readLine consumed r = (line, None, consumed', r')"
  then show ?thesis using some by (auto simp: readLine_def split: prod.splits if_splits)
qed

function readHeaders :: "httpRequestHeader \<Rightarrow> byte list \<Rightarrow> bufReader \<Rightarrow> headerResult" where
  "readHeaders req consumed r =
     (case readLine consumed r of
        (line, Some e, consumed', r') \<Rightarrow> (Inl (HeaderLine e), consumed', r')
      | (line, None, consumed', r') \<Rightarrow>
          let trimmed = trimRightBreaks (bytesString line) in
          if trimmed = [] then (Inr req, consumed', r') else readHeaders (addHeader trimmed req) consumed' r')"
  by pat_completeness auto
termination
proof (relation "measure (\<lambda>(req, consumed, r). maxHeaderBytes - length consumed)", goal_cases)
  case (2 req consumed r line y err z consumed' r' trimmed)
  then have "readLine consumed r = (line, None, consumed', r')" by simp
  from readLine_grows [OF this] show ?case by (cases line) auto
qed simp

declare readHeaders.simps [simp del]

definition readHTTPHeader :: "bufReader \<Rightarrow> headerResult" where
  "readHTTPHeader r =
     (case readLine [] r of
        (line, Some e, consumed, r) \<Rightarrow> (Inl (HeaderLine e), consumed, r)
      | (line, None, consumed, r) \<Rightarrow>
          (case splitThree (trimRightBreaks (bytesString line)) of
             None \<Rightarrow> (Inl InvalidRequestLine, consumed, r)
           | Some (m, t, p) \<Rightarrow> readHeaders \<lparr>rq_method = m, rq_target = t, rq_proto = p, rq_headers = []\<rparr> consumed r))"

section \<open>HandleConn\<close>

definition preBuffered :: "byte list \<Rightarrow> source \<Rightarrow> source" where
  "preBuffered pre s = (if pre = [] then s else s\<lparr>src_chunks := pre # src_chunks s\<rparr>)"

definition LooksLikeHTTPRequestStart :: "byte list \<Rightarrow> bool" where
  "LooksLikeHTTPRequestStart peek4 \<longleftrightarrow>
     length peek4 \<ge> 4 \<and> bytesString peek4 \<in> {''GET '', ''POST'', ''HEAD'', ''PUT '', ''OPTI'', ''PATC'', ''DELE''}"

definition headerValue :: "httpRequestHeader \<Rightarrow> string \<Rightarrow> string" where
  "headerValue req k = (case map_of (rq_headers req) k of None \<Rightarrow> [] | Some v \<Rightarrow> v)"

definition looksLikeWebSocketUpgrade :: "httpRequestHeader \<Rightarrow> bool" where
  "looksLikeWebSocketUpgrade req \<longleftrightarrow>
     toLower (trimSpace (headerValue req ''upgrade'')) = ''websocket''
     \<and> list_ex (\<lambda>part. toLower (trimSpace part) = ''upgrade'') (splitOn (CHR '','') (headerValue req ''connection''))"

definition buildHTTPReplayPrefix :: "byte list \<Rightarrow> byte list \<Rightarrow> byte list" where
  "buildHTTPReplayPrefix headerBytes buffered = headerBytes @ buffered"

definition buildInvalidHTTPReplayPrefix :: "byte list \<Rightarrow> byte list \<Rightarrow> byte list \<Rightarrow> byte list" where
  "buildInvalidHTTPReplayPrefix start headerBytes buffered =
     (if headerBytes = [] \<or> take (length start) headerBytes \<noteq> start then start else []) @ headerBytes @ buffered"

datatype connOutcome =
    ConnDone
  | ConnPass source bool
  | ConnRoute TunnelMode httpRequestHeader "byte list" "byte list" source

definition tunnelHeader :: "httpRequestHeader \<Rightarrow> string" where
  "tunnelHeader req =
     (if looksLikeWebSocketUpgrade req then ''ws'' else toLower (trimSpace (headerValue req ''x-sudoku-tunnel'')))"

definition modeAllows :: "TunnelMode \<Rightarrow> TunnelMode \<Rightarrow> bool" where
  "modeAllows served wanted \<longleftrightarrow> served = wanted \<or> served = ModeAuto"

text \<open>HandleConn up to the handler of the mode, which gets the header and the bytes read beyond it.\<close>

definition HandleConn :: "TunnelServer \<Rightarrow> source \<Rightarrow> connOutcome" where
  "HandleConn s conn =
     (if tv_closed s then ConnDone
      else
        let (start, cs) = takeChunks 4 (src_chunks conn); rest = conn\<lparr>src_chunks := cs\<rparr> in
        if length start < 4 then (if start \<noteq> [] then ConnPass (preBuffered start rest) False else ConnDone)
        else if \<not> LooksLikeHTTPRequestStart start then ConnPass (preBuffered start rest) False
        else
          (case readHTTPHeader \<lparr>br_buf = [], br_err = None, br_src = preBuffered start rest\<rparr> of
             (Inl e, headerBytes, r) \<Rightarrow>
               ConnPass (preBuffered (buildInvalidHTTPReplayPrefix start headerBytes (br_buf r)) (br_src r)) False
           | (Inr req, headerBytes, r) \<Rightarrow>
               let replay = preBuffered (buildHTTPReplayPrefix headerBytes (br_buf r)) (br_src r);
                   reject = (if tv_passThroughOnReject s then ConnPass replay True else ConnDone);
                   route = (\<lambda>m. if modeAllows (tv_mode s) m then ConnRoute m req headerBytes (br_buf r) (br_src r) else reject);
                   h = tunnelHeader req in
               if h = [] then ConnPass replay False
               else if tv_mode s = ModeLegacy then reject
               else if h = ''stream'' then route ModeStream
               else if h = ''poll'' then route ModePoll
               else if h = ''ws'' then route ModeWS
               else reject))"

section \<open>No byte is lost\<close>

definition unread :: "bufReader \<Rightarrow> byte list" where
  "unread r = br_buf r @ concat (src_chunks (br_src r))"

lemma unread_fill: "unread (brFill r) = unread r"
  by (auto simp: brFill_def unread_def split: prod.split dest: concat_bufioFill)

lemma unread_slice: "ReadSlice r = (line, err, r') \<Longrightarrow> unread r = line @ unread r'"
proof (induction r rule: ReadSlice.induct)
  case (1 r)
  have line: "takeWhile (\<lambda>c. c \<noteq> newlineByte) buf @ [newlineByte] @ drop (Suc (length (takeWhile (\<lambda>c. c \<noteq> newlineByte) buf))) buf = buf"
    if "newlineByte \<in> set buf" for buf :: "byte list"
    using that by (induction buf) auto
  show ?case
  proof (cases "newlineByte \<in> set (br_buf r)")
    case True
    then show ?thesis using 1(2) line [OF True] by (subst (asm) ReadSlice.simps) (auto simp: unread_def Let_def)
  next
    case False
    show ?thesis
    proof (cases "br_err r = None \<and> length (br_buf r) < defaultBufSize")
      case True
      then have "ReadSlice (brFill r) = (line, err, r')" using 1(2) False by (subst (asm) ReadSlice.simps) simp
      then show ?thesis using 1(1) [OF refl refl False] True unread_fill by auto
    next
      case stop: False
      then show ?thesis using 1(2) False by (subst (asm) ReadSlice.simps) (auto simp: unread_def Let_def split: option.splits if_splits)
    qed
  qed
qed

text \<open>A line that would take the header over its limit is read but not kept.\<close>

definition lostLine :: "lineErr option \<Rightarrow> byte list \<Rightarrow> byte list" where
  "lostLine err line = (if err = Some LineTooLarge then line else [])"

lemma slice_not_large: "ReadSlice r = (line, err, r') \<Longrightarrow> err \<noteq> Some LineTooLarge"
proof (induction r rule: ReadSlice.induct)
  case (1 r)
  then show ?case by (subst (asm) (2) ReadSlice.simps) (auto simp: Let_def split: if_splits option.splits)
qed

lemma readLine_unread:
  assumes "readLine consumed r = (line, err, consumed', r')"
  shows "consumed @ unread r = consumed' @ lostLine err line @ unread r'"
    and "err = Some LineTooLarge \<Longrightarrow> consumed' = consumed \<and> length consumed + length line > maxHeaderBytes"
    and "err \<noteq> Some LineTooLarge \<Longrightarrow> consumed' = consumed @ line"
proof -
  obtain l e u where s: "ReadSlice r = (l, e, u)" by (metis prod_cases3)
  note facts = unread_slice [OF s] slice_not_large [OF s]
  show "consumed @ unread r = consumed' @ lostLine err line @ unread r'"
    using assms s facts by (auto simp: readLine_def lostLine_def split: if_splits)
  show "err = Some LineTooLarge \<Longrightarrow> consumed' = consumed \<and> length consumed + length line > maxHeaderBytes"
    using assms s facts by (auto simp: readLine_def split: if_splits)
  show "err \<noteq> Some LineTooLarge \<Longrightarrow> consumed' = consumed @ line"
    using assms s facts by (auto simp: readLine_def split: if_splits)
qed

text \<open>What a header reader has done with the bytes: kept them, or kept all but one line beyond the
  limit.\<close>

definition keptAll :: "byte list \<Rightarrow> byte list \<Rightarrow> bufReader \<Rightarrow> bool" where
  "keptAll wire consumed r \<longleftrightarrow> wire = consumed @ unread r"

definition keptAllBut :: "byte list \<Rightarrow> byte list \<Rightarrow> bufReader \<Rightarrow> bool" where
  "keptAllBut wire consumed r \<longleftrightarrow>
     (\<exists>line. line \<noteq> [] \<and> length consumed + length line > maxHeaderBytes \<and> wire = consumed @ line @ unread r)"

definition headerKept :: "byte list \<Rightarrow> headerResult \<Rightarrow> bool" where
  "headerKept wire res \<longleftrightarrow>
     (case res of (Inl (HeaderLine LineTooLarge), consumed, r) \<Rightarrow> keptAllBut wire consumed r | (_, consumed, r) \<Rightarrow> keptAll wire consumed r)"

lemma headerKept_line:
  assumes "readLine consumed r = (line, Some e, consumed', r')" "length consumed \<le> maxHeaderBytes"
  shows "headerKept (consumed @ unread r) (Inl (HeaderLine e), consumed', r')"
proof (cases "e = LineTooLarge")
  case True
  then have "line \<noteq> []" "length consumed' + length line > maxHeaderBytes" using readLine_unread(2) [OF assms(1)] assms(2) by auto
  then show ?thesis using readLine_unread(1) [OF assms(1)] True by (auto simp: headerKept_def keptAllBut_def lostLine_def)
next
  case False
  then show ?thesis using readLine_unread(1) [OF assms(1)] by (cases e) (auto simp: headerKept_def keptAll_def lostLine_def)
qed

lemma readHeaders_kept: "length consumed \<le> maxHeaderBytes \<Longrightarrow> headerKept (consumed @ unread r) (readHeaders req consumed r)"
proof (induction req consumed r rule: readHeaders.induct)
  case (1 req consumed r)
  obtain line err consumed' r' where l: "readLine consumed r = (line, err, consumed', r')" by (metis prod_cases4)
  show ?case
  proof (cases err)
    case (Some e)
    then show ?thesis using headerKept_line [of consumed r line e consumed' r'] l 1(2) by (subst readHeaders.simps) simp
  next
    case None
    then have all: "consumed @ unread r = consumed' @ unread r'" "length consumed' \<le> maxHeaderBytes"
      using readLine_unread(1) [OF l] readLine_grows [of consumed r line consumed' r'] l by (auto simp: lostLine_def)
    show ?thesis
    proof (cases "trimRightBreaks (bytesString line) = []")
      case True
      then show ?thesis using l None all by (subst readHeaders.simps) (simp add: headerKept_def keptAll_def)
    next
      case False
      then have "headerKept (consumed' @ unread r') (readHeaders (addHeader (trimRightBreaks (bytesString line)) req) consumed' r')"
        using 1(1) l None all(2) by simp
      then show ?thesis using l None all(1) False by (subst readHeaders.simps) simp
    qed
  qed
qed

lemma readHTTPHeader_kept: "headerKept (unread r) (readHTTPHeader r)"
proof -
  obtain line err consumed r' where l: "readLine [] r = (line, err, consumed, r')" by (metis prod_cases4)
  show ?thesis
  proof (cases err)
    case (Some e)
    then show ?thesis using headerKept_line [of "[]" r line e consumed r'] l by (simp add: readHTTPHeader_def)
  next
    case None
    then have all: "unread r = consumed @ unread r'" "length consumed \<le> maxHeaderBytes"
      using readLine_unread(1) [OF l] readLine_grows [of "[]" r line consumed r'] l by (auto simp: lostLine_def)
    then show ?thesis using l None readHeaders_kept
      by (auto simp: readHTTPHeader_def headerKept_def keptAll_def split: option.split)
  qed
qed

text \<open>The four bytes HandleConn looked at are the start of the header it then reads.\<close>

lemma slice_prefix:
  "ReadSlice r = (line, err, r') \<Longrightarrow> prefix p (br_buf r) \<Longrightarrow> newlineByte \<notin> set p \<Longrightarrow> prefix p line"
proof (induction r rule: ReadSlice.induct)
  case (1 r)
  show ?case
  proof (cases "newlineByte \<in> set (br_buf r)")
    case True
    obtain q where q: "br_buf r = p @ q" using 1(3) by (auto simp: prefix_def)
    then have "prefix p (takeWhile (\<lambda>c. c \<noteq> newlineByte) (br_buf r))" using 1(4) takeWhile_append2 [of p "\<lambda>c. c \<noteq> newlineByte" q] by (metis prefixI)
    then show ?thesis using 1(2) True by (subst (asm) ReadSlice.simps) (auto simp: Let_def)
  next
    case False
    show ?thesis
    proof (cases "br_err r = None \<and> length (br_buf r) < defaultBufSize")
      case True
      then have "ReadSlice (brFill r) = (line, err, r')" using 1(2) False by (subst (asm) ReadSlice.simps) simp
      moreover have "prefix p (br_buf (brFill r))" using 1(3) by (auto simp: brFill_def split: prod.split)
      ultimately show ?thesis using 1(1) [OF refl refl False] True 1(4) by auto
    next
      case stop: False
      then show ?thesis using 1(2,3) False by (subst (asm) ReadSlice.simps) (auto simp: Let_def split: option.splits if_splits)
    qed
  qed
qed

lemma slice_bound: "ReadSlice r = (line, err, r') \<Longrightarrow> length (br_buf r) \<le> defaultBufSize \<Longrightarrow> length line \<le> defaultBufSize"
proof (induction r rule: ReadSlice.induct)
  case (1 r)
  have line: "Suc (length (takeWhile (\<lambda>c. c \<noteq> newlineByte) buf)) \<le> length buf" if "newlineByte \<in> set buf" for buf :: "byte list"
    using that by (induction buf) auto
  show ?case
  proof (cases "newlineByte \<in> set (br_buf r)")
    case True
    then show ?thesis using 1(2,3) line [OF True] by (subst (asm) ReadSlice.simps) (auto simp: Let_def)
  next
    case False
    show ?thesis
    proof (cases "br_err r = None \<and> length (br_buf r) < defaultBufSize")
      case True
      then have "ReadSlice (brFill r) = (line, err, r')" using 1(2) False by (subst (asm) ReadSlice.simps) simp
      moreover have "length (br_buf (brFill r)) \<le> defaultBufSize"
        using True bufioFill_bound [of "defaultBufSize - length (br_buf r)" 100 "br_src r"] by (auto simp: brFill_def split: prod.split)
      ultimately show ?thesis using 1(1) [OF refl refl False] True by auto
    next
      case stop: False
      then show ?thesis using 1(2,3) False by (subst (asm) ReadSlice.simps) (auto simp: Let_def split: option.splits if_splits)
    qed
  qed
qed

lemma readHeaders_prefix: "readHeaders req consumed r = (res, consumed', r') \<Longrightarrow> prefix consumed consumed'"
proof (induction req consumed r rule: readHeaders.induct)
  case (1 req consumed r)
  obtain line err c1 r1 where l: "readLine consumed r = (line, err, c1, r1)" by (metis prod_cases4)
  then have c1: "prefix consumed c1" using readLine_unread(2,3) [OF l] by (cases "err = Some LineTooLarge") auto
  show ?case
  proof (cases "err = None \<and> trimRightBreaks (bytesString line) \<noteq> []")
    case True
    then have "readHeaders (addHeader (trimRightBreaks (bytesString line)) req) c1 r1 = (res, consumed', r')"
      using 1(2) l by (subst (asm) readHeaders.simps) simp
    then have "prefix c1 consumed'" using 1(1) l True by simp
    then show ?thesis using c1 prefix_order.trans by blast
  next
    case False
    then show ?thesis using 1(2) l c1 by (subst (asm) readHeaders.simps) (auto split: option.splits if_splits)
  qed
qed

lemma start_plain: "LooksLikeHTTPRequestStart start \<Longrightarrow> newlineByte \<notin> set start"
proof
  assume start: "LooksLikeHTTPRequestStart start" "newlineByte \<in> set start"
  then have "charOfByte newlineByte \<in> set (bytesString start)" by (auto simp: bytesString_def)
  moreover have "charOfByte newlineByte = CHR 0x0A" by code_simp
  ultimately show False using start(1) by (auto simp: LooksLikeHTTPRequestStart_def)
qed

lemma slice_start:
  assumes "length start = 4"
  shows "ReadSlice \<lparr>br_buf = [], br_err = None, br_src = preBuffered start rest\<rparr> = ReadSlice \<lparr>br_buf = start, br_err = None, br_src = rest\<rparr>"
proof -
  let ?r = "\<lparr>br_buf = [], br_err = None, br_src = preBuffered start rest\<rparr>"
  have "start \<noteq> []" using assms by auto
  then have "bufioFill defaultBufSize (Suc 99) (preBuffered start rest) = (start, None, rest)"
    using assms by (simp only: bufioFill.simps) (simp add: preBuffered_def connRead_def defaultBufSize_def)
  then have "brFill ?r = \<lparr>br_buf = start, br_err = None, br_src = rest\<rparr>" by (simp add: brFill_def eval_nat_numeral)
  then show ?thesis by (subst ReadSlice.simps) (simp add: defaultBufSize_def)
qed

lemma first_slice:
  assumes "LooksLikeHTTPRequestStart start" "length start = 4"
    and "ReadSlice \<lparr>br_buf = [], br_err = None, br_src = preBuffered start rest\<rparr> = (line, err, r')"
  shows "prefix start line"
  using slice_prefix [OF assms(3) [unfolded slice_start [OF assms(2)]], of start] start_plain [OF assms(1)] by simp

lemma header_starts:
  assumes "LooksLikeHTTPRequestStart start" "length start = 4"
    and "readHTTPHeader \<lparr>br_buf = [], br_err = None, br_src = preBuffered start rest\<rparr> = (res, consumed, r')"
  shows "prefix start consumed"
proof -
  let ?r = "\<lparr>br_buf = [], br_err = None, br_src = preBuffered start rest\<rparr>"
  obtain line err u where s: "ReadSlice ?r = (line, err, u)" by (metis prod_cases3)
  have p: "prefix start line" by (rule first_slice [OF assms(1,2) s])
  have "length line \<le> defaultBufSize" using slice_bound [OF s] by simp
  then have l: "readLine [] ?r = (line, err, line, u)"
    using s by (cases "line = []") (auto simp: readLine_def maxHeaderBytes_def defaultBufSize_def)
  show ?thesis using assms(3) l p readHeaders_prefix prefix_order.trans
    by (auto simp: readHTTPHeader_def split: option.splits) blast+
qed

lemma concat_preBuffered [simp]: "concat (src_chunks (preBuffered pre s)) = pre @ concat (src_chunks s)"
  by (simp add: preBuffered_def)


text \<open>A whole line that arrives in one read is read as it is.\<close>

definition wholeLine :: "byte list \<Rightarrow> bool" where
  "wholeLine l \<longleftrightarrow> l \<noteq> [] \<and> newlineByte \<notin> set (butlast l) \<and> last l = newlineByte"

lemma slice_here:
  assumes "wholeLine l"
  shows "ReadSlice \<lparr>br_buf = l @ rest, br_err = None, br_src = s\<rparr> = (l, None, \<lparr>br_buf = rest, br_err = None, br_src = s\<rparr>)"
proof -
  obtain xs where l: "l = xs @ [newlineByte]" "newlineByte \<notin> set xs"
    using assms append_butlast_last_id [of l] by (metis wholeLine_def)
  then have "takeWhile (\<lambda>c. c \<noteq> newlineByte) (l @ rest) = xs" by (auto simp: takeWhile_tail)
  with l show ?thesis by (subst ReadSlice.simps) (simp add: Let_def)
qed

lemma slice_chunk:
  assumes "wholeLine (pre @ c)" "newlineByte \<notin> set pre" "c \<noteq> []" "length (pre @ c) \<le> defaultBufSize"
  shows "ReadSlice \<lparr>br_buf = pre, br_err = None, br_src = \<lparr>src_chunks = c # cs, src_final = f\<rparr>\<rparr>
    = (pre @ c, None, \<lparr>br_buf = [], br_err = None, br_src = \<lparr>src_chunks = cs, src_final = f\<rparr>\<rparr>)"
proof -
  have "bufioFill (defaultBufSize - length pre) (Suc 99) \<lparr>src_chunks = c # cs, src_final = f\<rparr> = (c, None, \<lparr>src_chunks = cs, src_final = f\<rparr>)"
    using assms(3,4) by (simp only: bufioFill.simps) (auto simp: connRead_def)
  then have "brFill \<lparr>br_buf = pre, br_err = None, br_src = \<lparr>src_chunks = c # cs, src_final = f\<rparr>\<rparr>
      = \<lparr>br_buf = (pre @ c) @ [], br_err = None, br_src = \<lparr>src_chunks = cs, src_final = f\<rparr>\<rparr>"
    by (simp add: brFill_def eval_nat_numeral)
  moreover have "length pre < defaultBufSize" using assms(3,4) by (cases c) auto
  ultimately show ?thesis using assms(2) slice_here [OF assms(1), of "[]"] by (subst ReadSlice.simps) simp
qed

definition headerLine :: "byte list \<Rightarrow> bool" where
  "headerLine l \<longleftrightarrow> wholeLine l \<and> length l \<le> defaultBufSize \<and> trimRightBreaks (bytesString l) \<noteq> []"

lemma readLine_chunk:
  assumes "wholeLine l" "length l \<le> defaultBufSize"
  shows "readLine consumed \<lparr>br_buf = [], br_err = None, br_src = \<lparr>src_chunks = l # cs, src_final = f\<rparr>\<rparr>
    = (if length consumed + length l > maxHeaderBytes then (l, Some LineTooLarge, consumed, \<lparr>br_buf = [], br_err = None, br_src = \<lparr>src_chunks = cs, src_final = f\<rparr>\<rparr>)
       else (l, None, consumed @ l, \<lparr>br_buf = [], br_err = None, br_src = \<lparr>src_chunks = cs, src_final = f\<rparr>\<rparr>))"
  using slice_chunk [of "[]" l cs f] assms by (simp add: readLine_def wholeLine_def)

lemma readHeaders_oversized:
  assumes "\<forall>x\<in>set ls. headerLine x" "wholeLine l" "length l \<le> defaultBufSize"
    and "length consumed + length (concat ls) \<le> maxHeaderBytes" "length consumed + length (concat ls) + length l > maxHeaderBytes"
  shows "readHeaders req consumed \<lparr>br_buf = [], br_err = None, br_src = \<lparr>src_chunks = ls @ l # cs, src_final = f\<rparr>\<rparr>
    = (Inl (HeaderLine LineTooLarge), consumed @ concat ls, \<lparr>br_buf = [], br_err = None, br_src = \<lparr>src_chunks = cs, src_final = f\<rparr>\<rparr>)"
  using assms
proof (induction ls arbitrary: consumed req)
  case Nil
  then show ?case by (subst readHeaders.simps) (simp add: readLine_chunk)
next
  case (Cons x ls)
  then have "readLine consumed \<lparr>br_buf = [], br_err = None, br_src = \<lparr>src_chunks = x # ls @ l # cs, src_final = f\<rparr>\<rparr>
      = (x, None, consumed @ x, \<lparr>br_buf = [], br_err = None, br_src = \<lparr>src_chunks = ls @ l # cs, src_final = f\<rparr>\<rparr>)"
    by (simp add: readLine_chunk headerLine_def)
  then show ?case using Cons by (subst readHeaders.simps) (simp add: headerLine_def)
qed

text \<open>C40: the line a header of over 32 KiB loses. A request whose lines arrive one by one and whose
  header passes the limit at the line l is handed on without l: the bytes before it and after it
  follow each other, so the protocol behind the mask reads a stream nobody sent.\<close>

theorem oversized_header_loses_line:
  assumes "\<not> tv_closed s" and "LooksLikeHTTPRequestStart (take 4 request)" and "wholeLine request" and "4 < length request" and "length request \<le> defaultBufSize"
    and "splitThree (trimRightBreaks (bytesString request)) \<noteq> None"
    and "\<forall>x\<in>set ls. headerLine x" and "wholeLine l" and "length l \<le> defaultBufSize"
    and "length request + length (concat ls) \<le> maxHeaderBytes" and "length request + length (concat ls) + length l > maxHeaderBytes"
  shows "\<exists>c. HandleConn s \<lparr>src_chunks = request # ls @ l # cs, src_final = f\<rparr> = ConnPass c False
    \<and> concat (src_chunks c) = request @ concat ls @ concat cs"
proof -
  let ?start = "take 4 request"
  let ?rest = "\<lparr>src_chunks = drop 4 request # ls @ l # cs, src_final = f\<rparr>"
  have four: "length ?start = 4" using assms(4) by simp
  have "ReadSlice \<lparr>br_buf = [], br_err = None, br_src = preBuffered ?start ?rest\<rparr>
      = (request, None, \<lparr>br_buf = [], br_err = None, br_src = \<lparr>src_chunks = ls @ l # cs, src_final = f\<rparr>\<rparr>)"
    using slice_chunk [of ?start "drop 4 request" "ls @ l # cs" f] start_plain [OF assms(2)] assms(3-5) by (simp add: slice_start [OF four])
  moreover have "length request \<le> maxHeaderBytes" "request \<noteq> []" using assms(4,10) by auto
  ultimately have first: "readLine [] \<lparr>br_buf = [], br_err = None, br_src = preBuffered ?start ?rest\<rparr>
      = (request, None, request, \<lparr>br_buf = [], br_err = None, br_src = \<lparr>src_chunks = ls @ l # cs, src_final = f\<rparr>\<rparr>)"
    by (simp add: readLine_def)
  obtain m t p where "splitThree (trimRightBreaks (bytesString request)) = Some (m, t, p)" using assms(6) by auto
  then have "readHTTPHeader \<lparr>br_buf = [], br_err = None, br_src = preBuffered ?start ?rest\<rparr>
      = (Inl (HeaderLine LineTooLarge), request @ concat ls, \<lparr>br_buf = [], br_err = None, br_src = \<lparr>src_chunks = cs, src_final = f\<rparr>\<rparr>)"
    using first readHeaders_oversized [OF assms(7-11)] by (simp add: readHTTPHeader_def)
  moreover have "buildInvalidHTTPReplayPrefix ?start (request @ concat ls) [] = request @ concat ls"
    using assms(4) by (simp add: buildInvalidHTTPReplayPrefix_def)
  moreover have "takeChunks 4 (request # ls @ l # cs) = (?start, drop 4 request # ls @ l # cs)" using assms(4) by simp
  ultimately show ?thesis using assms(1,2) four by (simp add: HandleConn_def)
qed

lemma longLine: "headerLine (replicate 4095 97 @ [newlineByte])"
proof -
  have "charOfByte 97 = CHR ''a''" "charOfByte newlineByte = CHR 0x0A" by code_simp+
  then have "bytesString (replicate 4095 97 @ [newlineByte]) = replicate 4095 (CHR ''a'') @ [CHR 0x0A]" by (simp add: bytesString_def map_replicate_const)
  moreover have "replicate 4095 (CHR ''a'') = CHR ''a'' # replicate 4094 (CHR ''a'')" by (simp add: replicate_Suc [symmetric] del: replicate_Suc)
  ultimately show ?thesis
    by (simp add: headerLine_def wholeLine_def defaultBufSize_def trimRightBreaks_def isLineBreak_def newlineByte_def)
qed

theorem oversized_header_loses_line_witness:
  "\<exists>c. HandleConn (NewTunnelServer ''auto'' [] False 0)
       \<lparr>src_chunks = stringBytes (''GET / HTTP/1.1'' @ [CHR 0x0A]) # replicate 7 (replicate 4095 97 @ [10]) @ (replicate 4095 97 @ [10]) # [[1, 2]], src_final = EOF\<rparr>
     = ConnPass c False \<and> length (concat (src_chunks c)) = 15 + 7 * 4096 + 2"
proof -
  let ?request = "stringBytes (''GET / HTTP/1.1'' @ [CHR 0x0A])"
  let ?l = "replicate 4095 97 @ [newlineByte]"
  have request: "LooksLikeHTTPRequestStart (take 4 ?request)" "wholeLine ?request" "splitThree (trimRightBreaks (bytesString ?request)) \<noteq> None"
    unfolding wholeLine_def by code_simp+
  have "length (concat (replicate 7 ?l)) = 7 * 4096" by (simp add: length_concat sum_list_replicate)
  then show ?thesis using oversized_header_loses_line [of "NewTunnelServer ''auto'' [] False 0" ?request "replicate 7 ?l" ?l "[[1, 2]]" EOF]
      request longLine by (auto simp: NewTunnelServer_def defaultBufSize_def maxHeaderBytes_def headerLine_def newlineByte_def)
qed

end
