(* ===== verification/Spec2Isabelle.thy ===== *)
theory Spec2Isabelle
  imports Prelude Sudoku_Rand Sudoku_Layout Sudoku_Grid Sudoku_Table Conn_Util Sudoku_Classic
    Sudoku_Packed Downlink Mux_Stream Mux_Session Mux_Delivery Byte_Stream Go_Net Address Kip Replay Record_Conn Handshake
    Limiter Node_Users Runtime_Services Node_Tasks Route_Match Sudoku_Route Juicity_Route Mieru_Route Server_Guard Replay_Conn
    Key_Material Table_Provider Http_Path Proto_Config Sudoku_Users Sudoku_Runtime Base64 Tunnel_Session Tunnel_Client Http_Header
begin

text \<open>
  A verification library for daonode, a proxy node that serves the users of a panel through
  one of several protocol kernels. This theory imports all others.

  \<^bold>\<open>The program.\<close> A controller (src/node) fetches the user list from the panel
  (src/api/v2board), gives it to a kernel (src/core/sudoku, juicity, mieru, naive) and
  reports traffic and online devices back. All kernels share users, sessions, device slots
  and traffic counters (src/core/shared/runtime.go) and the limiter (src/limiter). The Sudoku
  kernel has its own transport (src/core/sudoku/transport): a byte stream is hidden as
  Sudoku hints, carries encrypted records, starts with a handshake that authenticates the
  user, and then carries one TCP connection, datagrams, or many streams of a multiplex
  session.

  \<^bold>\<open>The transport.\<close>
  \<^item> Prelude: Go's integers, byte order, strings, results; the named collection of evaluation
    rules. Go_Net: the parts of net, net/netip, strconv and hex the code uses. Conn_Util:
    connections as scripted readers and writers, connutil/*.go, read_buffer.go. Byte_Stream:
    the locale of a readable byte stream; the classic connection, the record connection,
    multiplex sessions and streams and the replaying connection are its instances.
  \<^item> Sudoku_Rand, Sudoku_Layout, Sudoku_Grid, Sudoku_Table (obfs/sudoku/rand.go,
    padding_prob.go, layout.go, ascii_mode.go, grid.go, table.go, table_set.go, tables.go):
    the generator, the byte layouts, the enumeration of the grids, the key-dependent tables.
    Shown: the search is complete, the clue sets identify their grid, every table decodes
    what it encodes.
  \<^item> Sudoku_Classic (conn.go, classic_encode.go, classic_decode.go, encode.go,
    write_buffer.go), Sudoku_Packed (packed.go, packed_blocks.go, packed_decode.go) and
    Downlink (downlink.go): the two codecs. Shown: the classic round trip for every padding,
    chunking and read size; the packed writer's groups; where the packed decoder fails.
  \<^item> Record_Conn (crypto/record_conn.go, record_copy.go): encrypted records with epochs and
    sequence numbers. Shown: the round trip across key updates, distinct nonces, refusal of
    replayed and reordered records.
  \<^item> Address (address.go, uot.go, write_chunks.go), Kip (kip.go, the first session message of
    handshake.go), Replay (replay.go), Handshake (handshake.go, handshake_kip.go,
    session_keys.go): target addresses, datagrams, control messages, the replay cache, the
    handshake. Shown: round trips, agreement of both ends on matching keys, refusal of
    replays within the window.
  \<^item> Mux_Stream, Mux_Session, Mux_Delivery (multiplex/session.go): streams with bounded
    receive buffers, sessions with a table over a store of stream objects, the read loop and
    the goroutines as interleaving steps. Shown: refinement of a bounded queue, the session
    invariant, independent in-order delivery, termination of the read loop, no reader left
    waiting.
  \<^item> Key_Material (crypto/ed25519.go, init.go), Table_Provider and Proto_Config (config.go):
    keys and the seeds derived from them over a locale of the curve's laws; the lazy table
    builder with its concurrent callers as a step relation; the endpoint's configuration and
    its validation. Shown: both ends derive the same seed from a key pair; every caller of
    the builder returns its result, whatever interleaves.
  \<^item> Http_Header, Http_Path, Base64, Tunnel_Session, Tunnel_Client (obfs/httpmask: tunnel_server.go,
    tunnel_conn_poll.go, tunnel_conn_stream.go, pathroot.go, parts of masker.go, tunnel_api.go,
    tunnel_ws_server.go): the HTTP mask, which carries the transport in numbered uploads and
    long pulls. The head of a connection is read and put back, the session table and its
    sessions are a store, the requests, reapers and the shutdown its interleaving steps; the
    two push loops of the client are instances of one locale. Shown: a connection that is
    handed on delivers the same bytes; uploads arrive once and in order in every
    interleaving, from the client's write to the server's pipe; pulls lose nothing as long
    as no response breaks; no pipe survives its token.

  \<^bold>\<open>The node.\<close>
  \<^item> Limiter (limiter/limiter.go, common/format/user.go): limits, online devices, reports.
    Shown: the device limit holds in every history; the table refines the multiset of open
    connections.
  \<^item> Runtime_Services (core/shared/runtime.go): users, sessions over a store, counters,
    reports, commits. Shown: over every history with interleaved sessions, user changes and
    reports, nobody is billed more than was recorded and the final flush bills exactly that.
  \<^item> Node_Users, Node_Tasks (node/user.go, node/task.go, core/core.go, GetUserList of
    api/v2board/user.go): the difference of user lists, the periodic tasks. Shown: after a
    successful synchronisation controller, services and limiter agree with the panel; a
    report task moves the billing baseline by what the panel accepted.
  \<^item> Route_Match, Sudoku_Route, Juicity_Route (core/sudoku/route.go, core/juicity/route.go):
    the locale of a compiled route policy and its two instances. Shown: a policy refuses
    what one of its routes refuses, whatever their order. Mieru_Route (core/mieru/route.go):
    ordered rules and the cache of resolved targets. Shown: the first match decides; the
    cache is bounded and never answers with an old address.
  \<^item> Server_Guard, Replay_Conn (core/sudoku/server.go): the slots and the cooldown that bound
    unauthenticated handshakes, as a step relation of interleaving handlers; the connection
    that shows its bytes to every user's key. Shown: exact and bounded counts, no leaked
    slot, the enforced cooldown, independence of the attempts.
  \<^item> Sudoku_Users, Sudoku_Runtime (core/sudoku/server.go, runtime.go): the configurations of
    the users of a listener with their tables and the shared tunnel, and the transactions of
    the kernel's runtime. Shown: every snapshot is well formed, reused or new; a failed
    transaction leaves the users as they were; with this kernel the controller's task makes
    the listener serve exactly the panel's users.

  \<^bold>\<open>Findings.\<close> Several theorems show behaviour the code does not intend: the packed decoder
  takes padding for data, the classic decoder panics after a miss, 65536-byte payloads are
  announced as empty, epochs wrap, the replay window is shorter than the clock tolerance, a
  reused stream identifier strands a reader, a device report can be lost, traffic is billed
  short after a reload, a failed user update is never retried, an empty list is ignored,
  IPv4-mapped targets evade address rules, kernels read the same routes differently, a broken
  pull response is sent again from its start, an oversized HTTP header loses a line.

  \<^bold>\<open>Parameters.\<close> Code outside the repository is an argument of the definitions that use it:
  ciphers, HMAC, HKDF and X25519 (records aead, cryptoLib and dhLib with their documented laws
  as hypotheses), SHA-256, draws of math/rand, random bytes and the clock, regular
  expressions, the protocol field of a JSON object, the curve (the locale key_group), the
  answers of the panel, whether a listener opens and how closing it ends, and the kernel's part
  of a user transaction (an interface in core/contract/runtime.go, implemented by
  Sudoku_Runtime). Witnesses instantiate them with concrete functions.

  \<^bold>\<open>State, errors, loops.\<close> Structs are records, enumerations datatypes, errors values of a sum
  or option type. Machine integers are words, or integers with i64 written out. A Go map is an
  association list or a function, read through map_of; iteration orders are arguments where
  they matter. Objects shared by pointer live in a store and a pointer is an index. A critical
  section or an operation of a lock-protected object is one step; what may interleave
  between them is the order of the steps in a history or a step relation. Loops are
  recursive functions with termination proofs; the reads that may wait forever use partial
  functions over options, and the theorems about them state that they return. The fuel of
  the loop over a buffered reader is 100 empty reads, as in bufio.

  \<^bold>\<open>Not modelled.\<close> The search for a client's table among all users (it is a race of probing
  goroutines), the HTTP mask's dialing, WebSocket frames and the pull loops of its clients
  (third-party HTTP and WebSocket code), the constructors of library ciphers, client dialing
  pools, the Juicity, Mieru and Naive kernels but for their routes (adapters of
  third-party servers), HTTP requests to the panel and the decoding of its JSON, certificates,
  timers, files, logging and the command line.
\<close>

end
